(* ===== verification/Prelude.thy ===== *)
theory Prelude
  imports Complex_Main "HOL-Library.AList" "HOL-Library.Multiset" "HOL-Library.Word"
begin

text \<open>
  The shared base of the development: the names given to Go's basic types, the fact collections the
  component theories fill, and generic lemmas on association lists, options and permutations of
  enumerations that several components use.
\<close>

section \<open>Types the components share\<close>

text \<open>
  A \<^verbatim>\<open>time.Time\<close> is the number of nanoseconds since Go's zero time (January 1, year 1, UTC), so the zero
  value of the type is the integer 0 and \<^verbatim>\<open>Before\<close>, \<^verbatim>\<open>After\<close>, \<^verbatim>\<open>Add\<close> are the order and the addition of
  integers. A \<^verbatim>\<open>time.Duration\<close> is a number of nanoseconds. A Go \<^verbatim>\<open>error\<close> is the string a caller prints.
\<close>

type_synonym time = int
type_synonym duration = int
type_synonym u64 = "64 word"
type_synonym u32 = "32 word"
type_synonym error = string
type_synonym 'a result = "error + 'a"

abbreviation (input) second :: duration where "second \<equiv> 1000000000"
abbreviation (input) minute :: duration where "minute \<equiv> 60 * second"
abbreviation (input) hour :: duration where "hour \<equiv> 60 * minute"

abbreviation (input) IsZero :: "time \<Rightarrow> bool" where "IsZero t \<equiv> t = 0"

text \<open>The facts that unfold one operation each, and the ones that keep an invariant.\<close>

named_theorems op_defs "definitions of the operations of a component"
named_theorems inv_intros "preservation of a component's invariant by one operation"

section \<open>Association lists standing for Go maps that are ranged over\<close>

text \<open>
  A Go map whose iteration order is observable in the result (a floating-point sum over its values,
  a first-error loop) is an association list with distinct keys. The order in which a range
  statement visits it is not specified by the language: an operation that ranges over such a map
  takes an enumeration \<open>perm\<close> as an argument, and the theorems assume no more of it than that it
  yields a permutation of the entries.
\<close>

definition enumeration :: "('a list \<Rightarrow> 'a list) \<Rightarrow> bool" where
  "enumeration perm \<longleftrightarrow> (\<forall>xs. mset (perm xs) = mset xs)"

lemma enumeration_set: "enumeration perm \<Longrightarrow> set (perm xs) = set xs"
  unfolding enumeration_def by (metis set_mset_mset)

lemma enumeration_length: "enumeration perm \<Longrightarrow> length (perm xs) = length xs"
  unfolding enumeration_def by (metis size_mset)

lemma enumeration_distinct_fst:
  assumes "enumeration perm" shows "distinct (map fst (perm xs)) \<longleftrightarrow> distinct (map fst xs)"
  using assms unfolding enumeration_def by (metis mset_eq_imp_distinct_iff mset_map)

lemma enumeration_map_of:
  assumes "enumeration perm" "distinct (map fst xs)" shows "map_of (perm xs) = map_of xs"
  using assms map_of_inject_set[of "perm xs" xs]
  by (simp add: enumeration_set enumeration_distinct_fst)

lemma enumeration_id: "enumeration (\<lambda>xs. xs)"
  by (simp add: enumeration_def)

lemma enumeration_rev: "enumeration rev"
  by (simp add: enumeration_def)

lemma distinct_fst_filter: "distinct (map fst xs) \<Longrightarrow> distinct (map fst (filter P xs))"
  by (simp add: distinct_map_filter)

lemma map_of_filter_distinct:
  assumes "distinct (map fst xs)"
  shows "map_of (filter P xs) k =
    (case map_of xs k of None \<Rightarrow> None | Some v \<Rightarrow> if P (k, v) then Some v else None)"
  using assms
proof (induction xs)
  case (Cons x xs)
  obtain k' v' where x: "x = (k', v')" by (cases x)
  from Cons have d: "distinct (map fst xs)" and n: "k' \<notin> fst ` set xs" by (simp_all add: x)
  show ?case
  proof (cases "k = k'")
    case True
    with n have "map_of xs k = None" and "map_of (filter P xs) k = None"
      by (auto simp: map_of_eq_None_iff)
    with True x show ?thesis by simp
  qed (use Cons.IH d x in simp)
qed simp

lemma map_of_mem: "distinct (map fst xs) \<Longrightarrow> (k, v) \<in> set xs \<longleftrightarrow> map_of xs k = Some v"
  by (auto dest: map_of_SomeD)

lemma AList_update_mem:
  "distinct (map fst xs) \<Longrightarrow>
   (k', v') \<in> set (AList.update k v xs) \<longleftrightarrow> (if k' = k then v' = v else (k', v') \<in> set xs)"
  using map_of_mem[OF distinct_update, of xs k' v' k v] map_of_mem[of xs k' v']
  by (auto simp: AList.update_conv')

lemma length_AList_update_le: "length (AList.update k v xs) \<le> Suc (length xs)"
  by (induction xs) auto

lemma length_AList_update: "length (AList.update k v xs) = (if k \<in> fst ` set xs then length xs else Suc (length xs))"
  by (induction xs) auto

lemma length_delete_keyed:
  assumes "distinct (map fst m)" "k \<in> fst ` set m" shows "length (AList.delete k m) < length m"
  using assms by (auto simp: AList.delete_eq intro!: length_filter_less)

lemma AList_update_neq_Nil: "AList.update k v xs \<noteq> []"
  by (cases xs) (auto split: prod.splits)

lemma AList_update_keys: "fst ` set (AList.update k v xs) = insert k (fst ` set xs)"
  by (induction xs) (auto split: prod.splits)

lemma AList_update_subset: "set (AList.update k v xs) \<subseteq> insert (k, v) (set xs)"
  by (induction xs) (auto split: prod.splits)

section \<open>Results\<close>

text \<open>Running one fallible step after another, as \<^verbatim>\<open>if err != nil { return err }\<close> does.\<close>

definition bind_result :: "'a result \<Rightarrow> ('a \<Rightarrow> 'b result) \<Rightarrow> 'b result" where
  "bind_result r f = (case r of Inl e \<Rightarrow> Inl e | Inr x \<Rightarrow> f x)"

lemma bind_result_simps [simp]:
  "bind_result (Inl e) f = Inl e" "bind_result (Inr x) f = f x"
  by (simp_all add: bind_result_def)

lemma bind_result_Inr: "bind_result r f = Inr y \<longleftrightarrow> (\<exists>x. r = Inr x \<and> f x = Inr y)"
  by (cases r) auto

definition is_ok :: "'a result \<Rightarrow> bool" where
  "is_ok r = (case r of Inl _ \<Rightarrow> False | Inr _ \<Rightarrow> True)"

lemma is_ok_simps [simp]: "is_ok (Inr x)" "\<not> is_ok (Inl e)"
  by (simp_all add: is_ok_def)

lemma is_ok_iff: "is_ok r \<longleftrightarrow> (\<exists>x. r = Inr x)"
  by (cases r) auto

section \<open>Signed 64-bit integers\<close>

text \<open>The value of a Go \<^verbatim>\<open>int64\<close> expression whose mathematical value is \<open>x\<close>.\<close>

definition wrap64 :: "int \<Rightarrow> int" where
  "wrap64 x = (x + 2 ^ 63) mod 2 ^ 64 - 2 ^ 63"

lemma wrap64_id: "- (2 ^ 63) \<le> x \<Longrightarrow> x < 2 ^ 63 \<Longrightarrow> wrap64 x = x"
  by (simp add: wrap64_def)

lemma wrap64_range: "- (2 ^ 63) \<le> wrap64 x \<and> wrap64 x < 2 ^ 63"
  using pos_mod_bound[of "2 ^ 64" "x + 2 ^ 63"] pos_mod_sign[of "2 ^ 64" "x + 2 ^ 63"]
  by (simp add: wrap64_def)

section \<open>FNV-1a\<close>

text \<open>One byte of the 64-bit FNV-1a hash of \<^verbatim>\<open>hash/fnv\<close>, and the hash of a string of bytes.\<close>

definition fnv_step :: "u64 \<Rightarrow> char \<Rightarrow> u64" where
  "fnv_step h c = xor h (of_char c) * 1099511628211"

definition fnv64a :: "string \<Rightarrow> u64" where
  "fnv64a bs = foldl fnv_step 14695981039346656037 bs"

text \<open>The eight bytes of a word, most significant first.\<close>

definition be64 :: "u64 \<Rightarrow> string" where
  "be64 w = map (\<lambda>i. char_of (unat (drop_bit (8 * (7 - i)) w) mod 256)) [0..<8]"

section \<open>Sums over the threads of a system\<close>

lemma sum_upd:
  fixes f :: "'b \<Rightarrow> int"
  assumes "finite A" "i \<in> A"
  shows "(\<Sum>j\<in>A. f ((g(i := x)) j)) = (\<Sum>j\<in>A. f (g j)) - f (g i) + f x"
proof -
  have "(\<Sum>j\<in>A - {i}. f ((g(i := x)) j)) = (\<Sum>j\<in>A - {i}. f (g j))" by (rule sum.cong) auto
  then show ?thesis using assms by (simp add: sum.remove)
qed

end
