(* ===== verification/Float64.thy ===== *)
theory Float64
  imports Prelude
begin

text \<open>
  Go's \<^verbatim>\<open>float64\<close>: IEEE 754 binary64 arithmetic with rounding to nearest, ties to even. A finite
  value is the rational it denotes; the results of the operations are rounded to 53 significant
  bits (fewer in the subnormal range), overflow to an infinity, and invalid operations give NaN.
  The sign of a zero is not kept: no modelled operation divides by a zero or reads a sign bit.
  Every definition computes, and the lemmas are the ones the scoring code relies on: rounding is
  monotone, exact on representable values, and the comparisons are false on NaN.
\<close>

section \<open>Powers of two and binary exponents\<close>

definition pow2 :: "int \<Rightarrow> rat" where
  "pow2 e = (if 0 \<le> e then 2 ^ nat e else 1 / 2 ^ nat (- e))"

lemma pow2_powi: "pow2 e = 2 powi e"
  by (simp add: pow2_def power_int_def field_simps)

lemma pow2_pos [simp]: "0 < pow2 e"
  by (simp add: pow2_powi)

lemma pow2_nz [simp]: "pow2 e \<noteq> 0"
  using pow2_pos[of e] by linarith

lemma pow2_nonneg [simp]: "0 \<le> pow2 e"
  using pow2_pos[of e] by linarith

lemma pow2_0 [simp]: "pow2 0 = 1"
  by (simp add: pow2_def)

lemma pow2_add: "pow2 (a + b) = pow2 a * pow2 b"
  by (simp add: pow2_powi power_int_add)

lemma pow2_diff: "pow2 (a - b) = pow2 a / pow2 b"
  by (simp add: pow2_powi power_int_diff)

lemma pow2_plus1: "pow2 (e + 1) = 2 * pow2 e"
  by (simp add: pow2_add) (simp add: pow2_def)

lemma pow2_minus1: "pow2 (e - 1) = pow2 e / 2"
  by (simp add: pow2_diff) (simp add: pow2_def)

lemma pow2_nat: "0 \<le> e \<Longrightarrow> pow2 e = of_int (2 ^ nat e)"
  by (simp add: pow2_def)

lemma pow2_mono: "a \<le> b \<Longrightarrow> pow2 a \<le> pow2 b"
  by (simp add: pow2_powi power_int_increasing)

lemma pow2_strict_mono: "a < b \<Longrightarrow> pow2 a < pow2 b"
  by (simp add: pow2_powi power_int_strict_increasing)

lemma pow2_less_cancel: "pow2 a < pow2 b \<longleftrightarrow> a < b"
  by (meson linorder_not_less pow2_mono pow2_strict_mono)

text \<open>The exponent of a positive rational: the integer \<open>e\<close> with \<open>2\<^sup>e \<le> x < 2\<^sup>e\<^sup>+\<^sup>1\<close>.\<close>

definition ilog2_measure :: "rat \<Rightarrow> nat" where
  "ilog2_measure x = (if x \<le> 0 then 0 else if 2 \<le> x then nat \<lceil>x\<rceil> else if x < 1 then nat \<lceil>1 / x\<rceil> else 0)"

lemma ilog2_measure_half: "2 \<le> x \<Longrightarrow> ilog2_measure (x / 2) < ilog2_measure x"
proof -
  assume x: "2 \<le> x"
  have "\<lceil>x / 2\<rceil> \<le> \<lceil>x - 1\<rceil>" by (rule ceiling_mono) (use x in simp)
  moreover have "0 < \<lceil>x\<rceil>" using x by simp
  ultimately show ?thesis using x by (auto simp: ilog2_measure_def)
qed

lemma ilog2_measure_double:
  assumes "0 < x" "x < 1" shows "ilog2_measure (2 * x) < ilog2_measure x"
proof -
  have one: "1 < 1 / x" using assms by simp
  then have pos: "0 < \<lceil>1 / x\<rceil>" by linarith
  show ?thesis
  proof (cases "2 * x < 1")
    case True
    then have "2 < 1 / x" using assms by (simp add: field_simps)
    then have "\<lceil>1 / x / 2\<rceil> \<le> \<lceil>1 / x - 1\<rceil>" by (intro ceiling_mono) simp
    then have "\<lceil>1 / (2 * x)\<rceil> < \<lceil>1 / x\<rceil>" by (simp add: field_simps)
    with True assms pos show ?thesis by (auto simp: ilog2_measure_def)
  next
    case False
    with assms pos show ?thesis by (auto simp: ilog2_measure_def)
  qed
qed

function ilog2 :: "rat \<Rightarrow> int" where
  "ilog2 x = (if x \<le> 0 then 0 else if 2 \<le> x then ilog2 (x / 2) + 1
              else if x < 1 then ilog2 (2 * x) - 1 else 0)"
  by pat_completeness auto
termination
  by (relation "measure ilog2_measure") (auto simp: ilog2_measure_half ilog2_measure_double)

declare ilog2.simps [simp del]

lemma ilog2_bounds: "0 < x \<Longrightarrow> pow2 (ilog2 x) \<le> x \<and> x < pow2 (ilog2 x + 1)"
proof (induction x rule: ilog2.induct)
  case (1 x)
  consider "2 \<le> x" | "x < 1" | "1 \<le> x" "x < 2" by linarith
  then show ?case
  proof cases
    assume a: "2 \<le> x"
    with 1 have "pow2 (ilog2 (x / 2)) \<le> x / 2 \<and> x / 2 < pow2 (ilog2 (x / 2) + 1)" by simp
    moreover have "ilog2 x = ilog2 (x / 2) + 1" using a by (simp add: ilog2.simps[of x])
    ultimately show ?thesis by (simp only: pow2_plus1) linarith
  next
    assume a: "x < 1"
    with 1 have "pow2 (ilog2 (2 * x)) \<le> 2 * x \<and> 2 * x < pow2 (ilog2 (2 * x) + 1)" by simp
    with a 1(3) show ?thesis by (simp add: ilog2.simps[of x] pow2_plus1 pow2_minus1)
  next
    assume "1 \<le> x" "x < 2"
    then show ?thesis by (simp add: ilog2.simps[of x] pow2_def)
  qed
qed

lemma ilog2_le: "0 < x \<Longrightarrow> pow2 (ilog2 x) \<le> x"
  using ilog2_bounds by blast

lemma ilog2_gt: "0 < x \<Longrightarrow> x < pow2 (ilog2 x + 1)"
  using ilog2_bounds by blast

lemma ilog2_mono: "0 < x \<Longrightarrow> x \<le> y \<Longrightarrow> ilog2 x \<le> ilog2 y"
proof -
  assume "0 < x" "x \<le> y"
  then have "pow2 (ilog2 x) < pow2 (ilog2 y + 1)"
    using ilog2_le[of x] ilog2_gt[of y] by linarith
  then show ?thesis by (simp add: pow2_less_cancel)
qed

section \<open>Rounding to an integer, to nearest with ties to even\<close>

definition rne :: "rat \<Rightarrow> int" where
  "rne x = (let n = \<lfloor>x\<rfloor>; r = x - of_int n in
     if r < 1 / 2 then n else if 1 / 2 < r then n + 1 else if even n then n else n + 1)"

text \<open>Floors of fractions of numerals, for evaluation by the simplifier.\<close>

lemma floor_rat_div [simp]:
  "\<lfloor>numeral a / numeral b :: rat\<rfloor> = numeral a div numeral b"
  "\<lfloor>- (numeral a / numeral b) :: rat\<rfloor> = - numeral a div numeral b"
  "\<lfloor>1 / numeral b :: rat\<rfloor> = 1 div numeral b"
  "\<lfloor>- (1 / numeral b) :: rat\<rfloor> = - 1 div numeral b"
  using floor_divide_of_int_eq[where 'a = rat, of "numeral a" "numeral b"]
    floor_divide_of_int_eq[where 'a = rat, of "- numeral a" "numeral b"]
    floor_divide_of_int_eq[where 'a = rat, of 1 "numeral b"]
    floor_divide_of_int_eq[where 'a = rat, of "- 1" "numeral b"]
  by simp_all

lemma rne_of_int [simp]: "rne (of_int n) = n"
  by (simp add: rne_def)

lemma rne_bounds: "of_int (rne x) \<le> x + 1 / 2 \<and> x - 1 / 2 \<le> of_int (rne x)"
proof -
  have "of_int \<lfloor>x\<rfloor> \<le> x" "x < of_int \<lfloor>x\<rfloor> + 1" by linarith+
  moreover have "rne x = \<lfloor>x\<rfloor> \<and> x - of_int \<lfloor>x\<rfloor> \<le> 1 / 2 \<or> rne x = \<lfloor>x\<rfloor> + 1 \<and> 1 / 2 \<le> x - of_int \<lfloor>x\<rfloor>"
    by (simp add: rne_def Let_def not_less)
  ultimately show ?thesis by (elim disjE conjE) (simp_all only: of_int_add of_int_1, linarith+)
qed

lemma rne_floor: "\<lfloor>x\<rfloor> \<le> rne x \<and> rne x \<le> \<lfloor>x\<rfloor> + 1"
  by (simp add: rne_def Let_def)

lemma rne_mono: assumes "x \<le> y" shows "rne x \<le> rne y"
proof (cases "\<lfloor>x\<rfloor> = \<lfloor>y\<rfloor>")
  case True
  with assms show ?thesis by (auto simp: rne_def Let_def)
next
  case False
  with assms have "\<lfloor>x\<rfloor> + 1 \<le> \<lfloor>y\<rfloor>" using floor_mono[OF assms] by linarith
  with rne_floor[of x] rne_floor[of y] show ?thesis by linarith
qed

lemma rne_le_int: "x \<le> of_int n \<Longrightarrow> rne x \<le> n"
  using rne_mono[of x "of_int n"] by simp

lemma rne_ge_int: "of_int n \<le> x \<Longrightarrow> n \<le> rne x"
  using rne_mono[of "of_int n" x] by simp

lemma rne_minus: "rne (- x) = - rne x"
proof (cases "x = of_int \<lfloor>x\<rfloor>")
  case True
  then obtain n where "x = of_int n" by blast
  then show ?thesis using rne_of_int[of "- n"] by simp
next
  case False
  define n where "n = \<lfloor>x\<rfloor>"
  have lo: "of_int n < x" and hi: "x < of_int n + 1"
    using False n_def by linarith+
  have f: "\<lfloor>- x\<rfloor> = - n - 1" using lo hi by linarith
  show ?thesis using lo hi f by (auto simp: rne_def Let_def n_def[symmetric])
qed

section \<open>Rounding to binary64\<close>

definition quantum_exp :: "rat \<Rightarrow> int" where
  "quantum_exp x = max (ilog2 \<bar>x\<bar> - 52) (- 1074)"

definition round64 :: "rat \<Rightarrow> rat" where
  "round64 x = (if x = 0 then 0
     else let q = pow2 (quantum_exp x) in of_int (rne (x / q)) * q)"

lemma round64_0 [simp]: "round64 0 = 0"
  by (simp add: round64_def)

lemma round64_minus: "round64 (- x) = - round64 x"
  by (simp add: round64_def quantum_exp_def Let_def rne_minus)

lemma round64_below:
  assumes "0 < x" shows "round64 x \<le> pow2 (quantum_exp x + 53)"
proof -
  let ?k = "quantum_exp x"
  have "x \<le> pow2 (ilog2 x + 1)" using ilog2_gt[OF assms] by simp
  also have "\<dots> \<le> pow2 (?k + 53)" by (rule pow2_mono) (use assms in \<open>simp add: quantum_exp_def\<close>)
  finally have "x / pow2 ?k \<le> of_int (2 ^ 53)" by (simp add: pow2_add field_simps pow2_def[of 53])
  then have "rne (x / pow2 ?k) \<le> 2 ^ 53" by (rule rne_le_int)
  then have "of_int (rne (x / pow2 ?k)) \<le> (2 ^ 53 :: rat)"
    by (metis of_int_le_iff of_int_numeral of_int_power)
  then have "of_int (rne (x / pow2 ?k)) * pow2 ?k \<le> 2 ^ 53 * pow2 ?k"
    by (rule mult_right_mono) simp
  moreover have "(2 ^ 53 :: rat) = pow2 53" by (simp add: pow2_def)
  ultimately show ?thesis using assms by (simp add: round64_def Let_def pow2_add mult.commute)
qed

lemma round64_above:
  assumes "0 < x" "- 1074 < quantum_exp x" shows "pow2 (quantum_exp x + 52) \<le> round64 x"
proof -
  let ?k = "quantum_exp x"
  from assms have k: "ilog2 x = ?k + 52" by (simp add: quantum_exp_def)
  have "pow2 (?k + 52) \<le> x" using ilog2_le[OF assms(1)] k by simp
  then have "of_int (2 ^ 52) \<le> x / pow2 ?k" by (simp add: pow2_add field_simps pow2_def[of 52])
  then have "2 ^ 52 \<le> rne (x / pow2 ?k)" by (rule rne_ge_int)
  then have "(2 ^ 52 :: rat) \<le> of_int (rne (x / pow2 ?k))"
    by (metis of_int_le_iff of_int_numeral of_int_power)
  then have "2 ^ 52 * pow2 ?k \<le> of_int (rne (x / pow2 ?k)) * pow2 ?k"
    by (rule mult_right_mono) simp
  moreover have "(2 ^ 52 :: rat) = pow2 52" by (simp add: pow2_def)
  ultimately show ?thesis using assms by (simp add: round64_def Let_def pow2_add mult.commute)
qed

lemma round64_nonneg: "0 \<le> x \<Longrightarrow> 0 \<le> round64 x"
proof -
  assume "0 \<le> x"
  then have "0 \<le> rne (x / pow2 (quantum_exp x))" by (intro rne_ge_int) simp
  then show ?thesis by (simp add: round64_def Let_def)
qed

lemma round64_mono_pos:
  assumes "0 < x" "x \<le> y" shows "round64 x \<le> round64 y"
proof -
  have le: "quantum_exp x \<le> quantum_exp y"
    using assms ilog2_mono[of x y] by (simp add: quantum_exp_def)
  show ?thesis
  proof (cases "quantum_exp x = quantum_exp y")
    case True
    have "rne (x / pow2 (quantum_exp y)) \<le> rne (y / pow2 (quantum_exp y))"
      by (rule rne_mono) (use assms in \<open>simp add: divide_right_mono\<close>)
    with True assms show ?thesis by (simp add: round64_def Let_def)
  next
    case False
    with le have lt: "quantum_exp x + 1 \<le> quantum_exp y" by simp
    then have "- 1074 < quantum_exp y" by (simp add: quantum_exp_def)
    with assms have "pow2 (quantum_exp y + 52) \<le> round64 y" by (intro round64_above) auto
    moreover have "pow2 (quantum_exp x + 53) \<le> pow2 (quantum_exp y + 52)"
      by (rule pow2_mono) (use lt in simp)
    ultimately show ?thesis using round64_below[OF assms(1)] by linarith
  qed
qed

lemma round64_mono: assumes "x \<le> y" shows "round64 x \<le> round64 y"
proof -
  consider "0 < x" | "x \<le> 0" "0 \<le> y" | "y < 0" using assms by linarith
  then show ?thesis
  proof cases
    case 1
    with assms show ?thesis by (rule round64_mono_pos[rotated])
  next
    case 2
    with round64_nonneg[of y] round64_nonneg[of "- x"] show ?thesis by (simp add: round64_minus)
  next
    case 3
    with assms round64_mono_pos[of "- y" "- x"] show ?thesis by (simp add: round64_minus)
  qed
qed

text \<open>The values binary64 holds exactly.\<close>

definition representable :: "rat \<Rightarrow> bool" where
  "representable x \<longleftrightarrow> (\<exists>m e. x = of_int m * pow2 e \<and> \<bar>m\<bar> \<le> 2 ^ 53 \<and> - 1074 \<le> e)"


lemma representable_0 [simp]: "representable 0"
  unfolding representable_def by (rule exI[of _ 0], rule exI[of _ 0]) simp

lemma representable_minus: "representable x \<Longrightarrow> representable (- x)"
  unfolding representable_def by (metis abs_minus_cancel mult_minus_left of_int_minus)

lemma representable_of_int: "\<bar>n\<bar> \<le> 2 ^ 53 \<Longrightarrow> representable (of_int n)"
  unfolding representable_def by (rule exI[of _ n], rule exI[of _ 0]) simp

lemma representable_round64: "representable (round64 x)"
proof -
  have pos: "representable (round64 y)" if "0 < y" for y
  proof -
    let ?k = "quantum_exp y" and ?m = "rne (y / pow2 (quantum_exp y))"
    have eq: "round64 y = of_int ?m * pow2 ?k" using that by (simp add: round64_def Let_def)
    have "of_int ?m * pow2 ?k \<le> pow2 53 * pow2 ?k"
      using round64_below[OF that] eq by (simp add: pow2_add mult.commute)
    then have "rat_of_int ?m \<le> rat_of_int (2 ^ 53)" by (simp add: pow2_def[of 53])
    then have "?m \<le> 2 ^ 53" by (simp only: of_int_le_iff)
    moreover have "0 \<le> ?m" using that by (intro rne_ge_int) simp
    ultimately show ?thesis unfolding representable_def eq
      by (intro exI[of _ ?m] exI[of _ ?k]) (simp add: quantum_exp_def)
  qed
  consider "0 < x" | "x = 0" | "0 < - x" by linarith
  then show ?thesis
    by cases (use pos[of x] pos[of "- x"] representable_minus[of "round64 (- x)"] in
        \<open>simp_all add: round64_minus\<close>)
qed

lemma pow2_multiple: "k \<le> e \<Longrightarrow> of_int m * pow2 e / pow2 k = of_int (m * 2 ^ nat (e - k))"
  using pow2_diff[of e k] by (simp add: pow2_def[of "e - k"])

lemma round64_exact_pos:
  assumes "representable x" "0 < x" shows "round64 x = x"
proof -
  obtain m e where x: "x = of_int m * pow2 e" and m: "\<bar>m\<bar> \<le> 2 ^ 53" and e: "- 1074 \<le> e"
    using assms(1) unfolding representable_def by blast
  let ?k = "quantum_exp x"
  have "\<exists>n. x / pow2 ?k = of_int n"
  proof (cases "?k \<le> e")
    case True
    then show ?thesis unfolding x by (blast intro: pow2_multiple)
  next
    case False
    have k: "?k = ilog2 x - 52" using False e assms(2) by (simp add: quantum_exp_def split: if_splits)
    have xle: "x \<le> pow2 (53 + e)"
    proof -
      have "rat_of_int m \<le> rat_of_int (2 ^ 53)" using m by (simp only: of_int_le_iff)
      then show ?thesis unfolding x pow2_add by (simp add: pow2_def[of 53])
    qed
    have ile: "pow2 (ilog2 x) \<le> x" using assms(2) by (rule ilog2_le)
    have "ilog2 x \<le> 53 + e"
      using ile xle pow2_less_cancel[of "53 + e" "ilog2 x"] by linarith
    with False k have k1: "?k = e + 1" and i: "ilog2 x = 53 + e" by simp_all
    have "x = pow2 (53 + e)" using ile xle i by simp
    then have "x / pow2 ?k = of_int (2 ^ 52)" using k1 pow2_diff[of "53 + e" "e + 1"]
      by (simp add: pow2_def[of 52])
    then show ?thesis by blast
  qed
  then obtain n where n: "x / pow2 ?k = of_int n" by blast
  then have "x = of_int n * pow2 ?k" by (simp add: field_simps)
  with assms(2) n show ?thesis by (simp add: round64_def Let_def)
qed

lemma round64_exact: "representable x \<Longrightarrow> round64 x = x"
proof -
  assume r: "representable x"
  consider "0 < x" | "x = 0" | "0 < - x" by linarith
  then show ?thesis
  proof cases
    case 3
    with r have "round64 (- x) = - x" by (intro round64_exact_pos representable_minus)
    then show ?thesis by (simp add: round64_minus)
  qed (use r round64_exact_pos in auto)
qed

section \<open>The type and its operations\<close>

datatype f64 = Fin rat | PInf | NInf | NaN

definition max_exp :: rat where "max_exp = 2 ^ 1024"

definition wf64 :: "rat \<Rightarrow> bool" where
  "wf64 x \<longleftrightarrow> representable x \<and> \<bar>x\<bar> < max_exp"

text \<open>A value the type can hold: every operation below yields one.\<close>

fun f64_ok :: "f64 \<Rightarrow> bool" where
  "f64_ok (Fin q) = wf64 q"
| "f64_ok _ = True"

definition rnd :: "rat \<Rightarrow> f64" where
  "rnd x = (let r = round64 x in
     if max_exp \<le> r then PInf else if r \<le> - max_exp then NInf else Fin r)"

text \<open>A constant of the source, converted to the nearest value; and \<^verbatim>\<open>float64(n)\<close>.\<close>

definition lit :: "rat \<Rightarrow> f64" where "lit q = rnd q"

definition f64_of_int :: "int \<Rightarrow> f64" where "f64_of_int n = rnd (of_int n)"

instantiation f64 :: "{ord, zero, one, plus, minus, times}"
begin

definition zero_f64 :: f64 where "zero_f64 = Fin 0"

definition one_f64 :: f64 where "one_f64 = Fin 1"

fun less_eq_f64 :: "f64 \<Rightarrow> f64 \<Rightarrow> bool" where
  "less_eq_f64 (Fin a) (Fin b) = (a \<le> b)"
| "less_eq_f64 NaN y = False"
| "less_eq_f64 x NaN = False"
| "less_eq_f64 NInf y = True"
| "less_eq_f64 x PInf = True"
| "less_eq_f64 x y = False"

fun less_f64 :: "f64 \<Rightarrow> f64 \<Rightarrow> bool" where
  "less_f64 (Fin a) (Fin b) = (a < b)"
| "less_f64 NaN y = False"
| "less_f64 x NaN = False"
| "less_f64 NInf y = (y \<noteq> NInf)"
| "less_f64 x PInf = (x \<noteq> PInf)"
| "less_f64 x y = False"

fun plus_f64 :: "f64 \<Rightarrow> f64 \<Rightarrow> f64" where
  "plus_f64 (Fin a) (Fin b) = rnd (a + b)"
| "plus_f64 NaN y = NaN"
| "plus_f64 x NaN = NaN"
| "plus_f64 PInf NInf = NaN"
| "plus_f64 NInf PInf = NaN"
| "plus_f64 PInf y = PInf"
| "plus_f64 x PInf = PInf"
| "plus_f64 NInf y = NInf"
| "plus_f64 x NInf = NInf"

fun minus_f64 :: "f64 \<Rightarrow> f64 \<Rightarrow> f64" where
  "minus_f64 (Fin a) (Fin b) = rnd (a - b)"
| "minus_f64 NaN y = NaN"
| "minus_f64 x NaN = NaN"
| "minus_f64 PInf PInf = NaN"
| "minus_f64 NInf NInf = NaN"
| "minus_f64 PInf y = PInf"
| "minus_f64 x NInf = PInf"
| "minus_f64 NInf y = NInf"
| "minus_f64 x PInf = NInf"

fun times_f64 :: "f64 \<Rightarrow> f64 \<Rightarrow> f64" where
  "times_f64 (Fin a) (Fin b) = rnd (a * b)"
| "times_f64 NaN y = NaN"
| "times_f64 x NaN = NaN"
| "times_f64 (Fin a) PInf = (if a = 0 then NaN else if 0 < a then PInf else NInf)"
| "times_f64 (Fin a) NInf = (if a = 0 then NaN else if 0 < a then NInf else PInf)"
| "times_f64 PInf (Fin b) = (if b = 0 then NaN else if 0 < b then PInf else NInf)"
| "times_f64 NInf (Fin b) = (if b = 0 then NaN else if 0 < b then NInf else PInf)"
| "times_f64 PInf PInf = PInf"
| "times_f64 NInf NInf = PInf"
| "times_f64 x y = NInf"

instance ..

end

text \<open>Division, with a positive zero as divisor giving the infinity of the dividend's sign.\<close>

fun fdiv :: "f64 \<Rightarrow> f64 \<Rightarrow> f64" where
  "fdiv (Fin a) (Fin b) =
     (if b = 0 then (if a = 0 then NaN else if 0 < a then PInf else NInf) else rnd (a / b))"
| "fdiv NaN y = NaN"
| "fdiv x NaN = NaN"
| "fdiv (Fin a) y = Fin 0"
| "fdiv PInf (Fin b) = (if 0 \<le> b then PInf else NInf)"
| "fdiv NInf (Fin b) = (if 0 \<le> b then NInf else PInf)"
| "fdiv x y = NaN"

text \<open>\<^verbatim>\<open>math.Sqrt\<close>, correctly rounded; the integer square root is taken four bits of argument at a time.\<close>

function isqrt :: "int \<Rightarrow> int" where
  "isqrt n = (if n \<le> 0 then 0
     else let r = 2 * isqrt (n div 4) in if (r + 1) * (r + 1) \<le> n then r + 1 else r)"
  by pat_completeness auto
termination
  by (relation "measure nat") auto

declare isqrt.simps [simp del]

definition sqrt64 :: "rat \<Rightarrow> rat" where
  "sqrt64 q = (if q \<le> 0 then 0
     else let u = pow2 (ilog2 q div 2 - 52); s = q / (u * u); f = isqrt \<lfloor>s\<rfloor>;
              mid = (of_int f + 1 / 2) * (of_int f + 1 / 2)
          in (if s < mid then of_int f else if mid < s then of_int (f + 1)
              else if even f then of_int f else of_int (f + 1)) * u)"

fun fsqrt :: "f64 \<Rightarrow> f64" where
  "fsqrt (Fin q) = (if q < 0 then NaN else Fin (sqrt64 q))"
| "fsqrt PInf = PInf"
| "fsqrt NInf = NaN"
| "fsqrt NaN = NaN"


lemmas f64_eval = rnd_def lit_def f64_of_int_def round64_def quantum_exp_def pow2_def rne_def
  ilog2.simps max_exp_def sqrt64_def isqrt.simps zero_f64_def one_f64_def Let_def

section \<open>Laws\<close>

lemma wf64_round64: "\<bar>round64 x\<bar> < max_exp \<Longrightarrow> wf64 (round64 x)"
  by (simp add: wf64_def representable_round64)

lemma f64_ok_rnd [simp]: "f64_ok (rnd x)"
  by (auto simp: rnd_def Let_def intro: wf64_round64)

lemma f64_ok_lit [simp]: "f64_ok (lit x)"
  by (simp add: lit_def)

lemma rnd_exact: "wf64 x \<Longrightarrow> rnd x = Fin x"
  by (auto simp: wf64_def rnd_def round64_exact)

lemma wf64_of_int: "\<bar>n\<bar> \<le> 2 ^ 53 \<Longrightarrow> wf64 (of_int n)"
proof -
  assume n: "\<bar>n\<bar> \<le> 2 ^ 53"
  then have "\<bar>rat_of_int n\<bar> \<le> rat_of_int (2 ^ 53)" by (metis of_int_abs of_int_le_iff)
  then have "\<bar>rat_of_int n\<bar> < max_exp" by (simp add: max_exp_def)
  with n show ?thesis by (simp add: wf64_def representable_of_int)
qed

lemma wf64_small [simp]: "wf64 0" "wf64 1" "wf64 2"
  using wf64_of_int[of 0] wf64_of_int[of 1] wf64_of_int[of 2] by simp_all

lemma f64_of_int_exact: "\<bar>n\<bar> \<le> 2 ^ 53 \<Longrightarrow> f64_of_int n = Fin (of_int n)"
  by (simp add: f64_of_int_def rnd_exact wf64_of_int)

text \<open>The workhorse: rounding keeps a value between two values of the type.\<close>

lemma rnd_between:
  assumes "wf64 lo" "wf64 hi" "lo \<le> x" "x \<le> hi"
  obtains r where "rnd x = Fin r" "lo \<le> r" "r \<le> hi" "wf64 r"
proof -
  have b: "lo \<le> round64 x" "round64 x \<le> hi"
    using assms round64_mono[of lo x] round64_mono[of x hi] by (simp_all add: wf64_def round64_exact)
  with assms have "\<bar>round64 x\<bar> < max_exp" by (auto simp: wf64_def)
  then have "rnd x = Fin (round64 x)" "wf64 (round64 x)" by (auto simp: rnd_def Let_def wf64_round64)
  with b that show thesis by blast
qed

lemma rnd_mono: "x \<le> y \<Longrightarrow> rnd x \<le> rnd y"
  using round64_mono[of x y] by (auto simp: rnd_def Let_def max_exp_def)

lemma rnd_not_NaN [simp]: "rnd x \<noteq> NaN"
  by (simp add: rnd_def Let_def)

lemma rnd_nonneg: "0 \<le> x \<Longrightarrow> Fin 0 \<le> rnd x"
  using rnd_mono[of 0 x] by (simp add: rnd_exact)

lemma f64_ok_0_1 [simp]: "f64_ok 0" "f64_ok 1" "f64_ok (Fin 0)" "f64_ok (Fin 1)"
  by (simp_all add: zero_f64_def one_f64_def)

lemma f64_ok_plus [simp]: "f64_ok (x + y)"
  by (cases x; cases y) simp_all

lemma f64_ok_minus [simp]: "f64_ok (x - y)"
  by (cases x; cases y) simp_all

lemma f64_ok_times [simp]: "f64_ok (x * y)"
  by (cases x; cases y) simp_all

lemma f64_ok_fdiv [simp]: "f64_ok (fdiv x y)"
  by (cases x; cases y) simp_all

lemma NaN_compare [simp]:
  "\<not> NaN < y" "\<not> x < NaN" "\<not> NaN \<le> y" "\<not> x \<le> NaN"
  by (cases x; cases y; simp)+

lemma NaN_arith [simp]:
  "NaN + y = NaN" "x + NaN = NaN" "NaN - y = NaN" "x - NaN = NaN" "NaN * y = NaN" "x * NaN = NaN"
  "fdiv NaN y = NaN" "fdiv x NaN = NaN"
  by (cases x; cases y; simp)+

lemma f64_le_refl: "x \<noteq> NaN \<Longrightarrow> x \<le> (x :: f64)"
  by (cases x) auto

lemma f64_not_less: "x \<noteq> NaN \<Longrightarrow> y \<noteq> NaN \<Longrightarrow> \<not> x < y \<longleftrightarrow> y \<le> (x :: f64)"
  by (cases x; cases y) auto

lemma f64_less_le: "x < y \<Longrightarrow> x \<le> (y :: f64)"
  by (cases x; cases y) auto

lemma f64_le_trans: "x \<le> y \<Longrightarrow> y \<le> z \<Longrightarrow> x \<le> (z :: f64)"
  by (cases x; cases y; cases z) auto

lemma f64_less_le_trans: "x < y \<Longrightarrow> y \<le> z \<Longrightarrow> x < (z :: f64)"
  by (cases x; cases y; cases z) auto

lemma f64_le_less_trans: "x \<le> y \<Longrightarrow> y < z \<Longrightarrow> x < (z :: f64)"
  by (cases x; cases y; cases z) auto

lemma f64_less_imp_not_le: "x < y \<Longrightarrow> \<not> y \<le> (x :: f64)"
  by (cases x; cases y) auto

text \<open>The square root is a non-negative value, and a positive one of a positive argument.\<close>

lemma isqrt_nonneg: "0 \<le> isqrt n"
  by (induction n rule: isqrt.induct) (subst isqrt.simps, simp add: Let_def)

lemma isqrt_spec: "0 \<le> n \<Longrightarrow> isqrt n * isqrt n \<le> n \<and> n < (isqrt n + 1) * (isqrt n + 1)"
proof (induction n rule: isqrt.induct)
  case (1 n)
  show ?case
  proof (cases "n \<le> 0")
    case True
    with 1 show ?thesis by (simp add: isqrt.simps)
  next
    case False
    define r where "r = isqrt (n div 4)"
    from False 1 have r: "r * r \<le> n div 4" "n div 4 < (r + 1) * (r + 1)" by (simp_all add: r_def)
    from r have lo: "(2 * r) * (2 * r) \<le> n" by simp
    from r(2) have "n div 4 + 1 \<le> (r + 1) * (r + 1)" by simp
    then have hi: "n < (2 * r + 1 + 1) * (2 * r + 1 + 1)" by (simp add: algebra_simps)
    show ?thesis unfolding isqrt.simps[of n] using False lo hi
      by (simp add: Let_def r_def[symmetric] not_le)
  qed
qed


lemma sqrt64_cases:
  assumes "0 < q"
  obtains f where "sqrt64 q = of_int f * pow2 (ilog2 q div 2 - 52)" "2 ^ 52 \<le> f" "f \<le> 2 ^ 53"
proof -
  define h where "h = ilog2 q div 2"
  define u where "u = pow2 (h - 52)"
  define s where "s = q / (u * u)"
  define g where "g = isqrt \<lfloor>s\<rfloor>"
  have uu: "u * u = pow2 (2 * h - 104)" by (simp add: u_def pow2_add[symmetric])
  have h: "2 * h \<le> ilog2 q" "ilog2 q + 1 \<le> 2 * h + 2" by (simp_all add: h_def)
  have "pow2 (2 * h) \<le> q" "q < pow2 (2 * h + 2)"
    using ilog2_bounds[OF assms] pow2_mono[OF h(1)] pow2_mono[OF h(2)] by linarith+
  then have lo: "pow2 104 \<le> s" and hi: "s < pow2 106"
    using pow2_diff[of "2 * h" "2 * h - 104"] pow2_diff[of "2 * h + 2" "2 * h - 104"]
    by (simp_all add: s_def uu field_simps)
  then have fl: "2 ^ 104 \<le> \<lfloor>s\<rfloor>" "\<lfloor>s\<rfloor> < 2 ^ 106"
    by (simp_all add: pow2_def le_floor_iff floor_less_iff)
  have g0: "0 \<le> g" by (simp add: g_def isqrt_nonneg)
  have sp: "g * g \<le> \<lfloor>s\<rfloor>" "\<lfloor>s\<rfloor> < (g + 1) * (g + 1)"
    using isqrt_spec[of "\<lfloor>s\<rfloor>"] fl by (simp_all add: g_def)
  have g1: "2 ^ 52 \<le> g"
  proof (rule ccontr)
    assume "\<not> 2 ^ 52 \<le> g"
    then have "(g + 1) * (g + 1) \<le> 2 ^ 52 * 2 ^ 52" using g0 by (intro mult_mono) auto
    then have "(g + 1) * (g + 1) \<le> 2 ^ 104" by simp
    with sp(2) fl(1) show False by linarith
  qed
  have g2: "g < 2 ^ 53"
  proof (rule ccontr)
    assume "\<not> g < 2 ^ 53"
    then have "2 ^ 53 * 2 ^ 53 \<le> g * g" using g0 by (intro mult_mono) auto
    then have "2 ^ 106 \<le> g * g" by simp
    with sp(1) fl(2) show False by linarith
  qed
  have "sqrt64 q = of_int g * u \<or> sqrt64 q = of_int (g + 1) * u"
    using assms by (simp add: sqrt64_def Let_def h_def u_def s_def g_def)
  with g1 g2 that[of g] that[of "g + 1"] show thesis by (auto simp: u_def h_def)
qed

lemma sqrt64_pos: "0 < q \<Longrightarrow> 0 < sqrt64 q"
  by (rule sqrt64_cases[of q]) (auto intro!: mult_pos_pos)

lemma sqrt64_nonneg: "0 \<le> sqrt64 q"
  using sqrt64_pos[of q] by (cases "0 < q") (auto simp: sqrt64_def)

lemma wf64_pos_ilog2:
  assumes "wf64 q" "0 < q" shows "- 1074 \<le> ilog2 q" "ilog2 q < 1024"
proof -
  obtain m e where q: "q = of_int m * pow2 e" and e: "- 1074 \<le> e"
    using assms(1) by (auto simp: wf64_def representable_def)
  have "0 < m" using assms(2) q pow2_pos[of e] by (metis of_int_0_less_iff zero_less_mult_pos2)
  then have "pow2 e \<le> q" by (simp add: q)
  then have "pow2 e < pow2 (ilog2 q + 1)" using ilog2_gt[OF assms(2)] by linarith
  then show "- 1074 \<le> ilog2 q" using e by (simp add: pow2_less_cancel)
  have "q < pow2 1024" using assms by (simp add: wf64_def max_exp_def pow2_def)
  then have "pow2 (ilog2 q) < pow2 1024" using ilog2_le[OF assms(2)] by linarith
  then show "ilog2 q < 1024" by (simp add: pow2_less_cancel)
qed

lemma wf64_sqrt64:
  assumes "wf64 q" shows "wf64 (sqrt64 q)"
proof (cases "0 < q")
  case True
  then obtain f where f: "sqrt64 q = of_int f * pow2 (ilog2 q div 2 - 52)" "2 ^ 52 \<le> f" "f \<le> 2 ^ 53"
    by (rule sqrt64_cases)
  note b = wf64_pos_ilog2[OF assms True]
  have "representable (sqrt64 q)" unfolding representable_def
    using f b by (intro exI[of _ f] exI[of _ "ilog2 q div 2 - 52"]) auto
  moreover have "\<bar>sqrt64 q\<bar> < max_exp"
  proof -
    have "rat_of_int f \<le> rat_of_int (2 ^ 53)" using f(3) by (simp only: of_int_le_iff)
    then have "sqrt64 q \<le> pow2 53 * pow2 (ilog2 q div 2 - 52)"
      unfolding f(1) by (intro mult_right_mono) (simp_all add: pow2_def[of 53])
    also have "\<dots> = pow2 (ilog2 q div 2 + 1)" by (simp add: pow2_add[symmetric] add.commute)
    also have "\<dots> < pow2 1024" using b by (intro pow2_strict_mono) auto
    finally show ?thesis using sqrt64_nonneg[of q] by (simp add: max_exp_def pow2_def)
  qed
  ultimately show ?thesis by (simp add: wf64_def)
qed (simp add: sqrt64_def)

lemma f64_ok_fsqrt: "f64_ok x \<Longrightarrow> f64_ok (fsqrt x)"
  by (cases x) (auto simp: wf64_sqrt64)

text \<open>A product of non-negative values at most one factor's bound, and a quotient at most one.\<close>

lemma rnd_prod_le:
  assumes "wf64 a" "0 \<le> a" "0 \<le> g" "g \<le> 1"
  obtains p where "rnd (a * g) = Fin p" "0 \<le> p" "p \<le> a" "wf64 p"
proof (rule rnd_between[of 0 a "a * g"])
  show "0 \<le> a * g" "a * g \<le> a" using assms by (simp_all add: mult_left_le)
qed (use assms that in auto)

text \<open>Taking one off a value between one and \<open>2\<^sup>5\<^sup>3\<close> is exact.\<close>

lemma wf64_minus_one:
  assumes "wf64 x" "1 \<le> x" "x \<le> 2 ^ 53" shows "wf64 (x - 1)"
proof -
  obtain m e where x: "x = of_int m * pow2 e" and m: "\<bar>m\<bar> \<le> 2 ^ 53" and e: "- 1074 \<le> e"
    using assms(1) by (auto simp: wf64_def representable_def)
  have "representable (x - 1)"
  proof (cases "0 \<le> e")
    case True
    then have "x = of_int (m * 2 ^ nat e)" by (simp add: x pow2_def)
    then obtain n where n: "x = of_int n" by blast
    with assms have "1 \<le> n" "n \<le> 2 ^ 53"
      by (simp, metis of_int_le_iff of_int_numeral of_int_power)
    then have "representable (of_int (n - 1))" by (intro representable_of_int) simp
    with n show ?thesis by simp
  next
    case False
    let ?j = "2 ^ nat (- e) :: int"
    have j: "of_int ?j * pow2 e = 1" using False by (simp add: pow2_def)
    then have eq: "x - 1 = of_int (m - ?j) * pow2 e" by (simp add: x algebra_simps)
    have "0 \<le> m - ?j" using assms(2) eq pow2_pos[of e]
      by (metis diff_ge_0_iff_ge of_int_0_le_iff zero_le_mult_iff not_less_iff_gr_or_eq order.strict_iff_not)
    moreover have "0 < ?j" by simp
    ultimately have "\<bar>m - ?j\<bar> \<le> 2 ^ 53" using m by linarith
    with eq e show ?thesis unfolding representable_def by blast
  qed
  with assms show ?thesis by (simp add: wf64_def)
qed


lemma wf64_half_int: "\<bar>n\<bar> \<le> 2 ^ 53 \<Longrightarrow> wf64 (of_int n / 2)"
proof -
  assume n: "\<bar>n\<bar> \<le> 2 ^ 53"
  have "of_int n / 2 = of_int n * pow2 (- 1)" by (simp add: pow2_def)
  with n have "representable (of_int n / 2)" unfolding representable_def by (metis neg_le_iff_le one_le_numeral)
  moreover have "\<bar>of_int n / 2\<bar> < max_exp"
    using wf64_of_int[OF n] by (auto simp: wf64_def max_exp_def)
  ultimately show ?thesis by (simp add: wf64_def)
qed

lemma lit_simps [simp]: "lit 1 = Fin 1" "lit 2 = Fin 2" "lit (1 / 2) = Fin (1 / 2)"
  using wf64_half_int[of 1] by (simp_all add: lit_def rnd_exact)

lemma wf64_pow2: "- 1074 \<le> e \<Longrightarrow> e < 1024 \<Longrightarrow> wf64 (pow2 e)"
proof -
  assume e: "- 1074 \<le> e" "e < 1024"
  then have "representable (pow2 e)" unfolding representable_def
    by (intro exI[of _ 1] exI[of _ e]) simp
  moreover have "pow2 e < max_exp" using pow2_strict_mono[OF e(2)] by (simp add: max_exp_def pow2_def[of 1024])
  ultimately show ?thesis by (simp add: wf64_def)
qed

text \<open>\<^verbatim>\<open>Duration.Seconds\<close>, on a duration that is not negative, and \<^verbatim>\<open>math.Abs\<close>.\<close>

definition Seconds :: "duration \<Rightarrow> f64" where
  "Seconds d = f64_of_int (d div second) + fdiv (f64_of_int (d mod second)) (lit (10 ^ 9))"

fun fabs :: "f64 \<Rightarrow> f64" where
  "fabs (Fin q) = Fin \<bar>q\<bar>"
| "fabs NInf = PInf"
| "fabs x = x"

text \<open>\<^verbatim>\<open>sort.Float64s\<close> puts NaN before every other value.\<close>

definition f64_before :: "f64 \<Rightarrow> f64 \<Rightarrow> bool" where
  "f64_before x y \<longleftrightarrow> x < y \<or> x = NaN \<and> y \<noteq> NaN"

end
