(* ===== verification/Contract.thy ===== *)
theory Contract
  imports Float64
begin

text \<open>
  The cross-layer contract of \<^verbatim>\<open>internal/contract/contract.go\<close>: the flow identity and signal event
  that go into the engine, the verdict that comes out of it, the attrition outcome and the analyst
  label. Field names carry a prefix where two Go structs share one. \<^verbatim>\<open>Tier\<close> and \<^verbatim>\<open>StingFloor\<close> are Go
  ints compared by order, and stay integers.
\<close>

type_synonym ScopeKey = string
type_synonym CanaryType = string
type_synonym Tier = int
type_synonym StingFloor = int
type_synonym AttritionAxis = "32 word"

record FlowIdentity =
  SocketCookie :: u64
  CgroupID :: u64
  PID :: u32
  SPIFFEID :: string
  L7Attributes :: "string \<rightharpoonup> string"

abbreviation (input) AttrSourceAddress :: string where "AttrSourceAddress \<equiv> ''canarysting.source_address''"
abbreviation (input) AttrRequestPath :: string where "AttrRequestPath \<equiv> ''canarysting.request_path''"
abbreviation (input) AttrRequestMethod :: string where "AttrRequestMethod \<equiv> ''canarysting.request_method''"

record SignalEvent =
  ev_Flow :: FlowIdentity
  ev_Canary :: CanaryType
  ev_Scope :: ScopeKey
  ev_Timestamp :: time

abbreviation (input) TierObserve :: Tier where "TierObserve \<equiv> 0"
abbreviation (input) TierTag :: Tier where "TierTag \<equiv> 1"
abbreviation (input) TierContain :: Tier where "TierContain \<equiv> 2"
abbreviation (input) TierJail :: Tier where "TierJail \<equiv> 3"

datatype EnforcementMode = ModeAsync | ModeInline

abbreviation (input) FloorPassive :: StingFloor where "FloorPassive \<equiv> 0"
abbreviation (input) FloorModerate :: StingFloor where "FloorModerate \<equiv> 1"
abbreviation (input) FloorAggressive :: StingFloor where "FloorAggressive \<equiv> 2"

abbreviation (input) AxisVelocity :: AttritionAxis where "AxisVelocity \<equiv> 1"
abbreviation (input) AxisPoison :: AttritionAxis where "AxisPoison \<equiv> 2"
abbreviation (input) AxisOppCost :: AttritionAxis where "AxisOppCost \<equiv> 4"
abbreviation (input) AxisExploitBurn :: AttritionAxis where "AxisExploitBurn \<equiv> 8"
abbreviation (input) AxisOpExposure :: AttritionAxis where "AxisOpExposure \<equiv> 16"

definition Axes :: "StingFloor \<Rightarrow> AttritionAxis" where
  "Axes f =
     (if f = FloorAggressive then
        or (or (or (or AxisVelocity AxisPoison) AxisOppCost) AxisExploitBurn) AxisOpExposure
      else if f = FloorModerate then or AxisVelocity AxisPoison
      else AxisVelocity)"

record Verdict =
  v_Flow :: FlowIdentity
  v_Scope :: ScopeKey
  v_Tier :: Tier
  v_Mode :: EnforcementMode
  v_Score :: f64
  v_Calibrated :: bool

record StingOutcome =
  so_Mechanism :: string
  so_TimeHeldSec :: f64
  so_BytesServed :: int
  so_RequestsAbsrb :: int
  so_TokenCostProxy :: f64
  so_DepthReached :: int
  so_DoneReason :: int
  so_Axes :: AttritionAxis
  so_TimeToDisengageSec :: f64
  so_PoisonClass :: string
  so_PoisonReached :: int
  so_ExploitsObserved :: int
  so_ExposureSignals :: int
  so_DisengageReason :: int

record DriverObservation =
  RequestCount :: int
  DistinctDecoys :: int
  SuspectedExploit :: bool
  ToolingExposed :: bool

abbreviation (input) DisengageUnknown :: int where "DisengageUnknown \<equiv> 0"
abbreviation (input) DisengageAttacker :: int where "DisengageAttacker \<equiv> 1"
abbreviation (input) DisengageGeneratorDone :: int where "DisengageGeneratorDone \<equiv> 2"
abbreviation (input) DisengageDefenderCapped :: int where "DisengageDefenderCapped \<equiv> 3"

record OutcomeRecord =
  or_SocketCookie :: u64
  or_Scope :: ScopeKey
  or_Outcome :: StingOutcome
  or_TimestampUnixMs :: int

record FeedbackLabel =
  fl_Flow :: FlowIdentity
  fl_Scope :: ScopeKey
  fl_Tier :: Tier
  fl_WasMalicious :: bool
  fl_CanariesTouched :: "CanaryType list"
  fl_Timestamp :: time

text \<open>
  A flow with nothing but its cookie, and a touch of a canary at a time: the shapes the examples of
  the component theories use.
\<close>

definition cookie_flow :: "u64 \<Rightarrow> FlowIdentity" where
  "cookie_flow c = \<lparr>SocketCookie = c, CgroupID = 0, PID = 0, SPIFFEID = [], L7Attributes = Map.empty\<rparr>"

definition touch_event :: "u64 \<Rightarrow> CanaryType \<Rightarrow> time \<Rightarrow> SignalEvent" where
  "touch_event c ct t = \<lparr>ev_Flow = cookie_flow c, ev_Canary = ct, ev_Scope = [], ev_Timestamp = t\<rparr>"

lemma cookie_flow_sel [simp]: "SocketCookie (cookie_flow c) = c"
  by (simp add: cookie_flow_def)

lemma touch_event_sel [simp]:
  "ev_Flow (touch_event c ct t) = cookie_flow c" "ev_Canary (touch_event c ct t) = ct"
  "ev_Scope (touch_event c ct t) = []" "ev_Timestamp (touch_event c ct t) = t"
  by (simp_all add: touch_event_def)

text \<open>A higher floor unlocks a superset of the axes of a lower one; velocity is always unlocked.\<close>

lemma Axes_mono:
  assumes "FloorPassive \<le> f" "f \<le> g" "g \<le> FloorAggressive" shows "and (Axes f) (Axes g) = Axes f"
proof -
  have "f \<in> {0, 1, 2}" "g \<in> {0, 1, 2}" using assms by auto
  with assms(2) show ?thesis by (auto simp: Axes_def)
qed

lemma Axes_velocity: "and AxisVelocity (Axes f) = AxisVelocity"
  by (simp add: Axes_def)

end
