(* ===== verification/Calibration.thy ===== *)
theory Calibration
  imports Contract
begin

text \<open>
  Per-scope calibration, \<^verbatim>\<open>internal/engine/calibration/calibration.go\<close>, and the label intake of
  \<^verbatim>\<open>internal/engine/feedback/feedback.go\<close>. The store keeps, per scope, the number of labels seen and
  per canary type the malicious and benign counts; \<open>Weight\<close> is the live weight the scorer reads.
  The lemmas: the store's counts are those of the label history (a refinement), scopes are isolated,
  weights stay in the configured clamp, and malicious evidence never lowers a weight.
\<close>

abbreviation (input) DefaultEvidenceFloor :: int where "DefaultEvidenceFloor \<equiv> 50"
definition defaultMinWeight :: f64 where "defaultMinWeight = lit (1 / 10)"
definition defaultMaxWeight :: f64 where "defaultMaxWeight = lit 3"

record calibration_State =
  Calibrated :: bool
  EvidenceSeen :: int
  EvidenceFloor :: int

record calibration_Config =
  cfg_EvidenceFloor :: int
  SeedWeights :: "(CanaryType \<times> f64) list"
  MinWeight :: f64
  MaxWeight :: f64

record canaryCounts =
  mal :: int
  ben :: int

record scopeState =
  total :: int
  counts :: "CanaryType \<rightharpoonup> canaryCounts"

record calibration_Store =
  cs_cfg :: calibration_Config
  meanSeed :: f64
  cs_scopes :: "ScopeKey \<rightharpoonup> scopeState"

text \<open>\<open>perm\<close> is the order in which the range statement visits the configured seeds.\<close>

definition mean_of_seeds :: "((CanaryType \<times> f64) list \<Rightarrow> (CanaryType \<times> f64) list) \<Rightarrow> (CanaryType \<times> f64) list \<Rightarrow> f64" where
  "mean_of_seeds perm sw =
     (if 0 < length sw
      then let m = fdiv (foldl (\<lambda>s (_, w). s + w) 0 (perm sw)) (f64_of_int (int (length sw)))
           in if 0 < m then m else 1
      else 1)"

definition calibration_New ::
  "((CanaryType \<times> f64) list \<Rightarrow> (CanaryType \<times> f64) list) \<Rightarrow> calibration_Config \<Rightarrow> calibration_Store" where
  "calibration_New perm cfg0 =
     (let cfg1 = (if cfg_EvidenceFloor cfg0 \<le> 0 then cfg0\<lparr>cfg_EvidenceFloor := DefaultEvidenceFloor\<rparr> else cfg0);
          cfg2 = (if MinWeight cfg1 \<le> 0 then cfg1\<lparr>MinWeight := defaultMinWeight\<rparr> else cfg1);
          cfg3 = (if MaxWeight cfg2 \<le> 0 then cfg2\<lparr>MaxWeight := defaultMaxWeight\<rparr> else cfg2)
      in \<lparr>cs_cfg = cfg3, meanSeed = mean_of_seeds perm (SeedWeights cfg3), cs_scopes = Map.empty\<rparr>)"

definition zero_counts :: canaryCounts where "zero_counts = \<lparr>mal = 0, ben = 0\<rparr>"

definition counts_of :: "scopeState \<Rightarrow> CanaryType \<Rightarrow> canaryCounts" where
  "counts_of st ct = (case counts st ct of None \<Rightarrow> zero_counts | Some c \<Rightarrow> c)"

definition bump_count :: "bool \<Rightarrow> scopeState \<Rightarrow> CanaryType \<Rightarrow> scopeState" where
  "bump_count wasMalicious st ct =
     (let c = counts_of st ct;
          c' = (if wasMalicious then c\<lparr>mal := mal c + 1\<rparr> else c\<lparr>ben := ben c + 1\<rparr>)
      in st\<lparr>counts := (counts st)(ct \<mapsto> c')\<rparr>)"

definition Ingest :: "calibration_Store \<Rightarrow> FeedbackLabel \<Rightarrow> calibration_Store result" where
  "Ingest s l =
     (if fl_Scope l = [] then Inl ''calibration: label has no scope; refusing to aggregate''
      else let st = (case cs_scopes s (fl_Scope l) of
                       None \<Rightarrow> \<lparr>total = 0, counts = Map.empty\<rparr> | Some st \<Rightarrow> st);
               st1 = st\<lparr>total := total st + 1\<rparr>;
               st2 = foldl (bump_count (fl_WasMalicious l)) st1 (fl_CanariesTouched l)
           in Inr (s\<lparr>cs_scopes := (cs_scopes s)(fl_Scope l \<mapsto> st2)\<rparr>))"

definition State :: "calibration_Store \<Rightarrow> ScopeKey \<Rightarrow> calibration_State" where
  "State s scope =
     (let seen = (case cs_scopes s scope of None \<Rightarrow> 0 | Some st \<Rightarrow> total st)
      in \<lparr>Calibrated = (cfg_EvidenceFloor (cs_cfg s) \<le> seen), EvidenceSeen = seen,
          EvidenceFloor = cfg_EvidenceFloor (cs_cfg s)\<rparr>)"

definition seed :: "calibration_Store \<Rightarrow> CanaryType \<Rightarrow> f64" where
  "seed s ct = (case map_of (SeedWeights (cs_cfg s)) ct of
                  Some w \<Rightarrow> if 0 < w then w else 1 | None \<Rightarrow> 1)"

definition intentNorm :: "calibration_Store \<Rightarrow> CanaryType \<Rightarrow> f64" where
  "intentNorm s ct = fdiv (seed s ct) (meanSeed s)"

definition malFactor :: "canaryCounts \<Rightarrow> f64" where
  "malFactor c =
     lit 2 * fdiv (f64_of_int (mal c) + lit (1 / 2)) (f64_of_int (mal c + ben c) + lit 1)"

definition clamp_weight :: "calibration_Config \<Rightarrow> f64 \<Rightarrow> f64" where
  "clamp_weight cfg w0 =
     (let w1 = (if w0 < MinWeight cfg then MinWeight cfg else w0)
      in if MaxWeight cfg < w1 then MaxWeight cfg else w1)"

definition Weight :: "calibration_Store \<Rightarrow> ScopeKey \<Rightarrow> CanaryType \<Rightarrow> f64" where
  "Weight s scope ct =
     (case cs_scopes s scope of
        None \<Rightarrow> lit 1
      | Some st \<Rightarrow>
          if total st < cfg_EvidenceFloor (cs_cfg s) then lit 1
          else clamp_weight (cs_cfg s) (intentNorm s ct * malFactor (counts_of st ct)))"

text \<open>The feedback intake: \<^verbatim>\<open>Intake.Label\<close>, over a calibrator that may be nil.\<close>

definition Label :: "calibration_Store option \<Rightarrow> FeedbackLabel \<Rightarrow> calibration_Store result" where
  "Label calib l =
     (case calib of
        None \<Rightarrow> Inl ''feedback: no calibrator wired''
      | Some s \<Rightarrow>
          if fl_Scope l = [] then Inl ''feedback: label missing scope; refusing to attribute''
          else Ingest s l)"

lemmas calibration_defs [op_defs] = Ingest_def State_def Weight_def seed_def intentNorm_def Label_def

section \<open>The contract: a store of labels partitioned by scope\<close>

text \<open>
  What the engine and the intake rely on: a label counts for its own scope and for no other. The
  client facts are proved once for any sequence of labels.
\<close>

locale scoped_calibrator =
  fixes ingest :: "'s \<Rightarrow> FeedbackLabel \<Rightarrow> 's result"
    and view :: "'s \<Rightarrow> ScopeKey \<Rightarrow> 'v"
    and seen :: "'s \<Rightarrow> ScopeKey \<Rightarrow> int"
  assumes ingest_scopeless: "fl_Scope l = [] \<Longrightarrow> \<exists>e. ingest s l = Inl e"
    and ingest_total: "fl_Scope l \<noteq> [] \<Longrightarrow> \<exists>s'. ingest s l = Inr s'"
    and ingest_seen: "ingest s l = Inr s' \<Longrightarrow> seen s' k = seen s k + (if fl_Scope l = k then 1 else 0)"
    and ingest_frame: "ingest s l = Inr s' \<Longrightarrow> fl_Scope l \<noteq> k \<Longrightarrow> view s' k = view s k"
begin

fun ingest_all :: "'s \<Rightarrow> FeedbackLabel list \<Rightarrow> 's" where
  "ingest_all s [] = s"
| "ingest_all s (l # ls) = (case ingest s l of Inl _ \<Rightarrow> ingest_all s ls | Inr s' \<Rightarrow> ingest_all s' ls)"

lemma seen_ingest_all:
  "k \<noteq> [] \<Longrightarrow> seen (ingest_all s ls) k = seen s k + int (length (filter (\<lambda>l. fl_Scope l = k) ls))"
proof (induction ls arbitrary: s)
  case (Cons l ls)
  show ?case
  proof (cases "ingest s l")
    case (Inl e)
    with ingest_total[of l s] have "fl_Scope l = []" by auto
    with Inl Cons show ?thesis by auto
  next
    case (Inr s')
    with ingest_seen[OF Inr, of k] Cons show ?thesis by simp
  qed
qed simp

lemma view_ingest_all:
  "\<forall>l\<in>set ls. fl_Scope l \<noteq> k \<Longrightarrow> view (ingest_all s ls) k = view s k"
proof (induction ls arbitrary: s)
  case (Cons l ls)
  then show ?case using ingest_frame[of s l] by (cases "ingest s l") auto
qed simp

end

text \<open>What a reader can see of a scope: its status and all its weights.\<close>

definition scope_view :: "calibration_Store \<Rightarrow> ScopeKey \<Rightarrow> calibration_State \<times> (CanaryType \<Rightarrow> f64)" where
  "scope_view s k = (State s k, Weight s k)"

lemma total_foldl_bump [simp]: "total (foldl (bump_count m) st cts) = total st"
  by (induction cts arbitrary: st) (simp_all add: bump_count_def Let_def)

lemma Weight_cong:
  assumes "cs_cfg s' = cs_cfg s" "meanSeed s' = meanSeed s" "cs_scopes s' k = cs_scopes s k"
  shows "scope_view s' k = scope_view s k"
proof -
  have "Weight s' k ct = Weight s k ct" for ct
    using assms by (simp add: Weight_def intentNorm_def seed_def split: option.split)
  then show ?thesis using assms by (auto simp: scope_view_def State_def)
qed

lemma Ingest_fields:
  assumes "Ingest s l = Inr s'"
  shows "cs_cfg s' = cs_cfg s" "meanSeed s' = meanSeed s" "fl_Scope l \<noteq> []"
    "fl_Scope l \<noteq> k \<Longrightarrow> cs_scopes s' k = cs_scopes s k"
  using assms by (auto simp: Ingest_def Let_def split: if_splits)

lemma Calibrated_iff: "Calibrated (State s k) \<longleftrightarrow> cfg_EvidenceFloor (cs_cfg s) \<le> EvidenceSeen (State s k)"
  by (simp add: State_def Let_def)

lemma Ingest_seen:
  assumes "Ingest s l = Inr s'"
  shows "EvidenceSeen (State s' k) = EvidenceSeen (State s k) + (if fl_Scope l = k then 1 else 0)"
  using assms by (auto simp: Ingest_def Let_def State_def split: if_splits option.splits)

interpretation store: scoped_calibrator Ingest scope_view "\<lambda>s k. EvidenceSeen (State s k)"
proof unfold_locales
  show "\<exists>e. Ingest s l = Inl e" if "fl_Scope l = []" for s l
    using that by (simp add: Ingest_def)
  show "\<exists>s'. Ingest s l = Inr s'" if "fl_Scope l \<noteq> []" for s l
    using that by (simp add: Ingest_def Let_def)
  show "scope_view s' k = scope_view s k" if "Ingest s l = Inr s'" "fl_Scope l \<noteq> k" for s l s' k
    using that by (intro Weight_cong Ingest_fields) auto
qed (rule Ingest_seen)

text \<open>The history a store has ingested, on the model's own step: labels a scopeless one of which is refused.\<close>

fun ingest_labels :: "calibration_Store \<Rightarrow> FeedbackLabel list \<Rightarrow> calibration_Store" where
  "ingest_labels s [] = s"
| "ingest_labels s (l # ls) =
     (case Ingest s l of Inl _ \<Rightarrow> ingest_labels s ls | Inr s' \<Rightarrow> ingest_labels s' ls)"

lemma ingest_labels_store: "ingest_labels s ls = store.ingest_all s ls"
  by (induction s ls rule: ingest_labels.induct) (auto split: sum.split)


section \<open>Refinement: the store holds the label history\<close>

text \<open>
  The abstract state is the list of labels. \<open>hist_count\<close> counts, over the labels of a scope with the
  given verdict, how often a canary type was touched.
\<close>

definition hist_count :: "bool \<Rightarrow> FeedbackLabel list \<Rightarrow> ScopeKey \<Rightarrow> CanaryType \<Rightarrow> int" where
  "hist_count m ls k ct =
     sum_list (map (\<lambda>l. int (count_list (fl_CanariesTouched l) ct))
       (filter (\<lambda>l. fl_Scope l = k \<and> fl_WasMalicious l = m) ls))"

definition hist_counts :: "FeedbackLabel list \<Rightarrow> ScopeKey \<Rightarrow> CanaryType \<Rightarrow> canaryCounts" where
  "hist_counts ls k ct = \<lparr>mal = hist_count True ls k ct, ben = hist_count False ls k ct\<rparr>"

definition hist_seen :: "FeedbackLabel list \<Rightarrow> ScopeKey \<Rightarrow> int" where
  "hist_seen ls k = int (length (filter (\<lambda>l. fl_Scope l = k) ls))"

definition store_counts :: "calibration_Store \<Rightarrow> ScopeKey \<Rightarrow> CanaryType \<Rightarrow> canaryCounts" where
  "store_counts s k ct = (case cs_scopes s k of None \<Rightarrow> zero_counts | Some st \<Rightarrow> counts_of st ct)"

definition add_counts :: "canaryCounts \<Rightarrow> canaryCounts \<Rightarrow> canaryCounts" where
  "add_counts a b = \<lparr>mal = mal a + mal b, ben = ben a + ben b\<rparr>"

lemma add_counts_simps [simp]:
  "mal (add_counts a b) = mal a + mal b" "ben (add_counts a b) = ben a + ben b"
  by (simp_all add: add_counts_def)

lemma counts_of_bump:
  "counts_of (bump_count m st ct') ct =
     (if ct' = ct then add_counts (counts_of st ct) \<lparr>mal = (if m then 1 else 0), ben = (if m then 0 else 1)\<rparr>
      else counts_of st ct)"
  by (auto simp: bump_count_def Let_def counts_of_def add_counts_def split: option.splits)

lemma counts_of_foldl_bump:
  "counts_of (foldl (bump_count m) st cts) ct =
     add_counts (counts_of st ct)
       \<lparr>mal = (if m then int (count_list cts ct) else 0), ben = (if m then 0 else int (count_list cts ct))\<rparr>"
  by (induction cts arbitrary: st) (auto simp: counts_of_bump add_counts_def)

lemma Ingest_counts:
  assumes "Ingest s l = Inr s'"
  shows "store_counts s' k ct = add_counts (store_counts s k ct) (hist_counts [l] k ct)"
proof -
  have *: "counts_of \<lparr>total = n, counts = Map.empty\<rparr> ct = zero_counts" for n
    by (simp add: counts_of_def)
  have "counts_of (st\<lparr>total := n\<rparr>) ct = counts_of st ct" for st n
    by (simp add: counts_of_def)
  with assms show ?thesis
    by (auto simp: Ingest_def Let_def store_counts_def hist_counts_def hist_count_def
        counts_of_foldl_bump add_counts_def zero_counts_def * split: if_splits option.splits)
qed

lemma hist_counts_Cons: "hist_counts (l # ls) k ct = add_counts (hist_counts [l] k ct) (hist_counts ls k ct)"
  by (simp add: hist_counts_def hist_count_def add_counts_def)

lemma store_counts_ingest_labels:
  "k \<noteq> [] \<Longrightarrow> store_counts (ingest_labels s ls) k ct = add_counts (store_counts s k ct) (hist_counts ls k ct)"
proof (induction s ls rule: ingest_labels.induct)
  case (1 s)
  then show ?case by (simp add: hist_counts_def hist_count_def add_counts_def)
next
  case (2 s l ls)
  show ?case
  proof (cases "Ingest s l")
    case (Inl e)
    then have "fl_Scope l = []" by (auto simp: Ingest_def Let_def split: if_splits)
    with 2 have "hist_counts [l] k ct = \<lparr>mal = 0, ben = 0\<rparr>"
      by (auto simp: hist_counts_def hist_count_def)
    with Inl 2 show ?thesis by (subst hist_counts_Cons) (simp add: add_counts_def)
  next
    case (Inr s')
    with 2(2)[OF Inr] 2(3) Ingest_counts[OF Inr, of k ct] show ?thesis
      by (subst hist_counts_Cons) (simp add: add_counts_def)
  qed
qed

lemma ingest_labels_cfg [simp]:
  "cs_cfg (ingest_labels s ls) = cs_cfg s" "meanSeed (ingest_labels s ls) = meanSeed s"
  by (induction s ls rule: ingest_labels.induct) (auto split: sum.splits dest: Ingest_fields)

lemma seen_ingest_labels:
  "k \<noteq> [] \<Longrightarrow> EvidenceSeen (State (ingest_labels s ls) k) = EvidenceSeen (State s k) + hist_seen ls k"
  unfolding ingest_labels_store hist_seen_def by (rule store.seen_ingest_all)

text \<open>\<open>Weight\<close> read off a store's evidence count and canary counts.\<close>

lemma Weight_alt:
  assumes "0 < cfg_EvidenceFloor (cs_cfg s)"
  shows "Weight s k ct =
    (if EvidenceSeen (State s k) < cfg_EvidenceFloor (cs_cfg s) then lit 1
     else clamp_weight (cs_cfg s) (intentNorm s ct * malFactor (store_counts s k ct)))"
  using assms by (auto simp: Weight_def State_def store_counts_def split: option.split)

lemma calibration_New_floor [simp]: "0 < cfg_EvidenceFloor (cs_cfg (calibration_New perm cfg))"
  by (simp add: calibration_New_def Let_def)

lemma calibration_New_empty [simp]:
  "store_counts (calibration_New perm cfg) k ct = zero_counts"
  "EvidenceSeen (State (calibration_New perm cfg) k) = 0"
  "cs_scopes (calibration_New perm cfg) = Map.empty"
  by (simp_all add: calibration_New_def Let_def store_counts_def State_def)

lemma SeedWeights_New [simp]: "SeedWeights (cs_cfg (calibration_New perm cfg)) = SeedWeights cfg"
  by (simp add: calibration_New_def Let_def)

lemma add_zero_counts [simp]: "add_counts zero_counts c = c"
  by (simp add: add_counts_def zero_counts_def)

lemma intentNorm_ingest [simp]: "intentNorm (ingest_labels s ls) ct = intentNorm s ct"
  by (simp add: intentNorm_def seed_def)

section \<open>Arithmetic of the learned factor\<close>

text \<open>Counts small enough that \<open>mal + 0.5\<close> is exact: fewer than \<open>2\<^sup>5\<^sup>2\<close> labelled touches of one type in one scope.\<close>

definition small_counts :: "canaryCounts \<Rightarrow> bool" where
  "small_counts c \<longleftrightarrow> 0 \<le> mal c \<and> 0 \<le> ben c \<and> mal c + ben c < 2 ^ 52"

definition mal_ratio :: "canaryCounts \<Rightarrow> rat" where
  "mal_ratio c = (of_int (mal c) + 1 / 2) / (of_int (mal c + ben c) + 1)"

lemma malFactor_eq:
  assumes "small_counts c"
  shows "malFactor c = Fin 2 * rnd (mal_ratio c)"
proof -
  have "wf64 (of_int (2 * mal c + 1) / 2)" "wf64 (of_int (mal c + ben c + 1))"
    using assms by (intro wf64_half_int wf64_of_int; simp add: small_counts_def)+
  then have "rnd (of_int (mal c) + 1 / 2) = Fin (of_int (mal c) + 1 / 2)"
    "rnd (of_int (mal c + ben c) + 1) = Fin (of_int (mal c + ben c) + 1)"
    by (simp_all add: rnd_exact add_divide_distrib)
  moreover have "of_int (mal c + ben c) + (1 :: rat) \<noteq> 0" using assms
    by (metis add_nonneg_pos less_numeral_extra(1) of_int_nonneg order_less_irrefl small_counts_def add_nonneg_nonneg)
  moreover have "f64_of_int (mal c) = Fin (of_int (mal c))" "f64_of_int (mal c + ben c) = Fin (of_int (mal c + ben c))"
    using assms by (intro f64_of_int_exact; simp add: small_counts_def)+
  ultimately show ?thesis by (simp add: malFactor_def mal_ratio_def del: of_int_add)
qed

lemma mal_ratio_bounds:
  assumes "small_counts c" shows "pow2 (- 54) \<le> mal_ratio c" "mal_ratio c \<le> 1"
proof -
  have m: "(0 :: rat) \<le> of_int (mal c)" and b: "(0 :: rat) \<le> of_int (ben c)"
    using assms by (simp_all add: small_counts_def)
  have "mal c + ben c < 2 ^ 52" using assms by (simp add: small_counts_def)
  then have "rat_of_int (mal c + ben c) < rat_of_int (2 ^ 52)" by (simp only: of_int_less_iff)
  then have n: "rat_of_int (mal c) + rat_of_int (ben c) < 2 ^ 52" by simp
  show "mal_ratio c \<le> 1" using m b by (simp add: mal_ratio_def)
  show "pow2 (- 54) \<le> mal_ratio c"
    using m b n by (simp add: mal_ratio_def pow2_def le_divide_eq)
qed

lemma malFactor_range:
  assumes "small_counts c"
  obtains r where "malFactor c = Fin r" "0 < r" "r \<le> 2" "wf64 r"
proof -
  obtain q where q: "rnd (mal_ratio c) = Fin q" "pow2 (- 54) \<le> q" "q \<le> 1" "wf64 q"
    by (rule rnd_between[of "pow2 (- 54)" 1 "mal_ratio c"])
      (use mal_ratio_bounds[OF assms] in \<open>auto intro: wf64_pow2\<close>)
  obtain r where r: "rnd (2 * q) = Fin r" "pow2 (- 53) \<le> r" "r \<le> 2" "wf64 r"
    by (rule rnd_between[of "pow2 (- 53)" 2 "2 * q"])
      (use q pow2_plus1[of "- 54"] wf64_pow2[of "- 53"] in auto)
  have "malFactor c = Fin r" using malFactor_eq[OF assms] q(1) r(1) by simp
  moreover have "0 < r" using r(2) pow2_pos[of "- 53"] by linarith
  ultimately show thesis using that r by blast
qed

lemma malFactor_mono:
  assumes "small_counts c" "small_counts d" "mal c \<le> mal d" "ben d \<le> ben c"
  shows "malFactor c \<le> malFactor d"
proof -
  have "mal_ratio c \<le> mal_ratio d"
  proof -
    have m: "(0 :: rat) \<le> of_int (mal c)" "(0 :: rat) \<le> of_int (ben d)"
      and le: "rat_of_int (mal c) \<le> of_int (mal d)" "rat_of_int (ben d) \<le> of_int (ben c)"
      using assms by (simp_all add: small_counts_def)
    have "(of_int (mal c) + 1 / 2) * (of_int (ben d) + 1 / 2) \<le>
          (of_int (mal d) + 1 / 2) * (of_int (ben c) + (1 / 2 :: rat))"
      using m le by (intro mult_mono) auto
    then show ?thesis using m le by (simp add: mal_ratio_def divide_le_eq le_divide_eq algebra_simps)
  qed
  then have le: "rnd (mal_ratio c) \<le> rnd (mal_ratio d)" by (rule rnd_mono)
  obtain q where q: "rnd (mal_ratio c) = Fin q"
    by (rule rnd_between[of "pow2 (- 54)" 1 "mal_ratio c"])
      (use mal_ratio_bounds[OF assms(1)] in \<open>auto intro: wf64_pow2\<close>)
  obtain q' where q': "rnd (mal_ratio d) = Fin q'"
    by (rule rnd_between[of "pow2 (- 54)" 1 "mal_ratio d"])
      (use mal_ratio_bounds[OF assms(2)] in \<open>auto intro: wf64_pow2\<close>)
  from le q q' have "rnd (2 * q) \<le> rnd (2 * q')" by (intro rnd_mono) simp
  with q q' show ?thesis by (simp add: malFactor_eq assms)
qed


section \<open>The weight itself\<close>

lemma clamp_weight_range:
  assumes "w \<noteq> NaN" "MinWeight cfg \<le> MaxWeight cfg"
  shows "MinWeight cfg \<le> clamp_weight cfg w" "clamp_weight cfg w \<le> MaxWeight cfg"
  using assms by (cases w; cases "MinWeight cfg"; cases "MaxWeight cfg"; auto simp: clamp_weight_def Let_def)+

lemma clamp_weight_mono:
  assumes "v \<le> w" "MinWeight cfg \<le> MaxWeight cfg" shows "clamp_weight cfg v \<le> clamp_weight cfg w"
  using assms by (cases v; cases w; cases "MinWeight cfg"; cases "MaxWeight cfg"; auto simp: clamp_weight_def Let_def)

text \<open>Seeds an operator can write down: finite values of the type.\<close>

definition finite_seeds :: "calibration_Config \<Rightarrow> bool" where
  "finite_seeds cfg = list_all (\<lambda>(_, w). case w of Fin q \<Rightarrow> True | _ \<Rightarrow> False) (SeedWeights cfg)"

lemma seed_pos:
  assumes "finite_seeds (cs_cfg s)" obtains q where "seed s ct = Fin q" "0 < q"
proof (cases "map_of (SeedWeights (cs_cfg s)) ct")
  case None
  then show ?thesis using that[of 1] by (simp add: seed_def one_f64_def)
next
  case (Some w)
  then have "(ct, w) \<in> set (SeedWeights (cs_cfg s))" by (rule map_of_SomeD)
  with assms obtain q where "w = Fin q"
    by (auto simp: finite_seeds_def list_all_iff split: f64.splits)
  with Some that[of q] that[of 1] show ?thesis
    by (cases "0 < q") (simp_all add: seed_def zero_f64_def one_f64_def)
qed

lemma meanSeed_New_pos: "0 < meanSeed (calibration_New perm cfg)"
  by (simp add: calibration_New_def mean_of_seeds_def Let_def zero_f64_def one_f64_def)

lemma intentNorm_nonneg:
  assumes "finite_seeds (cs_cfg s)" "0 < meanSeed s"
  shows "0 \<le> intentNorm s ct"
proof -
  obtain q where q: "seed s ct = Fin q" "0 < q" using assms(1) by (rule seed_pos)
  with assms(2) show ?thesis
    by (cases "meanSeed s") (auto simp: intentNorm_def zero_f64_def intro!: rnd_nonneg)
qed

lemma times_mono_pos:
  assumes "0 \<le> x" "0 < r" "r \<le> r'" shows "x * Fin r \<le> x * Fin r'"
  using assms by (cases x) (auto simp: zero_f64_def intro!: rnd_mono mult_left_mono)

lemma times_not_NaN: "0 \<le> x \<Longrightarrow> 0 < r \<Longrightarrow> x * Fin r \<noteq> NaN"
  by (cases x) (auto simp: zero_f64_def)

text \<open>
  Property C24. The calibration store refines its label history: after any sequence of labels, the
  evidence count of a scope is the number of its labels, the scope is calibrated exactly from the
  evidence floor on, and the live weight is uniform 1.0 below the floor and, from it on, the clamped
  product of the seed's intent strength with the maliciousness ratio of that scope's own labels.
\<close>

theorem calibration_refines_history:
  assumes "k \<noteq> []"
  shows "EvidenceSeen (State (ingest_labels (calibration_New perm cfg) ls) k) = hist_seen ls k \<and>
    Calibrated (State (ingest_labels (calibration_New perm cfg) ls) k) =
      (cfg_EvidenceFloor (cs_cfg (calibration_New perm cfg)) \<le> hist_seen ls k) \<and>
    Weight (ingest_labels (calibration_New perm cfg) ls) k ct =
      (if hist_seen ls k < cfg_EvidenceFloor (cs_cfg (calibration_New perm cfg)) then lit 1
       else clamp_weight (cs_cfg (calibration_New perm cfg))
              (intentNorm (calibration_New perm cfg) ct * malFactor (hist_counts ls k ct)))"
proof -
  let ?s = "ingest_labels (calibration_New perm cfg) ls"
  have seen: "EvidenceSeen (State ?s k) = hist_seen ls k"
    using assms by (simp add: seen_ingest_labels)
  then have "Calibrated (State ?s k) = (cfg_EvidenceFloor (cs_cfg (calibration_New perm cfg)) \<le> hist_seen ls k)"
    by (simp add: Calibrated_iff)
  moreover have "store_counts ?s k ct = hist_counts ls k ct"
    using assms by (simp add: store_counts_ingest_labels)
  ultimately show ?thesis using seen by (simp add: Weight_alt)
qed

definition example_label :: "ScopeKey \<Rightarrow> bool \<Rightarrow> CanaryType list \<Rightarrow> FeedbackLabel" where
  "example_label k m cts = \<lparr>fl_Flow = cookie_flow 7, fl_Scope = k, fl_Tier = TierJail,
     fl_WasMalicious = m, fl_CanariesTouched = cts, fl_Timestamp = 1\<rparr>"

definition example_config :: calibration_Config where
  "example_config = \<lparr>cfg_EvidenceFloor = 2, SeedWeights = [(''secret'', Fin 2), (''file'', Fin 1)],
     MinWeight = 0, MaxWeight = 0\<rparr>"

lemma calibration_refines_history_witness:
  "EvidenceSeen (State (ingest_labels (calibration_New rev example_config)
     [example_label ''a'' True [''secret''], example_label ''b'' False [''file'']]) ''a'') = 1"
proof -
  have "(''a'' :: string) \<noteq> []" by simp
  from calibration_refines_history[OF this, of rev example_config
      "[example_label ''a'' True [''secret''], example_label ''b'' False [''file'']]"]
  show ?thesis by (simp add: hist_seen_def example_label_def)
qed

text \<open>
  Scope isolation of learned state: labels of other scopes, however many, change
  neither the calibration status of a scope nor any of its weights.
\<close>

theorem calibration_scope_isolation:
  assumes "\<forall>l\<in>set ls. fl_Scope l \<noteq> k"
  shows "State (ingest_labels s ls) k = State s k \<and> Weight (ingest_labels s ls) k ct = Weight s k ct"
  using store.view_ingest_all[OF assms, of s] unfolding ingest_labels_store scope_view_def by auto

lemma calibration_scope_isolation_witness:
  "Weight (ingest_labels (calibration_New rev example_config)
     [example_label ''b'' True [''secret'']]) ''a'' ''secret'' = lit 1"
proof -
  have "\<forall>l\<in>set [example_label ''b'' True [''secret'']]. fl_Scope l \<noteq> ''a''"
    by (simp add: example_label_def)
  from calibration_scope_isolation[OF this, of "calibration_New rev example_config" "''secret''"]
  show ?thesis by (simp add: Weight_def)
qed

text \<open>
  Weights stay in the clamp: with finite seeds and a proper clamp interval, whatever
  labels a scope has seen (fewer than \<open>2\<^sup>5\<^sup>2\<close> touches of the type), the weight of a calibrated scope
  is a number between the configured minimum and maximum, in binary64 arithmetic.
\<close>

theorem weight_clamped:
  assumes "k \<noteq> []" "finite_seeds cfg"
    and "MinWeight (cs_cfg (calibration_New perm cfg)) \<le> MaxWeight (cs_cfg (calibration_New perm cfg))"
    and "small_counts (hist_counts ls k ct)"
    and "Calibrated (State (ingest_labels (calibration_New perm cfg) ls) k)"
  shows "MinWeight (cs_cfg (calibration_New perm cfg)) \<le> Weight (ingest_labels (calibration_New perm cfg) ls) k ct
    \<and> Weight (ingest_labels (calibration_New perm cfg) ls) k ct \<le> MaxWeight (cs_cfg (calibration_New perm cfg))"
proof -
  let ?s = "ingest_labels (calibration_New perm cfg) ls"
  have seen: "\<not> EvidenceSeen (State ?s k) < cfg_EvidenceFloor (cs_cfg ?s)"
    using assms(5) by (simp add: Calibrated_iff)
  have "store_counts ?s k ct = hist_counts ls k ct"
    using assms(1) by (simp add: store_counts_ingest_labels)
  with seen have w: "Weight ?s k ct = clamp_weight (cs_cfg (calibration_New perm cfg))
      (intentNorm (calibration_New perm cfg) ct * malFactor (hist_counts ls k ct))"
    by (simp add: Weight_alt)
  obtain r where r: "malFactor (hist_counts ls k ct) = Fin r" "0 < r"
    using assms(4) by (rule malFactor_range)
  have "0 \<le> intentNorm (calibration_New perm cfg) ct"
    using assms(2) meanSeed_New_pos by (intro intentNorm_nonneg) (simp_all add: finite_seeds_def)
  then have "intentNorm (calibration_New perm cfg) ct * Fin r \<noteq> NaN" using r(2) by (rule times_not_NaN)
  with w r(1) assms(3) show ?thesis by (simp add: clamp_weight_range)
qed

lemma example_config_New:
  "cs_cfg (calibration_New (\<lambda>x. x) example_config) =
     \<lparr>cfg_EvidenceFloor = 2, SeedWeights = [(''secret'', Fin 2), (''file'', Fin 1)],
      MinWeight = defaultMinWeight, MaxWeight = defaultMaxWeight\<rparr>"
  by (simp add: calibration_New_def example_config_def Let_def zero_f64_def)

lemma default_clamp: "defaultMinWeight \<le> defaultMaxWeight"
  unfolding defaultMinWeight_def defaultMaxWeight_def lit_def by (rule rnd_mono) simp

definition example_labels :: "FeedbackLabel list" where
  "example_labels = [example_label ''a'' True [''secret''], example_label ''a'' True [''secret'']]"

lemma example_labels_hist:
  "hist_counts example_labels ''a'' ''secret'' = \<lparr>mal = 2, ben = 0\<rparr>" "hist_seen example_labels ''a'' = 2"
  by (simp_all add: example_labels_def hist_counts_def hist_count_def hist_seen_def example_label_def)

lemma example_calibrated:
  "Calibrated (State (ingest_labels (calibration_New (\<lambda>x. x) example_config) example_labels) ''a'')"
  by (simp add: Calibrated_iff seen_ingest_labels example_config_New example_labels_hist)

lemma example_seeds: "finite_seeds example_config"
  by (simp add: finite_seeds_def example_config_def)

lemma weight_clamped_witness:
  "defaultMinWeight \<le> Weight (ingest_labels (calibration_New (\<lambda>x. x) example_config) example_labels) ''a'' ''secret''"
proof -
  have "small_counts (hist_counts example_labels ''a'' ''secret'')"
    by (simp add: small_counts_def example_labels_hist)
  then show ?thesis
    using weight_clamped[of "''a''" example_config "\<lambda>x. x" example_labels "''secret''"]
    by (simp add: example_config_New default_clamp example_seeds example_calibrated)
qed

text \<open>
  Evidence moves weights the right way: for a calibrated scope, a label confirming
  malice never lowers the weight of any canary type of that scope, and a label reporting a false
  positive never raises one, in binary64 arithmetic and through the clamp.
\<close>

theorem evidence_moves_weight:
  assumes "Ingest s l = Inr s'" "fl_Scope l = k" "Calibrated (State s k)" "0 < cfg_EvidenceFloor (cs_cfg s)"
    and "finite_seeds (cs_cfg s)" "0 < meanSeed s" "MinWeight (cs_cfg s) \<le> MaxWeight (cs_cfg s)"
    and "small_counts (store_counts s k ct)" "small_counts (store_counts s' k ct)"
  shows "if fl_WasMalicious l then Weight s k ct \<le> Weight s' k ct else Weight s' k ct \<le> Weight s k ct"
proof -
  have i: "intentNorm s' ct = intentNorm s ct" and cfg: "cs_cfg s' = cs_cfg s"
    using Ingest_fields[OF assms(1)] by (simp_all add: intentNorm_def seed_def)
  have seen: "\<not> EvidenceSeen (State s k) < cfg_EvidenceFloor (cs_cfg s)"
    using assms(3) by (simp add: Calibrated_iff)
  moreover have "EvidenceSeen (State s k) \<le> EvidenceSeen (State s' k)"
    using Ingest_seen[OF assms(1), of k] by simp
  ultimately have seen': "\<not> EvidenceSeen (State s' k) < cfg_EvidenceFloor (cs_cfg s')"
    by (simp add: cfg)
  let ?c = "store_counts s k ct" and ?c' = "store_counts s' k ct"
  obtain r where r: "malFactor ?c = Fin r" "0 < r" using assms(8) by (rule malFactor_range)
  obtain r' where r': "malFactor ?c' = Fin r'" "0 < r'" using assms(9) by (rule malFactor_range)
  have nn: "0 \<le> intentNorm s ct" using assms(5,6) by (rule intentNorm_nonneg)
  have c': "?c' = add_counts ?c (hist_counts [l] k ct)" by (rule Ingest_counts[OF assms(1)])
  show ?thesis
  proof (cases "fl_WasMalicious l")
    case True
    then have "malFactor ?c \<le> malFactor ?c'"
      using c' by (intro malFactor_mono assms) (simp_all add: hist_counts_def hist_count_def)
    then have "intentNorm s ct * Fin r \<le> intentNorm s ct * Fin r'"
      using r r' nn by (intro times_mono_pos) simp_all
    then show ?thesis using True r r' seen seen' assms(4,7) i cfg
      by (simp add: Weight_alt clamp_weight_mono)
  next
    case False
    then have "malFactor ?c' \<le> malFactor ?c"
      using c' by (intro malFactor_mono assms) (simp_all add: hist_counts_def hist_count_def)
    then have "intentNorm s ct * Fin r' \<le> intentNorm s ct * Fin r"
      using r r' nn by (intro times_mono_pos) simp_all
    then show ?thesis using False r r' seen seen' assms(4,7) i cfg
      by (simp add: Weight_alt clamp_weight_mono)
  qed
qed

lemma evidence_moves_weight_witness:
  "Weight (ingest_labels (calibration_New (\<lambda>x. x) example_config) example_labels) ''a'' ''secret'' \<le>
   Weight (ingest_labels (ingest_labels (calibration_New (\<lambda>x. x) example_config) example_labels)
     [example_label ''a'' True [''secret'']]) ''a'' ''secret''"
proof -
  let ?s = "ingest_labels (calibration_New (\<lambda>x. x) example_config) example_labels"
  let ?l = "example_label ''a'' True [''secret'']"
  have l: "fl_Scope ?l = ''a''" "fl_WasMalicious ?l" by (simp_all add: example_label_def)
  then obtain s' where s': "Ingest ?s ?l = Inr s'" using store.ingest_total[of ?l ?s] by auto
  have "store_counts ?s ''a'' ''secret'' = \<lparr>mal = 2, ben = 0\<rparr>"
    by (simp add: store_counts_ingest_labels example_labels_hist)
  moreover from this have "store_counts s' ''a'' ''secret'' = \<lparr>mal = 3, ben = 0\<rparr>"
    using Ingest_counts[OF s', of "''a''" "''secret''"]
    by (simp add: add_counts_def hist_counts_def hist_count_def example_label_def)
  moreover have "finite_seeds (cs_cfg ?s)" "MinWeight (cs_cfg ?s) \<le> MaxWeight (cs_cfg ?s)"
    by (simp_all add: finite_seeds_def example_config_New default_clamp)
  ultimately have "Weight ?s ''a'' ''secret'' \<le> Weight s' ''a'' ''secret''"
    using evidence_moves_weight[OF s' l(1) example_calibrated, of "''secret''"] l(2) meanSeed_New_pos
    by (simp add: small_counts_def)
  moreover have "ingest_labels ?s [?l] = s'" using s' by simp
  ultimately show ?thesis by simp
qed

end
