(* ===== verification/Scope.thy ===== *)
theory Scope
  imports Contract
begin

text \<open>
  Scope resolution, \<^verbatim>\<open>internal/engine/scope/scope.go\<close>. A zone's match function and the cluster
  identity function are Go function values, possibly nil. The locale \<open>scope_resolver\<close> is the
  contract the engine relies on: a resolution that succeeds never yields the empty (global) scope.
\<close>

definition ErrUnresolved :: error where
  "ErrUnresolved = ''scope: cannot resolve scope key; refusing to start''"

record Zone =
  z_Key :: ScopeKey
  z_Match :: "(FlowIdentity \<Rightarrow> bool) option"

record scope_Config =
  Zones :: "Zone list"
  Cluster :: "(FlowIdentity \<Rightarrow> ScopeKey \<times> bool) option"
  Boundary :: ScopeKey

definition scope_Validate :: "scope_Config \<Rightarrow> error option" where
  "scope_Validate cfg =
     (if length (Zones cfg) = 0 \<and> Cluster cfg = None \<and> Boundary cfg = [] then Some ErrUnresolved
      else None)"

definition NewStaticResolver :: "scope_Config \<Rightarrow> scope_Config result" where
  "NewStaticResolver cfg = (case scope_Validate cfg of Some e \<Rightarrow> Inl e | None \<Rightarrow> Inr cfg)"

text \<open>The zone loop, left by the first zone that matches.\<close>

fun resolve_zones :: "Zone list \<Rightarrow> FlowIdentity \<Rightarrow> ScopeKey result option" where
  "resolve_zones [] f = None"
| "resolve_zones (z # zs) f =
     (case z_Match z of
        Some m \<Rightarrow> if m f then Some (if z_Key z = [] then Inl ErrUnresolved else Inr (z_Key z))
                  else resolve_zones zs f
      | None \<Rightarrow> resolve_zones zs f)"

definition Resolve :: "scope_Config \<Rightarrow> FlowIdentity \<Rightarrow> ScopeKey result" where
  "Resolve cfg f =
     (case resolve_zones (Zones cfg) f of
        Some r \<Rightarrow> r
      | None \<Rightarrow>
         (let catch_all = (if Boundary cfg \<noteq> [] then Inr (Boundary cfg) else Inl ErrUnresolved) in
          case Cluster cfg of
            Some c \<Rightarrow> (case c f of (k, ok) \<Rightarrow> if ok \<and> k \<noteq> [] then Inr k else catch_all)
          | None \<Rightarrow> catch_all))"

section \<open>The contract of a resolver\<close>

locale scope_resolver =
  fixes resolve :: "FlowIdentity \<Rightarrow> ScopeKey result"
  assumes resolved_nonempty: "resolve f = Inr k \<Longrightarrow> k \<noteq> []"
begin

lemma no_global_scope: "resolve f \<noteq> Inr []"
  using resolved_nonempty by blast

end

lemma resolve_zones_nonempty: "resolve_zones zs f = Some (Inr k) \<Longrightarrow> k \<noteq> []"
  by (induction zs) (auto split: option.splits if_splits)

interpretation static_resolver: scope_resolver "Resolve cfg" for cfg
  by unfold_locales
    (auto simp: Resolve_def Let_def dest: resolve_zones_nonempty split: option.splits prod.splits if_splits)

section \<open>Precedence of the resolution order\<close>

definition matches :: "FlowIdentity \<Rightarrow> Zone \<Rightarrow> bool" where
  "matches f z = (case z_Match z of Some m \<Rightarrow> m f | None \<Rightarrow> False)"

lemma resolve_zones_find:
  "resolve_zones zs f = map_option (\<lambda>z. if z_Key z = [] then Inl ErrUnresolved else Inr (z_Key z))
     (find (matches f) zs)"
  by (induction zs) (auto simp: matches_def split: option.splits)

text \<open>
  The documented order of resolution, as one equation: the first matching zone decides alone (a
  matching zone without a key is a hard failure, it never falls through); else a derivable
  non-empty cluster identity; else a non-empty boundary; else the hard failure.
\<close>

definition resolution_order :: "scope_Config \<Rightarrow> FlowIdentity \<Rightarrow> ScopeKey option" where
  "resolution_order cfg f =
     (case filter (matches f) (Zones cfg) of
        z # _ \<Rightarrow> if z_Key z = [] then None else Some (z_Key z)
      | [] \<Rightarrow>
         (case map fst (filter (\<lambda>(k, ok). ok \<and> k \<noteq> [])
                  (case Cluster cfg of Some c \<Rightarrow> [c f] | None \<Rightarrow> [])) @
               filter (\<lambda>k. k \<noteq> []) [Boundary cfg] of
            k # _ \<Rightarrow> Some k
          | [] \<Rightarrow> None))"

lemma find_filter: "find P xs = (case filter P xs of [] \<Rightarrow> None | x # _ \<Rightarrow> Some x)"
  by (induction xs) auto

lemma Resolve_order:
  "Resolve cfg f = (case resolution_order cfg f of Some k \<Rightarrow> Inr k | None \<Rightarrow> Inl ErrUnresolved)"
  by (auto simp: Resolve_def resolution_order_def resolve_zones_find find_filter
      split: list.splits option.splits prod.splits)

text \<open>A configuration that fails validation resolves no flow.\<close>

lemma scope_Validate_sound: "scope_Validate cfg = Some e \<Longrightarrow> Resolve cfg f = Inl ErrUnresolved"
  by (auto simp: scope_Validate_def Resolve_def split: if_splits)

end
