(* ===== verification/Baseline.thy ===== *)
theory Baseline
  imports Contract
begin

text \<open>
  The bounded baseline multiplier, \<^verbatim>\<open>internal/engine/baseline/baseline.go\<close>: features are capped and
  combined into a deviation, mapped by a saturating function into \<open>[1, M_max]\<close>, and gated to exactly
  1.0 unless the scope is calibrated, live and sufficient for the time bucket. The feature source,
  the matcher and the calibration predicate are Go interface or function values, possibly nil. The
  locale \<open>multiplier_source\<close> is the contract the scorer relies on.
\<close>

definition DefaultMMax :: f64 where "DefaultMMax = lit 3"
definition DefaultK :: f64 where "DefaultK = lit (1 / 2)"
definition DefaultCMax :: f64 where "DefaultCMax = lit 1"
definition DefaultSharpeningAlpha :: f64 where "DefaultSharpeningAlpha = lit (1 / 2)"

record Features =
  AdjacencyNovelty :: f64
  IdentityNovelty :: f64
  PortNovelty :: f64
  VolumeDeviation :: f64
  CadenceDeviation :: f64
  FingerprintMatch :: f64

definition contributions :: "Features \<Rightarrow> f64 list" where
  "contributions f = [AdjacencyNovelty f, IdentityNovelty f, PortNovelty f, VolumeDeviation f, CadenceDeviation f]"

record Params =
  MMax :: f64
  K :: f64
  CMax :: f64
  SharpeningAlpha :: f64

definition DefaultParams :: Params where
  "DefaultParams = \<lparr>MMax = DefaultMMax, K = DefaultK, CMax = DefaultCMax, SharpeningAlpha = 0\<rparr>"

definition Params_Normalized :: "Params \<Rightarrow> Params" where
  "Params_Normalized p0 =
     (let p1 = (if MMax p0 < 1 then p0\<lparr>MMax := DefaultMMax\<rparr> else p0);
          p2 = (if K p1 \<le> 0 then p1\<lparr>K := DefaultK\<rparr> else p1);
          p3 = (if CMax p2 \<le> 0 then p2\<lparr>CMax := DefaultCMax\<rparr> else p2);
          p4 = (if SharpeningAlpha p3 < 0 then p3\<lparr>SharpeningAlpha := 0\<rparr> else p3);
          mx = MMax p4 - 1
      in if mx < SharpeningAlpha p4 then p4\<lparr>SharpeningAlpha := mx\<rparr> else p4)"

definition cap_contribution :: "f64 \<Rightarrow> f64 \<Rightarrow> f64" where
  "cap_contribution cmax raw = (let c = (if raw < 0 then 0 else raw) in if cmax < c then cmax else c)"

definition Deviation :: "Features \<Rightarrow> Params \<Rightarrow> f64" where
  "Deviation f p =
     (let p' = Params_Normalized p
      in fsqrt (foldl (\<lambda>sumSq raw. let c = cap_contribution (CMax p') raw in sumSq + c * c) 0 (contributions f)))"

definition G :: "f64 \<Rightarrow> f64 \<Rightarrow> f64" where
  "G d k = (if d \<le> 0 then 0 else let k' = (if k \<le> 0 then DefaultK else k) in fdiv d (d + k'))"

definition MFromD :: "f64 \<Rightarrow> Params \<Rightarrow> f64" where
  "MFromD d p = (let p' = Params_Normalized p in 1 + (MMax p' - 1) * G d (K p'))"

definition MFromFeatures :: "Features \<Rightarrow> Params \<Rightarrow> f64" where
  "MFromFeatures f p =
     (let p' = Params_Normalized p; m = MFromD (Deviation f p') p' in
      if 0 < SharpeningAlpha p' then
        let m0 = (if FingerprintMatch f < 0 then 0 else FingerprintMatch f);
            match = (if 1 < m0 then 1 else m0);
            m1 = m + SharpeningAlpha p' * match
        in if MMax p' < m1 then MMax p' else m1
      else m)"

section \<open>Time buckets\<close>

text \<open>Go's zero time is a Monday; \<open>Weekday\<close> counts from Sunday.\<close>

definition Weekday :: "time \<Rightarrow> int" where "Weekday t = (t div (24 * hour) + 1) mod 7"

definition Hour :: "time \<Rightarrow> int" where "Hour t = t mod (24 * hour) div hour"

definition weekday_name :: "int \<Rightarrow> string" where
  "weekday_name d = [''Sunday'', ''Monday'', ''Tuesday'', ''Wednesday'', ''Thursday'', ''Friday'', ''Saturday''] ! nat d"

definition two_digits :: "int \<Rightarrow> string" where
  "two_digits n = [char_of (48 + nat (n div 10)), char_of (48 + nat (n mod 10))]"

definition DefaultBucketer :: "time \<Rightarrow> string" where
  "DefaultBucketer t = weekday_name (Weekday t) @ ''-'' @ two_digits (Hour t)"

definition WindowBucketer :: "time \<Rightarrow> string" where
  "WindowBucketer t =
     (let day = (if Weekday t = 6 \<or> Weekday t = 0 then ''weekend'' else ''weekday'');
          h = Hour t;
          part = (if h < 6 then ''night'' else if h < 12 then ''morning''
                  else if h < 18 then ''afternoon'' else ''evening'')
      in day @ ''-'' @ part)"

section \<open>The store\<close>

record scopeBaseline =
  live :: bool
  buckets :: "string \<rightharpoonup> bool"

type_synonym FeatureSource = "ScopeKey \<Rightarrow> FlowIdentity \<Rightarrow> time \<Rightarrow> Features \<times> bool"
type_synonym Matcher = "ScopeKey \<Rightarrow> FlowIdentity \<Rightarrow> time \<Rightarrow> f64"

record baseline_Store =
  bs_params :: Params
  bs_bucketer :: "time \<Rightarrow> string"
  bs_calibrated :: "(ScopeKey \<Rightarrow> bool) option"
  bs_features :: "FeatureSource option"
  bs_matcher :: "Matcher option"
  bs_scopes :: "ScopeKey \<rightharpoonup> scopeBaseline"

record baseline_Config =
  bc_Params :: Params
  bc_Bucketer :: "(time \<Rightarrow> string) option"
  bc_Calibrated :: "(ScopeKey \<Rightarrow> bool) option"

definition baseline_New :: "baseline_Config \<Rightarrow> baseline_Store" where
  "baseline_New cfg =
     \<lparr>bs_params = Params_Normalized (bc_Params cfg),
      bs_bucketer = (case bc_Bucketer cfg of None \<Rightarrow> DefaultBucketer | Some b \<Rightarrow> b),
      bs_calibrated = bc_Calibrated cfg, bs_features = None, bs_matcher = None, bs_scopes = Map.empty\<rparr>"

definition UseFeatureSource :: "baseline_Store \<Rightarrow> FeatureSource option \<Rightarrow> baseline_Store" where
  "UseFeatureSource s fs = (case fs of None \<Rightarrow> s | Some _ \<Rightarrow> s\<lparr>bs_features := fs\<rparr>)"

definition UseMatcher :: "baseline_Store \<Rightarrow> Matcher option \<Rightarrow> baseline_Store" where
  "UseMatcher s m = (case m of None \<Rightarrow> s | Some _ \<Rightarrow> s\<lparr>bs_matcher := m\<rparr>)"

text \<open>\<^verbatim>\<open>Store.scope\<close>: the entry of a scope, created on first use.\<close>

definition scope_entry :: "baseline_Store \<Rightarrow> ScopeKey \<Rightarrow> scopeBaseline" where
  "scope_entry s k = (case bs_scopes s k of None \<Rightarrow> \<lparr>live = False, buckets = Map.empty\<rparr> | Some sb \<Rightarrow> sb)"

definition SetLive :: "baseline_Store \<Rightarrow> ScopeKey \<Rightarrow> bool \<Rightarrow> baseline_Store" where
  "SetLive s k l = s\<lparr>bs_scopes := (bs_scopes s)(k \<mapsto> (scope_entry s k)\<lparr>live := l\<rparr>)\<rparr>"

definition SetBucketSufficient :: "baseline_Store \<Rightarrow> ScopeKey \<Rightarrow> string \<Rightarrow> bool \<Rightarrow> baseline_Store" where
  "SetBucketSufficient s k b ok =
     s\<lparr>bs_scopes := (bs_scopes s)(k \<mapsto>
         (scope_entry s k)\<lparr>buckets := (buckets (scope_entry s k))(b \<mapsto> ok)\<rparr>)\<rparr>"

definition bucket_ok :: "scopeBaseline \<Rightarrow> string \<Rightarrow> bool" where
  "bucket_ok sb b = (case buckets sb b of None \<Rightarrow> False | Some ok \<Rightarrow> ok)"

definition ready :: "baseline_Store \<Rightarrow> ScopeKey \<Rightarrow> time \<Rightarrow> bool" where
  "ready s k t =
     (case bs_calibrated s of
        None \<Rightarrow> False
      | Some cal \<Rightarrow>
          if \<not> cal k then False
          else case bs_scopes s k of
                 None \<Rightarrow> False
               | Some sb \<Rightarrow> if \<not> live sb then False else bucket_ok sb (bs_bucketer s t))"

record GateState =
  g_Live :: bool
  g_BucketSufficient :: bool
  g_Calibrated :: bool

definition baseline_State :: "baseline_Store \<Rightarrow> ScopeKey \<Rightarrow> time \<Rightarrow> GateState" where
  "baseline_State s k t =
     (let c = (case bs_calibrated s of None \<Rightarrow> False | Some cal \<Rightarrow> cal k) in
      case bs_scopes s k of
        None \<Rightarrow> \<lparr>g_Live = False, g_BucketSufficient = False, g_Calibrated = c\<rparr>
      | Some sb \<Rightarrow> \<lparr>g_Live = live sb, g_BucketSufficient = bucket_ok sb (bs_bucketer s t), g_Calibrated = c\<rparr>)"

definition M :: "baseline_Store \<Rightarrow> ScopeKey \<Rightarrow> Features \<Rightarrow> time \<Rightarrow> f64" where
  "M s k f t = (if \<not> ready s k t then lit 1 else MFromFeatures f (bs_params s))"

definition neutral_features :: Features where
  "neutral_features = \<lparr>AdjacencyNovelty = 0, IdentityNovelty = 0, PortNovelty = 0, VolumeDeviation = 0,
     CadenceDeviation = 0, FingerprintMatch = 0\<rparr>"

definition flow_features :: "baseline_Store \<Rightarrow> ScopeKey \<Rightarrow> FlowIdentity \<Rightarrow> time \<Rightarrow> Features" where
  "flow_features s k flow t =
     (let f = (case bs_features s of
                 None \<Rightarrow> neutral_features
               | Some fs \<Rightarrow> (case fs k flow t of (derived, ok) \<Rightarrow> if ok then derived else neutral_features))
      in case bs_matcher s of None \<Rightarrow> f | Some mt \<Rightarrow> f\<lparr>FingerprintMatch := mt k flow t\<rparr>)"

definition Multiplier :: "baseline_Store \<Rightarrow> ScopeKey \<Rightarrow> FlowIdentity \<Rightarrow> time \<Rightarrow> f64" where
  "Multiplier s k flow t = M s k (flow_features s k flow t) t"

lemmas baseline_defs [op_defs] = M_def Multiplier_def ready_def flow_features_def

section \<open>The gates\<close>

text \<open>\<open>ready\<close> is the conjunction of the three gates \<open>State\<close> reports.\<close>

lemma ready_gates:
  "ready s k t \<longleftrightarrow> g_Calibrated (baseline_State s k t) \<and> g_Live (baseline_State s k t) \<and>
     g_BucketSufficient (baseline_State s k t)"
  by (auto simp: ready_def baseline_State_def Let_def split: option.splits)

lemma ready_SetLive: "ready (SetLive s k l) k t \<Longrightarrow> l"
  by (auto simp: ready_def SetLive_def split: option.splits if_splits)

lemma ready_SetLive_other: "k' \<noteq> k \<Longrightarrow> ready (SetLive s k l) k' t = ready s k' t"
  by (simp add: ready_def SetLive_def split: option.splits)

lemma ready_SetBucket_other: "k' \<noteq> k \<Longrightarrow> ready (SetBucketSufficient s k b ok) k' t = ready s k' t"
  by (simp add: ready_def SetBucketSufficient_def split: option.splits)

section \<open>Range of the arithmetic\<close>

text \<open>A value in an interval of representable bounds.\<close>

definition in_range :: "f64 \<Rightarrow> rat \<Rightarrow> rat \<Rightarrow> bool" where
  "in_range x lo hi = (case x of Fin q \<Rightarrow> lo \<le> q \<and> q \<le> hi \<and> wf64 q | _ \<Rightarrow> False)"

lemma in_rangeE: "in_range x lo hi \<Longrightarrow> (\<And>q. x = Fin q \<Longrightarrow> lo \<le> q \<Longrightarrow> q \<le> hi \<Longrightarrow> wf64 q \<Longrightarrow> P) \<Longrightarrow> P"
  by (cases x) (auto simp: in_range_def)

lemma in_range_rnd: "wf64 lo \<Longrightarrow> wf64 hi \<Longrightarrow> lo \<le> x \<Longrightarrow> x \<le> hi \<Longrightarrow> in_range (rnd x) lo hi"
  by (rule rnd_between[of lo hi x]) (auto simp: in_range_def)

text \<open>
  Parameters an operator can set: finite values of the type, the cap of the multiplier no more than
  \<open>2\<^sup>5\<^sup>3\<close> and the per-feature cap no more than \<open>2\<^sup>5\<^sup>0\<^sup>0\<close> (so that its square does not overflow). Zero and
  negative values are allowed: \<open>Params_Normalized\<close> replaces them. The sharpening coefficient is free.
\<close>

definition sane_params :: "Params \<Rightarrow> bool" where
  "sane_params p =
     ((case MMax p of Fin m \<Rightarrow> wf64 m \<and> m \<le> 2 ^ 53 | _ \<Rightarrow> False) \<and>
      (case K p of Fin k \<Rightarrow> wf64 k | _ \<Rightarrow> False) \<and>
      (case CMax p of Fin c \<Rightarrow> wf64 c \<and> c \<le> 2 ^ 500 | _ \<Rightarrow> False))"

definition no_NaN :: "Features \<Rightarrow> bool" where
  "no_NaN f = (NaN \<notin> set (contributions f) \<and> FingerprintMatch f \<noteq> NaN)"

lemma lit_3 [simp]: "lit 3 = Fin 3" "wf64 3"
  using wf64_of_int[of 3] by (simp_all add: lit_def rnd_exact)

lemma Normalized_cases:
  assumes "sane_params p"
  obtains m k c where "MMax (Params_Normalized p) = Fin m" "wf64 m" "1 \<le> m" "m \<le> 2 ^ 53"
    "K (Params_Normalized p) = Fin k" "wf64 k" "0 < k"
    "CMax (Params_Normalized p) = Fin c" "wf64 c" "0 < c" "c \<le> 2 ^ 500"
proof -
  obtain m k c where p: "MMax p = Fin m" "wf64 m" "m \<le> 2 ^ 53" "K p = Fin k" "wf64 k" "CMax p = Fin c" "wf64 c" "c \<le> 2 ^ 500"
    using assms by (auto simp: sane_params_def split: f64.splits)
  show thesis
    by (rule that[of "if m < 1 then 3 else m" "if k \<le> 0 then 1 / 2 else k" "if c \<le> 0 then 1 else c"])
      (use p wf64_half_int[of 1] in \<open>simp_all add: Params_Normalized_def Let_def zero_f64_def one_f64_def
        DefaultMMax_def DefaultK_def DefaultCMax_def\<close>)
qed


lemma sane_Normalized: "sane_params p \<Longrightarrow> sane_params (Params_Normalized p)"
  by (rule Normalized_cases[of p]) (simp_all add: sane_params_def)

lemma MMax_Normalized_idem:
  "sane_params p \<Longrightarrow> MMax (Params_Normalized (Params_Normalized p)) = MMax (Params_Normalized p)"
  by (rule Normalized_cases[of p])
    (simp_all add: Params_Normalized_def[of "Params_Normalized p"] Let_def one_f64_def)

lemma Normalized_alpha:
  assumes "sane_params p" "MMax (Params_Normalized p) = Fin m" "0 < SharpeningAlpha (Params_Normalized p)"
  obtains a where "SharpeningAlpha (Params_Normalized p) = Fin a" "0 < a" "a \<le> m - 1"
proof -
  obtain m' where m': "MMax (Params_Normalized p) = Fin m'" "wf64 m'" "1 \<le> m'" "m' \<le> 2 ^ 53"
    using assms(1) by (rule Normalized_cases)
  with assms(2) have m: "wf64 m" "1 \<le> m" "m \<le> 2 ^ 53" by simp_all
  then have one: "Fin m - 1 = Fin (m - 1)" by (simp add: one_f64_def rnd_exact wf64_minus_one)
  define q where "q = (let p1 = (if MMax p < 1 then p\<lparr>MMax := DefaultMMax\<rparr> else p);
          p2 = (if K p1 \<le> 0 then p1\<lparr>K := DefaultK\<rparr> else p1);
          p3 = (if CMax p2 \<le> 0 then p2\<lparr>CMax := DefaultCMax\<rparr> else p2)
      in if SharpeningAlpha p3 < 0 then p3\<lparr>SharpeningAlpha := 0\<rparr> else p3)"
  have n: "Params_Normalized p = (if MMax q - 1 < SharpeningAlpha q then q\<lparr>SharpeningAlpha := MMax q - 1\<rparr> else q)"
    by (simp add: Params_Normalized_def q_def Let_def)
  with assms(2) have mq: "MMax q = Fin m" by (auto split: if_splits)
  from assms(3) n mq one show thesis
    by (cases "SharpeningAlpha q") (auto simp: zero_f64_def split: if_splits intro: that)
qed

text \<open>Features: each contribution is capped, their squares add up without overflow.\<close>

lemma cap_contribution_range:
  assumes "raw \<noteq> NaN" "0 < c" obtains x where "cap_contribution (Fin c) raw = Fin x" "0 \<le> x" "x \<le> c"
proof (cases raw)
  case (Fin q)
  then show ?thesis using assms that[of "if q < 0 then 0 else if c < q then c else q"]
    by (simp add: cap_contribution_def Let_def zero_f64_def split: if_splits)
qed (use assms that[of 0] that[of c] in \<open>auto simp: cap_contribution_def Let_def zero_f64_def\<close>)

lemma wf64_sum_bound: "n \<le> 5 \<Longrightarrow> wf64 (of_nat n * pow2 1000)"
proof -
  assume n: "n \<le> 5"
  have "representable (of_int (int n) * pow2 1000)"
    unfolding representable_def using n by (intro exI[of _ "int n"] exI[of _ 1000]) simp
  moreover have "of_nat n * pow2 1000 \<le> pow2 3 * pow2 1000"
    using n by (intro mult_right_mono) (simp_all add: pow2_def)
  then have "of_nat n * pow2 1000 < max_exp"
    using pow2_strict_mono[of 1003 1024] by (simp add: pow2_add[symmetric] max_exp_def pow2_def[of 1024])
  ultimately show ?thesis by (simp add: wf64_def)
qed

lemma square_sum_range:
  assumes "\<forall>raw\<in>set raws. raw \<noteq> NaN" "0 < c" "c \<le> 2 ^ 500" "length raws + n \<le> 5" "in_range acc 0 (of_nat n * pow2 1000)"
  shows "in_range (foldl (\<lambda>sumSq raw. let x = cap_contribution (Fin c) raw in sumSq + x * x) acc raws) 0
           (of_nat (length raws + n) * pow2 1000)"
  using assms
proof (induction raws arbitrary: acc n)
  case (Cons raw raws)
  obtain x where x: "cap_contribution (Fin c) raw = Fin x" "0 \<le> x" "x \<le> c"
    using Cons.prems by (auto elim: cap_contribution_range[of raw c])
  have "x * x \<le> 2 ^ 500 * 2 ^ 500" using x Cons.prems by (intro mult_mono) auto
  also have "\<dots> = pow2 1000" by (simp add: pow2_def power_add[symmetric])
  finally have "in_range (rnd (x * x)) 0 (pow2 1000)"
    using x wf64_sum_bound[of 1] by (intro in_range_rnd) simp_all
  then obtain y where y: "Fin x * Fin x = Fin y" "0 \<le> y" "y \<le> pow2 1000" by (auto elim: in_rangeE)
  from Cons.prems obtain z where z: "acc = Fin z" "0 \<le> z" "z \<le> of_nat n * pow2 1000" by (auto elim: in_rangeE)
  have "in_range (acc + Fin x * Fin x) 0 (of_nat (Suc n) * pow2 1000)"
    unfolding y(1) z(1) plus_f64.simps using y z Cons.prems wf64_sum_bound[of "Suc n"]
    by (intro in_range_rnd) (simp_all add: algebra_simps)
  from Cons.IH[OF _ _ _ _ this] Cons.prems show ?case by (simp add: Let_def x(1))
qed simp

lemma Deviation_range:
  assumes "sane_params p" "no_NaN f" obtains d where "Deviation f p = Fin d" "wf64 d" "0 \<le> d"
proof -
  obtain c where c: "CMax (Params_Normalized p) = Fin c" "0 < c" "c \<le> 2 ^ 500"
    using assms(1) by (rule Normalized_cases)
  have "in_range (0 :: f64) 0 (of_nat 0 * pow2 1000)" by (simp add: in_range_def zero_f64_def)
  from square_sum_range[OF _ c(2,3) _ this, of "contributions f"] assms(2) obtain q
    where "foldl (\<lambda>sumSq raw. let x = cap_contribution (Fin c) raw in sumSq + x * x) 0 (contributions f) = Fin q"
      "wf64 q" "0 \<le> q"
    by (force simp: no_NaN_def contributions_def elim: in_rangeE)
  then show thesis using that[of "sqrt64 q"] c(1)
    by (simp add: Deviation_def Let_def wf64_sqrt64 sqrt64_nonneg)
qed

lemma G_range:
  assumes "wf64 d" "0 \<le> d" "wf64 k" "0 < k" shows "in_range (G (Fin d) (Fin k)) 0 1"
proof (cases "d = 0")
  case True
  then show ?thesis by (simp add: G_def zero_f64_def in_range_def)
next
  case False
  with assms have d: "0 < d" by simp
  have g: "G (Fin d) (Fin k) = fdiv (Fin d) (rnd (d + k))"
    using d assms by (simp add: G_def zero_f64_def Let_def)
  have "rnd d \<le> rnd (d + k)" using assms by (intro rnd_mono) simp
  then have le: "Fin d \<le> rnd (d + k)" by (simp add: rnd_exact assms)
  show ?thesis
  proof (cases "rnd (d + k)")
    case (Fin e)
    with le d have "0 < e" "0 \<le> d / e" "d / e \<le> 1" by simp_all
    then have "in_range (rnd (d / e)) 0 1" by (intro in_range_rnd) simp_all
    with g Fin \<open>0 < e\<close> show ?thesis by simp
  qed (use g le in \<open>simp_all add: in_range_def\<close>)
qed

lemma MFromD_range:
  assumes "sane_params p" "wf64 d" "0 \<le> d" "MMax (Params_Normalized p) = Fin m"
  shows "in_range (MFromD (Fin d) p) 1 m"
proof -
  obtain m' k where m': "MMax (Params_Normalized p) = Fin m'" "wf64 m'" "1 \<le> m'" "m' \<le> 2 ^ 53"
    and k: "K (Params_Normalized p) = Fin k" "wf64 k" "0 < k"
    using assms(1) by (rule Normalized_cases)
  with assms(4) have m: "wf64 m" "1 \<le> m" "m \<le> 2 ^ 53" by simp_all
  have w: "wf64 (m - 1)" using m by (rule wf64_minus_one)
  obtain g where g: "G (Fin d) (Fin k) = Fin g" "0 \<le> g" "g \<le> 1"
    using G_range[OF assms(2,3) k(2,3)] by (rule in_rangeE)
  obtain r where r: "rnd ((m - 1) * g) = Fin r" "0 \<le> r" "r \<le> m - 1"
    using w m(2) g by (auto elim: rnd_prod_le[of "m - 1" g])
  have "MFromD (Fin d) p = rnd (1 + r)"
    using assms(4) k(1) g(1) r(1) w by (simp add: MFromD_def Let_def one_f64_def rnd_exact)
  then show ?thesis using r m by (simp add: in_range_rnd)
qed

lemma MFromFeatures_range:
  assumes "sane_params p" "no_NaN f" "MMax (Params_Normalized p) = Fin m"
  shows "in_range (MFromFeatures f p) 1 m"
proof -
  let ?p = "Params_Normalized p"
  have sp: "sane_params ?p" using assms(1) by (rule sane_Normalized)
  obtain d where d: "Deviation f ?p = Fin d" "wf64 d" "0 \<le> d" using sp assms(2) by (rule Deviation_range)
  have "in_range (MFromD (Fin d) ?p) 1 m"
    using sp d by (intro MFromD_range) (simp_all add: MMax_Normalized_idem assms)
  then obtain b where b: "MFromD (Deviation f ?p) ?p = Fin b" "1 \<le> b" "b \<le> m" "wf64 b"
    unfolding d(1) by (rule in_rangeE)
  obtain m' where m': "MMax ?p = Fin m'" "wf64 m'" "1 \<le> m'" "m' \<le> 2 ^ 53"
    using assms(1) by (rule Normalized_cases)
  with assms(3) have m: "wf64 m" "1 \<le> m" "m \<le> 2 ^ 53" by simp_all
  show ?thesis
  proof (cases "0 < SharpeningAlpha ?p")
    case False
    with b show ?thesis by (simp add: MFromFeatures_def Let_def in_range_def)
  next
    case True
    obtain a where a: "SharpeningAlpha ?p = Fin a" "0 < a" "a \<le> m - 1"
      using assms(1,3) True by (rule Normalized_alpha)
    define mt where "mt = (let m0 = (if FingerprintMatch f < 0 then 0 else FingerprintMatch f) in if 1 < m0 then 1 else m0)"
    have "\<exists>x. mt = Fin x \<and> 0 \<le> x \<and> x \<le> 1"
      using assms(2) by (cases "FingerprintMatch f") (auto simp: mt_def Let_def no_NaN_def zero_f64_def one_f64_def)
    then obtain x where x: "mt = Fin x" "0 \<le> x" "x \<le> 1" by blast
    have "a * x \<le> a" using a x by (intro mult_left_le) simp_all
    with a have "a * x \<le> m - 1" by linarith
    then have "in_range (rnd (a * x)) 0 (m - 1)"
      using a x m by (intro in_range_rnd wf64_minus_one) simp_all
    then obtain y where y: "rnd (a * x) = Fin y" "0 \<le> y" "y \<le> m - 1" by (rule in_rangeE)
    have f: "MFromFeatures f p = (if Fin m < rnd (b + y) then Fin m else rnd (b + y))"
      using True by (simp add: MFromFeatures_def Let_def assms(3) b(1) a(1) y(1)
          mt_def[unfolded Let_def, symmetric] x(1))
    have "rnd 1 \<le> rnd (b + y)" using b y by (intro rnd_mono) simp
    then have "Fin 1 \<le> rnd (b + y)" by (simp add: rnd_exact)
    then show ?thesis using f m f64_ok_rnd[of "b + y"]
      by (cases "rnd (b + y)") (auto simp: in_range_def)
  qed
qed


section \<open>The contract of a multiplier source\<close>

text \<open>
  What the scorer relies on: a source in a good state answers with a number of at least one and at
  most its cap. Everything a client needs follows: the multiplier never suppresses and never
  triggers.
\<close>

locale multiplier_source =
  fixes mult :: "'s \<Rightarrow> ScopeKey \<Rightarrow> FlowIdentity \<Rightarrow> time \<Rightarrow> f64"
    and good :: "'s \<Rightarrow> ScopeKey \<Rightarrow> FlowIdentity \<Rightarrow> time \<Rightarrow> bool"
    and cap :: "'s \<Rightarrow> f64"
  assumes mult_ge_one: "good s k f t \<Longrightarrow> 1 \<le> mult s k f t"
    and mult_le_cap: "good s k f t \<Longrightarrow> mult s k f t \<le> cap s"
    and cap_finite: "good s k f t \<Longrightarrow> cap s < PInf"
begin

lemma mult_Fin:
  assumes "good s k f t" obtains r where "mult s k f t = Fin r" "1 \<le> r"
  using mult_ge_one[OF assms] mult_le_cap[OF assms] cap_finite[OF assms]
  by (cases "mult s k f t"; cases "cap s") (auto simp: one_f64_def)

lemma never_triggers: "good s k f t \<Longrightarrow> 0 * mult s k f t = 0"
  by (rule mult_Fin[of s k f t]) (simp_all add: zero_f64_def rnd_exact)

lemma never_suppresses:
  assumes "good s k f t" "0 \<le> base" "f64_ok base" shows "base \<le> base * mult s k f t"
proof -
  obtain r where r: "mult s k f t = Fin r" "1 \<le> r" using assms(1) by (rule mult_Fin)
  show ?thesis
  proof (cases base)
    case (Fin b)
    with assms r have "rnd b \<le> rnd (b * r)" by (intro rnd_mono) (simp add: zero_f64_def mult_le_cancel_left1)
    with Fin assms r show ?thesis by (simp add: rnd_exact)
  qed (use assms r in \<open>auto simp: zero_f64_def\<close>)
qed

lemma clamp_noop: "good s k f t \<Longrightarrow> \<not> mult s k f t < 1"
  using mult_ge_one[of s k f t] by (cases "mult s k f t") (auto simp: one_f64_def)

end

section \<open>Reachable stores\<close>

text \<open>The stores a process can hold: built by \<open>New\<close> and changed by the exported operations, in any order.\<close>

inductive baseline_reach :: "baseline_Config \<Rightarrow> baseline_Store \<Rightarrow> bool" for cfg where
  new: "baseline_reach cfg (baseline_New cfg)"
| features: "baseline_reach cfg s \<Longrightarrow> baseline_reach cfg (UseFeatureSource s fs)"
| matcher: "baseline_reach cfg s \<Longrightarrow> baseline_reach cfg (UseMatcher s mt)"
| set_live: "baseline_reach cfg s \<Longrightarrow> baseline_reach cfg (SetLive s k l)"
| set_bucket: "baseline_reach cfg s \<Longrightarrow> baseline_reach cfg (SetBucketSufficient s k b ok)"

lemma baseline_reach_params: "baseline_reach cfg s \<Longrightarrow> bs_params s = Params_Normalized (bc_Params cfg)"
  by (induction rule: baseline_reach.induct)
    (auto simp: baseline_New_def UseFeatureSource_def UseMatcher_def SetLive_def SetBucketSufficient_def
      split: option.splits)

text \<open>The stores for which the source contract holds, and the flows whose features are numbers.\<close>

definition store_good :: "baseline_Store \<Rightarrow> ScopeKey \<Rightarrow> FlowIdentity \<Rightarrow> time \<Rightarrow> bool" where
  "store_good s k f t \<longleftrightarrow> sane_params (bs_params s) \<and> no_NaN (flow_features s k f t)"

definition store_cap :: "baseline_Store \<Rightarrow> f64" where
  "store_cap s = MMax (Params_Normalized (bs_params s))"

lemma Multiplier_range:
  assumes "store_good s k f t"
  obtains m where "store_cap s = Fin m" "1 \<le> m" "in_range (Multiplier s k f t) 1 m"
proof -
  obtain m where m: "MMax (Params_Normalized (bs_params s)) = Fin m" "1 \<le> m"
    using assms by (auto simp: store_good_def elim: Normalized_cases)
  have "in_range (Fin 1) 1 m" using m by (simp add: in_range_def)
  then have "in_range (Multiplier s k f t) 1 m"
    using assms m by (auto simp: Multiplier_def M_def store_good_def MFromFeatures_range)
  with m that show thesis by (simp add: store_cap_def)
qed

interpretation baseline_source: multiplier_source Multiplier store_good store_cap
proof unfold_locales
  fix s k f t assume g: "store_good s k f t"
  then obtain m where m: "store_cap s = Fin m" "in_range (Multiplier s k f t) 1 m" by (rule Multiplier_range)
  then show "1 \<le> Multiplier s k f t" "Multiplier s k f t \<le> store_cap s" "store_cap s < PInf"
    by (auto simp: one_f64_def elim!: in_rangeE)
qed

text \<open>
  Property C32. The baseline multiplier is bounded in binary64 arithmetic: in every reachable store
  with finite parameters, whenever the derived features are numbers (of any size, infinities
  included), the multiplier lies in \<open>[1, M_max]\<close>; and it is exactly 1.0 unless the scope is
  calibrated, live and sufficient in the time bucket.
\<close>

theorem baseline_multiplier_bounded:
  assumes "baseline_reach cfg s" "sane_params (bc_Params cfg)" "no_NaN (flow_features s k f t)"
  shows "1 \<le> Multiplier s k f t \<and> Multiplier s k f t \<le> MMax (bs_params s) \<and>
    (g_Calibrated (baseline_State s k t) \<and> g_Live (baseline_State s k t) \<and>
     g_BucketSufficient (baseline_State s k t) \<or> Multiplier s k f t = lit 1)"
proof -
  have p: "bs_params s = Params_Normalized (bc_Params cfg)" using assms(1) by (rule baseline_reach_params)
  have "store_good s k f t" using assms(2,3) p by (simp add: store_good_def sane_Normalized)
  then have "1 \<le> Multiplier s k f t" "Multiplier s k f t \<le> MMax (bs_params s)"
    using baseline_source.mult_ge_one baseline_source.mult_le_cap[of s k f t]
    by (simp_all add: store_cap_def p MMax_Normalized_idem assms(2))
  then show ?thesis by (auto simp: Multiplier_def M_def ready_gates)
qed

definition demo_baseline :: baseline_Store where
  "demo_baseline = SetBucketSufficient (SetLive
     (UseFeatureSource (baseline_New \<lparr>bc_Params = DefaultParams, bc_Bucketer = Some WindowBucketer,
        bc_Calibrated = Some (\<lambda>_. True)\<rparr>)
       (Some (\<lambda>_ _ _. (neutral_features\<lparr>AdjacencyNovelty := PInf\<rparr>, True))))
     ''a'' True) ''a'' ''weekday-night'' True"

lemma baseline_multiplier_bounded_witness:
  "1 \<le> Multiplier demo_baseline ''a'' (cookie_flow 7) 1 \<and> Multiplier demo_baseline ''a'' (cookie_flow 7) 1 \<le> Fin 3"
proof -
  have r: "baseline_reach \<lparr>bc_Params = DefaultParams, bc_Bucketer = Some WindowBucketer, bc_Calibrated = Some (\<lambda>_. True)\<rparr> demo_baseline"
    unfolding demo_baseline_def by (intro baseline_reach.intros)
  have "sane_params DefaultParams" "MMax (Params_Normalized DefaultParams) = Fin 3"
    using wf64_half_int[of 1]
    by (simp_all add: sane_params_def DefaultParams_def DefaultMMax_def DefaultK_def DefaultCMax_def
        Params_Normalized_def Let_def zero_f64_def one_f64_def rnd_exact)
  moreover have "no_NaN (flow_features demo_baseline ''a'' (cookie_flow 7) 1)"
    by (simp add: no_NaN_def flow_features_def contributions_def demo_baseline_def UseFeatureSource_def
        baseline_New_def SetLive_def SetBucketSufficient_def neutral_features_def zero_f64_def)
  ultimately show ?thesis
    using baseline_multiplier_bounded[OF r, of "''a''" "cookie_flow 7" 1] baseline_reach_params[OF r] by simp
qed

lemma foldl_NaN: "foldl (\<lambda>sumSq raw. let c = cap_contribution cmax raw in sumSq + c * c) NaN raws = NaN"
  by (induction raws) (simp_all add: Let_def)

lemma square_sum_NaN:
  "NaN \<in> set raws \<Longrightarrow> foldl (\<lambda>sumSq raw. let c = cap_contribution cmax raw in sumSq + c * c) acc raws = NaN"
proof (induction raws arbitrary: acc)
  case (Cons raw raws)
  have "cap_contribution cmax NaN = NaN" by (simp add: cap_contribution_def Let_def)
  with Cons foldl_NaN[of cmax raws] show ?case by (cases "raw = NaN") (auto simp: Let_def)
qed simp

text \<open>
  The bound needs the features to be numbers: a single NaN feature makes the multiplier
  NaN for every parameter setting. Neither the per-feature cap nor the final clamp stops it, since
  every comparison with NaN is false.
\<close>

theorem nan_feature_escapes:
  assumes "NaN \<in> set (contributions f)" shows "MFromFeatures f p = NaN"
proof -
  have "Deviation f q = NaN" for q using square_sum_NaN[OF assms] by (simp add: Deviation_def Let_def)
  then show ?thesis by (simp add: MFromFeatures_def MFromD_def G_def Let_def)
qed

lemma nan_feature_escapes_witness: "MFromFeatures (neutral_features\<lparr>VolumeDeviation := NaN\<rparr>) DefaultParams = NaN"
  by (rule nan_feature_escapes) (simp add: contributions_def)

end
