(* ===== verification/Scoring.thy ===== *)
theory Scoring
  imports Baseline
begin

text \<open>
  The windowed weighted scorer, \<^verbatim>\<open>internal/engine/scoring/scoring.go\<close>. Per scope and socket cookie it
  keeps the last touch time of each canary type; a score sums the weights of the types touched in
  the trailing window and multiplies by the baseline multiplier. Both maps are ranged over, so they
  are association lists and the operations take the enumerations \<open>permT\<close> (touches) and \<open>permF\<close>
  (flows). The lemmas: the number of live flows stays within the cap, and reaping is invisible: on
  events in order the score is the one computed from the whole touch history.
\<close>

abbreviation (input) DefaultWindow :: duration where "DefaultWindow \<equiv> 5 * minute"
abbreviation (input) DefaultMaxCookiesPerScope :: int where "DefaultMaxCookiesPerScope \<equiv> 100000"

type_synonym Weights = "ScopeKey \<Rightarrow> CanaryType \<Rightarrow> f64"
type_synonym BenignExcluder = "FlowIdentity \<Rightarrow> bool"
type_synonym MultiplierSource = "ScopeKey \<Rightarrow> FlowIdentity \<Rightarrow> time \<Rightarrow> f64"

definition NoExclusions :: BenignExcluder where "NoExclusions f = False"

definition NeutralMultiplier :: MultiplierSource where "NeutralMultiplier k f t = lit 1"

record flowState =
  touches :: "(CanaryType \<times> time) list"
  lastTouch :: time

type_synonym flows = "(u64 \<times> flowState) list"

record WindowedScorer =
  sc_window :: duration
  sc_weights :: "Weights option"
  sc_excluder :: BenignExcluder
  sc_multiplier :: MultiplierSource
  maxPerScope :: int
  sc_state :: "ScopeKey \<rightharpoonup> flows"

definition scoring_New :: "duration \<Rightarrow> Weights option \<Rightarrow> BenignExcluder option \<Rightarrow> WindowedScorer" where
  "scoring_New window weights excluder =
     \<lparr>sc_window = (if window \<le> 0 then DefaultWindow else window), sc_weights = weights,
      sc_excluder = (case excluder of None \<Rightarrow> NoExclusions | Some e \<Rightarrow> e),
      sc_multiplier = NeutralMultiplier, maxPerScope = DefaultMaxCookiesPerScope, sc_state = Map.empty\<rparr>"

definition WithMaxCookiesPerScope :: "WindowedScorer \<Rightarrow> int \<Rightarrow> WindowedScorer" where
  "WithMaxCookiesPerScope s n = (if n > 0 then s\<lparr>maxPerScope := n\<rparr> else s)"

definition UseMultiplier :: "WindowedScorer \<Rightarrow> MultiplierSource option \<Rightarrow> WindowedScorer" where
  "UseMultiplier s m = (case m of None \<Rightarrow> s | Some src \<Rightarrow> s\<lparr>sc_multiplier := src\<rparr>)"

text \<open>The eviction loop over the sorted candidates: \<^verbatim>\<open>for i < len(candidates) && len(byFlow) > maxPerScope\<close>.\<close>

fun evict :: "int \<Rightarrow> u64 list \<Rightarrow> flows \<Rightarrow> flows" where
  "evict mx [] m = m"
| "evict mx (c # cs) m = (if mx < int (length m) then evict mx cs (AList.delete c m) else m)"

definition reap :: "(flows \<Rightarrow> flows) \<Rightarrow> int \<Rightarrow> flows \<Rightarrow> u64 \<Rightarrow> time \<Rightarrow> flows" where
  "reap permF mx byFlow keep cutoff =
     (let live = filter (\<lambda>(cookie, fs). cookie = keep \<or> \<not> lastTouch fs < cutoff) byFlow in
      if mx \<le> 0 \<or> int (length live) \<le> mx then live
      else let candidates = sort_key (\<lambda>(_, last). last)
                 (map (\<lambda>(cookie, fs). (cookie, lastTouch fs)) (filter (\<lambda>(cookie, _). cookie \<noteq> keep) (permF live)))
           in evict mx (map fst candidates) live)"

text \<open>The state update of one touch, before reaping: the flow's entry is created on first use.\<close>

definition empty_flow :: flowState where "empty_flow = \<lparr>touches = [], lastTouch = 0\<rparr>"

definition flows_of :: "WindowedScorer \<Rightarrow> ScopeKey \<Rightarrow> flows" where
  "flows_of s scope = (case sc_state s scope of None \<Rightarrow> [] | Some m \<Rightarrow> m)"

definition flow_entry :: "flows \<Rightarrow> u64 \<Rightarrow> flowState" where
  "flow_entry m key = (case map_of m key of None \<Rightarrow> empty_flow | Some fs \<Rightarrow> fs)"

definition record_touch :: "flowState \<Rightarrow> SignalEvent \<Rightarrow> flowState" where
  "record_touch fs ev =
     \<lparr>touches = AList.update (ev_Canary ev) (ev_Timestamp ev) (touches fs),
      lastTouch = (if lastTouch fs < ev_Timestamp ev then ev_Timestamp ev else lastTouch fs)\<rparr>"

definition sum_live :: "Weights \<Rightarrow> ScopeKey \<Rightarrow> time \<Rightarrow> (CanaryType \<times> time) list \<Rightarrow> f64" where
  "sum_live w scope cutoff ts =
     foldl (\<lambda>base (ct, last). if last < cutoff then base else base + w scope ct) 0 ts"

definition drop_expired :: "time \<Rightarrow> (CanaryType \<times> time) list \<Rightarrow> (CanaryType \<times> time) list" where
  "drop_expired cutoff ts = filter (\<lambda>(_, last). \<not> last < cutoff) ts"

definition Score ::
  "((CanaryType \<times> time) list \<Rightarrow> (CanaryType \<times> time) list) \<Rightarrow> (flows \<Rightarrow> flows) \<Rightarrow>
   WindowedScorer \<Rightarrow> ScopeKey \<Rightarrow> SignalEvent \<Rightarrow> f64 result \<times> WindowedScorer" where
  "Score permT permF s scope ev =
     (if scope = [] then (Inl ''scoring: empty scope; resolve scope before scoring'', s)
      else case sc_weights s of
        None \<Rightarrow> (Inl ''scoring: nil weights source'', s)
      | Some w \<Rightarrow>
          if sc_excluder s (ev_Flow ev) then (Inr 0, s)
          else
            let key = SocketCookie (ev_Flow ev);
                cutoff = ev_Timestamp ev - sc_window s;
                byFlow = flows_of s scope;
                fs = record_touch (flow_entry byFlow key) ev;
                byFlow1 = AList.update key fs byFlow;
                byFlow2 = reap permF (maxPerScope s) byFlow1 key cutoff;
                base = sum_live w scope cutoff (permT (touches fs));
                fs' = fs\<lparr>touches := drop_expired cutoff (touches fs)\<rparr>;
                byFlow3 = AList.update key fs' byFlow2;
                m0 = sc_multiplier s scope (ev_Flow ev) (ev_Timestamp ev);
                m = (if m0 < 1 then 1 else m0)
            in (Inr (base * m), s\<lparr>sc_state := (sc_state s)(scope \<mapsto> byFlow3)\<rparr>))"

lemmas scoring_defs [op_defs] = Score_def reap_def record_touch_def

interpretation neutral_source: multiplier_source "\<lambda>_. NeutralMultiplier" "\<lambda>_ _ _ _. True" "\<lambda>_. lit 1"
  by unfold_locales (simp_all add: NeutralMultiplier_def one_f64_def)

section \<open>The size cap\<close>

lemma length_delete_mem:
  assumes "distinct (map fst m)" "c \<in> fst ` set m" shows "length (AList.delete c m) = length m - 1"
proof -
  have "length (AList.delete c m) = length (removeAll c (map fst m))"
    by (metis AList.delete_keys length_map)
  also have "\<dots> = length (remove1 c (map fst m))"
    using assms(1) by (simp add: distinct_remove1_removeAll)
  also have "\<dots> = length m - 1" using assms(2) by (simp add: length_remove1)
  finally show ?thesis .
qed

lemma evict_keep: "distinct (map fst m) \<Longrightarrow> distinct (map fst (evict mx cs m))"
  by (induction mx cs m rule: evict.induct) (auto simp: distinct_delete)

lemma evict_map_of: "k \<notin> set cs \<Longrightarrow> map_of (evict mx cs m) k = map_of m k"
  by (induction mx cs m rule: evict.induct) (auto simp: delete_conv')

lemma evict_subset: "set (evict mx cs m) \<subseteq> set m"
  by (induction mx cs m rule: evict.induct) (auto simp: AList.delete_eq)

lemma evict_length:
  assumes "distinct cs" "distinct (map fst m)" "set cs \<subseteq> fst ` set m" "int (length m - length cs) \<le> mx"
  shows "int (length (evict mx cs m)) \<le> mx"
  using assms
proof (induction mx cs m rule: evict.induct)
  case (2 mx c cs m)
  show ?case
  proof (cases "mx < int (length m)")
    case True
    have l: "length (AList.delete c m) = length m - 1" using 2 by (intro length_delete_mem) auto
    have "set cs \<subseteq> fst ` set (AList.delete c m)"
      using 2 by (auto simp: AList.delete_eq image_iff) (metis (no_types, lifting) fst_conv image_iff prod.collapse subsetD)
    with 2 True l show ?thesis by (simp add: distinct_delete)
  qed (use 2 in simp)
qed simp


definition flow_ok :: "flowState \<Rightarrow> bool" where
  "flow_ok fs \<longleftrightarrow> distinct (map fst (touches fs)) \<and> (\<forall>ct t. map_of (touches fs) ct = Some t \<longrightarrow> t \<le> lastTouch fs)"

definition flows_ok :: "flows \<Rightarrow> bool" where
  "flows_ok m \<longleftrightarrow> distinct (map fst m) \<and> (\<forall>c fs. map_of m c = Some fs \<longrightarrow> flow_ok fs)"

lemma flows_okI: "distinct (map fst m) \<Longrightarrow> (\<And>c fs. map_of m c = Some fs \<Longrightarrow> flow_ok fs) \<Longrightarrow> flows_ok m"
  by (simp add: flows_ok_def)

lemma flow_ok_empty [simp]: "flow_ok empty_flow"
  by (simp add: flow_ok_def empty_flow_def)

lemma flow_ok_entry [inv_intros]: "flows_ok m \<Longrightarrow> flow_ok (flow_entry m key)"
  by (simp add: flow_entry_def flows_ok_def split: option.split)

lemma flow_ok_record [inv_intros]: "flow_ok fs \<Longrightarrow> flow_ok (record_touch fs ev)"
  by (force simp: flow_ok_def record_touch_def distinct_update AList.update_conv')

lemma flow_ok_drop [inv_intros]: "flow_ok fs \<Longrightarrow> flow_ok (fs\<lparr>touches := drop_expired cutoff (touches fs)\<rparr>)"
  by (auto simp: flow_ok_def drop_expired_def distinct_fst_filter map_of_filter_distinct
      split: option.splits if_splits)

lemma flows_ok_update [inv_intros]: "flows_ok m \<Longrightarrow> flow_ok fs \<Longrightarrow> flows_ok (AList.update k fs m)"
  by (auto simp: flows_ok_def distinct_update AList.update_conv' split: if_splits)

lemma flows_ok_filter: "flows_ok m \<Longrightarrow> flows_ok (filter P m)"
  by (auto simp: flows_ok_def distinct_fst_filter map_of_filter_distinct split: option.splits if_splits)

lemma flows_ok_evict: "flows_ok m \<Longrightarrow> flows_ok (evict mx cs m)"
  using evict_subset[of mx cs m] by (auto simp: flows_ok_def evict_keep)

lemma flows_ok_reap [inv_intros]: "flows_ok m \<Longrightarrow> flows_ok (reap permF mx m keep cutoff)"
  by (simp add: reap_def Let_def flows_ok_filter flows_ok_evict)

text \<open>The reaper never drops the flow being scored, keeps what it keeps unchanged, and drops only idle flows while the cap is not exceeded.\<close>

definition unexpired :: "flows \<Rightarrow> u64 \<Rightarrow> time \<Rightarrow> flows" where
  "unexpired m keep cutoff = filter (\<lambda>(cookie, fs). cookie = keep \<or> \<not> lastTouch fs < cutoff) m"

lemma reap_alt:
  "reap permF mx m keep cutoff =
     (if mx \<le> 0 \<or> int (length (unexpired m keep cutoff)) \<le> mx then unexpired m keep cutoff
      else evict mx (map fst (sort_key (\<lambda>(_, last). last) (map (\<lambda>(cookie, fs). (cookie, lastTouch fs))
             (filter (\<lambda>(cookie, _). cookie \<noteq> keep) (permF (unexpired m keep cutoff)))))) (unexpired m keep cutoff))"
  by (simp add: reap_def unexpired_def Let_def)

definition candidates_of :: "(flows \<Rightarrow> flows) \<Rightarrow> flows \<Rightarrow> u64 \<Rightarrow> u64 list" where
  "candidates_of permF m keep = map fst (sort_key (\<lambda>(_, last). last) (map (\<lambda>(cookie, fs). (cookie, lastTouch fs))
     (filter (\<lambda>(cookie, _). cookie \<noteq> keep) (permF m))))"

lemma set_candidates: "enumeration permF \<Longrightarrow> set (candidates_of permF m keep) = fst ` set m - {keep}"
  by (force simp: candidates_of_def enumeration_set)

lemma distinct_candidates:
  assumes "enumeration permF" "distinct (map fst m)" shows "distinct (candidates_of permF m keep)"
proof -
  let ?f = "filter (\<lambda>(cookie, _). cookie \<noteq> keep) (permF m)"
  have "mset (candidates_of permF m keep) = mset (map fst ?f)"
    by (simp add: candidates_of_def image_mset.compositionality comp_def case_prod_unfold)
  moreover have "distinct (map fst ?f)"
    using assms by (intro distinct_fst_filter) (simp add: enumeration_distinct_fst)
  ultimately show ?thesis using mset_eq_imp_distinct_iff by blast
qed

lemma reap_eq: "reap permF mx m keep cutoff =
     (if mx \<le> 0 \<or> int (length (unexpired m keep cutoff)) \<le> mx then unexpired m keep cutoff
      else evict mx (candidates_of permF (unexpired m keep cutoff) keep) (unexpired m keep cutoff))"
  by (simp add: reap_alt candidates_of_def)

lemma length_unexpired: "length (unexpired m keep cutoff) \<le> length m"
  by (simp add: unexpired_def)

lemma reap_subset: "set (reap permF mx m keep cutoff) \<subseteq> set m"
proof -
  have u: "set (unexpired m keep cutoff) \<subseteq> set m" by (auto simp: unexpired_def)
  have "set (evict mx cs (unexpired m keep cutoff)) \<subseteq> set m" for cs
    using evict_subset u by (rule subset_trans)
  with u show ?thesis by (simp add: reap_eq)
qed

lemma map_of_unexpired:
  "distinct (map fst m) \<Longrightarrow> map_of (unexpired m keep cutoff) k =
     (case map_of m k of None \<Rightarrow> None | Some fs \<Rightarrow> if k = keep \<or> \<not> lastTouch fs < cutoff then Some fs else None)"
  by (simp add: unexpired_def map_of_filter_distinct split: option.split)

lemma reap_keeps:
  assumes "distinct (map fst m)" "enumeration permF"
  shows "map_of (reap permF mx m keep cutoff) keep = map_of m keep"
  using assms by (auto simp: reap_eq evict_map_of set_candidates map_of_unexpired split: option.split)

lemma card_fst: "distinct (map fst m) \<Longrightarrow> card (fst ` set m) = length m"
  by (metis distinct_card length_map set_map)

lemma reap_bound:
  assumes "distinct (map fst m)" "enumeration permF" "0 < mx" "keep \<in> fst ` set m"
  shows "int (length (reap permF mx m keep cutoff)) \<le> mx"
proof -
  let ?u = "unexpired m keep cutoff"
  let ?cs = "candidates_of permF ?u keep"
  have d: "distinct (map fst ?u)" using assms(1) by (simp add: unexpired_def distinct_fst_filter)
  have k: "keep \<in> fst ` set ?u" using assms(4) by (force simp: unexpired_def)
  have cs: "distinct ?cs" "set ?cs = fst ` set ?u - {keep}"
    using assms(2) d by (simp_all add: distinct_candidates set_candidates)
  then have "length ?cs = card (fst ` set ?u) - 1" using k by (metis card_Diff_singleton distinct_card)
  then have "length ?u - length ?cs \<le> 1" using d by (simp add: card_fst)
  then have "int (length (evict mx ?cs ?u)) \<le> mx"
    using assms(3) cs d by (intro evict_length) auto
  then show ?thesis using assms(3) by (simp add: reap_eq)
qed

section \<open>Reachable scorers\<close>

text \<open>
  A scorer as the process holds it: built by \<open>New\<close>, configured, and scoring events. The weights are
  an interface to the live calibration store, so they may change between any two steps.
\<close>

inductive scorer_reach ::
  "((CanaryType \<times> time) list \<Rightarrow> (CanaryType \<times> time) list) \<Rightarrow> (flows \<Rightarrow> flows) \<Rightarrow> WindowedScorer \<Rightarrow> bool"
  for permT permF where
  new: "scorer_reach permT permF (scoring_New win w ex)"
| with_max: "scorer_reach permT permF s \<Longrightarrow> scorer_reach permT permF (WithMaxCookiesPerScope s n)"
| use_multiplier: "scorer_reach permT permF s \<Longrightarrow> scorer_reach permT permF (UseMultiplier s m)"
| weights: "scorer_reach permT permF s \<Longrightarrow> scorer_reach permT permF (s\<lparr>sc_weights := w\<rparr>)"
| score: "scorer_reach permT permF s \<Longrightarrow> scorer_reach permT permF (snd (Score permT permF s k ev))"

definition scorer_inv :: "WindowedScorer \<Rightarrow> bool" where
  "scorer_inv s \<longleftrightarrow> 0 < sc_window s \<and> 0 < maxPerScope s \<and> (\<forall>k. flows_ok (flows_of s k))"

lemma flows_ok_Nil [simp]: "flows_ok []"
  by (simp add: flows_ok_def)

lemma Score_frame [simp]:
  "sc_window (snd (Score permT permF s k ev)) = sc_window s" "maxPerScope (snd (Score permT permF s k ev)) = maxPerScope s"
  "sc_weights (snd (Score permT permF s k ev)) = sc_weights s" "sc_excluder (snd (Score permT permF s k ev)) = sc_excluder s"
  "sc_multiplier (snd (Score permT permF s k ev)) = sc_multiplier s"
  by (simp_all add: Score_def Let_def split: option.split)

lemma Score_other_scope: "k' \<noteq> k \<Longrightarrow> flows_of (snd (Score permT permF s k ev)) k' = flows_of s k'"
  by (simp add: Score_def Let_def flows_of_def split: option.split)

definition score_flows :: "(flows \<Rightarrow> flows) \<Rightarrow> WindowedScorer \<Rightarrow> ScopeKey \<Rightarrow> SignalEvent \<Rightarrow> flows" where
  "score_flows permF s k ev =
     (let key = SocketCookie (ev_Flow ev); cutoff = ev_Timestamp ev - sc_window s;
          fs = record_touch (flow_entry (flows_of s k) key) ev
      in AList.update key (fs\<lparr>touches := drop_expired cutoff (touches fs)\<rparr>)
           (reap permF (maxPerScope s) (AList.update key fs (flows_of s k)) key cutoff))"

text \<open>An event that is scored: a resolved scope, wired weights, a flow that is not excluded.\<close>

definition accrues :: "WindowedScorer \<Rightarrow> ScopeKey \<Rightarrow> SignalEvent \<Rightarrow> bool" where
  "accrues s k ev \<longleftrightarrow> k \<noteq> [] \<and> sc_weights s \<noteq> None \<and> \<not> sc_excluder s (ev_Flow ev)"

lemma Score_flows:
  "flows_of (snd (Score permT permF s k ev)) k = (if accrues s k ev then score_flows permF s k ev else flows_of s k)"
  by (auto simp: Score_def Let_def accrues_def flows_of_def score_flows_def split: option.split)

lemma Score_untouched:
  "\<not> (k' = k \<and> accrues s k' ev) \<Longrightarrow> flows_of (snd (Score permT permF s k' ev)) k = flows_of s k"
  by (cases "k' = k") (simp_all add: Score_flows Score_other_scope)

lemma flows_ok_score: "flows_ok (flows_of s k) \<Longrightarrow> flows_ok (score_flows permF s k ev)"
  unfolding score_flows_def Let_def by (intro inv_intros)

lemma scorer_inv_Score [inv_intros]: "scorer_inv s \<Longrightarrow> scorer_inv (snd (Score permT permF s k ev))"
  unfolding scorer_inv_def
proof (intro conjI allI)
  fix k' assume "0 < sc_window s \<and> 0 < maxPerScope s \<and> (\<forall>k. flows_ok (flows_of s k))"
  then show "flows_ok (flows_of (snd (Score permT permF s k ev)) k')"
    by (cases "k' = k") (simp_all add: Score_other_scope Score_flows flows_ok_score)
qed simp_all

lemma scorer_reach_inv: "scorer_reach permT permF s \<Longrightarrow> scorer_inv s"
proof (induction rule: scorer_reach.induct)
  case (score s k ev)
  then show ?case by (intro inv_intros)
qed (auto simp: scorer_inv_def scoring_New_def WithMaxCookiesPerScope_def UseMultiplier_def flows_of_def split: option.splits)

text \<open>
  Bounded memory: after any event is scored in any reachable scorer, the scope keeps at
  most \<open>maxPerScope\<close> flows, the flow just scored is still among them, and no flow is kept twice.
\<close>

theorem scorer_bounded:
  assumes "scorer_reach permT permF s" "enumeration permF" "accrues s k ev"
  shows "int (length (flows_of (snd (Score permT permF s k ev)) k)) \<le> maxPerScope s \<and>
    SocketCookie (ev_Flow ev) \<in> fst ` set (flows_of (snd (Score permT permF s k ev)) k) \<and>
    distinct (map fst (flows_of (snd (Score permT permF s k ev)) k))"
proof -
  have inv: "scorer_inv s" using assms(1) by (rule scorer_reach_inv)
  then have d: "distinct (map fst (flows_of s k))" by (simp add: scorer_inv_def flows_ok_def)
  let ?key = "SocketCookie (ev_Flow ev)" and ?cut = "ev_Timestamp ev - sc_window s"
  let ?fs = "record_touch (flow_entry (flows_of s k) ?key) ev"
  let ?u = "AList.update ?key ?fs (flows_of s k)"
  let ?r = "reap permF (maxPerScope s) ?u ?key ?cut"
  have du: "distinct (map fst ?u)" using d by (rule distinct_update)
  have ku: "?key \<in> fst ` set ?u" by (simp add: dom_update)
  have "map_of ?r ?key = Some ?fs" using reap_keeps[OF du assms(2)] by (simp add: AList.update_conv')
  then have kr: "?key \<in> fst ` set ?r" by (metis map_of_SomeD fst_conv image_eqI)
  have "flows_ok (flows_of s k)" using inv by (simp add: scorer_inv_def)
  then have "flows_ok ?r" by (intro inv_intros)
  then have dr: "distinct (map fst ?r)" by (simp add: flows_ok_def)
  have b: "int (length ?r) \<le> maxPerScope s"
    using inv du ku assms(2) by (intro reap_bound) (auto simp: scorer_inv_def)
  have l: "length (AList.update ?key v ?r) = length ?r" for v
    using kr dr card_fst[of ?r] card_fst[of "AList.update ?key v ?r"]
    by (simp add: distinct_update dom_update insert_absorb)
  show ?thesis using assms(3) b l dr
    by (simp add: Score_flows score_flows_def Let_def distinct_update dom_update)
qed


definition example_scorer :: WindowedScorer where
  "example_scorer = WithMaxCookiesPerScope (scoring_New 0 (Some (\<lambda>_ _. lit 1)) None) 1"

lemma scorer_bounded_witness:
  "int (length (flows_of (snd (Score rev rev (snd (Score rev rev example_scorer ''a'' (touch_event 7 ''secret'' 1)))
     ''a'' (touch_event 8 ''secret'' 2))) ''a'')) \<le> 1"
proof -
  have r: "scorer_reach rev rev (snd (Score rev rev example_scorer ''a'' (touch_event 7 ''secret'' 1)))"
    unfolding example_scorer_def by (intro scorer_reach.intros)
  have "accrues (snd (Score rev rev example_scorer ''a'' (touch_event 7 ''secret'' 1))) ''a'' (touch_event 8 ''secret'' 2)"
    by (simp add: accrues_def) (simp add: example_scorer_def WithMaxCookiesPerScope_def scoring_New_def NoExclusions_def)
  from scorer_bounded[OF r enumeration_rev this] show ?thesis
    by (simp add: example_scorer_def WithMaxCookiesPerScope_def)
qed

section \<open>Refinement: the score is a function of the touch history\<close>

text \<open>
  The abstract state is the log of touches. The reaper, the in-place expiry and the size cap are not
  part of it: the specification looks up the last touch of each canary type in the whole log.
\<close>

type_synonym touch_log = "(ScopeKey \<times> SignalEvent) list"

definition last_touch :: "touch_log \<Rightarrow> ScopeKey \<Rightarrow> u64 \<Rightarrow> CanaryType \<Rightarrow> time option" where
  "last_touch hist k c ct =
     (case rev (filter (\<lambda>(k', e). k' = k \<and> SocketCookie (ev_Flow e) = c \<and> ev_Canary e = ct) hist) of
        [] \<Rightarrow> None | (_, e) # _ \<Rightarrow> Some (ev_Timestamp e))"

definition live_types :: "touch_log \<Rightarrow> ScopeKey \<Rightarrow> u64 \<Rightarrow> time \<Rightarrow> CanaryType set" where
  "live_types hist k c cutoff = {ct. \<exists>t. last_touch hist k c ct = Some t \<and> cutoff \<le> t}"

definition cookies :: "touch_log \<Rightarrow> ScopeKey \<Rightarrow> u64 set" where
  "cookies hist k = (\<lambda>(_, e). SocketCookie (ev_Flow e)) ` set (filter (\<lambda>(k', _). k' = k) hist)"

lemma last_touch_snoc:
  "last_touch (hist @ [(k', e)]) k c ct =
     (if k' = k \<and> SocketCookie (ev_Flow e) = c \<and> ev_Canary e = ct then Some (ev_Timestamp e)
      else last_touch hist k c ct)"
  by (simp add: last_touch_def)

lemma finite_cookies [simp]: "finite (cookies hist k)"
  by (simp add: cookies_def)

lemma cookies_snoc:
  "cookies (hist @ [(k', e)]) k = (if k' = k then insert (SocketCookie (ev_Flow e)) (cookies hist k) else cookies hist k)"
  by (auto simp: cookies_def)

definition state_touch :: "flows \<Rightarrow> u64 \<Rightarrow> CanaryType \<Rightarrow> time option" where
  "state_touch m c ct = (case map_of m c of None \<Rightarrow> None | Some fs \<Rightarrow> map_of (touches fs) ct)"

text \<open>State and log agree on every touch not older than \<open>T\<close>.\<close>

definition agrees :: "flows \<Rightarrow> touch_log \<Rightarrow> ScopeKey \<Rightarrow> time \<Rightarrow> bool" where
  "agrees m hist k T \<longleftrightarrow> (\<forall>c ct t. T \<le> t \<longrightarrow> (state_touch m c ct = Some t \<longleftrightarrow> last_touch hist k c ct = Some t))"

lemma touches_entry: "map_of (touches (flow_entry m c)) ct = state_touch m c ct"
  by (simp add: flow_entry_def state_touch_def empty_flow_def split: option.split)

lemma state_touch_score_self:
  assumes "flows_ok (flows_of s k)" "c = SocketCookie (ev_Flow ev)"
  shows "state_touch (score_flows permF s k ev) c ct =
    (let t' = (if ct = ev_Canary ev then Some (ev_Timestamp ev) else state_touch (flows_of s k) c ct)
     in case t' of None \<Rightarrow> None | Some t \<Rightarrow> if t < ev_Timestamp ev - sc_window s then None else Some t)"
proof -
  have "flow_ok (record_touch (flow_entry (flows_of s k) c) ev)" using assms(1) by (intro inv_intros)
  then have d: "distinct (map fst (touches (record_touch (flow_entry (flows_of s k) c) ev)))"
    by (simp add: flow_ok_def)
  show ?thesis unfolding score_flows_def Let_def assms(2)[symmetric]
    using d by (auto simp: state_touch_def[of "AList.update _ _ _"] AList.update_conv' drop_expired_def
        map_of_filter_distinct record_touch_def touches_entry split: option.split)
qed

lemma state_touch_score_other:
  assumes "flows_ok (flows_of s k)" "c \<noteq> SocketCookie (ev_Flow ev)" "ev_Timestamp ev - sc_window s \<le> t"
    and "int (length (AList.update (SocketCookie (ev_Flow ev)) (record_touch (flow_entry (flows_of s k) (SocketCookie (ev_Flow ev))) ev) (flows_of s k))) \<le> maxPerScope s"
  shows "state_touch (score_flows permF s k ev) c ct = Some t \<longleftrightarrow> state_touch (flows_of s k) c ct = Some t"
proof -
  let ?key = "SocketCookie (ev_Flow ev)" and ?cut = "ev_Timestamp ev - sc_window s"
  let ?u = "AList.update ?key (record_touch (flow_entry (flows_of s k) ?key) ev) (flows_of s k)"
  have du: "distinct (map fst ?u)" using assms(1) by (simp add: flows_ok_def distinct_update)
  have "int (length (unexpired ?u ?key ?cut)) \<le> maxPerScope s"
    using assms(4) length_unexpired[of ?u ?key ?cut] by linarith
  then have r: "reap permF (maxPerScope s) ?u ?key ?cut = unexpired ?u ?key ?cut" by (simp add: reap_eq)
  have "map_of (score_flows permF s k ev) c =
      (case map_of (flows_of s k) c of None \<Rightarrow> None | Some fs \<Rightarrow> if lastTouch fs < ?cut then None else Some fs)"
    unfolding score_flows_def Let_def r using assms(2) du
    by (simp add: AList.update_conv' map_of_unexpired split: option.split)
  moreover have "t' \<le> lastTouch fs" if "map_of (flows_of s k) c = Some fs" "map_of (touches fs) ct = Some t'" for fs t'
    using assms(1) that by (auto simp: flows_ok_def flow_ok_def)
  ultimately show ?thesis using assms(3) by (fastforce simp: state_touch_def split: option.splits if_splits)
qed

lemma agrees_score:
  assumes "flows_ok (flows_of s k)" "agrees (flows_of s k) hist k T" "ev_Timestamp ev - sc_window s \<le> T"
    and "int (length (AList.update (SocketCookie (ev_Flow ev)) (record_touch (flow_entry (flows_of s k) (SocketCookie (ev_Flow ev))) ev) (flows_of s k))) \<le> maxPerScope s"
  shows "agrees (score_flows permF s k ev) (hist @ [(k, ev)]) k T"
  unfolding agrees_def
proof (intro allI impI)
  fix c ct t assume t: "T \<le> t"
  with assms(3) have cut: "ev_Timestamp ev - sc_window s \<le> t" by simp
  show "state_touch (score_flows permF s k ev) c ct = Some t \<longleftrightarrow> last_touch (hist @ [(k, ev)]) k c ct = Some t"
  proof (cases "c = SocketCookie (ev_Flow ev)")
    case True
    have "state_touch (flows_of s k) c ct = Some t \<longleftrightarrow> last_touch hist k c ct = Some t"
      using assms(2) t by (simp add: agrees_def)
    then show ?thesis using cut True state_touch_score_self[OF assms(1) True]
      by (auto simp: last_touch_snoc Let_def split: option.splits if_splits)
  next
    case False
    then show ?thesis
      using state_touch_score_other[OF assms(1) False cut assms(4)] assms(2) t
      by (simp add: last_touch_snoc agrees_def)
  qed
qed

section \<open>Runs\<close>

definition fresh_scorer ::
  "duration \<Rightarrow> Weights \<Rightarrow> BenignExcluder option \<Rightarrow> int \<Rightarrow> MultiplierSource option \<Rightarrow> WindowedScorer" where
  "fresh_scorer win w ex n m = UseMultiplier (WithMaxCookiesPerScope (scoring_New win (Some w) ex) n) m"

definition run_scorer ::
  "((CanaryType \<times> time) list \<Rightarrow> (CanaryType \<times> time) list) \<Rightarrow> (flows \<Rightarrow> flows) \<Rightarrow>
   WindowedScorer \<Rightarrow> touch_log \<Rightarrow> WindowedScorer" where
  "run_scorer permT permF s evs = foldl (\<lambda>s (k, ev). snd (Score permT permF s k ev)) s evs"

definition accrued :: "WindowedScorer \<Rightarrow> touch_log \<Rightarrow> touch_log" where
  "accrued s evs = filter (\<lambda>(k, ev). accrues s k ev) evs"

lemma run_scorer_snoc: "run_scorer permT permF s (evs @ [(k, ev)]) = snd (Score permT permF (run_scorer permT permF s evs) k ev)"
  by (simp add: run_scorer_def)

lemma run_scorer_frame [simp]:
  "sc_window (run_scorer permT permF s evs) = sc_window s" "maxPerScope (run_scorer permT permF s evs) = maxPerScope s"
  "sc_weights (run_scorer permT permF s evs) = sc_weights s" "sc_excluder (run_scorer permT permF s evs) = sc_excluder s"
  "sc_multiplier (run_scorer permT permF s evs) = sc_multiplier s"
  by (induction evs rule: rev_induct) (auto simp: run_scorer_def)

lemma accrues_run [simp]: "accrues (run_scorer permT permF s evs) k ev = accrues s k ev"
  by (simp add: accrues_def)

lemma run_scorer_inv: "scorer_inv s \<Longrightarrow> scorer_inv (run_scorer permT permF s evs)"
  by (induction evs rule: rev_induct) (auto simp: run_scorer_def intro: inv_intros)

lemma accrued_snoc: "accrued s (evs @ [(k, ev)]) = accrued s evs @ (if accrues s k ev then [(k, ev)] else [])"
  by (simp add: accrued_def)

lemma keys_score_flows:
  "fst ` set (score_flows permF s k ev) \<subseteq> insert (SocketCookie (ev_Flow ev)) (fst ` set (flows_of s k))"
proof -
  let ?key = "SocketCookie (ev_Flow ev)"
  let ?u = "AList.update ?key (record_touch (flow_entry (flows_of s k) ?key) ev) (flows_of s k)"
  have "fst ` set (reap permF (maxPerScope s) ?u ?key (ev_Timestamp ev - sc_window s)) \<subseteq> fst ` set ?u"
    by (intro image_mono reap_subset)
  then show ?thesis by (simp add: score_flows_def Let_def dom_update)
qed

lemma run_keys:
  "sc_state s = Map.empty \<Longrightarrow> fst ` set (flows_of (run_scorer permT permF s evs) k) \<subseteq> cookies (accrued s evs) k"
proof (induction evs rule: rev_induct)
  case Nil
  then show ?case by (simp add: run_scorer_def flows_of_def)
next
  case (snoc x evs)
  obtain k' ev where x: "x = (k', ev)" by (cases x)
  let ?s = "run_scorer permT permF s evs"
  show ?case
  proof (cases "k' = k \<and> accrues s k' ev")
    case True
    then have "flows_of (run_scorer permT permF s (evs @ [x])) k = score_flows permF ?s k ev"
      by (auto simp: x run_scorer_snoc Score_flows)
    moreover have "cookies (accrued s (evs @ [x])) k = insert (SocketCookie (ev_Flow ev)) (cookies (accrued s evs) k)"
      using True by (auto simp: x accrued_snoc cookies_snoc)
    ultimately show ?thesis using snoc keys_score_flows[of permF ?s k ev] by (simp add: subset_insertI2 insert_mono subset_trans)
  next
    case False
    then have "flows_of (run_scorer permT permF s (evs @ [x])) k = flows_of ?s k"
      by (simp add: x run_scorer_snoc Score_untouched)
    with snoc show ?thesis by (auto simp: x accrued_snoc cookies_snoc)
  qed
qed


lemma run_agrees:
  assumes "scorer_inv s" "sc_state s = Map.empty" "int (card (cookies (accrued s evs) k)) \<le> maxPerScope s"
    and "\<forall>(k', e)\<in>set (accrued s evs). k' = k \<longrightarrow> ev_Timestamp e - sc_window s \<le> T"
  shows "agrees (flows_of (run_scorer permT permF s evs) k) (accrued s evs) k T"
  using assms(3,4)
proof (induction evs rule: rev_induct)
  case Nil
  then show ?case using assms(2)
    by (simp add: run_scorer_def agrees_def accrued_def last_touch_def state_touch_def flows_of_def)
next
  case (snoc x evs)
  obtain k' ev where x: "x = (k', ev)" by (cases x)
  let ?s = "run_scorer permT permF s evs"
  have inv: "scorer_inv ?s" using assms(1) by (rule run_scorer_inv)
  show ?case
  proof (cases "k' = k \<and> accrues s k' ev")
    case True
    let ?key = "SocketCookie (ev_Flow ev)"
    have log: "accrued s (evs @ [x]) = accrued s evs @ [(k, ev)]" using True by (auto simp: x accrued_snoc)
    have sub: "cookies (accrued s evs) k \<subseteq> cookies (accrued s evs @ [(k, ev)]) k" by (auto simp: cookies_snoc)
    then have "card (cookies (accrued s evs) k) \<le> card (cookies (accrued s evs @ [(k, ev)]) k)"
      by (intro card_mono) simp_all
    with snoc.prems have "agrees (flows_of ?s k) (accrued s evs) k T" unfolding log by (intro snoc.IH) auto
    moreover have "int (length (AList.update ?key v (flows_of ?s k))) \<le> maxPerScope ?s" for v
    proof -
      have d: "distinct (map fst (AList.update ?key v (flows_of ?s k)))"
        using inv by (simp add: scorer_inv_def flows_ok_def distinct_update)
      have "fst ` set (AList.update ?key v (flows_of ?s k)) \<subseteq> cookies (accrued s (evs @ [x])) k"
        using run_keys[OF assms(2), of permT permF evs k] by (simp add: log cookies_snoc dom_update) blast
      then have "card (fst ` set (AList.update ?key v (flows_of ?s k))) \<le> card (cookies (accrued s (evs @ [x])) k)"
        by (intro card_mono) simp_all
      with d snoc.prems(1) show ?thesis by (simp add: card_fst)
    qed
    ultimately have "agrees (score_flows permF ?s k ev) (accrued s evs @ [(k, ev)]) k T"
      using inv snoc.prems(2) True by (intro agrees_score) (auto simp: scorer_inv_def log)
    then show ?thesis using True by (auto simp: x run_scorer_snoc Score_flows accrued_snoc)
  next
    case False
    have "last_touch (accrued s (evs @ [x])) k c ct = last_touch (accrued s evs) k c ct" for c ct
      using False by (auto simp: x accrued_snoc last_touch_snoc)
    moreover have "flows_of (run_scorer permT permF s (evs @ [x])) k = flows_of ?s k"
      using False by (simp add: x run_scorer_snoc Score_untouched)
    moreover have "cookies (accrued s (evs @ [x])) k = cookies (accrued s evs) k"
      using False by (auto simp: x accrued_snoc cookies_snoc)
    ultimately show ?thesis using snoc by (auto simp: agrees_def x accrued_snoc)
  qed
qed

lemma sum_live_acc:
  "foldl (\<lambda>base (ct, last). if last < cutoff then base else base + w k ct) acc ts =
     foldl (\<lambda>b ct. b + w k ct) acc (map fst (filter (\<lambda>(_, last). \<not> last < cutoff) ts))"
  by (induction ts arbitrary: acc) auto

lemma Score_value:
  assumes "accrues s k ev" "sc_weights s = Some w"
  shows "fst (Score permT permF s k ev) =
    Inr (sum_live w k (ev_Timestamp ev - sc_window s)
           (permT (touches (record_touch (flow_entry (flows_of s k) (SocketCookie (ev_Flow ev))) ev))) *
         (let m = sc_multiplier s k (ev_Flow ev) (ev_Timestamp ev) in if m < 1 then 1 else m))"
  using assms by (simp add: Score_def accrues_def Let_def)

lemma fresh_scorer_facts:
  "scorer_inv (fresh_scorer win w ex n m)" "sc_state (fresh_scorer win w ex n m) = Map.empty"
  "sc_weights (fresh_scorer win w ex n m) = Some w"
  by (auto simp: fresh_scorer_def UseMultiplier_def WithMaxCookiesPerScope_def scoring_New_def scorer_inv_def
      flows_of_def split: option.split)

lemma score_history:
  assumes "enumeration permT" "s = fresh_scorer win w ex n m" "accrues s k ev"
    and "\<forall>(k', e)\<in>set (accrued s evs). k' = k \<longrightarrow> ev_Timestamp e \<le> ev_Timestamp ev"
    and "int (card (cookies (accrued s (evs @ [(k, ev)])) k)) \<le> maxPerScope s"
  shows "\<exists>cts. distinct cts \<and>
    set cts = live_types (accrued s (evs @ [(k, ev)])) k (SocketCookie (ev_Flow ev)) (ev_Timestamp ev - sc_window s) \<and>
    fst (Score permT permF (run_scorer permT permF s evs) k ev) =
      Inr (foldl (\<lambda>b ct. b + w k ct) 0 cts *
           (let mu = sc_multiplier s k (ev_Flow ev) (ev_Timestamp ev) in if mu < 1 then 1 else mu))"
proof -
  have f: "scorer_inv s" "sc_state s = Map.empty" "sc_weights s = Some w" by (simp_all add: assms(2) fresh_scorer_facts)
  let ?s = "run_scorer permT permF s evs" and ?cut = "ev_Timestamp ev - sc_window s" and ?c = "SocketCookie (ev_Flow ev)"
  let ?log = "accrued s (evs @ [(k, ev)])"
  define ts where "ts = touches (record_touch (flow_entry (flows_of ?s k) ?c) ev)"
  define cts where "cts = map fst (filter (\<lambda>(_, last). \<not> last < ?cut) (permT ts))"
  have log: "?log = accrued s evs @ [(k, ev)]" using assms(3) by (simp add: accrued_snoc)
  have ok: "flows_ok (flows_of ?s k)" using run_scorer_inv[OF f(1)] by (simp add: scorer_inv_def)
  then have "flow_ok (record_touch (flow_entry (flows_of ?s k) ?c) ev)" by (intro inv_intros)
  then have d: "distinct (map fst ts)" by (simp add: flow_ok_def ts_def)
  have "card (cookies (accrued s evs) k) \<le> card (cookies ?log k)"
    unfolding log by (intro card_mono) (auto simp: cookies_snoc)
  then have ag: "agrees (flows_of ?s k) (accrued s evs) k ?cut"
    using assms(4,5) by (intro run_agrees f) auto
  have "ct \<in> set cts \<longleftrightarrow> ct \<in> live_types ?log k ?c ?cut" for ct
  proof -
    have "ct \<in> set cts \<longleftrightarrow> (\<exists>t. map_of ts ct = Some t \<and> ?cut \<le> t)"
      using d by (force simp: cts_def enumeration_set[OF assms(1)] not_less)
    also have "\<dots> \<longleftrightarrow> (\<exists>t. last_touch ?log k ?c ct = Some t \<and> ?cut \<le> t)"
      using ag by (auto simp: ts_def record_touch_def AList.update_conv' touches_entry log last_touch_snoc agrees_def)
    finally show ?thesis by (simp add: live_types_def)
  qed
  moreover have "distinct cts"
    unfolding cts_def using d assms(1) by (intro distinct_fst_filter) (simp add: enumeration_distinct_fst)
  moreover have "fst (Score permT permF ?s k ev) = Inr (foldl (\<lambda>b ct. b + w k ct) 0 cts *
           (let mu = sc_multiplier s k (ev_Flow ev) (ev_Timestamp ev) in if mu < 1 then 1 else mu))"
    using assms(3) f(3) by (simp add: Score_value sum_live_def sum_live_acc cts_def ts_def)
  ultimately show ?thesis by blast
qed

text \<open>
  Property C23. The scorer refines its touch history. After any sequence of scored events, an event
  that is not older than the earlier events of its scope is scored exactly as the specification
  says, as long as the scope has not seen more distinct flows than the cap: the base sums the
  weights of the distinct canary types the flow touched within the trailing window of the whole
  history, each once, and the score is that base times the multiplier floored at one. In particular
  neither reaping idle flows nor dropping expired touches ever changes a score.
\<close>

theorem score_from_history:
  assumes "enumeration permT" "s = fresh_scorer win w ex n m" "accrues s k ev"
    and "\<forall>(k', e)\<in>set (accrued s evs). k' = k \<longrightarrow> ev_Timestamp e \<le> ev_Timestamp ev"
    and "int (card (cookies (accrued s (evs @ [(k, ev)])) k)) \<le> maxPerScope s"
  shows "\<exists>cts. distinct cts \<and>
    set cts = live_types (accrued s (evs @ [(k, ev)])) k (SocketCookie (ev_Flow ev)) (ev_Timestamp ev - sc_window s) \<and>
    fst (Score permT permF (run_scorer permT permF s evs) k ev) =
      Inr (foldl (\<lambda>b ct. b + w k ct) 0 cts *
           (let mu = sc_multiplier s k (ev_Flow ev) (ev_Timestamp ev) in if mu < 1 then 1 else mu))"
  using assms by (rule score_history)

definition demo_scorer :: WindowedScorer where
  "demo_scorer = fresh_scorer 0 (\<lambda>_ _. lit 1) None 10 None"

definition demo_log :: touch_log where
  "demo_log = [(''a'', touch_event 7 ''secret'' 1), (''a'', touch_event 7 ''file'' 2), (''b'', touch_event 7 ''file'' 9)]"

lemma demo_scorer_facts:
  "accrues demo_scorer k ev \<longleftrightarrow> k \<noteq> []" "maxPerScope demo_scorer = 10" "sc_window demo_scorer = 300000000000"
  by (simp_all add: demo_scorer_def fresh_scorer_def UseMultiplier_def WithMaxCookiesPerScope_def scoring_New_def
      accrues_def NoExclusions_def)

lemma demo_accrued:
  "accrued demo_scorer demo_log = demo_log"
  "accrued demo_scorer (demo_log @ [(''a'', touch_event 7 ''secret'' 3)]) = demo_log @ [(''a'', touch_event 7 ''secret'' 3)]"
  by (simp_all add: accrued_def demo_log_def demo_scorer_facts)

lemma demo_cookies: "cookies (demo_log @ [(''a'', touch_event 7 ''secret'' 3)]) ''a'' = {7}"
  by (simp add: cookies_def demo_log_def)

lemma score_from_history_witness:
  "\<exists>cts. distinct cts \<and>
    set cts = live_types (demo_log @ [(''a'', touch_event 7 ''secret'' 3)]) ''a'' 7 (3 - 300000000000) \<and>
    fst (Score rev rev (run_scorer rev rev demo_scorer demo_log) ''a'' (touch_event 7 ''secret'' 3)) =
      Inr (foldl (\<lambda>b ct. b + lit 1) 0 cts *
        (let mu = sc_multiplier demo_scorer ''a'' (cookie_flow 7) 3 in if mu < 1 then 1 else mu))"
proof -
  have "\<forall>(k', e)\<in>set (accrued demo_scorer demo_log). k' = ''a'' \<longrightarrow>
      ev_Timestamp e \<le> ev_Timestamp (touch_event 7 ''secret'' 3)"
    unfolding demo_accrued by (simp add: demo_log_def)
  from score_from_history[OF enumeration_rev demo_scorer_def _ this, of rev]
  show ?thesis by (simp add: demo_accrued demo_cookies demo_scorer_facts)
qed

section \<open>Cold start: the score is a count\<close>

lemma foldl_ones:
  "int (length cts) + n \<le> 2 ^ 53 \<Longrightarrow> 0 \<le> n \<Longrightarrow> foldl (\<lambda>b ct. b + Fin 1) (Fin (of_int n)) cts = Fin (of_int (n + int (length cts)))"
proof (induction cts arbitrary: n)
  case (Cons x cts)
  have "rnd (of_int n + 1) = rnd (of_int (n + 1))" by simp
  also have "\<dots> = Fin (of_int (n + 1))" using Cons.prems by (intro rnd_exact wf64_of_int) simp
  finally show ?case using Cons.IH[of "n + 1"] Cons.prems by simp
qed simp

lemma cold_start_score:
  assumes "enumeration permT" "s = fresh_scorer win (\<lambda>_ _. lit 1) ex n None" "accrues s k ev"
    and "\<forall>(k', e)\<in>set (accrued s evs). k' = k \<longrightarrow> ev_Timestamp e \<le> ev_Timestamp ev"
    and "int (card (cookies (accrued s (evs @ [(k, ev)])) k)) \<le> maxPerScope s"
    and "L = live_types (accrued s (evs @ [(k, ev)])) k (SocketCookie (ev_Flow ev)) (ev_Timestamp ev - sc_window s)"
    and "card L \<le> 2 ^ 53"
  shows "fst (Score permT permF (run_scorer permT permF s evs) k ev) = Inr (Fin (of_nat (card L))) \<and> 1 \<le> card L"
proof -
  obtain cts where cts: "distinct cts" "set cts = L"
    and sc: "fst (Score permT permF (run_scorer permT permF s evs) k ev) =
      Inr (foldl (\<lambda>b ct. b + lit 1) 0 cts *
           (let mu = sc_multiplier s k (ev_Flow ev) (ev_Timestamp ev) in if mu < 1 then 1 else mu))"
    using score_history[OF assms(1-5), of permF] assms(6) by auto
  have "sc_multiplier s k (ev_Flow ev) (ev_Timestamp ev) = lit 1"
    by (simp add: assms(2) fresh_scorer_def UseMultiplier_def WithMaxCookiesPerScope_def scoring_New_def NeutralMultiplier_def)
  moreover have len: "length cts = card L" using cts distinct_card by fastforce
  moreover have "foldl (\<lambda>b ct. b + Fin 1) (Fin (of_int 0)) cts = Fin (of_int (0 + int (length cts)))"
    using assms(7) len by (intro foldl_ones) simp_all
  moreover have "wf64 (of_int (int (card L)))" using assms(7) by (intro wf64_of_int) simp
  ultimately have "fst (Score permT permF (run_scorer permT permF s evs) k ev) = Inr (Fin (of_nat (card L)))"
    using sc by (simp add: zero_f64_def one_f64_def rnd_exact)
  moreover have "ev_Canary ev \<in> L"
    using assms(3) fresh_scorer_facts(1)[of win _ ex n None]
    by (auto simp: assms(6) live_types_def accrued_snoc last_touch_snoc assms(2) scorer_inv_def less_imp_le)
  moreover have "finite L" using cts by (metis List.finite_set)
  ultimately show ?thesis by (metis One_nat_def Suc_leI card_gt_0_iff empty_iff)
qed

text \<open>
  In cold start the score is a count: with uniform weights 1.0 and no baseline, and
  whatever order the maps are visited in, the score of an event is the number of distinct canary
  types its flow touched in the trailing window, exactly, and it is at least one.
\<close>

theorem cold_start_counts:
  assumes "enumeration permT" "s = fresh_scorer win (\<lambda>_ _. lit 1) ex n None" "accrues s k ev"
    and "\<forall>(k', e)\<in>set (accrued s evs). k' = k \<longrightarrow> ev_Timestamp e \<le> ev_Timestamp ev"
    and "int (card (cookies (accrued s (evs @ [(k, ev)])) k)) \<le> maxPerScope s"
    and "L = live_types (accrued s (evs @ [(k, ev)])) k (SocketCookie (ev_Flow ev)) (ev_Timestamp ev - sc_window s)"
    and "card L \<le> 2 ^ 53"
  shows "fst (Score permT permF (run_scorer permT permF s evs) k ev) = Inr (Fin (of_nat (card L))) \<and> 1 \<le> card L"
  using cold_start_score[OF assms, of permF] .

lemma demo_live: "live_types (demo_log @ [(''a'', touch_event 7 ''secret'' 3)]) ''a'' 7 (- 299999999997) = {''secret'', ''file''}"
  by (auto simp: live_types_def last_touch_def demo_log_def split: if_splits)

lemma cold_start_counts_witness:
  "fst (Score rev rev (run_scorer rev rev demo_scorer demo_log) ''a'' (touch_event 7 ''secret'' 3)) = Inr (Fin 2)"
proof -
  have "\<forall>(k', e)\<in>set (accrued demo_scorer demo_log). k' = ''a'' \<longrightarrow>
      ev_Timestamp e \<le> ev_Timestamp (touch_event 7 ''secret'' 3)"
    unfolding demo_accrued by (simp add: demo_log_def)
  from cold_start_counts[OF enumeration_rev demo_scorer_def _ this, of "{''secret'', ''file''}" rev]
  show ?thesis by (simp add: demo_accrued demo_cookies demo_scorer_facts demo_live)
qed

end
