(* ===== verification/Tiers.thy ===== *)
theory Tiers
  imports Scoring
begin

text \<open>
  The tier decision, \<^verbatim>\<open>internal/engine/tiers/tiers.go\<close>: the operator's configuration and its validation,
  the static thresholds and the decider. \<open>tiers_Validate\<close> ranges over two Go maps and stops at the
  first error, so those maps are association lists and the range order is a parameter. The lemmas:
  the thresholds of a validated configuration are strictly ordered inside the published bands, the
  decision counts the thresholds a score meets, and what validation does and does not guarantee
  about the behaviour when the engine is unavailable.
\<close>

definition MinConfidence :: f64 where "MinConfidence = lit (1 / 100)"
definition MaxConfidence :: f64 where "MaxConfidence = lit 1"

definition minTouches :: "Tier \<Rightarrow> f64" where
  "minTouches t = (if t = TierTag then lit 1 else if t = TierContain then lit 2 else if t = TierJail then lit 3 else 0)"

definition span_touches :: "Tier \<Rightarrow> f64" where
  "span_touches t = (if t = TierTag then lit 1 else if t = TierContain then lit 2 else if t = TierJail then lit 3 else 0)"

record tiers_Config =
  ConfidenceRequired :: "(Tier \<times> f64) list"
  Mode :: "(Tier \<times> EnforcementMode) list"
  FailClosed :: "Tier \<rightharpoonup> bool"

definition tiers_DefaultConfig :: tiers_Config where
  "tiers_DefaultConfig =
     \<lparr>ConfidenceRequired = [(TierTag, lit (30 / 100)), (TierContain, lit (50 / 100)), (TierJail, lit (70 / 100))],
      Mode = [(TierContain, ModeAsync), (TierJail, ModeAsync)],
      FailClosed = [TierTag \<mapsto> False, TierContain \<mapsto> True, TierJail \<mapsto> True]\<rparr>"

datatype tiers_error =
    NonThresholdedTier Tier
  | ConfidenceOutOfRange f64 Tier
  | AsyncOnlyTier Tier
  | Tier1MustFailOpen
  | Tier3MustFailClosed

fun check_confidence :: "(Tier \<times> f64) list \<Rightarrow> tiers_error option" where
  "check_confidence [] = None"
| "check_confidence ((t, v) # cs) =
     (if t < TierTag \<or> t > TierJail then Some (NonThresholdedTier t)
      else if v < MinConfidence \<or> v > MaxConfidence then Some (ConfidenceOutOfRange v t)
      else check_confidence cs)"

fun check_modes :: "(Tier \<times> EnforcementMode) list \<Rightarrow> tiers_error option" where
  "check_modes [] = None"
| "check_modes ((t, _) # ms) =
     (if t \<noteq> TierContain \<and> t \<noteq> TierJail then Some (AsyncOnlyTier t) else check_modes ms)"

text \<open>The two range orders, over \<^verbatim>\<open>ConfidenceRequired\<close> and over \<^verbatim>\<open>Mode\<close>.\<close>

type_synonym range_orders =
  "((Tier \<times> f64) list \<Rightarrow> (Tier \<times> f64) list) \<times> ((Tier \<times> EnforcementMode) list \<Rightarrow> (Tier \<times> EnforcementMode) list)"

definition range_ok :: "range_orders \<Rightarrow> bool" where
  "range_ok ord \<longleftrightarrow> enumeration (fst ord) \<and> enumeration (snd ord)"

definition tiers_Validate :: "range_orders \<Rightarrow> tiers_Config \<Rightarrow> tiers_error option" where
  "tiers_Validate ord c =
     (case check_confidence (fst ord (ConfidenceRequired c)) of
        Some e \<Rightarrow> Some e
      | None \<Rightarrow>
         (case check_modes (snd ord (Mode c)) of
            Some e \<Rightarrow> Some e
          | None \<Rightarrow>
              if FailClosed c TierTag = Some True then Some Tier1MustFailOpen
              else if FailClosed c TierJail = Some False then Some Tier3MustFailClosed
              else None))"

definition OnEngineUnavailable :: "tiers_Config \<Rightarrow> Tier \<Rightarrow> bool" where
  "OnEngineUnavailable c tier =
     (if tier \<le> TierTag then True else \<not> (case FailClosed c tier of Some b \<Rightarrow> b | None \<Rightarrow> False))"

definition modeFor :: "Tier \<Rightarrow> tiers_Config \<Rightarrow> EnforcementMode" where
  "modeFor tier cfg =
     (if tier \<le> TierTag then ModeAsync
      else case map_of (Mode cfg) tier of Some m \<Rightarrow> m | None \<Rightarrow> ModeAsync)"

definition threshold :: "Tier \<Rightarrow> tiers_Config \<Rightarrow> f64" where
  "threshold t cfg =
     (let c = (case map_of (ConfidenceRequired cfg) t of Some v \<Rightarrow> v | None \<Rightarrow> 0);
          c = (if c < MinConfidence then MinConfidence else c);
          c = (if c > MaxConfidence then MaxConfidence else c)
      in minTouches t + c * span_touches t)"

definition eps :: f64 where "eps = lit (1 / 10 ^ 9)"

text \<open>The three entry thresholds after \<^verbatim>\<open>Decide\<close> forced them apart.\<close>

definition forced_thresholds :: "tiers_Config \<Rightarrow> f64 \<times> f64 \<times> f64" where
  "forced_thresholds cfg =
     (let t1 = threshold TierTag cfg;
          t2 = threshold TierContain cfg;
          t3 = threshold TierJail cfg;
          t2 = (if t2 < t1 + eps then t1 + eps else t2);
          t3 = (if t3 < t2 + eps then t2 + eps else t3)
      in (t1, t2, t3))"

definition Decide ::
  "range_orders \<Rightarrow> ScopeKey \<Rightarrow> f64 \<Rightarrow> tiers_Config \<Rightarrow> (Tier \<times> EnforcementMode) \<times> tiers_error option" where
  "Decide ord scope score cfg =
     (case tiers_Validate ord cfg of
        Some err \<Rightarrow> ((TierObserve, ModeAsync), Some err)
      | None \<Rightarrow>
         (let (t1, t2, t3) = forced_thresholds cfg;
              tier = (if t3 \<le> score then TierJail
                      else if t2 \<le> score then TierContain
                      else if t1 \<le> score then TierTag
                      else TierObserve)
          in ((tier, modeFor tier cfg), None)))"

section \<open>What validation accepts\<close>

text \<open>The configurations a program builds: the two association lists stand for maps.\<close>

definition wf_config :: "tiers_Config \<Rightarrow> bool" where
  "wf_config c \<longleftrightarrow> distinct (map fst (ConfidenceRequired c)) \<and> distinct (map fst (Mode c))"

lemma check_confidence_None:
  "check_confidence cs = None \<longleftrightarrow>
     (\<forall>(t, v)\<in>set cs. TierTag \<le> t \<and> t \<le> TierJail \<and> \<not> v < MinConfidence \<and> \<not> MaxConfidence < v)"
  by (induction cs rule: check_confidence.induct) (auto simp: not_less)

lemma check_modes_None:
  "check_modes ms = None \<longleftrightarrow> (\<forall>(t, m)\<in>set ms. t = TierContain \<or> t = TierJail)"
  by (induction ms rule: check_modes.induct) auto

lemma tiers_Validate_None:
  assumes "range_ok ord"
  shows "tiers_Validate ord c = None \<longleftrightarrow>
     (\<forall>(t, v)\<in>set (ConfidenceRequired c). TierTag \<le> t \<and> t \<le> TierJail \<and> \<not> v < MinConfidence \<and> \<not> MaxConfidence < v) \<and>
     (\<forall>(t, m)\<in>set (Mode c). t = TierContain \<or> t = TierJail) \<and>
     FailClosed c TierTag \<noteq> Some True \<and> FailClosed c TierJail \<noteq> Some False"
proof -
  have "set (fst ord (ConfidenceRequired c)) = set (ConfidenceRequired c)" "set (snd ord (Mode c)) = set (Mode c)"
    using assms by (simp_all add: range_ok_def enumeration_set)
  moreover have "tiers_Validate ord c = None \<longleftrightarrow> check_confidence (fst ord (ConfidenceRequired c)) = None \<and>
      check_modes (snd ord (Mode c)) = None \<and> FailClosed c TierTag \<noteq> Some True \<and> FailClosed c TierJail \<noteq> Some False"
    by (simp add: tiers_Validate_def split: option.splits)
  ultimately show ?thesis by (simp only: check_confidence_None check_modes_None)
qed

text \<open>Whether a configuration is accepted does not depend on the order the maps are visited in.\<close>

lemma tiers_Validate_order:
  "range_ok ord \<Longrightarrow> range_ok ord' \<Longrightarrow> tiers_Validate ord c = None \<longleftrightarrow> tiers_Validate ord' c = None"
  by (simp add: tiers_Validate_None)

lemma range_ok_id: "range_ok (\<lambda>xs. xs, \<lambda>xs. xs)"
  by (simp add: range_ok_def enumeration_id)

section \<open>The thresholds\<close>

lemma min_confidence_range: "in_range MinConfidence 0 1"
  unfolding MinConfidence_def lit_def by (rule in_range_rnd) simp_all

lemma wf64_int_simps [simp]: "wf64 3" "wf64 4" "wf64 6"
  using wf64_of_int[of 3] wf64_of_int[of 4] wf64_of_int[of 6] by simp_all

lemma lit_2_3 [simp]: "lit 3 = Fin 3" "lit 4 = Fin 4"
  by (simp_all add: lit_def rnd_exact)

text \<open>
  The confidence that enters a threshold is clamped into \<open>[MinConfidence, MaxConfidence]\<close> unless it is
  NaN, which both comparisons of the clamp let through.
\<close>

definition numeric_confidence :: "tiers_Config \<Rightarrow> bool" where
  "numeric_confidence c = (NaN \<notin> snd ` set (ConfidenceRequired c) \<and> list_all f64_ok (map snd (ConfidenceRequired c)))"

lemma clamped_confidence:
  assumes "c \<noteq> NaN" "f64_ok c"
  shows "in_range (let c = (if c < MinConfidence then MinConfidence else c)
                   in if c > MaxConfidence then MaxConfidence else c) 0 1"
proof -
  obtain m where m: "MinConfidence = Fin m" "0 \<le> m" "m \<le> 1" "wf64 m"
    using min_confidence_range by (rule in_rangeE)
  show ?thesis using assms m(2-)
    by (cases c) (auto simp: m(1) in_range_def MaxConfidence_def Let_def)
qed

lemma threshold_range:
  assumes "numeric_confidence cfg" "n \<in> {1, 2, 3}"
  shows "in_range (threshold n cfg) (of_int n) (2 * of_int n)"
proof -
  let ?c = "case map_of (ConfidenceRequired cfg) n of Some v \<Rightarrow> v | None \<Rightarrow> 0"
  have "?c \<noteq> NaN \<and> f64_ok ?c"
    using assms(1) by (force simp: numeric_confidence_def list_all_iff zero_f64_def dest: map_of_SomeD split: option.splits)
  then obtain c where c: "(let c = (if ?c < MinConfidence then MinConfidence else ?c)
       in if c > MaxConfidence then MaxConfidence else c) = Fin c" "0 \<le> c" "c \<le> 1"
    using clamped_confidence by (blast elim: in_rangeE)
  have n: "minTouches n = Fin (of_int n)" "span_touches n = Fin (of_int n)"
      "wf64 (of_int n)" "wf64 (2 * of_int n)" "0 < n"
    using assms(2) by (auto simp: minTouches_def span_touches_def)
  have "in_range (rnd (c * of_int n)) 0 (of_int n)"
    using c n by (intro in_range_rnd) (simp_all add: mult_le_cancel_right1)
  then obtain p where p: "rnd (c * of_int n) = Fin p" "0 \<le> p" "p \<le> of_int n" by (rule in_rangeE)
  have "threshold n cfg = rnd (of_int n + p)"
    using c(1) n p(1) by (simp add: threshold_def Let_def)
  moreover have "in_range (rnd (of_int n + p)) (of_int n) (2 * of_int n)"
    using p n by (intro in_range_rnd) simp_all
  ultimately show ?thesis by simp
qed

text \<open>Adding \<open>eps\<close> to a threshold moves it: the next value of the type is closer than \<open>eps\<close>.\<close>

lemma next_value:
  assumes "wf64 x" "1 \<le> x" "x \<le> 4" obtains y where "wf64 y" "x < y" "y \<le> x + 1 / 10 ^ 10" "y \<le> 5"
proof -
  let ?k = "quantum_exp x" let ?m = "rne (x / pow2 ?k)"
  have x0: "0 < x" using assms(2) by linarith
  have "ilog2 x \<le> 2"
    using ilog2_le[OF x0] assms(3) pow2_less_cancel[of 2 "ilog2 x"] by (simp add: pow2_def[of 2])
  moreover have "0 \<le> ilog2 x" using ilog2_gt[OF x0] assms(2) pow2_less_cancel[of 0 "ilog2 x + 1"] by simp
  ultimately have k: "?k = ilog2 x - 52" "?k \<le> - 50" "- 52 \<le> ?k"
    using x0 by (simp_all add: quantum_exp_def)
  have x: "x = of_int ?m * pow2 ?k"
    using round64_exact[of x] assms(1) x0 by (simp add: wf64_def round64_def Let_def)
  have "of_int ?m * pow2 ?k < pow2 53 * pow2 ?k"
    using ilog2_gt[OF x0] x k(1) by (simp add: pow2_add[symmetric] add.commute)
  then have "rat_of_int ?m < rat_of_int (2 ^ 53)" by (simp add: pow2_def[of 53])
  then have m: "?m < 2 ^ 53" by (simp only: of_int_less_iff)
  have "0 \<le> ?m" using x0 by (intro rne_ge_int) simp
  with m have rep: "representable (of_int (?m + 1) * pow2 ?k)"
    unfolding representable_def using k(3) by (intro exI[of _ "?m + 1"] exI[of _ ?k]) simp
  have q: "pow2 ?k \<le> 1 / 10 ^ 10" using pow2_mono[OF k(2)] by (simp add: pow2_def[of "- 50"])
  have eq: "of_int (?m + 1) * pow2 ?k = x + pow2 ?k" using x by (simp add: algebra_simps)
  have le5: "x + pow2 ?k \<le> 5" using q assms(3) by simp
  then have "x + pow2 ?k < max_exp" by (simp add: max_exp_def)
  moreover have "0 < x + pow2 ?k" using x0 by (simp add: add_pos_pos)
  ultimately have "wf64 (x + pow2 ?k)" using rep eq by (simp add: wf64_def)
  with q le5 show thesis by (intro that[of "x + pow2 ?k"]) simp_all
qed

lemma eps_range: "in_range eps (1 / 2 ^ 30) 1"
proof -
  have "wf64 (pow2 (- 30))" by (rule wf64_pow2) simp_all
  then have "wf64 (1 / 2 ^ 30)" by (simp add: pow2_def)
  then show ?thesis unfolding eps_def lit_def by (rule in_range_rnd) simp_all
qed

lemma plus_eps:
  assumes "in_range t lo hi" "1 \<le> lo" "hi \<le> 4"
  shows "in_range (t + eps) lo 5 \<and> t < t + eps"
proof -
  obtain e where e: "eps = Fin e" "1 / 2 ^ 30 \<le> e" "e \<le> 1" using eps_range by (rule in_rangeE)
  obtain x where x: "t = Fin x" "lo \<le> x" "x \<le> hi" "wf64 x" using assms(1) by (rule in_rangeE)
  obtain y where y: "wf64 y" "x < y" "y \<le> x + 1 / 10 ^ 10" using next_value[of x] x assms by auto
  have "y \<le> x + e" using y(3) e(2) by simp
  moreover have "x + e \<le> 5" using x e assms by simp
  moreover have "wf64 5" using wf64_of_int[of 5] by simp
  ultimately obtain r where "rnd (x + e) = Fin r" "y \<le> r" "r \<le> 5" "wf64 r"
    using y(1) rnd_between[of y 5 "x + e"] by metis
  with x y show ?thesis by (simp add: e(1) in_range_def)
qed

lemma in_range_less_eq: "in_range x lo hi \<Longrightarrow> in_range y lo' hi' \<Longrightarrow> \<not> x < y \<Longrightarrow> y \<le> x"
  by (auto elim!: in_rangeE)

text \<open>The forced thresholds: in their published bands, and strictly increasing.\<close>

lemma forced_thresholds_ordered:
  assumes "numeric_confidence cfg" "forced_thresholds cfg = (t1, t2, t3)"
  shows "in_range t1 1 2 \<and> in_range t2 2 4 \<and> in_range t3 3 6 \<and> t1 < t2 \<and> t2 < t3"
proof -
  let ?a = "threshold TierTag cfg" and ?b = "threshold TierContain cfg" and ?c = "threshold TierJail cfg"
  have r: "in_range ?a 1 2" "in_range ?b 2 4" "in_range ?c 3 6"
    using threshold_range[OF assms(1), of 1] threshold_range[OF assms(1), of 2] threshold_range[OF assms(1), of 3]
    by simp_all
  have t1: "t1 = ?a" and t2: "t2 = (if ?b < ?a + eps then ?a + eps else ?b)"
    and t3: "t3 = (if ?c < t2 + eps then t2 + eps else ?c)"
    using assms(2) by (auto simp: forced_thresholds_def Let_def)
  have a: "in_range (?a + eps) 1 5" "?a < ?a + eps" using plus_eps[OF r(1)] by simp_all
  have "in_range (?a + eps) 2 4" if "?b < ?a + eps"
  proof -
    obtain e where e: "eps = Fin e" "1 / 2 ^ 30 \<le> e" "e \<le> 1" using eps_range by (rule in_rangeE)
    obtain x where x: "?a = Fin x" "x \<le> 2" "1 \<le> x" using r(1) by (rule in_rangeE)
    have "0 \<le> e" using e(2) by (rule order_trans[rotated]) simp
    then have "in_range (rnd (x + e)) 0 3" using x e(3) by (intro in_range_rnd) simp_all
    with that r(2) x a(1) show ?thesis by (auto simp: in_range_def e(1) split: f64.splits)
  qed
  then have r2: "in_range t2 2 4" using r(2) t2 by auto
  have "t1 < t2" using a r t1 t2 in_range_less_eq[OF r(2) a(1)] f64_less_le_trans[OF a(2)] by auto
  moreover have b: "in_range (t2 + eps) 2 5" "t2 < t2 + eps" using plus_eps[OF r2] by simp_all
  have "in_range t3 3 6" using r(3) b(1) t3 by (auto simp: in_range_def split: f64.splits)
  moreover have "t2 < t3" using b t3 in_range_less_eq[OF r(3) b(1)] f64_less_le_trans[OF b(2)] by auto
  ultimately show ?thesis using r r2 t1 by simp
qed

section \<open>The decision\<close>

lemma Decide_ok:
  "tiers_Validate ord cfg = None \<Longrightarrow> forced_thresholds cfg = (t1, t2, t3) \<Longrightarrow>
   Decide ord k score cfg =
     (let tier = (if t3 \<le> score then TierJail else if t2 \<le> score then TierContain
                  else if t1 \<le> score then TierTag else TierObserve)
      in ((tier, modeFor tier cfg), None))"
  by (simp add: Decide_def)

text \<open>
  Under a validated configuration whose strictness values are numbers, the decision is
  graduated: there are three thresholds, inside the published bands [1,2], [2,4] and [3,6] of
  distinct touches and strictly increasing however the operator ordered the strictness knobs, and
  the tier of a score is the number of thresholds it meets. So a higher score never gets a lower
  tier, every tier is reachable, and a flow with less than one touch is only observed.
\<close>

theorem decide_graduated:
  assumes "tiers_Validate ord cfg = None" "numeric_confidence cfg"
  shows "\<exists>t1 t2 t3. in_range t1 1 2 \<and> in_range t2 2 4 \<and> in_range t3 3 6 \<and> t1 < t2 \<and> t2 < t3 \<and>
    (\<forall>k score. fst (fst (Decide ord k score cfg)) = int (length (filter (\<lambda>t. t \<le> score) [t1, t2, t3])) \<and>
       snd (Decide ord k score cfg) = None)"
proof -
  obtain t1 t2 t3 where f: "forced_thresholds cfg = (t1, t2, t3)" by (rule prod_cases3)
  note o = forced_thresholds_ordered[OF assms(2) f]
  have "t2 \<le> score \<Longrightarrow> t1 \<le> score" "t3 \<le> score \<Longrightarrow> t2 \<le> score" for score
    using o f64_le_trans[OF f64_less_le, of t1 t2 score] f64_le_trans[OF f64_less_le, of t2 t3 score] by simp_all
  then have "fst (fst (Decide ord k score cfg)) = int (length (filter (\<lambda>t. t \<le> score) [t1, t2, t3])) \<and>
       snd (Decide ord k score cfg) = None" for k score
    by (auto simp: Decide_ok[OF assms(1) f] Let_def)
  with o show ?thesis by blast
qed

text \<open>The knob settings of the program as binary64 values.\<close>

lemma knob_values:
  "lit (1 / 100) = Fin (5764607523034235 / 576460752303423488)"
  "lit (3 / 10) = Fin (5404319552844595 / 18014398509481984)"
  "lit (7 / 10) = Fin (3152519739159347 / 4503599627370496)"
  "eps = Fin (4835703278458517 / 4835703278458516698824704)"
  unfolding eps_def by (simp_all add: f64_eval)

lemma default_config_valid: "tiers_Validate (\<lambda>xs. xs, \<lambda>xs. xs) tiers_DefaultConfig = None"
  by (simp add: tiers_Validate_def tiers_DefaultConfig_def MinConfidence_def MaxConfidence_def knob_values)

lemma default_config_numeric: "numeric_confidence tiers_DefaultConfig"
  by (simp add: numeric_confidence_def tiers_DefaultConfig_def lit_def rnd_not_NaN[symmetric])

lemmas default_config_ok = default_config_valid default_config_numeric

lemma decide_graduated_witness:
  "\<exists>t1 t2 t3. in_range t1 1 2 \<and> in_range t2 2 4 \<and> in_range t3 3 6 \<and> t1 < t2 \<and> t2 < t3 \<and>
    (\<forall>k score. fst (fst (Decide (\<lambda>xs. xs, \<lambda>xs. xs) k score tiers_DefaultConfig)) =
         int (length (filter (\<lambda>t. t \<le> score) [t1, t2, t3])) \<and>
       snd (Decide (\<lambda>xs. xs, \<lambda>xs. xs) k score tiers_DefaultConfig) = None)"
  by (rule decide_graduated[OF default_config_ok])

text \<open>
  A score that is not a number is observed only: no threshold comparison with NaN holds.
\<close>

lemma Decide_NaN: "fst (fst (Decide ord k NaN cfg)) = TierObserve"
  by (simp add: Decide_def Let_def split: option.splits prod.splits)

text \<open>
  The async-only rule cannot be configured away: whatever the configuration and
  whatever the score, a decision of tier 0 or 1 (and every refusal of an invalid configuration)
  carries the async mode, and an invalid configuration never yields an action tier.
\<close>

theorem low_tiers_async:
  "(fst (fst (Decide ord k score cfg)) \<le> TierTag \<longrightarrow> snd (fst (Decide ord k score cfg)) = ModeAsync) \<and>
   (tiers_Validate ord cfg \<noteq> None \<longrightarrow>
      Decide ord k score cfg = ((TierObserve, ModeAsync), tiers_Validate ord cfg))"
  by (auto simp: Decide_def modeFor_def Let_def split: option.splits prod.splits)

definition inline_tag_config :: tiers_Config where
  "inline_tag_config = tiers_DefaultConfig\<lparr>Mode := [(TierTag, ModeInline)]\<rparr>"

lemma inline_tag_config_bad: "tiers_Validate (\<lambda>xs. xs, \<lambda>xs. xs) inline_tag_config = Some (AsyncOnlyTier TierTag)"
  by (simp add: tiers_Validate_def inline_tag_config_def tiers_DefaultConfig_def MinConfidence_def MaxConfidence_def knob_values)

lemma low_tiers_async_witness:
  "Decide (\<lambda>xs. xs, \<lambda>xs. xs) ''a'' (lit 2) inline_tag_config = ((TierObserve, ModeAsync), Some (AsyncOnlyTier TierTag)) \<and>
   snd (fst (Decide (\<lambda>xs. xs, \<lambda>xs. xs) ''a'' NaN tiers_DefaultConfig)) = ModeAsync"
  using low_tiers_async[of "(\<lambda>xs. xs, \<lambda>xs. xs)" "''a''" "lit 2" inline_tag_config]
    low_tiers_async[of "(\<lambda>xs. xs, \<lambda>xs. xs)" "''a''" NaN tiers_DefaultConfig]
  by (simp add: inline_tag_config_bad Decide_NaN)

text \<open>
  What validation guarantees about an engine outage: tiers 0 and 1 always allow the
  flow; a tier with an explicit fail-closed entry denies it, and the entry of tier 3 of an accepted
  configuration can only be that one. But validation accepts a configuration without an entry for
  tier 3, and then a flow at tier 3 is allowed during the outage.
\<close>

theorem outage_behaviour:
  assumes "range_ok ord" "tiers_Validate ord cfg = None"
  shows "(\<forall>t\<le>TierTag. OnEngineUnavailable cfg t) \<and>
    (OnEngineUnavailable cfg TierJail \<longleftrightarrow> FailClosed cfg TierJail = None) \<and>
    tiers_Validate ord (cfg\<lparr>FailClosed := Map.empty\<rparr>) = None \<and>
    OnEngineUnavailable (cfg\<lparr>FailClosed := Map.empty\<rparr>) TierJail"
  using assms by (auto simp: tiers_Validate_None OnEngineUnavailable_def split: option.splits)

lemma outage_behaviour_witness:
  "\<not> OnEngineUnavailable tiers_DefaultConfig TierJail \<and> OnEngineUnavailable (tiers_DefaultConfig\<lparr>FailClosed := Map.empty\<rparr>) TierJail"
  using outage_behaviour[OF range_ok_id default_config_ok(1)]
  by (simp add: tiers_DefaultConfig_def)

end
