(* ===== verification/Engine.thy ===== *)
theory Engine
  imports Calibration Scope Tiers
begin

text \<open>
  The decision engine, \<^verbatim>\<open>internal/engine/engine.go\<close>, and the tier configuration that
  \<^verbatim>\<open>internal/boot/boot.go\<close> hands to it. The collaborators are Go interfaces, so a configuration holds
  functions; the scorer is the one with state, which \<open>Submit\<close> threads. The theorems are about the
  engine the program builds, with the static resolver, the windowed scorer and the static decider:
  the scope on the wire has no influence, events of one scope do not touch another, the only
  run-time failure is an unresolved scope, and in cold start the tier is a table of distinct touches.
\<close>

text \<open>A resolver, with the optional \<^verbatim>\<open>Validate\<close> method that \<^verbatim>\<open>New\<close> looks for.\<close>

record Resolver =
  rs_Resolve :: "FlowIdentity \<Rightarrow> ScopeKey result"
  rs_Validate :: "error option option"

record 's engine_Config =
  ec_Resolver :: "Resolver option"
  ec_Scorer :: "('s \<Rightarrow> ScopeKey \<Rightarrow> SignalEvent \<Rightarrow> f64 result \<times> 's) option"
  ec_Decider :: "(ScopeKey \<Rightarrow> f64 \<Rightarrow> tiers_Config \<Rightarrow> (Tier \<times> EnforcementMode) \<times> tiers_error option) option"
  ec_Tiers :: tiers_Config
  ec_Calibration :: "(ScopeKey \<Rightarrow> calibration_State) option"
  TierDepthMultiplier :: "MultiplierSource option"

datatype engine_error =
    NilResolver | NilScorer | NilDecider
  | ResolverError error | ScorerError error | TiersError tiers_error

text \<open>
  A \<^verbatim>\<open>Service\<close> holds the configuration with the three collaborators present, as \<^verbatim>\<open>New\<close> made sure.
\<close>

record 's Service =
  sv_Resolve :: "FlowIdentity \<Rightarrow> ScopeKey result"
  sv_Score :: "'s \<Rightarrow> ScopeKey \<Rightarrow> SignalEvent \<Rightarrow> f64 result \<times> 's"
  sv_Decide :: "ScopeKey \<Rightarrow> f64 \<Rightarrow> tiers_Config \<Rightarrow> (Tier \<times> EnforcementMode) \<times> tiers_error option"
  sv_Tiers :: tiers_Config
  sv_Calibration :: "(ScopeKey \<Rightarrow> calibration_State) option"
  sv_TierDepth :: "MultiplierSource option"

definition engine_New :: "range_orders \<Rightarrow> 's engine_Config \<Rightarrow> engine_error + 's Service" where
  "engine_New ord cfg =
     (case ec_Resolver cfg of
        None \<Rightarrow> Inl NilResolver
      | Some r \<Rightarrow> (case ec_Scorer cfg of
          None \<Rightarrow> Inl NilScorer
        | Some sc \<Rightarrow> (case ec_Decider cfg of
            None \<Rightarrow> Inl NilDecider
          | Some d \<Rightarrow>
             (case rs_Validate r of
                Some (Some err) \<Rightarrow> Inl (ResolverError err)
              | _ \<Rightarrow>
                 (case tiers_Validate ord (ec_Tiers cfg) of
                    Some err \<Rightarrow> Inl (TiersError err)
                  | None \<Rightarrow> Inr \<lparr>sv_Resolve = rs_Resolve r, sv_Score = sc, sv_Decide = d, sv_Tiers = ec_Tiers cfg,
                                  sv_Calibration = ec_Calibration cfg, sv_TierDepth = TierDepthMultiplier cfg\<rparr>)))))"

definition tier_input :: "'s Service \<Rightarrow> ScopeKey \<Rightarrow> SignalEvent \<Rightarrow> f64 \<Rightarrow> f64" where
  "tier_input sv scopeKey ev score =
     (case sv_TierDepth sv of
        None \<Rightarrow> score
      | Some src \<Rightarrow> (let m = src scopeKey (ev_Flow ev) (ev_Timestamp ev) in if 1 \<le> m then fdiv score m else score))"

definition Submit :: "'s Service \<Rightarrow> 's \<Rightarrow> SignalEvent \<Rightarrow> (engine_error + Verdict) \<times> 's" where
  "Submit sv st ev =
     (case sv_Resolve sv (ev_Flow ev) of
        Inl err \<Rightarrow> (Inl (ResolverError err), st)
      | Inr scopeKey \<Rightarrow>
         (case sv_Score sv st scopeKey ev of
            (Inl err, st') \<Rightarrow> (Inl (ScorerError err), st')
          | (Inr score, st') \<Rightarrow>
             (case sv_Decide sv scopeKey (tier_input sv scopeKey ev score) (sv_Tiers sv) of
                (_, Some err) \<Rightarrow> (Inl (TiersError err), st')
              | ((tier, mode), None) \<Rightarrow>
                 (Inr \<lparr>v_Flow = ev_Flow ev, v_Scope = scopeKey, v_Tier = tier, v_Mode = mode, v_Score = score,
                       v_Calibrated = (case sv_Calibration sv of None \<Rightarrow> False | Some c \<Rightarrow> Calibrated (c scopeKey))\<rparr>,
                  st'))))"

section \<open>The engine the program builds\<close>

text \<open>
  The tier configuration \<^verbatim>\<open>boot\<close> chooses: the default one, the aggressive one or the demo band, with
  the inline flags applied to the action tiers.
\<close>

definition boot_tierCfg :: "bool \<Rightarrow> bool \<Rightarrow> bool \<Rightarrow> bool \<Rightarrow> tiers_Config" where
  "boot_tierCfg Aggressive DemoEscalation ContainInline JailInline =
     (let c = tiers_DefaultConfig;
          c = (if Aggressive then c\<lparr>ConfidenceRequired := [(TierTag, MinConfidence), (TierContain, MinConfidence), (TierJail, MinConfidence)]\<rparr>
               else if DemoEscalation then c\<lparr>ConfidenceRequired := [(TierTag, lit (1 / 100)), (TierContain, lit (30 / 100)), (TierJail, lit (50 / 100))]\<rparr>
               else c);
          c = (if ContainInline then c\<lparr>Mode := AList.update TierContain ModeInline (Mode c)\<rparr> else c)
      in if JailInline then c\<lparr>Mode := AList.update TierJail ModeInline (Mode c)\<rparr> else c)"

text \<open>The static resolver, the windowed scorer and the static decider, plugged into a configuration.\<close>

type_synonym map_orders =
  "((CanaryType \<times> time) list \<Rightarrow> (CanaryType \<times> time) list) \<times> (flows \<Rightarrow> flows) \<times> range_orders"

definition static_config ::
  "map_orders \<Rightarrow> scope_Config \<Rightarrow> tiers_Config \<Rightarrow> calibration_Store option \<Rightarrow> MultiplierSource option \<Rightarrow> WindowedScorer engine_Config" where
  "static_config os sc tc cal tdm = (case os of (permT, permF, ord) \<Rightarrow>
     \<lparr>ec_Resolver = Some \<lparr>rs_Resolve = Resolve sc, rs_Validate = Some (scope_Validate sc)\<rparr>,
      ec_Scorer = Some (Score permT permF), ec_Decider = Some (Decide ord), ec_Tiers = tc,
      ec_Calibration = map_option State cal, TierDepthMultiplier = tdm\<rparr>)"

definition orders_ok :: "map_orders \<Rightarrow> bool" where
  "orders_ok os \<longleftrightarrow> enumeration (fst os) \<and> enumeration (fst (snd os)) \<and> range_ok (snd (snd os))"

lemma static_New:
  "engine_New ord (static_config os sc tc cal tdm) = Inr sv \<longleftrightarrow>
   scope_Validate sc = None \<and> tiers_Validate ord tc = None \<and>
   sv = \<lparr>sv_Resolve = Resolve sc, sv_Score = Score (fst os) (fst (snd os)), sv_Decide = Decide (snd (snd os)),
         sv_Tiers = tc, sv_Calibration = map_option State cal, sv_TierDepth = tdm\<rparr>"
  by (auto simp: engine_New_def static_config_def split: prod.splits option.splits)

section \<open>An engine over any scoped scorer\<close>

text \<open>
  What the engine relies on: a resolver that never yields the empty scope, a scorer whose step in
  one scope leaves what it holds for every other scope, and does not read the scope on the event.
\<close>

locale scoped_engine = scope_resolver resolve
  for resolve :: "FlowIdentity \<Rightarrow> ScopeKey result" +
  fixes score :: "'s \<Rightarrow> ScopeKey \<Rightarrow> SignalEvent \<Rightarrow> f64 result \<times> 's"
    and view :: "'s \<Rightarrow> ScopeKey \<Rightarrow> 'v"
  assumes score_frame: "k' \<noteq> k \<Longrightarrow> view (snd (score s k ev)) k' = view s k'"
    and score_wire: "score s k (ev\<lparr>ev_Scope := w\<rparr>) = score s k ev"
begin

lemma submit_scope:
  assumes "sv_Resolve sv = resolve" "fst (Submit sv s ev) = Inr v"
  shows "resolve (ev_Flow ev) = Inr (v_Scope v) \<and> v_Scope v \<noteq> []"
  using assms resolved_nonempty[of "ev_Flow ev"]
  by (auto simp: Submit_def split: sum.splits prod.splits option.splits)

lemma submit_wire:
  assumes "sv_Resolve sv = resolve" "sv_Score sv = score"
  shows "Submit sv s (ev\<lparr>ev_Scope := w\<rparr>) = Submit sv s ev"
  by (simp add: Submit_def assms score_wire tier_input_def cong: sum.case_cong prod.case_cong option.case_cong)

lemma submit_frame:
  assumes "sv_Resolve sv = resolve" "sv_Score sv = score" "resolve (ev_Flow ev) \<noteq> Inr k"
  shows "view (snd (Submit sv s ev)) k = view s k"
proof (cases "resolve (ev_Flow ev)")
  case (Inr k')
  with assms(3) have "view (snd (score s k' ev)) k = view s k" by (intro score_frame) simp
  moreover have "snd (Submit sv s ev) = snd (score s k' ev)"
    using Inr by (auto simp: Submit_def assms split: sum.splits prod.splits option.splits)
  ultimately show ?thesis by simp
qed (simp add: Submit_def assms)

end

lemma Score_wire: "Score permT permF s k (ev\<lparr>ev_Scope := w\<rparr>) = Score permT permF s k ev"
  by (simp add: Score_def record_touch_def Let_def split: option.split)

interpretation static_engine: scoped_engine "Resolve sc" "Score permT permF" flows_of for sc permT permF
  by unfold_locales (simp_all add: Score_other_scope Score_wire)

section \<open>Scope isolation end to end\<close>

text \<open>
  Property C18. The scope is resolved, never taken from the wire: for an engine built on the static
  resolver, the windowed scorer and the static decider, the scope an event claims changes neither
  the verdict nor the state, the verdict carries the resolved scope, which is never empty, and an
  event changes nothing that is held for any other scope.
\<close>

theorem submit_scope_authority:
  assumes "engine_New ord (static_config os sc tc cal tdm) = Inr sv"
  shows "Submit sv s (ev\<lparr>ev_Scope := forged\<rparr>) = Submit sv s ev \<and>
    (\<forall>v. fst (Submit sv s ev) = Inr v \<longrightarrow> Resolve sc (ev_Flow ev) = Inr (v_Scope v) \<and> v_Scope v \<noteq> []) \<and>
    (\<forall>k. Resolve sc (ev_Flow ev) \<noteq> Inr k \<longrightarrow> flows_of (snd (Submit sv s ev)) k = flows_of s k)"
proof -
  from assms have r: "sv_Resolve sv = Resolve sc" and c: "sv_Score sv = Score (fst os) (fst (snd os))"
    by (auto simp: static_New)
  show ?thesis
    using static_engine.submit_wire[OF r c, where s = s and ev = ev and w = forged]
      static_engine.submit_scope[OF r, where s = s and ev = ev]
      static_engine.submit_frame[OF r c, where s = s and ev = ev] by blast
qed

definition demo_scopes :: scope_Config where
  "demo_scopes = \<lparr>Zones = [\<lparr>z_Key = ''zone-a'', z_Match = Some (\<lambda>f. SocketCookie f < 100)\<rparr>], Cluster = None, Boundary = ''edge''\<rparr>"

definition demo_orders :: map_orders where
  "demo_orders = (rev, rev, (\<lambda>xs. xs, \<lambda>xs. xs))"

definition demo_service :: "WindowedScorer Service" where
  "demo_service = \<lparr>sv_Resolve = Resolve demo_scopes, sv_Score = Score rev rev, sv_Decide = Decide (\<lambda>xs. xs, \<lambda>xs. xs),
     sv_Tiers = tiers_DefaultConfig, sv_Calibration = None, sv_TierDepth = None\<rparr>"

lemma demo_built:
  "engine_New (\<lambda>xs. xs, \<lambda>xs. xs) (static_config demo_orders demo_scopes tiers_DefaultConfig None None) = Inr demo_service"
  by (simp add: static_New demo_service_def demo_orders_def default_config_valid scope_Validate_def demo_scopes_def)

lemma demo_resolve: "Resolve demo_scopes (cookie_flow 7) = Inr ''zone-a''"
  by (simp add: demo_scopes_def Resolve_def)

lemma submit_scope_authority_witness:
  "Submit demo_service demo_scorer ((touch_event 7 ''file'' 5)\<lparr>ev_Scope := ''victim''\<rparr>) =
     Submit demo_service demo_scorer (touch_event 7 ''file'' 5) \<and>
   flows_of (snd (Submit demo_service demo_scorer (touch_event 7 ''file'' 5))) ''victim'' = flows_of demo_scorer ''victim''"
  using submit_scope_authority[OF demo_built, where s = demo_scorer and ev = "touch_event 7 ''file'' 5" and forged = "''victim''"]
    demo_resolve
  by simp

lemma Score_ok: "k \<noteq> [] \<Longrightarrow> sc_weights s = Some w \<Longrightarrow> \<exists>x. fst (Score permT permF s k ev) = Inr x"
  by (simp add: Score_def Let_def)

lemma submit_answers:
  assumes "engine_New ord (static_config os sc tc cal tdm) = Inr sv" "range_ok ord" "orders_ok os" "sc_weights s = Some w"
  shows "case Resolve sc (ev_Flow ev) of
           Inr k \<Rightarrow> (\<exists>v. fst (Submit sv s ev) = Inr v)
         | Inl e \<Rightarrow> Submit sv s ev = (Inl (ResolverError ErrUnresolved), s)"
proof (cases "Resolve sc (ev_Flow ev)")
  case (Inl e)
  then have "e = ErrUnresolved" by (auto simp: Resolve_order split: option.splits)
  with Inl assms(1) show ?thesis by (auto simp: Submit_def static_New)
next
  case (Inr k)
  then have k: "k \<noteq> []" by (rule static_resolver.resolved_nonempty)
  obtain x s' where x: "Score (fst os) (fst (snd os)) s k ev = (Inr x, s')"
    using Score_ok[OF k assms(4), of "fst os" "fst (snd os)" ev] by (metis prod.collapse)
  have "tiers_Validate (snd (snd os)) tc = None"
    using assms(1-3) tiers_Validate_order[of ord "snd (snd os)" tc] by (simp add: static_New orders_ok_def)
  then have "snd (Decide (snd (snd os)) k y tc) = None" for y
    by (simp add: Decide_def Let_def split: prod.splits)
  then have "\<exists>t m. Decide (snd (snd os)) k y tc = ((t, m), None)" for y by (metis prod.collapse)
  then obtain t m where "Decide (snd (snd os)) k (tier_input sv k ev x) tc = ((t, m), None)" by blast
  with Inr x assms(1) show ?thesis by (auto simp: Submit_def static_New)
qed

text \<open>
  What \<^verbatim>\<open>New\<close> checked cannot fail later: an engine that was built, over a scorer with a
  weights source, answers every event whose scope resolves with a verdict; the only run-time error is
  the unresolved scope, and it leaves the scorer untouched. The enumeration order the start-up check
  saw may differ from the one of each decision.
\<close>

theorem submit_total:
  assumes "engine_New ord (static_config os sc tc cal tdm) = Inr sv" "range_ok ord" "orders_ok os" "sc_weights s = Some w"
  shows "case Resolve sc (ev_Flow ev) of
           Inr k \<Rightarrow> (\<exists>v. fst (Submit sv s ev) = Inr v)
         | Inl e \<Rightarrow> Submit sv s ev = (Inl (ResolverError ErrUnresolved), s)"
  by (rule submit_answers[OF assms])

lemma submit_total_witness: "\<exists>v. fst (Submit demo_service demo_scorer (touch_event 7 ''file'' 5)) = Inr v"
proof -
  have "sc_weights demo_scorer = Some (\<lambda>_ _. lit 1)"
    by (simp add: demo_scorer_def fresh_scorer_def UseMultiplier_def WithMaxCookiesPerScope_def scoring_New_def)
  moreover have "orders_ok demo_orders"
    by (simp add: orders_ok_def demo_orders_def enumeration_rev range_ok_id)
  ultimately show ?thesis
    using submit_total[OF demo_built range_ok_id, of demo_scorer _ "touch_event 7 ''file'' 5"] demo_resolve by simp
qed

section \<open>Cold start: a table of touches\<close>

definition run_engine :: "'s Service \<Rightarrow> 's \<Rightarrow> SignalEvent list \<Rightarrow> 's" where
  "run_engine sv s evs = foldl (\<lambda>s ev. snd (Submit sv s ev)) s evs"

text \<open>The events whose scope resolves, with that scope: what reaches the scorer.\<close>

definition resolved_log :: "scope_Config \<Rightarrow> SignalEvent list \<Rightarrow> touch_log" where
  "resolved_log sc evs = concat (map (\<lambda>ev. case Resolve sc (ev_Flow ev) of Inr k \<Rightarrow> [(k, ev)] | Inl _ \<Rightarrow> []) evs)"

lemma Submit_state:
  "snd (Submit sv s ev) = (case sv_Resolve sv (ev_Flow ev) of Inr k \<Rightarrow> snd (sv_Score sv s k ev) | Inl _ \<Rightarrow> s)"
  by (auto simp: Submit_def split: sum.splits prod.splits option.splits)

lemma run_engine_scorer:
  assumes "sv_Resolve sv = Resolve sc" "sv_Score sv = Score permT permF"
  shows "run_engine sv s evs = run_scorer permT permF s (resolved_log sc evs)"
proof (induction evs rule: rev_induct)
  case (snoc ev evs)
  then show ?case
    by (auto simp: run_engine_def resolved_log_def Submit_state assms run_scorer_def split: sum.splits)
qed (simp add: run_engine_def resolved_log_def run_scorer_def)

text \<open>The number of distinct touches at which each tier begins.\<close>

definition touch_table :: "bool \<Rightarrow> bool \<Rightarrow> nat \<Rightarrow> Tier" where
  "touch_table Aggressive DemoEscalation n =
     (if n < 2 then TierObserve
      else if n < 3 then TierTag
      else if n < (if Aggressive then 4 else if DemoEscalation then 5 else 6) then TierContain
      else TierJail)"

text \<open>The thresholds depend on the strictness knobs alone, so three evaluations cover every flag.\<close>

lemma forced_thresholds_conf:
  "ConfidenceRequired c = ConfidenceRequired c' \<Longrightarrow> forced_thresholds c = forced_thresholds c'"
  by (simp add: forced_thresholds_def threshold_def)

definition boot_confidence :: "bool \<Rightarrow> bool \<Rightarrow> (Tier \<times> f64) list" where
  "boot_confidence ag de = ConfidenceRequired (boot_tierCfg ag de False False)"

lemma boot_confidence: "ConfidenceRequired (boot_tierCfg ag de ci ji) = boot_confidence ag de"
  by (simp add: boot_confidence_def boot_tierCfg_def Let_def)

lemma boot_band:
  "case forced_thresholds (tiers_DefaultConfig\<lparr>ConfidenceRequired := boot_confidence ag de\<rparr>) of
     (Fin t1, Fin t2, Fin t3) \<Rightarrow> 1 < t1 \<and> t1 \<le> 2 \<and> 2 < t2 \<and> t2 \<le> 3 \<and>
       (if ag then 3 else if de then 4 else 5) < t3 \<and> t3 \<le> (if ag then 4 else if de then 5 else 6)
   | _ \<Rightarrow> False"
proof -
  note ev = boot_confidence_def boot_tierCfg_def tiers_DefaultConfig_def forced_thresholds_def threshold_def
    MinConfidence_def MaxConfidence_def minTouches_def span_touches_def knob_values
  consider "ag" | "\<not> ag" "de" | "\<not> ag" "\<not> de" by blast
  then show ?thesis by cases (simp_all add: ev zero_f64_def, simp_all add: f64_eval)
qed

lemma boot_thresholds:
  "case forced_thresholds (boot_tierCfg ag de ci ji) of
     (Fin t1, Fin t2, Fin t3) \<Rightarrow> 1 < t1 \<and> t1 \<le> 2 \<and> 2 < t2 \<and> t2 \<le> 3 \<and>
       (if ag then 3 else if de then 4 else 5) < t3 \<and> t3 \<le> (if ag then 4 else if de then 5 else 6)
   | _ \<Rightarrow> False"
  using boot_band[of ag de]
    forced_thresholds_conf[of "boot_tierCfg ag de ci ji" "tiers_DefaultConfig\<lparr>ConfidenceRequired := boot_confidence ag de\<rparr>"]
  by (simp add: boot_confidence)

lemma of_nat_between:
  fixes t :: rat
  assumes "of_nat n < t" "t \<le> of_nat (Suc n)" shows "t \<le> of_nat m \<longleftrightarrow> n < m"
proof
  assume "t \<le> of_nat m"
  with assms(1) have "rat_of_nat n < of_nat m" by linarith
  then show "n < m" by (simp only: of_nat_less_iff)
next
  assume "n < m"
  then have "rat_of_nat (Suc n) \<le> of_nat m" by (simp only: of_nat_le_iff Suc_le_eq)
  with assms(2) show "t \<le> of_nat m" by linarith
qed

lemma Decide_touches:
  assumes "tiers_Validate ord (boot_tierCfg ag de ci ji) = None"
  shows "Decide ord k (Fin (of_nat n)) (boot_tierCfg ag de ci ji) =
    ((touch_table ag de n, modeFor (touch_table ag de n) (boot_tierCfg ag de ci ji)), None)"
proof -
  obtain x1 x2 x3 where f: "forced_thresholds (boot_tierCfg ag de ci ji) = (x1, x2, x3)" by (rule prod_cases3)
  with boot_thresholds[of ag de ci ji] obtain t1 t2 t3 where t: "x1 = Fin t1" "x2 = Fin t2" "x3 = Fin t3"
    "1 < t1" "t1 \<le> 2" "2 < t2" "t2 \<le> 3" "(if ag then 3 else if de then 4 else 5) < t3"
    "t3 \<le> (if ag then 4 else if de then 5 else 6)"
    by (auto split: f64.splits)
  have "t1 \<le> of_nat n \<longleftrightarrow> 1 < n" "t2 \<le> of_nat n \<longleftrightarrow> 2 < n"
    "t3 \<le> of_nat n \<longleftrightarrow> (if ag then 3 else if de then 4 else 5) < n"
    using t of_nat_between[of 1 t1 n] of_nat_between[of 2 t2 n] of_nat_between[of 3 t3 n]
      of_nat_between[of 4 t3 n] of_nat_between[of 5 t3 n] by (simp_all split: if_splits)
  then show ?thesis
    by (auto simp: Decide_ok[OF assms f] t(1-3) touch_table_def Let_def)
qed

lemma boot_tierCfg_valid: "tiers_Validate (\<lambda>xs. xs, \<lambda>xs. xs) (boot_tierCfg ag de ci ji) = None"
  by (cases ag; cases de; cases ci; cases ji)
    (simp_all add: boot_tierCfg_def tiers_DefaultConfig_def tiers_Validate_def MinConfidence_def MaxConfidence_def knob_values)


definition demo_events :: "SignalEvent list" where
  "demo_events = [touch_event 7 ''secret'' 1, touch_event 7 ''file'' 2, touch_event 9 ''file'' 2]"

lemma default_boot: "tiers_DefaultConfig = boot_tierCfg False False False False"
  by (simp add: boot_tierCfg_def)


section \<open>The multiplier at the decision\<close>

text \<open>
  Dividing the baseline multiplier out of the tier decision never raises a tier: for a
  score that is a non-negative value, whatever the depth multiplier returns, the tier decided on the
  divided score is at most the tier of the score itself.
\<close>

theorem tier_depth_never_inflates:
  assumes "tiers_Validate ord tc = None" "numeric_confidence tc" "0 \<le> score" "f64_ok score"
  shows "fst (fst (Decide ord k (tier_input sv k ev score) tc)) \<le> fst (fst (Decide ord k score tc))"
proof -
  have le: "tier_input sv k ev score = NaN \<or> tier_input sv k ev score \<le> score"
  proof (cases "sv_TierDepth sv")
    case (Some src)
    let ?m = "src k (ev_Flow ev) (ev_Timestamp ev)"
    have d: "fdiv score ?m = NaN \<or> fdiv score ?m \<le> score" if "1 \<le> ?m"
    proof (cases score)
      case (Fin a)
      with assms have a: "0 \<le> a" "wf64 a" by (simp_all add: zero_f64_def)
      show ?thesis
      proof (cases ?m)
        case (Fin m)
        with that have m: "1 \<le> m" by (simp add: one_f64_def)
        with a(1) have "a / m \<le> a" by (simp add: divide_le_eq mult_le_cancel_left1)
        then have "rnd (a / m) \<le> rnd a" by (rule rnd_mono)
        with Fin \<open>score = Fin a\<close> m a(2) show ?thesis by (simp add: rnd_exact)
      qed (use Fin a that in \<open>simp_all add: one_f64_def\<close>)
    next
      case PInf
      then show ?thesis by (cases ?m) (auto simp: not_less)
    qed (use assms(3) in \<open>auto simp: zero_f64_def\<close>)
    with Some show ?thesis
      using assms(3) f64_le_refl[of score] by (auto simp: tier_input_def Let_def)
  qed (use assms(3) f64_le_refl[of score] in \<open>auto simp: tier_input_def\<close>)
  obtain t1 t2 t3 where f: "forced_thresholds tc = (t1, t2, t3)" by (rule prod_cases3)
  have "t \<le> tier_input sv k ev score \<Longrightarrow> t \<le> score" for t using le f64_le_trans by auto
  then show ?thesis by (auto simp: Decide_ok[OF assms(1) f] Let_def)
qed

lemma tier_depth_never_inflates_witness:
  "fst (fst (Decide (\<lambda>xs. xs, \<lambda>xs. xs) ''a'' (tier_input (demo_service\<lparr>sv_TierDepth := Some (\<lambda>_ _ _. lit 2)\<rparr>) ''a''
      (touch_event 7 ''file'' 5) (Fin 3)) tiers_DefaultConfig)) \<le>
   fst (fst (Decide (\<lambda>xs. xs, \<lambda>xs. xs) ''a'' (Fin 3) tiers_DefaultConfig))"
  by (rule tier_depth_never_inflates[OF default_config_ok]) (simp_all add: zero_f64_def)

text \<open>
  Property C39. A multiplier source that returns NaN hides the flow: the floor \<^verbatim>\<open>if m < 1 { m = 1 }\<close> of the
  scorer does not fire, the score is NaN, and the verdict is tier 0 however many canaries the flow
  touched.
\<close>

theorem nan_multiplier_hides_flow:
  assumes "engine_New ord (static_config os sc tc cal tdm) = Inr sv" "Resolve sc (ev_Flow ev) = Inr k" "accrues s k ev"
    and "sc_multiplier s k (ev_Flow ev) (ev_Timestamp ev) = NaN" "fst (Submit sv s ev) = Inr v"
  shows "v_Score v = NaN \<and> v_Tier v = TierObserve"
proof -
  have "fst (Score permT permF s k ev) = Inr NaN" for permT permF
    using assms(3,4) by (auto simp: Score_def Let_def accrues_def)
  then obtain st' where sc: "Score (fst os) (fst (snd os)) s k ev = (Inr NaN, st')" by (metis prod.collapse)
  have ti: "tier_input sv k ev NaN = NaN" by (simp add: tier_input_def Let_def split: option.split)
  obtain t m e where d: "Decide (snd (snd os)) k NaN tc = ((t, m), e)" by (metis prod.collapse)
  with Decide_NaN[of "snd (snd os)" k tc] have "t = TierObserve" by simp
  with assms(1,2,5) sc ti d show ?thesis
    by (auto simp: Submit_def static_New split: option.splits)
qed

lemma nan_multiplier_hides_flow_witness:
  "\<exists>v. fst (Submit demo_service (UseMultiplier demo_scorer (Some (\<lambda>_ _ _. NaN))) (touch_event 7 ''file'' 5)) = Inr v \<and>
     v_Score v = NaN \<and> v_Tier v = TierObserve"
proof -
  let ?s = "UseMultiplier demo_scorer (Some (\<lambda>_ _ _. NaN))" and ?ev = "touch_event 7 ''file'' 5"
  have s: "accrues ?s ''zone-a'' ?ev" "sc_multiplier ?s ''zone-a'' (ev_Flow ?ev) (ev_Timestamp ?ev) = NaN"
    using demo_scorer_facts(1)[of "''zone-a''" ?ev] by (simp_all add: UseMultiplier_def accrues_def)
  obtain w where "sc_weights ?s = Some w" using s(1) by (auto simp: accrues_def)
  moreover have "orders_ok demo_orders" by (simp add: orders_ok_def demo_orders_def enumeration_rev range_ok_id)
  ultimately have "\<exists>v. fst (Submit demo_service ?s ?ev) = Inr v"
    using submit_answers[OF demo_built range_ok_id, of ?s w ?ev] demo_resolve by simp
  then obtain v where v: "fst (Submit demo_service ?s ?ev) = Inr v" by blast
  with nan_multiplier_hides_flow[OF demo_built _ s] demo_resolve show ?thesis by auto
qed

end
