(* ===== verification/Containment.thy ===== *)
theory Containment
  imports Contract
begin

text \<open>
  Kernel containment: the loader of \<^verbatim>\<open>bpf/enforce/loader_linux.go\<close> over the verdict map, the
  off-Linux loader of \<^verbatim>\<open>bpf/loader/loader_other.go\<close>, the container of
  \<^verbatim>\<open>internal/sting/containment/containment.go\<close> that drives a loader, and the two programs of
  \<^verbatim>\<open>bpf/enforce/enforce.bpf.c\<close> that read the map on every packet and on socket close. The BPF map itself
  is the kernel's, reached through the \<^verbatim>\<open>cilium/ebpf\<close> package: it is a parameter, and what the loader
  relies on are the laws of the locale \<open>ebpf_map\<close>. The theorems show that containment never touches
  any flow but the one named, that an unattributable flow is never contained, and that the bucket
  bounds what a throttled flow sends. For that bound the lookup and the update of \<^verbatim>\<open>Program\<close> are two steps
  (\<open>throttle_step\<close>) between which packets pass: the update writes stale tokens back, and the bound
  counts the bytes this refunds. A run of the egress program is one step. The race of two CPUs that
  send on one socket, which the program's comment accepts, is not modelled.
\<close>

section \<open>The verdict map\<close>

record VerdictVal =
  vv_Action :: u32
  vv_DroppedPkts :: u64
  vv_DroppedBytes :: u64
  vv_Tokens :: u64
  vv_LastNs :: u64
  vv_Rate :: u64
  vv_Burst :: u64

definition zero_val :: VerdictVal where
  "zero_val = \<lparr>vv_Action = 0, vv_DroppedPkts = 0, vv_DroppedBytes = 0, vv_Tokens = 0, vv_LastNs = 0,
     vv_Rate = 0, vv_Burst = 0\<rparr>"

datatype ebpf_error = ErrKeyNotExist | Errno error

text \<open>The three operations of \<^verbatim>\<open>ebpf.Map\<close> the loader calls, over the state \<open>'m\<close> of the kernel's map.\<close>

record 'm ebpf_Map =
  m_Lookup :: "'m \<Rightarrow> u64 \<Rightarrow> ebpf_error + VerdictVal"
  m_Update :: "'m \<Rightarrow> u64 \<Rightarrow> VerdictVal \<Rightarrow> ebpf_error option \<times> 'm"
  m_Delete :: "'m \<Rightarrow> u64 \<Rightarrow> ebpf_error option \<times> 'm"

text \<open>
  The documented behaviour of an LRU hash map: an update that succeeds binds its key and may evict
  others, one that fails changes nothing, and a delete touches its own key only.
\<close>

locale ebpf_map =
  fixes M :: "'m ebpf_Map"
  assumes update_same: "m_Update M m k v = (None, m') \<Longrightarrow> m_Lookup M m' k = Inr v"
    and update_other: "m_Update M m k v = (None, m') \<Longrightarrow> k' \<noteq> k \<Longrightarrow> m_Lookup M m' k' = Inr w \<Longrightarrow> m_Lookup M m k' = Inr w"
    and update_fails: "m_Update M m k v = (Some e, m') \<Longrightarrow> m_Lookup M m' k' = m_Lookup M m k'"
    and delete_same: "m_Delete M m k = (r, m') \<Longrightarrow> r = None \<or> r = Some ErrKeyNotExist \<Longrightarrow> m_Lookup M m' k = Inl ErrKeyNotExist"
    and delete_other: "m_Delete M m k = (r, m') \<Longrightarrow> k' \<noteq> k \<Longrightarrow> m_Lookup M m' k' = m_Lookup M m k'"
    and delete_fails: "m_Delete M m k = (Some e, m') \<Longrightarrow> e \<noteq> ErrKeyNotExist \<Longrightarrow> m_Lookup M m' k = m_Lookup M m k"

section \<open>The loader\<close>

abbreviation (input) ActionRateLimit :: u32 where "ActionRateLimit \<equiv> 0"
abbreviation (input) ActionHardDeny :: u32 where "ActionHardDeny \<equiv> 1"
abbreviation (input) ActionJail :: u32 where "ActionJail \<equiv> 2"

record Counters =
  DroppedPkts :: u64
  DroppedBytes :: u64

datatype loader_error = RefuseCookie0 | MapError ebpf_error | ErrNotLinux

text \<open>The interface: a loader over the state it changes.\<close>

record 'm Loader =
  l_Program :: "'m \<Rightarrow> u64 \<Rightarrow> u32 \<Rightarrow> u64 \<Rightarrow> u64 \<Rightarrow> loader_error option \<times> 'm"
  l_Release :: "'m \<Rightarrow> u64 \<Rightarrow> loader_error option \<times> 'm"
  l_Counters :: "'m \<Rightarrow> u64 \<Rightarrow> Counters \<times> bool"

text \<open>The fields the loader owns; the kernel owns the bucket and the counters.\<close>

definition loader_fields :: "VerdictVal \<Rightarrow> u32 \<Rightarrow> u64 \<Rightarrow> u64 \<Rightarrow> VerdictVal" where
  "loader_fields v action rate burst = v\<lparr>vv_Action := action, vv_Rate := rate, vv_Burst := burst\<rparr>"

text \<open>
  \<^verbatim>\<open>Program\<close> looks the cookie up and then updates it: two calls to the map with a window between them.
  The value it writes is the value the lookup gave, or a fresh one when the lookup failed, with the
  loader's fields set.
\<close>

definition program_value :: "ebpf_error + VerdictVal \<Rightarrow> u32 \<Rightarrow> u64 \<Rightarrow> u64 \<Rightarrow> VerdictVal" where
  "program_value r action rate burst =
     loader_fields (case r of Inl _ \<Rightarrow> zero_val | Inr v \<Rightarrow> v) action rate burst"

text \<open>\<^verbatim>\<open>Program\<close> as one call runs when nothing else touches the map in its window.\<close>

definition Program :: "'m ebpf_Map \<Rightarrow> 'm \<Rightarrow> u64 \<Rightarrow> u32 \<Rightarrow> u64 \<Rightarrow> u64 \<Rightarrow> loader_error option \<times> 'm" where
  "Program M m cookie action rate burst =
     (if cookie = 0 then (Some RefuseCookie0, m)
      else let v = program_value (m_Lookup M m cookie) action rate burst;
               (err, m') = m_Update M m cookie v
           in (map_option MapError err, m'))"

definition loader_Release :: "'m ebpf_Map \<Rightarrow> 'm \<Rightarrow> u64 \<Rightarrow> loader_error option \<times> 'm" where
  "loader_Release M m cookie =
     (if cookie = 0 then (None, m)
      else case m_Delete M m cookie of
        (Some err, m') \<Rightarrow> (if err \<noteq> ErrKeyNotExist then (Some (MapError err), m') else (None, m'))
      | (None, m') \<Rightarrow> (None, m'))"

definition loader_Counters :: "'m ebpf_Map \<Rightarrow> 'm \<Rightarrow> u64 \<Rightarrow> Counters \<times> bool" where
  "loader_Counters M m cookie = (case m_Lookup M m cookie of
       Inl _ \<Rightarrow> (\<lparr>DroppedPkts = 0, DroppedBytes = 0\<rparr>, False)
     | Inr v \<Rightarrow> (\<lparr>DroppedPkts = vv_DroppedPkts v, DroppedBytes = vv_DroppedBytes v\<rparr>, True))"

definition KernelLoader :: "'m ebpf_Map \<Rightarrow> 'm Loader" where
  "KernelLoader M = \<lparr>l_Program = Program M, l_Release = loader_Release M, l_Counters = loader_Counters M\<rparr>"

definition NoopLoader :: "'m Loader" where
  "NoopLoader = \<lparr>l_Program = (\<lambda>m _ _ _ _. (Some ErrNotLinux, m)), l_Release = (\<lambda>m _. (Some ErrNotLinux, m)),
     l_Counters = (\<lambda>_ _. (\<lparr>DroppedPkts = 0, DroppedBytes = 0\<rparr>, False))\<rparr>"

section \<open>The container\<close>

text \<open>\<^verbatim>\<open>Action\<close> is a Go int: the three named values and whatever else an int can be.\<close>

type_synonym Action = int
abbreviation (input) RateLimit :: Action where "RateLimit \<equiv> 0"
abbreviation (input) HardDeny :: Action where "HardDeny \<equiv> 1"
abbreviation (input) Jail :: Action where "Jail \<equiv> 2"

definition Action_String :: "Action \<Rightarrow> string" where
  "Action_String a = (if a = RateLimit then ''rate-limit'' else if a = HardDeny then ''hard-deny''
     else if a = Jail then ''jail'' else ''unknown'')"

datatype containment_error = ErrUnattributable | UnknownAction Action | LoaderError loader_error | NilLoader

abbreviation (input) DefaultRateBytesPerSec :: u64 where "DefaultRateBytesPerSec \<equiv> 16384"
abbreviation (input) DefaultBurstBytes :: u64 where "DefaultBurstBytes \<equiv> 32768"

definition ActionForTier :: "Tier \<Rightarrow> Action \<times> bool" where
  "ActionForTier t = (if TierJail \<le> t then (Jail, True) else if t = TierContain then (RateLimit, True) else (0, False))"

record 'm containment_Config =
  cc_Loader :: "'m Loader option"
  RateLimitBytesPerSec :: u64
  RateLimitBurstBytes :: u64

record 'm KernelContainer =
  kc_l :: "'m Loader"
  kc_rate :: u64
  kc_burst :: u64

definition containment_New :: "'m containment_Config \<Rightarrow> containment_error + 'm KernelContainer" where
  "containment_New cfg = (case cc_Loader cfg of
       None \<Rightarrow> Inl NilLoader
     | Some l \<Rightarrow> Inr \<lparr>kc_l = l,
         kc_rate = (if RateLimitBytesPerSec cfg = 0 then DefaultRateBytesPerSec else RateLimitBytesPerSec cfg),
         kc_burst = (if RateLimitBurstBytes cfg = 0 then DefaultBurstBytes else RateLimitBurstBytes cfg)\<rparr>)"

definition Apply :: "'m KernelContainer \<Rightarrow> 'm \<Rightarrow> Verdict \<Rightarrow> Action \<Rightarrow> containment_error option \<times> 'm" where
  "Apply c m v action =
     (let cookie = SocketCookie (v_Flow v);
          prog = (\<lambda>a rate burst. apfst (map_option LoaderError) (l_Program (kc_l c) m cookie a rate burst))
      in if cookie = 0 then (Some ErrUnattributable, m)
         else if action = RateLimit then prog ActionRateLimit (kc_rate c) (kc_burst c)
         else if action = HardDeny then prog ActionHardDeny 0 0
         else if action = Jail then prog ActionJail 0 0
         else (Some (UnknownAction action), m))"

definition containment_Release :: "'m KernelContainer \<Rightarrow> 'm \<Rightarrow> Verdict \<Rightarrow> containment_error option \<times> 'm" where
  "containment_Release c m v =
     (if SocketCookie (v_Flow v) = 0 then (None, m)
      else apfst (map_option LoaderError) (l_Release (kc_l c) m (SocketCookie (v_Flow v))))"

section \<open>The kernel programs\<close>

text \<open>
  The value of a programmed cookie after one egress packet of \<open>len\<close> bytes at kernel time \<open>now\<close>, and
  whether the packet passes. Every field is an unsigned 64-bit integer and the arithmetic wraps.
\<close>

definition refill_bucket :: "VerdictVal \<Rightarrow> u64 \<Rightarrow> VerdictVal" where
  "refill_bucket v now =
     (if vv_LastNs v = 0 then v\<lparr>vv_Tokens := vv_Burst v, vv_LastNs := now\<rparr>
      else if vv_LastNs v < now then
        (let ms = (now - vv_LastNs v) div 1000000
         in if 0 < ms then
              (let refill = ms * vv_Rate v div 1000; t = vv_Tokens v + refill
               in v\<lparr>vv_Tokens := (if vv_Burst v < t then vv_Burst v else t), vv_LastNs := vv_LastNs v + ms * 1000000\<rparr>)
            else v)
      else v)"

definition count_drop :: "VerdictVal \<Rightarrow> u64 \<Rightarrow> VerdictVal" where
  "count_drop v len = v\<lparr>vv_DroppedPkts := vv_DroppedPkts v + 1, vv_DroppedBytes := vv_DroppedBytes v + len\<rparr>"

definition egress_val :: "VerdictVal \<Rightarrow> u64 \<Rightarrow> u64 \<Rightarrow> bool \<times> VerdictVal" where
  "egress_val v len now =
     (if vv_Action v = ActionHardDeny \<or> vv_Action v = ActionJail then (False, count_drop v len)
      else if vv_Action v = ActionRateLimit \<and> 0 < vv_Rate v then
        (let v = refill_bucket v now
         in if len \<le> vv_Tokens v then (True, v\<lparr>vv_Tokens := vv_Tokens v - len\<rparr>) else (False, count_drop v len))
      else (True, v))"

text \<open>
  The program returns 1 (pass) for cookie 0 and for a cookie that is not in the map. The value it
  writes through the pointer of the lookup is the entry's new value; the map is otherwise unchanged.
\<close>

definition enforce_egress :: "'m ebpf_Map \<Rightarrow> 'm \<Rightarrow> u64 \<Rightarrow> u64 \<Rightarrow> u64 \<Rightarrow> bool \<times> VerdictVal option" where
  "enforce_egress M m cookie len now =
     (if cookie = 0 then (True, None)
      else case m_Lookup M m cookie of
        Inl _ \<Rightarrow> (True, None)
      | Inr v \<Rightarrow> apsnd Some (egress_val v len now))"

definition enforce_release :: "'m ebpf_Map \<Rightarrow> 'm \<Rightarrow> u64 \<Rightarrow> 'm" where
  "enforce_release M m cookie = (if cookie \<noteq> 0 then snd (m_Delete M m cookie) else m)"

section \<open>The map the program declares\<close>

text \<open>
  \<^verbatim>\<open>verdict_map\<close> is an LRU hash of 65536 entries: the entries in order of last write, cut at the
  capacity.
\<close>

type_synonym lru = "(u64 \<times> VerdictVal) list"

definition lru_Map :: "nat \<Rightarrow> lru ebpf_Map" where
  "lru_Map cap =
     \<lparr>m_Lookup = (\<lambda>xs k. case map_of xs k of None \<Rightarrow> Inl ErrKeyNotExist | Some v \<Rightarrow> Inr v),
      m_Update = (\<lambda>xs k v. (None, (k, v) # take (cap - 1) (filter (\<lambda>p. fst p \<noteq> k) xs))),
      m_Delete = (\<lambda>xs k. (if map_of xs k = None then Some ErrKeyNotExist else None, filter (\<lambda>p. fst p \<noteq> k) xs))\<rparr>"

abbreviation (input) verdict_map :: "lru ebpf_Map" where "verdict_map \<equiv> lru_Map 65536"

lemma map_of_drop_key: "map_of (filter (\<lambda>p. fst p \<noteq> k) xs) k' = (if k' = k then None else map_of xs k')"
  by (induction xs) auto

lemma map_of_take_drop_key:
  assumes "map_of (take n (filter (\<lambda>p. fst p \<noteq> k) xs)) k' = Some v" shows "map_of xs k' = Some v"
proof -
  have "map_of (filter (\<lambda>p. fst p \<noteq> k) xs) k' = Some v"
    using assms by (metis append_take_drop_id map_add_Some_iff map_of_append)
  then show ?thesis by (simp add: map_of_drop_key split: if_splits)
qed

interpretation lru: ebpf_map "lru_Map cap" for cap
proof (unfold_locales, goal_cases)
  case (2 m k v m' k' w)
  then have "map_of (take (cap - 1) (filter (\<lambda>p. fst p \<noteq> k) m)) k' = Some w"
    by (auto simp: lru_Map_def split: option.splits)
  from map_of_take_drop_key[OF this] show ?case by (simp add: lru_Map_def)
qed (auto simp: lru_Map_def map_of_drop_key split: option.splits if_splits)

section \<open>What a container promises the adapter\<close>

text \<open>The action in force for a cookie.\<close>

definition contained :: "'m ebpf_Map \<Rightarrow> 'm \<Rightarrow> u64 \<Rightarrow> u32 option" where
  "contained M m k = (case m_Lookup M m k of Inl _ \<Rightarrow> None | Inr v \<Rightarrow> Some (vv_Action v))"

text \<open>
  An enforcer acts on the cookie of the verdict and on no other, except that a new entry may push
  another out of a full map; a call that fails changes nothing.
\<close>

locale enforcer =
  fixes apply_v :: "'m \<Rightarrow> Verdict \<Rightarrow> Action \<Rightarrow> containment_error option \<times> 'm"
    and release_v :: "'m \<Rightarrow> Verdict \<Rightarrow> containment_error option \<times> 'm"
    and view :: "'m \<Rightarrow> u64 \<Rightarrow> u32 option"
  assumes apply_same: "apply_v m v a = (None, m') \<Longrightarrow> SocketCookie (v_Flow v) \<noteq> 0 \<and>
      view m' (SocketCookie (v_Flow v)) = Some (word_of_int a)"
    and apply_other: "apply_v m v a = (r, m') \<Longrightarrow> k \<noteq> SocketCookie (v_Flow v) \<Longrightarrow>
      view m' k = Some x \<Longrightarrow> view m k = Some x"
    and apply_fails: "apply_v m v a = (Some e, m') \<Longrightarrow> view m' k = view m k"
    and release_same: "release_v m v = (None, m') \<Longrightarrow> SocketCookie (v_Flow v) \<noteq> 0 \<Longrightarrow>
      view m' (SocketCookie (v_Flow v)) = None"
    and release_other: "release_v m v = (r, m') \<Longrightarrow> k \<noteq> SocketCookie (v_Flow v) \<Longrightarrow> view m' k = view m k"
    and release_fails: "release_v m v = (Some e, m') \<Longrightarrow> view m' k = view m k"

text \<open>A container over the kernel loader keeps that promise whenever the map keeps its laws.\<close>

definition kernel_container :: "'m ebpf_Map \<Rightarrow> u64 \<Rightarrow> u64 \<Rightarrow> 'm KernelContainer" where
  "kernel_container M rate burst = \<lparr>kc_l = KernelLoader M, kc_rate = rate, kc_burst = burst\<rparr>"

lemma containment_New_kernel:
  "containment_New \<lparr>cc_Loader = Some (KernelLoader M), RateLimitBytesPerSec = r, RateLimitBurstBytes = b\<rparr> =
   Inr (kernel_container M (if r = 0 then DefaultRateBytesPerSec else r) (if b = 0 then DefaultBurstBytes else b))"
  by (simp add: containment_New_def kernel_container_def)

lemma Program_cases:
  "Program M m k a rate burst = (r, m') \<longleftrightarrow>
     (if k = 0 then r = Some RefuseCookie0 \<and> m' = m
      else \<exists>err. r = map_option MapError err \<and> m_Update M m k (program_value (m_Lookup M m k) a rate burst) = (err, m'))"
  by (auto simp: Program_def Let_def split: prod.splits)

lemma loader_Release_cases:
  "loader_Release M m k = (r, m') \<longleftrightarrow>
     (if k = 0 then r = None \<and> m' = m
      else \<exists>err. m_Delete M m k = (err, m') \<and>
        r = (if err = Some ErrKeyNotExist then None else map_option MapError err))"
proof (cases "m_Delete M m k")
  case (Pair err m'')
  then show ?thesis by (cases err) (simp_all add: loader_Release_def, auto)
qed

lemma Apply_kernel:
  "Apply (kernel_container M rate burst) m v a =
     (if SocketCookie (v_Flow v) = 0 then (Some ErrUnattributable, m)
      else if a \<in> {RateLimit, HardDeny, Jail} then
        apfst (map_option LoaderError) (Program M m (SocketCookie (v_Flow v)) (word_of_int a)
          (if a = RateLimit then rate else 0) (if a = RateLimit then burst else 0))
      else (Some (UnknownAction a), m))"
  by (auto simp: Apply_def kernel_container_def KernelLoader_def Let_def)

lemma Release_kernel:
  "containment_Release (kernel_container M rate burst) m v =
     apfst (map_option LoaderError) (loader_Release M m (SocketCookie (v_Flow v)))"
  by (auto simp: containment_Release_def kernel_container_def KernelLoader_def loader_Release_def)

context ebpf_map
begin

lemma Program_same:
  assumes "Program M m k a rate burst = (None, m')"
  shows "k \<noteq> 0 \<and> m_Lookup M m' k = Inr (program_value (m_Lookup M m k) a rate burst)"
  using assms by (auto simp: Program_cases update_same split: if_splits)

lemma Program_other:
  assumes "Program M m k a rate burst = (r, m')" "k' \<noteq> k" "m_Lookup M m' k' = Inr w"
  shows "m_Lookup M m k' = Inr w"
proof (cases "k = 0")
  case False
  then obtain err v where u: "m_Update M m k v = (err, m')" using assms(1) by (auto simp: Program_cases)
  then show ?thesis using assms update_other update_fails by (cases err) metis+
qed (use assms in \<open>simp add: Program_cases\<close>)

lemma Program_fails:
  assumes "Program M m k a rate burst = (Some e, m')" shows "m_Lookup M m' k' = m_Lookup M m k'"
  using assms update_fails by (auto simp: Program_cases eq_commute[of "Some e"] split: if_splits)

lemma Release_same: "loader_Release M m k = (None, m') \<Longrightarrow> k \<noteq> 0 \<Longrightarrow> m_Lookup M m' k = Inl ErrKeyNotExist"
  by (auto simp: loader_Release_cases split: if_splits intro: delete_same)

lemma Release_other: "loader_Release M m k = (r, m') \<Longrightarrow> k' \<noteq> k \<Longrightarrow> m_Lookup M m' k' = m_Lookup M m k'"
  by (auto simp: loader_Release_cases split: if_splits dest: delete_other)

lemma Release_fails:
  assumes "loader_Release M m k = (Some e, m')" shows "m_Lookup M m' k' = m_Lookup M m k'"
proof -
  obtain err where "m_Delete M m k = (Some err, m')" "err \<noteq> ErrKeyNotExist"
    using assms by (auto simp: loader_Release_cases eq_commute[of "Some e"] split: if_splits)
  then show ?thesis using delete_other delete_fails by (cases "k' = k") auto
qed

end

lemma contained_Some: "contained M m k = Some x \<longleftrightarrow> (\<exists>w. m_Lookup M m k = Inr w \<and> vv_Action w = x)"
  by (auto simp: contained_def split: sum.splits)

lemma contained_eq: "m_Lookup M m' k = m_Lookup M m k \<Longrightarrow> contained M m' k = contained M m k"
  by (simp add: contained_def)

sublocale ebpf_map \<subseteq> container: enforcer
  "Apply (kernel_container M rate burst)" "containment_Release (kernel_container M rate burst)" "contained M" for rate burst
proof (unfold_locales, goal_cases)
  case (1 m v a m')
  then obtain r b where k: "Program M m (SocketCookie (v_Flow v)) (word_of_int a) r b = (None, m')"
    by (auto simp: Apply_kernel apfst_def map_prod_def split: if_splits prod.splits)
  from Program_same[OF k] show ?case by (simp add: contained_def program_value_def loader_fields_def)
next
  case (2 m v a r m' k x)
  then consider "m' = m" | r' b e where "Program M m (SocketCookie (v_Flow v)) (word_of_int a) r' b = (e, m')"
    by (auto simp: Apply_kernel apfst_def map_prod_def split: if_splits prod.splits)
  then show ?case using 2 Program_other by cases (auto simp: contained_Some)
next
  case (3 m v a e m' k)
  then consider "m' = m" | r' b e where "Program M m (SocketCookie (v_Flow v)) (word_of_int a) r' b = (Some e, m')"
    by (auto simp: Apply_kernel apfst_def map_prod_def split: if_splits prod.splits)
  then show ?case using Program_fails by cases (auto intro: contained_eq)
next
  case (4 m v m')
  then show ?case using Release_same by (auto simp: Release_kernel contained_def apfst_def map_prod_def split: prod.splits)
next
  case (5 m v r m' k)
  then show ?case using Release_other by (auto simp: Release_kernel apfst_def map_prod_def split: prod.splits intro: contained_eq)
next
  case (6 m v e m' k)
  then show ?case using Release_fails by (auto simp: Release_kernel apfst_def map_prod_def split: prod.splits intro: contained_eq)
qed

section \<open>Precision\<close>

lemma egress_jailed:
  "contained M m k = Some ActionJail \<Longrightarrow> k \<noteq> 0 \<Longrightarrow> \<not> fst (enforce_egress M m k len now)"
  by (auto simp: contained_Some enforce_egress_def egress_val_def)

lemma egress_free: "contained M m k = None \<Longrightarrow> fst (enforce_egress M m k len now)"
  by (auto simp: contained_def enforce_egress_def split: sum.splits)

lemma egress_cookie0: "enforce_egress M m 0 len now = (True, None)"
  by (simp add: enforce_egress_def)

lemma egress_other:
  assumes "\<And>w. m_Lookup M m' k = Inr w \<Longrightarrow> m_Lookup M m k = Inr w" "fst (enforce_egress M m k len now)"
  shows "fst (enforce_egress M m' k len now)"
  using assms by (auto simp: enforce_egress_def split: sum.splits)

context ebpf_map
begin

lemma jail_drops:
  assumes "Apply (kernel_container M rate burst) m v Jail = (None, m')"
  shows "SocketCookie (v_Flow v) \<noteq> 0 \<and> \<not> fst (enforce_egress M m' (SocketCookie (v_Flow v)) len now)"
  using container.apply_same[OF assms] by (simp add: egress_jailed)

lemma release_passes:
  assumes "containment_Release (kernel_container M rate burst) m v = (None, m')"
  shows "fst (enforce_egress M m' (SocketCookie (v_Flow v)) len now)"
  using container.release_same[OF assms] by (cases "SocketCookie (v_Flow v) = 0") (simp_all add: egress_cookie0 egress_free)

lemma Apply_lookup_other:
  assumes "k \<noteq> SocketCookie (v_Flow v)" "m_Lookup M (snd (Apply (kernel_container M rate burst) m v a)) k = Inr w"
  shows "m_Lookup M m k = Inr w"
proof (cases "SocketCookie (v_Flow v) \<noteq> 0 \<and> a \<in> {RateLimit, HardDeny, Jail}")
  case True
  then obtain r b where "snd (Apply (kernel_container M rate burst) m v a) =
      snd (Program M m (SocketCookie (v_Flow v)) (word_of_int a) r b)"
    by (simp add: Apply_kernel)
  with assms show ?thesis by (metis Program_other surjective_pairing)
qed (use assms in \<open>auto simp: Apply_kernel split: if_splits\<close>)

lemma Release_lookup_other:
  "k \<noteq> SocketCookie (v_Flow v) \<Longrightarrow>
   m_Lookup M (snd (containment_Release (kernel_container M rate burst) m v)) k = m_Lookup M m k"
  by (simp add: Release_kernel Release_other[OF surjective_pairing])

lemma bystander_passes:
  assumes "k \<noteq> SocketCookie (v_Flow v)" "fst (enforce_egress M m k len now)"
  shows "fst (enforce_egress M (snd (Apply (kernel_container M rate burst) m v a)) k len now) \<and>
    fst (enforce_egress M (snd (containment_Release (kernel_container M rate burst) m v)) k len now)"
proof
  show "fst (enforce_egress M (snd (Apply (kernel_container M rate burst) m v a)) k len now)"
    using Apply_lookup_other[OF assms(1)] assms(2) by (rule egress_other)
  show "fst (enforce_egress M (snd (containment_Release (kernel_container M rate burst) m v)) k len now)"
    by (rule egress_other[OF _ assms(2)]) (simp add: Release_lookup_other assms(1))
qed

lemma close_frees:
  "r = None \<or> r = Some ErrKeyNotExist \<Longrightarrow> m_Delete M m k = (r, m') \<Longrightarrow> fst (enforce_egress M (enforce_release M m k) k len now)"
  using delete_same by (auto simp: enforce_release_def enforce_egress_def)

end

text \<open>
  Property C29. Containment is precise. On any map that keeps its laws: a jail that was programmed
  drops every packet of that socket and a release lets them all pass again; the packets of every
  other socket that passed before still pass after either call, whether it succeeded or not; a flow
  without a socket cookie is refused and nothing is written.
\<close>

theorem containment_precise:
  assumes "ebpf_map M"
  shows "(Apply (kernel_container M rate burst) m v Jail = (None, mj) \<longrightarrow>
       \<not> fst (enforce_egress M mj (SocketCookie (v_Flow v)) len now)) \<and>
    (containment_Release (kernel_container M rate burst) m v = (None, mr) \<longrightarrow>
       fst (enforce_egress M mr (SocketCookie (v_Flow v)) len now)) \<and>
    (k \<noteq> SocketCookie (v_Flow v) \<longrightarrow> fst (enforce_egress M m k len now) \<longrightarrow>
       fst (enforce_egress M (snd (Apply (kernel_container M rate burst) m v a)) k len now) \<and>
       fst (enforce_egress M (snd (containment_Release (kernel_container M rate burst) m v)) k len now)) \<and>
    (SocketCookie (v_Flow v) = 0 \<longrightarrow> Apply (kernel_container M rate burst) m v a = (Some ErrUnattributable, m) \<and>
       containment_Release (kernel_container M rate burst) m v = (None, m))"
  using ebpf_map.jail_drops[OF assms] ebpf_map.release_passes[OF assms] ebpf_map.bystander_passes[OF assms]
  by (simp add: Apply_def containment_Release_def)

definition jail_verdict :: "u64 \<Rightarrow> Verdict" where
  "jail_verdict k = \<lparr>v_Flow = cookie_flow k, v_Scope = ''zone-a'', v_Tier = TierJail, v_Mode = ModeAsync, v_Score = lit 4, v_Calibrated = False\<rparr>"

theorem containment_precise_witness:
  "let c = kernel_container verdict_map DefaultRateBytesPerSec DefaultBurstBytes; m = snd (Apply c [] (jail_verdict 7) Jail) in
   \<not> fst (enforce_egress verdict_map m 7 1500 5) \<and>
   fst (enforce_egress verdict_map (snd (Apply c [] (jail_verdict 7) Jail)) 8 1500 5) \<and>
   fst (enforce_egress verdict_map (snd (containment_Release c m (jail_verdict 7))) 7 1500 5)"
proof -
  let ?c = "kernel_container verdict_map DefaultRateBytesPerSec DefaultBurstBytes"
  let ?m = "snd (Apply ?c [] (jail_verdict 7) Jail)"
  note precise = containment_precise[OF lru.ebpf_map_axioms, where rate = DefaultRateBytesPerSec and burst = DefaultBurstBytes]
  have 1: "Apply ?c [] (jail_verdict 7) Jail = (None, ?m)" and 2: "containment_Release ?c ?m (jail_verdict 7) = (None, [])"
    by (simp_all add: Apply_kernel Release_kernel Program_def loader_Release_def lru_Map_def jail_verdict_def Let_def)
  have 3: "fst (enforce_egress verdict_map [] 8 1500 5)" by (simp add: enforce_egress_def lru_Map_def)
  show ?thesis
    using precise[where m = "[]" and v = "jail_verdict 7" and mj = ?m and len = 1500 and now = 5 and k = 8 and a = Jail]
      precise[where m = ?m and v = "jail_verdict 7" and mr = "[]" and len = 1500 and now = 5] 1 2 3
    by (simp add: Let_def jail_verdict_def)
qed

section \<open>The throttle\<close>

text \<open>
  What a throttled cookie sees: packets (their length and kernel time), and the two halves of a
  \<^verbatim>\<open>Program\<close> that writes its verdict again, a lookup and an update (with its result) by one of any
  number of goroutines. Each is one step; packets and the halves of different calls come in any
  order, so packets may pass between a lookup and its update, which then writes back the tokens and
  the time the lookup read. A packet is one step because packets of the socket are taken one at a
  time: the program's read and write of the two fields are not atomic across CPUs, as its comment
  says, and egress of one socket on two CPUs at once is outside this model.
\<close>

datatype kevent = Packet u64 u64 | LoaderLookup nat | LoaderUpdate nat "ebpf_error option"

text \<open>
  The entry, the lookups whose update is still to come, each with the bytes that had passed by then,
  the bytes passed, and the bytes that passed in the window of an update and are written off by it.
\<close>

record throttle =
  th_val :: VerdictVal
  th_windows :: "nat \<Rightarrow> ((ebpf_error + VerdictVal) \<times> nat) option"
  th_passed :: nat
  th_stale :: nat

fun throttle_step :: "u64 \<Rightarrow> u64 \<Rightarrow> throttle \<Rightarrow> kevent \<Rightarrow> throttle" where
  "throttle_step rate burst s (Packet len now) =
     (let (ok, v) = egress_val (th_val s) len now
      in s\<lparr>th_val := v, th_passed := th_passed s + (if ok then unat len else 0)\<rparr>)"
| "throttle_step rate burst s (LoaderLookup i) =
     s\<lparr>th_windows := (th_windows s)(i \<mapsto> (Inr (th_val s), th_passed s))\<rparr>"
| "throttle_step rate burst s (LoaderUpdate i err) =
     (case th_windows s i of
        None \<Rightarrow> s
      | Some (r, n) \<Rightarrow>
          (let s = s\<lparr>th_windows := (th_windows s)(i := None)\<rparr>
           in if err = None
              then s\<lparr>th_val := program_value r ActionRateLimit rate burst, th_stale := th_stale s + (th_passed s - n)\<rparr>
              else s))"

definition egress_run :: "u64 \<Rightarrow> u64 \<Rightarrow> throttle \<Rightarrow> kevent list \<Rightarrow> throttle" where
  "egress_run rate burst = foldl (throttle_step rate burst)"

text \<open>
  The start: the entry as first programmed, and the goroutines that had looked the cookie up before
  that and found nothing; each will write a fresh entry over it.
\<close>

definition throttle_start :: "VerdictVal \<Rightarrow> nat list \<Rightarrow> throttle" where
  "throttle_start v missed = \<lparr>th_val = v,
     th_windows = (\<lambda>i. if i \<in> set missed then Some (Inl ErrKeyNotExist, 0) else None), th_passed = 0, th_stale = 0\<rparr>"

text \<open>The runs in which every update follows its own lookup at once.\<close>

fun back_to_back :: "kevent list \<Rightarrow> bool" where
  "back_to_back [] = True"
| "back_to_back (Packet len now # es) = back_to_back es"
| "back_to_back (LoaderLookup i # LoaderUpdate j err # es) = (i = j \<and> back_to_back es)"
| "back_to_back (LoaderLookup i # es) = False"
| "back_to_back (LoaderUpdate i err # es) = False"

lemma unat_add_le: "unat ((a::u64) + b) \<le> unat a + unat b"
  by (simp add: unat_word_ariths)

lemma unat_mult_le: "unat ((a::u64) * b) \<le> unat a * unat b"
  by (simp add: unat_word_ariths)

text \<open>A refill never credits more than the rate allows for the time it consumes, wrap-around included.\<close>

lemma refill_credit:
  fixes v :: VerdictVal and now :: u64
  assumes "vv_LastNs v \<noteq> 0"
  defines "w \<equiv> refill_bucket v now"
  shows "unat (vv_LastNs v) \<le> unat (vv_LastNs w) \<and> unat (vv_LastNs w) \<le> max (unat (vv_LastNs v)) (unat now) \<and>
    10 ^ 9 * unat (vv_Tokens w) \<le> 10 ^ 9 * unat (vv_Tokens v) + unat (vv_Rate v) * (unat (vv_LastNs w) - unat (vv_LastNs v))"
proof (cases "vv_LastNs v < now \<and> 0 < (now - vv_LastNs v) div 1000000")
  case True
  define L T r N where "L = unat (vv_LastNs v)" "T = unat (vv_Tokens v)" "r = unat (vv_Rate v)" "N = unat now"
  define ms where "ms = (now - vv_LastNs v) div 1000000"
  have "L < N" using True by (simp add: L_T_r_N_def word_less_nat_alt)
  then have "unat (now - vv_LastNs v) = N - L" using True by (simp add: L_T_r_N_def unat_sub less_imp_le)
  then have ms: "unat ms = (N - L) div 1000000" by (simp add: ms_def unat_div_distrib)
  have "unat ms * 1000000 \<le> N - L" by (simp add: ms)
  then have fits: "L + unat ms * 1000000 \<le> N" using \<open>L < N\<close> by linarith
  have "N < 2 ^ 64" using unsigned_less[of now] by (simp add: L_T_r_N_def)
  have mul: "unat (ms * 1000000) = unat ms * 1000000"
    using fits \<open>N < 2 ^ 64\<close> by (simp add: unat_word_ariths)
  then have last: "unat (vv_LastNs v + ms * 1000000) = L + unat ms * 1000000"
    using fits \<open>N < 2 ^ 64\<close> by (simp add: unat_word_ariths L_T_r_N_def)
  have "unat (ms * vv_Rate v div 1000) \<le> unat ms * r div 1000"
    using unat_mult_le[of ms "vv_Rate v"] by (simp add: unat_div_distrib L_T_r_N_def div_le_mono)
  then have "1000 * unat (ms * vv_Rate v div 1000) \<le> unat ms * r" by linarith
  moreover have "unat (vv_Tokens v + ms * vv_Rate v div 1000) \<le> T + unat (ms * vv_Rate v div 1000)"
    using unat_add_le by (simp add: L_T_r_N_def)
  ultimately have t: "1000 * unat (vv_Tokens v + ms * vv_Rate v div 1000) \<le> 1000 * T + unat ms * r" by linarith
  have w: "vv_LastNs w = vv_LastNs v + ms * 1000000" "unat (vv_Tokens w) \<le> unat (vv_Tokens v + ms * vv_Rate v div 1000)"
    using True assms(1) by (auto simp: w_def refill_bucket_def ms_def Let_def word_less_nat_alt)
  have "10 ^ 9 * unat (vv_Tokens w) \<le> 10 ^ 9 * T + r * (unat ms * 1000000)" using w(2) t by (simp add: algebra_simps)
  then show ?thesis using w(1) last fits by (simp add: L_T_r_N_def)
qed (use assms in \<open>auto simp: refill_bucket_def Let_def\<close>)

text \<open>
  The bucket's account from \<open>t0\<close> on: the tokens left and the bytes passed are covered by one burst,
  the bytes written off, and the rate over the time up to the last refill.
\<close>

definition bucket_ok :: "u64 \<Rightarrow> u64 \<Rightarrow> u64 \<Rightarrow> u64 \<Rightarrow> nat \<Rightarrow> nat \<Rightarrow> VerdictVal \<Rightarrow> bool" where
  "bucket_ok rate burst t0 t1 stale passed v \<longleftrightarrow>
     vv_Action v = ActionRateLimit \<and> vv_Rate v = rate \<and> vv_Burst v = burst \<and>
     (if vv_LastNs v = 0 then passed \<le> stale
      else unat t0 \<le> unat (vv_LastNs v) \<and> unat (vv_LastNs v) \<le> unat t1 \<and>
        10 ^ 9 * (unat (vv_Tokens v) + passed) \<le>
          10 ^ 9 * (unat burst + stale) + unat rate * (unat (vv_LastNs v) - unat t0))"

lemma bucket_ok_refill:
  assumes ok: "bucket_ok rate burst t0 t1 stale passed v" and t: "0 < t0" "t0 \<le> now" "now \<le> t1"
  shows "bucket_ok rate burst t0 t1 stale passed (refill_bucket v now)" "vv_LastNs (refill_bucket v now) \<noteq> 0"
proof -
  define w where "w = refill_bucket v now"
  have t': "0 < unat t0" "unat t0 \<le> unat now" "unat now \<le> unat t1"
    using t by (simp_all add: word_less_nat_alt word_le_nat_alt)
  have keep: "vv_Action w = vv_Action v" "vv_Rate w = vv_Rate v" "vv_Burst w = vv_Burst v"
    by (simp_all add: w_def refill_bucket_def Let_def)
  have "bucket_ok rate burst t0 t1 stale passed w \<and> vv_LastNs w \<noteq> 0"
  proof (cases "vv_LastNs v = 0")
    case True
    then have "vv_Tokens w = burst" "vv_LastNs w = now" "passed \<le> stale" using ok by (auto simp: w_def refill_bucket_def bucket_ok_def)
    with keep ok t' show ?thesis by (auto simp: bucket_ok_def)
  next
    case False
    note credit = refill_credit[OF False, of now, folded w_def]
    have v: "unat t0 \<le> unat (vv_LastNs v)" "unat (vv_LastNs v) \<le> unat t1" "vv_Rate v = rate"
        "10 ^ 9 * (unat (vv_Tokens v) + passed) \<le> 10 ^ 9 * (unat burst + stale) + unat rate * (unat (vv_LastNs v) - unat t0)"
      using ok False by (simp_all add: bucket_ok_def)
    have le: "unat (vv_LastNs v) \<le> unat (vv_LastNs w)" using credit by simp
    have ne: "vv_LastNs w \<noteq> 0" using le False v(1) t'(1) by (metis le_zero_eq not_gr_zero order_trans unat_0)
    have "unat rate * (unat (vv_LastNs v) - unat t0) + unat rate * (unat (vv_LastNs w) - unat (vv_LastNs v)) =
        unat rate * (unat (vv_LastNs w) - unat t0)"
      using le v(1) by (simp flip: distrib_left)
    then have acc: "10 ^ 9 * (unat (vv_Tokens w) + passed) \<le> 10 ^ 9 * (unat burst + stale) + unat rate * (unat (vv_LastNs w) - unat t0)"
      using conjunct2[OF conjunct2[OF credit]] v(4) unfolding distrib_left v(3) by linarith
    have "unat (vv_LastNs w) \<le> unat t1" "unat t0 \<le> unat (vv_LastNs w)" using credit v t' le by linarith+
    moreover have "vv_Action w = ActionRateLimit" "vv_Rate w = rate" "vv_Burst w = burst"
      using keep ok by (simp_all add: bucket_ok_def)
    ultimately show ?thesis using acc ne unfolding bucket_ok_def by simp
  qed
  then show "bucket_ok rate burst t0 t1 stale passed (refill_bucket v now)" "vv_LastNs (refill_bucket v now) \<noteq> 0"
    by (simp_all add: w_def)
qed

lemma bucket_ok_packet:
  assumes "bucket_ok rate burst t0 t1 stale passed v" "0 < rate" "0 < t0" "t0 \<le> now" "now \<le> t1" "egress_val v len now = (ok, v')"
  shows "bucket_ok rate burst t0 t1 stale (passed + (if ok then unat len else 0)) v'"
proof -
  define w where "w = refill_bucket v now"
  have "vv_Action v = ActionRateLimit" "vv_Rate v = rate" using assms(1) by (simp_all add: bucket_ok_def)
  then have e: "egress_val v len now = (if len \<le> vv_Tokens w then (True, w\<lparr>vv_Tokens := vv_Tokens w - len\<rparr>) else (False, count_drop w len))"
    using assms(2) by (simp add: egress_val_def w_def Let_def)
  have w: "bucket_ok rate burst t0 t1 stale passed w" "vv_LastNs w \<noteq> 0"
    using bucket_ok_refill[OF assms(1,3,4,5)] by (simp_all add: w_def)
  show ?thesis
  proof (cases "len \<le> vv_Tokens w")
    case True
    then have "unat (vv_Tokens w - len) = unat (vv_Tokens w) - unat len" "unat len \<le> unat (vv_Tokens w)"
      by (simp_all add: unat_sub word_le_nat_alt)
    with True w assms(6) e show ?thesis by (auto simp: bucket_ok_def)
  qed (use w assms(6) e in \<open>auto simp: bucket_ok_def count_drop_def\<close>)
qed

text \<open>
  An update writes back what its lookup read. The account the entry had then holds again, once the
  bytes that passed in between are written off.
\<close>

lemma bucket_ok_write_back:
  assumes "bucket_ok rate burst t0 t1 stale n v" "n \<le> passed"
  shows "bucket_ok rate burst t0 t1 (stale + (passed - n)) passed v"
  using assms by (auto simp: bucket_ok_def)

lemma bucket_ok_mono:
  assumes "bucket_ok rate burst t0 t1 stale n v" "stale \<le> stale'" shows "bucket_ok rate burst t0 t1 stale' n v"
proof -
  have "10 ^ 9 * (unat burst + stale) \<le> 10 ^ 9 * (unat burst + stale')" using assms(2) by simp
  with assms show ?thesis by (auto simp: bucket_ok_def simp del: mult_le_cancel1 intro: order_trans)
qed

lemma program_value_again: "bucket_ok rate burst t0 t1 stale n v \<Longrightarrow> program_value (Inr v) ActionRateLimit rate burst = v"
  by (simp add: bucket_ok_def program_value_def loader_fields_def)

definition throttle_ok :: "u64 \<Rightarrow> u64 \<Rightarrow> u64 \<Rightarrow> u64 \<Rightarrow> throttle \<Rightarrow> bool" where
  "throttle_ok rate burst t0 t1 s \<longleftrightarrow>
     bucket_ok rate burst t0 t1 (th_stale s) (th_passed s) (th_val s) \<and>
     (\<forall>i r n. th_windows s i = Some (r, n) \<longrightarrow> n \<le> th_passed s \<and>
        bucket_ok rate burst t0 t1 (th_stale s) n (program_value r ActionRateLimit rate burst))"

lemma throttle_ok_step:
  assumes ok: "throttle_ok rate burst t0 t1 s" and t: "0 < rate" "0 < t0"
    and e: "\<And>len now. e = Packet len now \<Longrightarrow> t0 \<le> now \<and> now \<le> t1"
  shows "throttle_ok rate burst t0 t1 (throttle_step rate burst s e)"
proof (cases e)
  case (Packet len now)
  obtain pass v where v: "egress_val (th_val s) len now = (pass, v)" by fastforce
  have "bucket_ok rate burst t0 t1 (th_stale s) (th_passed s + (if pass then unat len else 0)) v"
    using ok t e[OF Packet] by (intro bucket_ok_packet[OF _ _ _ _ _ v]) (auto simp: throttle_ok_def)
  with ok show ?thesis by (auto simp: Packet v throttle_ok_def intro: trans_le_add1)
next
  case (LoaderLookup i)
  then show ?thesis using ok by (auto simp: throttle_ok_def program_value_again)
next
  case (LoaderUpdate i err)
  show ?thesis
  proof (cases "th_windows s i")
    case (Some w)
    obtain r n where w: "w = (r, n)" by fastforce
    have "n \<le> th_passed s" "bucket_ok rate burst t0 t1 (th_stale s) n (program_value r ActionRateLimit rate burst)"
      using ok Some w by (auto simp: throttle_ok_def)
    note wb = bucket_ok_write_back[OF this(2,1)]
    have others: "n' \<le> th_passed s \<and> bucket_ok rate burst t0 t1 (th_stale s + (th_passed s - n)) n' (program_value r' ActionRateLimit rate burst)"
      if "th_windows s j = Some (r', n')" for j r' n'
      using ok that by (auto simp: throttle_ok_def intro!: bucket_ok_mono[OF _ le_add1])
    show ?thesis
    proof (cases err)
      case None
      with wb others show ?thesis by (simp add: LoaderUpdate Some w throttle_ok_def Let_def)
    qed (use ok in \<open>simp add: LoaderUpdate Some w throttle_ok_def Let_def\<close>)
  qed (use ok LoaderUpdate in simp)
qed

lemma egress_run_ok:
  assumes "throttle_ok rate burst t0 t1 s" "0 < rate" "0 < t0"
    "\<forall>e\<in>set es. case e of Packet len now \<Rightarrow> t0 \<le> now \<and> now \<le> t1 | _ \<Rightarrow> True"
  shows "throttle_ok rate burst t0 t1 (egress_run rate burst s es)"
  using assms
proof (induction es arbitrary: s)
  case (Cons e es)
  then have "throttle_ok rate burst t0 t1 (throttle_step rate burst s e)"
    by (intro throttle_ok_step) auto
  with Cons show ?case by (simp add: egress_run_def)
qed (simp add: egress_run_def)

lemma throttle_start_ok:
  "throttle_ok rate burst t0 t1 (throttle_start (program_value (Inl e) ActionRateLimit rate burst) missed)"
  by (auto simp: throttle_ok_def throttle_start_def bucket_ok_def program_value_def loader_fields_def zero_val_def split: if_splits)

lemma throttle_ok_bound:
  assumes "throttle_ok rate burst t0 t1 s"
  shows "10 ^ 9 * th_passed s \<le> 10 ^ 9 * (unat burst + th_stale s) + unat rate * (unat t1 - unat t0)"
proof (cases "vv_LastNs (th_val s) = 0")
  case False
  with assms have "10 ^ 9 * (unat (vv_Tokens (th_val s)) + th_passed s) \<le>
      10 ^ 9 * (unat burst + th_stale s) + unat rate * (unat (vv_LastNs (th_val s)) - unat t0)"
    and "unat (vv_LastNs (th_val s)) \<le> unat t1" by (simp_all add: throttle_ok_def bucket_ok_def)
  moreover from this(2) have "unat rate * (unat (vv_LastNs (th_val s)) - unat t0) \<le> unat rate * (unat t1 - unat t0)"
    by (intro mult_le_mono2 diff_le_mono)
  ultimately show ?thesis unfolding distrib_left by linarith
qed (use assms in \<open>simp add: throttle_ok_def bucket_ok_def\<close>)

text \<open>With no window open and every update right after its lookup, nothing is written off.\<close>

lemma back_to_back_stale:
  "back_to_back es \<Longrightarrow> th_windows s = (\<lambda>_. None) \<Longrightarrow> th_stale (egress_run rate burst s es) = th_stale s"
proof (induction es arbitrary: s rule: back_to_back.induct)
  case (2 len now es)
  then show ?case by (simp add: egress_run_def split: prod.split)
next
  case (3 i j err es)
  then show ?case by (simp add: egress_run_def Let_def fun_upd_idem)
qed (simp_all add: egress_run_def)

text \<open>
  Property C27. The throttle throttles. Once a flow is programmed for rate limiting, over any run of
  its packets with kernel times in an interval, interleaved with any lookups and updates of calls
  that program the verdict again, the bytes that pass are at most one burst, plus the rate times the
  length of the interval (in bytes times nanoseconds), plus the bytes that passed between the lookup
  and the update of such a call, whose update writes the tokens the lookup read back; and when every
  update follows its lookup at once, and no call was between the two at the start, there are no such
  bytes. 64-bit wrap-around in the kernel's arithmetic never adds to it. It holds while the entry
  stays in the map and the packets of the socket are handled one at a time: the read and write of
  the bucket are not atomic across CPUs, and egress of one socket on two CPUs at once is excluded.
\<close>

theorem throttle_bounds_bytes:
  assumes "ebpf_map M" "Program M m k ActionRateLimit rate burst = (None, m')" "m_Lookup M m k = Inl e" "0 < rate"
    and "0 < t0" "t0 \<le> t1"
    and "\<forall>e\<in>set es. case e of Packet len now \<Rightarrow> t0 \<le> now \<and> now \<le> t1 | _ \<Rightarrow> True"
  shows "\<exists>v. m_Lookup M m' k = Inr v \<and>
    (let s = egress_run rate burst (throttle_start v missed) es in
       10 ^ 9 * th_passed s \<le> 10 ^ 9 * (unat burst + th_stale s) + unat rate * (unat t1 - unat t0) \<and>
       (missed = [] \<and> back_to_back es \<longrightarrow> th_stale s = 0))"
proof -
  define v where "v = program_value (Inl e) ActionRateLimit rate burst"
  have l: "m_Lookup M m' k = Inr v" using ebpf_map.Program_same[OF assms(1,2)] assms(3) by (simp add: v_def)
  have "throttle_ok rate burst t0 t1 (throttle_start v missed)" by (simp add: v_def throttle_start_ok)
  from throttle_ok_bound[OF egress_run_ok[OF this assms(4,5,7)]]
  have "10 ^ 9 * th_passed (egress_run rate burst (throttle_start v missed) es) \<le>
    10 ^ 9 * (unat burst + th_stale (egress_run rate burst (throttle_start v missed) es)) + unat rate * (unat t1 - unat t0)" .
  moreover have "missed = [] \<Longrightarrow> back_to_back es \<Longrightarrow> th_stale (egress_run rate burst (throttle_start v missed) es) = 0"
    by (simp add: back_to_back_stale throttle_start_def)
  ultimately show ?thesis using l by (auto simp: Let_def)
qed

theorem throttle_bounds_bytes_witness:
  "\<exists>v. m_Lookup verdict_map (snd (Program verdict_map [] 7 ActionRateLimit DefaultRateBytesPerSec DefaultBurstBytes)) 7 = Inr v \<and>
    (let s = egress_run DefaultRateBytesPerSec DefaultBurstBytes (throttle_start v [1])
       [Packet 30000 5, LoaderLookup 0, Packet 2000 6, LoaderUpdate 0 None, LoaderUpdate 1 None, Packet 30000 1000000005] in
     10 ^ 9 * th_passed s \<le> 10 ^ 9 * (32768 + th_stale s) + 16384 * 1000000000)"
  using throttle_bounds_bytes[OF lru.ebpf_map_axioms[of 65536], where m = "[]" and k = 7 and rate = DefaultRateBytesPerSec
      and burst = DefaultBurstBytes and ?t0.0 = 5 and ?t1.0 = 1000000005 and e = ErrKeyNotExist and missed = "[1]"
      and es = "[Packet 30000 5, LoaderLookup 0, Packet 2000 6, LoaderUpdate 0 None, LoaderUpdate 1 None, Packet 30000 1000000005]"
      and m' = "snd (Program verdict_map [] 7 ActionRateLimit DefaultRateBytesPerSec DefaultBurstBytes)"]
  by (auto simp: lru_Map_def Program_def Let_def)

text \<open>
  The bytes written off are real. A packet that passes between a lookup and its update is refunded,
  so 60000 bytes pass within two nanoseconds against a burst of 32768; and a call whose lookup found
  nothing, and whose update comes after the first one's, fills the spent bucket again.
\<close>

abbreviation (input) throttled :: VerdictVal where
  "throttled \<equiv> program_value (Inl ErrKeyNotExist) ActionRateLimit DefaultRateBytesPerSec DefaultBurstBytes"

lemmas throttle_eval = egress_run_def throttle_start_def program_value_def loader_fields_def zero_val_def
  egress_val_def refill_bucket_def Let_def

lemma stale_update_refunds:
  "th_passed (egress_run DefaultRateBytesPerSec DefaultBurstBytes (throttle_start throttled [])
     [LoaderLookup 0, Packet 30000 5, LoaderUpdate 0 None, Packet 30000 6]) = 60000"
  by (simp add: throttle_eval)

lemma late_first_program_refunds:
  "th_passed (egress_run DefaultRateBytesPerSec DefaultBurstBytes (throttle_start throttled [1])
     [Packet 30000 5, LoaderUpdate 1 None, Packet 30000 6]) = 60000"
  by (simp add: throttle_eval)

text \<open>
  The race of the kernel program that the model excludes: two CPUs that read the same entry both
  pass a packet of 30000 bytes, and either write leaves one packet charged.
\<close>

lemma two_cpus_spend_once:
  "egress_val throttled 30000 5 = (True, throttled\<lparr>vv_Tokens := 2768, vv_LastNs := 5\<rparr>)"
  by (simp add: throttle_eval)

end
