(* ===== verification/Enforcement.thy ===== *)
theory Enforcement
  imports Containment
begin

text \<open>
  The adapter's seam between verdicts and the kernel, \<^verbatim>\<open>cmd/envoy-adapter/main.go\<close> and
  \<^verbatim>\<open>cmd/envoy-adapter/enforcer_*.go\<close>: reconciling containment with a verdict, the per-flow sequencer
  that drops verdicts older than the last one applied, the analyst and operator release paths. The
  theorems show that in whatever order a batch of verdicts arrives, one delivery after another, each
  flow ends up as its newest verdict demands unless its entry was pushed out of the full map, which marks the sequencer forgets, and that the two calls of
  \<^verbatim>\<open>enforceVerdictOrdered\<close> can be interleaved so that an older release undoes a newer jail.
\<close>

section \<open>Enforcers\<close>

datatype enforce_error = ContainErr containment_error | ErrNeedsLinux | ErrClearUnattributable | SinkErr error

record 'm enforcer =
  e_Apply :: "'m \<Rightarrow> Verdict \<Rightarrow> Action \<Rightarrow> enforce_error option \<times> 'm"
  e_Release :: "'m \<Rightarrow> Verdict \<Rightarrow> enforce_error option \<times> 'm"

definition kernelEnforcer :: "'m KernelContainer \<Rightarrow> 'm enforcer" where
  "kernelEnforcer c = \<lparr>e_Apply = (\<lambda>m v a. apfst (map_option ContainErr) (Apply c m v a)),
     e_Release = (\<lambda>m v. apfst (map_option ContainErr) (containment_Release c m v))\<rparr>"

definition noopEnforcer :: "'m enforcer" where
  "noopEnforcer = \<lparr>e_Apply = (\<lambda>m _ _. (Some ErrNeedsLinux, m)), e_Release = (\<lambda>m _. (Some ErrNeedsLinux, m))\<rparr>"

section \<open>Reconciling one verdict\<close>

record enforced =
  en_act :: Action
  en_applied :: bool
  en_released :: bool
  en_stale :: bool
  en_err :: "enforce_error option"

definition enforceVerdict :: "'m enforcer \<Rightarrow> 'm \<Rightarrow> Verdict \<Rightarrow> enforced \<times> 'm" where
  "enforceVerdict enf m v =
     (if v_Mode v \<noteq> ModeAsync \<or> SocketCookie (v_Flow v) = 0 then
        (\<lparr>en_act = 0, en_applied = False, en_released = False, en_stale = False, en_err = None\<rparr>, m)
      else let (a, ok) = ActionForTier (v_Tier v) in
        if \<not> ok then
          (let (err, m') = e_Release enf m v
           in (\<lparr>en_act = 0, en_applied = False, en_released = True, en_stale = False, en_err = err\<rparr>, m'))
        else
          (let (err, m') = e_Apply enf m v a
           in (\<lparr>en_act = a, en_applied = True, en_released = False, en_stale = False, en_err = err\<rparr>, m')))"

section \<open>The sequencer\<close>

text \<open>The map from a cookie to the highest applied ordinal, ranged over only to delete from it.\<close>

type_synonym verdictSequencer = "(u64 \<times> int) list"

abbreviation (input) seqStaleNanos :: int where "seqStaleNanos \<equiv> 30 * minute"
abbreviation (input) seqReapThreshold :: nat where "seqReapThreshold \<equiv> 4096"

definition newVerdictSequencer :: verdictSequencer where
  "newVerdictSequencer = []"

definition reap_marks :: "verdictSequencer \<Rightarrow> int \<Rightarrow> verdictSequencer" where
  "reap_marks s ordinal =
     (if seqReapThreshold < length s then
        (let cutoff = wrap64 (ordinal - seqStaleNanos) in filter (\<lambda>(c, o'). \<not> o' < cutoff) s)
      else s)"

definition admit :: "verdictSequencer \<Rightarrow> u64 \<Rightarrow> int \<Rightarrow> bool \<times> verdictSequencer" where
  "admit s cookie ordinal =
     (if cookie = 0 then (True, s)
      else let s = reap_marks s ordinal in
        case map_of s cookie of
          Some prev \<Rightarrow> (if ordinal \<le> prev then (False, s) else (True, AList.update cookie ordinal s))
        | None \<Rightarrow> (True, AList.update cookie ordinal s))"

definition enforceVerdictOrdered ::
  "'m enforcer \<Rightarrow> verdictSequencer \<Rightarrow> 'm \<Rightarrow> Verdict \<Rightarrow> int \<Rightarrow> enforced \<times> verdictSequencer \<times> 'm" where
  "enforceVerdictOrdered enf s m v ordinal =
     (case admit s (SocketCookie (v_Flow v)) ordinal of
        (False, s') \<Rightarrow> (\<lparr>en_act = 0, en_applied = False, en_released = False, en_stale = True, en_err = None\<rparr>, s', m)
      | (True, s') \<Rightarrow> (let (r, m') = enforceVerdict enf m v in (r\<lparr>en_stale := False\<rparr>, s', m')))"

section \<open>The other release paths\<close>

definition label_verdict :: "FeedbackLabel \<Rightarrow> Verdict" where
  "label_verdict l = \<lparr>v_Flow = fl_Flow l, v_Scope = fl_Scope l, v_Tier = fl_Tier l, v_Mode = ModeAsync,
     v_Score = lit 0, v_Calibrated = False\<rparr>"

definition releaseVerdictForLabel :: "'m enforcer \<Rightarrow> 'm \<Rightarrow> FeedbackLabel \<Rightarrow> bool \<times> enforce_error option \<times> 'm" where
  "releaseVerdictForLabel enf m l =
     (if fl_WasMalicious l \<or> SocketCookie (fl_Flow l) = 0 then (False, None, m)
      else (True, e_Release enf m (label_verdict l)))"

text \<open>
  The sink frees the bystander and forwards the label; \<^verbatim>\<open>errors.Join\<close> keeps both errors. The
  downstream sink is a function on its own state.
\<close>

definition feedbackReleaseSink_Label ::
  "'m enforcer \<Rightarrow> ('d \<Rightarrow> FeedbackLabel \<Rightarrow> error option \<times> 'd) option \<Rightarrow> 'm \<Rightarrow> 'd \<Rightarrow> FeedbackLabel
    \<Rightarrow> enforce_error list \<times> 'm \<times> 'd" where
  "feedbackReleaseSink_Label enf next_sink m d l =
     (let (_, relErr, m') = releaseVerdictForLabel enf m l;
          (fwdErr, d') = (case next_sink of None \<Rightarrow> (None, d) | Some f \<Rightarrow> f d l)
      in ((case relErr of None \<Rightarrow> [] | Some e \<Rightarrow> [e]) @ (case fwdErr of None \<Rightarrow> [] | Some e \<Rightarrow> [SinkErr e]), m', d'))"

definition operatorClear :: "'m enforcer \<Rightarrow> 'm \<Rightarrow> u64 \<Rightarrow> enforce_error option \<times> 'm" where
  "operatorClear enf m cookie =
     (if cookie = 0 then (Some ErrClearUnattributable, m)
      else e_Release enf m \<lparr>v_Flow = cookie_flow cookie, v_Scope = [], v_Tier = TierObserve, v_Mode = ModeAsync,
             v_Score = lit 0, v_Calibrated = False\<rparr>)"

section \<open>The marks of the sequencer\<close>

lemma distinct_reap: "distinct (map fst s) \<Longrightarrow> distinct (map fst (reap_marks s n))"
  by (simp add: reap_marks_def Let_def distinct_fst_filter)

lemma distinct_admit: "distinct (map fst s) \<Longrightarrow> distinct (map fst (snd (admit s c n)))"
  by (auto simp: admit_def Let_def distinct_reap distinct_update split: option.split)

lemma map_of_reap:
  assumes "distinct (map fst s)"
  shows "map_of (reap_marks s n) k = (case map_of s k of None \<Rightarrow> None
    | Some p \<Rightarrow> if seqReapThreshold < length s \<and> p < wrap64 (n - seqStaleNanos) then None else Some p)"
  by (auto simp: reap_marks_def Let_def map_of_filter_distinct assms split: option.splits)

lemma mark_kept:
  assumes "distinct (map fst s)" "map_of s k = Some p" "length s \<le> seqReapThreshold \<or> wrap64 (n - seqStaleNanos) \<le> p"
  shows "map_of (reap_marks s n) k = Some p"
  using assms by (auto simp: map_of_reap)

lemma admit_fst: "fst (admit s c n) \<longleftrightarrow> c = 0 \<or> (\<forall>p. map_of (reap_marks s n) c = Some p \<longrightarrow> p < n)"
  by (auto simp: admit_def Let_def split: option.splits)

lemma admit_snd:
  "map_of (snd (admit s c n)) k =
     (if c = 0 then map_of s k
      else if k = c \<and> fst (admit s c n) then Some n else map_of (reap_marks s n) k)"
  by (auto simp: admit_def Let_def update_conv' split: option.splits)

section \<open>Delivering verdicts in any order\<close>

fun deliver_all :: "'m enforcer \<Rightarrow> verdictSequencer \<Rightarrow> 'm \<Rightarrow> (Verdict \<times> int) list \<Rightarrow> enforced list \<times> verdictSequencer \<times> 'm" where
  "deliver_all enf s m [] = ([], s, m)"
| "deliver_all enf s m ((v, n) # ds) =
     (let (r, s, m) = enforceVerdictOrdered enf s m v n; (rs, s, m) = deliver_all enf s m ds in (r # rs, s, m))"

text \<open>The specification: the verdict of a flow with the highest ordinal, and what it asks for.\<close>

definition newer :: "u64 \<Rightarrow> Verdict \<times> int \<Rightarrow> (Verdict \<times> int) option \<Rightarrow> (Verdict \<times> int) option" where
  "newer c d best = (if SocketCookie (v_Flow (fst d)) = c \<and> (case best of None \<Rightarrow> True | Some (_, p) \<Rightarrow> p < snd d) then Some d else best)"

definition newest :: "u64 \<Rightarrow> (Verdict \<times> int) list \<Rightarrow> (Verdict \<times> int) option" where
  "newest c ds = fold (newer c) ds None"

definition demand :: "(Verdict \<times> int) option \<Rightarrow> u32 option" where
  "demand best = (case best of None \<Rightarrow> None
     | Some (v, _) \<Rightarrow> (case ActionForTier (v_Tier v) of (a, True) \<Rightarrow> Some (word_of_int a) | (_, False) \<Rightarrow> None))"

lemma fold_newer_max:
  assumes "fold (newer c) ds best = Some (v, n)"
    and "\<And>v n. best = Some (v, n) \<Longrightarrow> SocketCookie (v_Flow v) = c"
  shows "((v, n) \<in> set ds \<or> best = Some (v, n)) \<and> SocketCookie (v_Flow v) = c \<and>
    (\<forall>(v', n')\<in>set ds. SocketCookie (v_Flow v') = c \<longrightarrow> n' \<le> n) \<and> (\<forall>v' n'. best = Some (v', n') \<longrightarrow> n' \<le> n)"
  using assms
proof (induction ds arbitrary: best)
  case (Cons d ds)
  have cookie: "SocketCookie (v_Flow v') = c" if "newer c d best = Some (v', n')" for v' n'
    using that Cons.prems(2) by (auto simp: newer_def split: if_splits)
  have "fold (newer c) ds (newer c d best) = Some (v, n)" using Cons.prems(1) by simp
  then have IH: "((v, n) \<in> set ds \<or> newer c d best = Some (v, n)) \<and> SocketCookie (v_Flow v) = c \<and>
      (\<forall>(v', n')\<in>set ds. SocketCookie (v_Flow v') = c \<longrightarrow> n' \<le> n) \<and> (\<forall>v' n'. newer c d best = Some (v', n') \<longrightarrow> n' \<le> n)"
    using cookie by (rule Cons.IH)
  show ?case
  proof (cases "newer c d best = best")
    case True
    have "snd d \<le> n" if "SocketCookie (v_Flow (fst d)) = c"
      using IH that True by (auto simp: newer_def split: if_splits option.splits)
    then show ?thesis using IH True by (cases d) auto
  next
    case False
    then have "newer c d best = Some d" "\<forall>v' n'. best = Some (v', n') \<longrightarrow> n' < snd d"
      by (auto simp: newer_def split: if_splits option.splits)
    then show ?thesis using IH by (cases d) fastforce
  qed
qed auto

lemma newest_max:
  "newest c ds = Some (v, n) \<Longrightarrow> (v, n) \<in> set ds \<and> SocketCookie (v_Flow v) = c \<and>
    (\<forall>(v', n')\<in>set ds. SocketCookie (v_Flow v') = c \<longrightarrow> n' \<le> n)"
  unfolding newest_def using fold_newer_max[of c ds None v n] by simp

text \<open>
  A verdict on another cookie leaves the flow contained at most as before; the flow's own verdict,
  when the kernel call succeeds, leaves it exactly as the verdict demands.
\<close>

lemma enforce_calls:
  assumes "enforceVerdict (kernelEnforcer kc) m v = (r, m')"
  shows "m' = m \<or> (\<exists>a e. Apply kc m v a = (e, m')) \<or> (\<exists>e. containment_Release kc m v = (e, m'))"
  using assms by (auto simp: enforceVerdict_def kernelEnforcer_def Let_def apfst_def map_prod_def split: if_splits prod.splits)

context ebpf_map
begin

lemma enforce_other:
  assumes "enforceVerdict (kernelEnforcer (kernel_container M rate burst)) m v = (r, m')" "k \<noteq> SocketCookie (v_Flow v)"
    and "contained M m' k = Some x"
  shows "contained M m k = Some x"
proof -
  consider "m' = m" | a e where "Apply (kernel_container M rate burst) m v a = (e, m')"
    | e where "containment_Release (kernel_container M rate burst) m v = (e, m')"
    using enforce_calls[OF assms(1)] by blast
  then show ?thesis
    using assms(2,3) container.apply_other container.release_other by cases metis+
qed

lemma enforce_same:
  assumes e: "enforceVerdict (kernelEnforcer (kernel_container M rate burst)) m v = (r, m')" "en_err r = None"
    and v: "v_Mode v = ModeAsync" "SocketCookie (v_Flow v) \<noteq> 0"
  shows "contained M m' (SocketCookie (v_Flow v)) = demand (Some (v, n))"
proof (cases "ActionForTier (v_Tier v)")
  case (Pair a ok)
  show ?thesis
  proof (cases ok)
    case True
    then have "Apply (kernel_container M rate burst) m v a = (None, m')"
      using e v Pair by (auto simp: enforceVerdict_def kernelEnforcer_def Let_def apfst_def map_prod_def split: prod.splits)
    with True Pair container.apply_same show ?thesis by (auto simp: demand_def)
  next
    case False
    then have "containment_Release (kernel_container M rate burst) m v = (None, m')"
      using e v Pair by (auto simp: enforceVerdict_def kernelEnforcer_def Let_def apfst_def map_prod_def split: prod.splits)
    with False Pair v container.release_same show ?thesis by (auto simp: demand_def)
  qed
qed

end

text \<open>What the sequencer and the map know about the cookie \<open>c\<close> when \<open>best\<close> is its newest verdict so far.\<close>

definition tracks :: "'m ebpf_Map \<Rightarrow> u64 \<Rightarrow> int \<Rightarrow> (Verdict \<times> int) option \<Rightarrow> verdictSequencer \<Rightarrow> 'm \<Rightarrow> bool" where
  "tracks M c base best s m \<longleftrightarrow> distinct (map fst s) \<and> map_of s c = map_option snd best \<and>
     (\<forall>v n. best = Some (v, n) \<longrightarrow> base \<le> n) \<and> (\<forall>x. contained M m c = Some x \<longrightarrow> demand best = Some x)"

definition in_window :: "int \<Rightarrow> Verdict \<times> int \<Rightarrow> bool" where
  "in_window base d \<longleftrightarrow> v_Mode (fst d) = ModeAsync \<and> base \<le> snd d \<and> snd d \<le> base + seqStaleNanos"

lemma window_keeps_mark:
  assumes "tracks M c base best s m" "in_window base (v, n)" "0 \<le> base" "base < 2 ^ 62"
  shows "map_of (reap_marks s n) c = map_option snd best"
proof (cases best)
  case None
  then show ?thesis using assms(1) by (simp add: tracks_def map_of_reap)
next
  case (Some b)
  have "wrap64 (n - seqStaleNanos) = n - seqStaleNanos"
    using assms(2,3,4) by (intro wrap64_id) (auto simp: in_window_def)
  then have "wrap64 (n - seqStaleNanos) \<le> snd b" using assms(1,2) Some by (cases b) (auto simp: tracks_def in_window_def)
  then show ?thesis using assms(1) Some mark_kept[of s c "snd b" n] by (auto simp: tracks_def)
qed

lemma tracks_step:
  assumes laws: "ebpf_map M" and t: "tracks M c base best s m" and w: "in_window base (v, n)" "0 \<le> base" "base < 2 ^ 62"
    and c: "c \<noteq> 0"
    and d: "enforceVerdictOrdered (kernelEnforcer (kernel_container M rate burst)) s m v n = (r, s', m')"
    and ok: "SocketCookie (v_Flow v) = c \<Longrightarrow> en_err r = None"
  shows "tracks M c base (newer c (v, n) best) s' m'"
    and "\<not> (SocketCookie (v_Flow v) \<noteq> c \<and> contained M m c \<noteq> None \<and> contained M m' c = None) \<Longrightarrow>
    contained M m c = demand best \<Longrightarrow> contained M m' c = demand (newer c (v, n) best)"
proof -
  let ?k = "SocketCookie (v_Flow v)" and ?enf = "kernelEnforcer (kernel_container M rate burst)"
  have s': "s' = snd (admit s ?k n)" and st: "\<not> fst (admit s ?k n) \<Longrightarrow> m' = m"
    using d by (auto simp: enforceVerdictOrdered_def split: prod.splits bool.splits)
  have go: "\<exists>r'. enforceVerdict ?enf m v = (r', m') \<and> en_err r' = en_err r" if "fst (admit s ?k n)"
    using d that by (cases "enforceVerdict ?enf m v") (auto simp: enforceVerdictOrdered_def Let_def split: prod.splits bool.splits)
  have keep: "map_of (reap_marks s n) c = map_option snd best" using window_keeps_mark[OF t w] .
  have dist: "distinct (map fst s')" using t distinct_admit by (auto simp: s' tracks_def)
  have "tracks M c base (newer c (v, n) best) s' m' \<and>
    (\<not> (?k \<noteq> c \<and> contained M m c \<noteq> None \<and> contained M m' c = None) \<longrightarrow>
       contained M m c = demand best \<longrightarrow> contained M m' c = demand (newer c (v, n) best))"
  proof (cases "?k = c")
    case False
    then have b: "newer c (v, n) best = best" by (simp add: newer_def)
    have m': "map_of s' c = map_option snd best"
      using False keep t by (auto simp: s' admit_snd tracks_def)
    have sub: "contained M m' c = Some x \<Longrightarrow> contained M m c = Some x" for x
    proof (cases "fst (admit s ?k n)")
      case True
      with go obtain r' where "enforceVerdict ?enf m v = (r', m')" by blast
      from ebpf_map.enforce_other[OF laws this] False show "contained M m' c = Some x \<Longrightarrow> contained M m c = Some x" by simp
    qed (simp add: st)
    have "\<forall>x. contained M m' c = Some x \<longrightarrow> demand best = Some x"
      using sub t unfolding tracks_def by blast
    with m' t dist have t': "tracks M c base best s' m'" unfolding tracks_def by blast
    have "contained M m' c = contained M m c" if "contained M m c = None \<or> contained M m' c \<noteq> None"
      using that sub by (cases "contained M m' c") auto
    then have "\<not> (?k \<noteq> c \<and> contained M m c \<noteq> None \<and> contained M m' c = None) \<longrightarrow>
        contained M m c = demand best \<longrightarrow> contained M m' c = demand best"
      using False by metis
    with t' show ?thesis unfolding b by (rule conjI)
  next
    case True
    have adm: "fst (admit s ?k n) \<longleftrightarrow> (case best of None \<Rightarrow> True | Some (_, p) \<Rightarrow> p < n)"
      using True c keep by (auto simp: admit_fst split: option.splits)
    show ?thesis
    proof (cases "fst (admit s ?k n)")
      case True
      then have b: "newer c (v, n) best = Some (v, n)" using adm \<open>?k = c\<close> by (auto simp: newer_def split: option.splits)
      obtain r' where "enforceVerdict ?enf m v = (r', m')" "en_err r' = None" using go True ok \<open>?k = c\<close> by auto
      from ebpf_map.enforce_same[OF laws this] have "contained M m' c = demand (Some (v, n))"
        using w(1) c \<open>?k = c\<close> by (simp add: in_window_def)
      moreover have "map_of s' c = Some n" using True c \<open>?k = c\<close> by (simp add: s' admit_snd)
      moreover have "base \<le> n" using w(1) by (simp add: in_window_def)
      ultimately show ?thesis using dist unfolding b tracks_def by simp
    next
      case False
      then have b: "newer c (v, n) best = best" using adm by (auto simp: newer_def split: option.splits)
      have "map_of s' c = map_option snd best" using False c \<open>?k = c\<close> keep by (simp add: s' admit_snd)
      then show ?thesis using t dist unfolding b st[OF False] tracks_def by blast
    qed
  qed
  then show "tracks M c base (newer c (v, n) best) s' m'"
    "\<not> (?k \<noteq> c \<and> contained M m c \<noteq> None \<and> contained M m' c = None) \<Longrightarrow>
      contained M m c = demand best \<Longrightarrow> contained M m' c = demand (newer c (v, n) best)" by auto
qed

text \<open>The delivery of a verdict for another flow pushes the entry of \<open>c\<close> out of the map.\<close>

fun displaced :: "'m ebpf_Map \<Rightarrow> 'm enforcer \<Rightarrow> u64 \<Rightarrow> verdictSequencer \<Rightarrow> 'm \<Rightarrow> (Verdict \<times> int) list \<Rightarrow> bool" where
  "displaced M enf c s m [] = False"
| "displaced M enf c s m ((v, n) # ds) =
     (let (r, s', m') = enforceVerdictOrdered enf s m v n
      in SocketCookie (v_Flow v) \<noteq> c \<and> contained M m c \<noteq> None \<and> contained M m' c = None \<or> displaced M enf c s' m' ds)"

lemma alone_not_displaced: "\<forall>d\<in>set ds. SocketCookie (v_Flow (fst d)) = c \<Longrightarrow> \<not> displaced M enf c s m ds"
  by (induction M enf c s m ds rule: displaced.induct) (auto split: prod.splits)

lemma deliver_tracks:
  assumes "ebpf_map M" "tracks M c base best s m" "\<forall>d\<in>set ds. in_window base d" "0 \<le> base" "base < 2 ^ 62" "c \<noteq> 0"
    and "deliver_all (kernelEnforcer (kernel_container M rate burst)) s m ds = (rs, s', m')" "\<forall>r\<in>set rs. en_err r = None"
  shows "tracks M c base (fold (newer c) ds best) s' m' \<and>
    (\<not> displaced M (kernelEnforcer (kernel_container M rate burst)) c s m ds \<longrightarrow> contained M m c = demand best \<longrightarrow>
       contained M m' c = demand (fold (newer c) ds best))"
  using assms
proof (induction ds arbitrary: best s m rs)
  case (Cons d ds)
  let ?enf = "kernelEnforcer (kernel_container M rate burst)"
  obtain v n where d: "d = (v, n)" by (cases d)
  obtain r s1 m1 where step: "enforceVerdictOrdered ?enf s m v n = (r, s1, m1)"
    using prod_cases3 by blast
  obtain rs' where rest: "deliver_all ?enf s1 m1 ds = (rs', s', m')" "rs = r # rs'"
    using Cons.prems(7) step by (auto simp: d split: prod.splits)
  have w: "in_window base (v, n)" and ok: "en_err r = None" using Cons.prems(3,8) rest(2) by (auto simp: d)
  note step_facts = tracks_step[OF Cons.prems(1,2) w Cons.prems(4,5,6) step ok]
  have "tracks M c base (fold (newer c) ds (newer c (v, n) best)) s' m' \<and>
    (\<not> displaced M ?enf c s1 m1 ds \<longrightarrow> contained M m1 c = demand (newer c (v, n) best) \<longrightarrow>
       contained M m' c = demand (fold (newer c) ds (newer c (v, n) best)))"
    using Cons.prems rest by (intro Cons.IH[OF _ step_facts(1)]) auto
  then show ?case using step_facts(2) step by (auto simp: d)
qed simp

text \<open>On the shipped map nothing is displaced while the batch fits: every call finds a free slot.\<close>

lemma room_update:
  assumes "m_Update (lru_Map cap) m k v = (r, m')" "length m < cap" "k' \<noteq> k"
  shows "m_Lookup (lru_Map cap) m' k' = m_Lookup (lru_Map cap) m k' \<and> length m' \<le> Suc (length m)"
proof -
  have "length (filter (\<lambda>p. fst p \<noteq> k) m) \<le> cap - 1"
    using assms(2) length_filter_le[of "\<lambda>p. fst p \<noteq> k" m] by linarith
  with assms(1,3) show ?thesis
    by (auto simp: lru_Map_def map_of_drop_key split: option.splits)
qed

lemma room_Program:
  assumes "Program (lru_Map cap) m k a rate burst = (r, m')" "length m < cap" "k' \<noteq> k"
  shows "m_Lookup (lru_Map cap) m' k' = m_Lookup (lru_Map cap) m k' \<and> length m' \<le> Suc (length m)"
  using assms room_update[OF _ assms(2,3)] by (auto simp: Program_cases split: if_splits)

lemma room_Release:
  assumes "loader_Release (lru_Map cap) m k = (r, m')" "k' \<noteq> k"
  shows "m_Lookup (lru_Map cap) m' k' = m_Lookup (lru_Map cap) m k' \<and> length m' \<le> Suc (length m)"
proof -
  have "length m' \<le> length m" using assms(1) by (auto simp: loader_Release_cases lru_Map_def split: if_splits)
  with lru.Release_other[OF assms] show ?thesis by simp
qed

lemma room_enforce:
  assumes "enforceVerdictOrdered (kernelEnforcer (kernel_container (lru_Map cap) rate burst)) s m v n = (r, s', m')"
    and "length m < cap"
  shows "length m' \<le> Suc (length m) \<and> (c \<noteq> SocketCookie (v_Flow v) \<longrightarrow> contained (lru_Map cap) m' c = contained (lru_Map cap) m c)"
proof -
  let ?k = "SocketCookie (v_Flow v)"
  let ?kc = "kernel_container (lru_Map cap) rate burst"
  have "m' = m \<or> (\<exists>r'. enforceVerdict (kernelEnforcer ?kc) m v = (r', m'))"
    using assms(1) by (auto simp: enforceVerdictOrdered_def Let_def split: prod.splits bool.splits)
  then have "m' = m \<or> (\<exists>a e. Apply ?kc m v a = (e, m')) \<or> (\<exists>e. containment_Release ?kc m v = (e, m'))"
    using enforce_calls[of ?kc m v] by blast
  then consider "m' = m" | a e where "Apply ?kc m v a = (e, m')" | e where "containment_Release ?kc m v = (e, m')"
    by blast
  then consider "m' = m" | a r b e where "Program (lru_Map cap) m ?k a r b = (e, m')" | e where "loader_Release (lru_Map cap) m ?k = (e, m')"
  proof cases
    case 2
    then show ?thesis using that by (auto simp: Apply_kernel apfst_def map_prod_def split: if_splits prod.splits)
  next
    case 3
    then show ?thesis using that by (auto simp: Release_kernel apfst_def map_prod_def split: prod.splits)
  qed
  then show ?thesis
  proof cases
    case 2
    have "k' \<noteq> ?k \<Longrightarrow> contained (lru_Map cap) m' k' = contained (lru_Map cap) m k' \<and> length m' \<le> Suc (length m)" for k'
      using room_Program[OF 2 assms(2)] contained_eq by metis
    from this[of "?k + 1"] this[of c] show ?thesis by simp
  next
    case 3
    have "k' \<noteq> ?k \<Longrightarrow> contained (lru_Map cap) m' k' = contained (lru_Map cap) m k' \<and> length m' \<le> Suc (length m)" for k'
      using room_Release[OF 3] contained_eq by metis
    from this[of "?k + 1"] this[of c] show ?thesis by simp
  qed simp
qed

lemma room_displaces_nothing:
  "length m + length ds \<le> cap \<Longrightarrow>
   \<not> displaced (lru_Map cap) (kernelEnforcer (kernel_container (lru_Map cap) rate burst)) c s m ds"
proof (induction ds arbitrary: s m)
  case (Cons d ds)
  let ?enf = "kernelEnforcer (kernel_container (lru_Map cap) rate burst)"
  obtain v n where d: "d = (v, n)" by (cases d)
  obtain r s1 m1 where step: "enforceVerdictOrdered ?enf s m v n = (r, s1, m1)" using prod_cases3 by blast
  have "length m < cap" using Cons.prems by simp
  note room = room_enforce[OF step this, of c]
  then have "length m1 + length ds \<le> cap" using Cons.prems by simp
  from Cons.IH[OF this, of s1] room show ?case by (auto simp: d step)
qed simp

text \<open>
  Property C15. Last writer wins by ordinal, not by arrival. Take any batch of async verdicts whose
  ordinals lie within half an hour of one another, delivered in any order, one delivery after
  another, to an adapter that knows nothing of a cookie yet, with every kernel call succeeding.
  Afterwards the flow is contained only if its newest verdict demands it, with that verdict's action,
  and never if the batch has no verdict for it. It is contained exactly as its newest verdict demands
  unless the delivery of another flow's verdict pushed its entry out of the full map, which cannot
  happen when the batch is for this flow alone. Deliveries whose two halves interleave are excluded:
  they can end otherwise, as the schedule below shows.
\<close>

theorem newest_verdict_wins:
  assumes "ebpf_map M" "\<forall>d\<in>set ds. in_window base d" "0 \<le> base" "base < 2 ^ 62" "c \<noteq> 0"
    and "distinct (map fst s)" "map_of s c = None" "contained M m c = None"
    and "deliver_all (kernelEnforcer (kernel_container M rate burst)) s m ds = (rs, s', m')" "\<forall>r\<in>set rs. en_err r = None"
  shows "(\<forall>a. contained M m' c = Some a \<longrightarrow> demand (newest c ds) = Some a) \<and>
    ((\<forall>d\<in>set ds. SocketCookie (v_Flow (fst d)) = c) \<longrightarrow> contained M m' c = demand (newest c ds)) \<and>
    (contained M m' c = demand (newest c ds) \<or> displaced M (kernelEnforcer (kernel_container M rate burst)) c s m ds) \<and>
    (\<forall>v n. newest c ds = Some (v, n) \<longrightarrow> (v, n) \<in> set ds \<and> SocketCookie (v_Flow v) = c \<and>
       (\<forall>(v', n')\<in>set ds. SocketCookie (v_Flow v') = c \<longrightarrow> n' \<le> n))"
proof -
  have "tracks M c base None s m" using assms by (simp add: tracks_def)
  from deliver_tracks[OF assms(1) this assms(2,3,4,5,9,10)]
  have t: "tracks M c base (newest c ds) s' m'"
    and e: "\<not> displaced M (kernelEnforcer (kernel_container M rate burst)) c s m ds \<longrightarrow> contained M m' c = demand (newest c ds)"
    using assms(8) by (simp_all add: newest_def demand_def)
  have "\<forall>a. contained M m' c = Some a \<longrightarrow> demand (newest c ds) = Some a" using t by (simp add: tracks_def)
  moreover have "(\<forall>d\<in>set ds. SocketCookie (v_Flow (fst d)) = c) \<longrightarrow> contained M m' c = demand (newest c ds)"
    using e alone_not_displaced[of ds c M "kernelEnforcer (kernel_container M rate burst)" s m] by blast
  ultimately show ?thesis using e newest_max by blast
qed

definition low_verdict :: "u64 \<Rightarrow> Verdict" where
  "low_verdict k = (jail_verdict k)\<lparr>v_Tier := TierTag\<rparr>"

abbreviation (input) demo_enforcer :: "lru enforcer" where
  "demo_enforcer \<equiv> kernelEnforcer (kernel_container verdict_map DefaultRateBytesPerSec DefaultBurstBytes)"

lemmas enforce_eval = enforceVerdictOrdered_def enforceVerdict_def admit_def reap_marks_def ActionForTier_def
  kernelEnforcer_def Apply_kernel Release_kernel Program_def program_value_def loader_fields_def loader_Release_def lru_Map_def jail_verdict_def
  low_verdict_def newest_def newer_def demand_def contained_def Let_def

text \<open>A jail of ordinal 2 delivered before the tag of ordinal 1: the flow stays jailed.\<close>

theorem newest_verdict_wins_witness:
  "contained verdict_map (snd (snd (deliver_all demo_enforcer [] [] [(jail_verdict 7, 2), (low_verdict 7, 1)]))) 7 =
   demand (newest 7 [(jail_verdict 7, 2), (low_verdict 7, 1)]) \<and>
   demand (newest 7 [(jail_verdict 7, 2), (low_verdict 7, 1)]) = Some ActionJail"
proof -
  let ?ds = "[(jail_verdict 7, 2), (low_verdict 7, 1)]"
  obtain rs s' m' where d: "deliver_all demo_enforcer [] [] ?ds = (rs, s', m')" using prod_cases3 by blast
  have "list_all (\<lambda>r. en_err r = None) (fst (deliver_all demo_enforcer [] [] ?ds))" by (simp add: enforce_eval)
  then have ok: "\<forall>r\<in>set rs. en_err r = None" unfolding d list_all_iff by simp
  have jail: "demand (newest 7 ?ds) = Some ActionJail" by (simp add: enforce_eval)
  have w: "\<forall>d\<in>set ?ds. in_window 0 d" and k: "\<forall>d\<in>set ?ds. SocketCookie (v_Flow (fst d)) = 7"
    by (simp_all add: in_window_def jail_verdict_def low_verdict_def)
  have init: "0 \<le> (0::int)" "(0::int) < 2 ^ 62" "(7::u64) \<noteq> 0" "distinct (map fst ([]::verdictSequencer))"
    "map_of ([]::verdictSequencer) 7 = None" "contained verdict_map [] 7 = None"
    by (simp_all add: contained_def lru_Map_def)
  from conjunct1[OF conjunct2[OF newest_verdict_wins[OF lru.ebpf_map_axioms w init d ok]]] k
  have "contained verdict_map m' 7 = demand (newest 7 ?ds)" by (rule mp)
  then show ?thesis using jail unfolding d by simp
qed

section \<open>Interleaved deliveries\<close>

text \<open>
  \<^verbatim>\<open>OnVerdict\<close> runs on the goroutine of each request. The sequencer's mutex covers \<^verbatim>\<open>admit\<close> only, so two
  deliveries interleave between their admission and their kernel call. A schedule names the delivery
  whose next half runs; the second half runs only for an admitted delivery.
\<close>

datatype half = Admit nat | Enforce nat

fun run_schedule :: "'m enforcer \<Rightarrow> (Verdict \<times> int) list \<Rightarrow> verdictSequencer \<times> (nat \<Rightarrow> bool) \<times> 'm \<Rightarrow> half list
    \<Rightarrow> verdictSequencer \<times> (nat \<Rightarrow> bool) \<times> 'm" where
  "run_schedule enf ds st [] = st"
| "run_schedule enf ds (s, adm, m) (Admit i # hs) =
     (let (v, n) = ds ! i; (ok, s') = admit s (SocketCookie (v_Flow v)) n in run_schedule enf ds (s', adm(i := ok), m) hs)"
| "run_schedule enf ds (s, adm, m) (Enforce i # hs) =
     (if adm i then run_schedule enf ds (s, adm(i := False), snd (enforceVerdict enf m (fst (ds ! i)))) hs
      else run_schedule enf ds (s, adm, m) hs)"

text \<open>
  The two halves of a delivery are not atomic together. When the older tag verdict is
  admitted first and reaches the kernel last, it releases the jail its newer sibling programmed: the
  flow ends up free although its newest verdict demands a jail, while every schedule that runs the
  two halves of each delivery back to back ends with the jail in force.
\<close>

theorem ordered_seam_races:
  "let ds = [(low_verdict 7, 1), (jail_verdict 7, 2)];
       after = (\<lambda>hs. contained verdict_map (snd (snd (run_schedule demo_enforcer ds ([], \<lambda>_. False, []) hs))) 7)
   in demand (newest 7 ds) = Some ActionJail \<and>
      after [Admit 0, Admit 1, Enforce 1, Enforce 0] = None \<and>
      after [Admit 0, Enforce 0, Admit 1, Enforce 1] = Some ActionJail \<and>
      after [Admit 1, Enforce 1, Admit 0, Enforce 0] = Some ActionJail"
  by (simp add: enforce_eval)

end
