(* ===== verification/AuditChain.thy ===== *)
theory AuditChain
  imports Contract "HOL-Library.Countable"
begin

text \<open>
  The tamper-evident audit chain, \<^verbatim>\<open>internal/intelligence/audit/store.go\<close>, with the audit part of the
  durable store it appends to, \<^verbatim>\<open>internal/engine/persist/store.go\<close>. Each scope has its own chain of
  records; a record carries the hash of its predecessor and its own hash over everything else it
  holds. The digest functions (sha256, HMAC), the JSON preimage and the gob blob are parameters; a
  digest is taken of one of two messages, the genesis label with a scope or a previous head with a
  preimage, which the source writes one after the other (a head is always 32 bytes long). The
  database is the contents of its buckets, a write transaction changes all or nothing. The theorems
  show that what the store appends verifies, across reboots, that two chains which verify against the
  same head are the same chain unless two different messages with one digest are at hand, and that a
  chain cut to a prefix together with its head still verifies.
\<close>

section \<open>Records\<close>

abbreviation (input) AlgoSHA256 :: string where "AlgoSHA256 \<equiv> ''sha256''"
abbreviation (input) AlgoHMACSHA256 :: string where "AlgoHMACSHA256 \<equiv> ''hmac-sha256''"
abbreviation (input) KindDecision :: string where "KindDecision \<equiv> ''decision''"
abbreviation (input) KindOperator :: string where "KindOperator \<equiv> ''operator''"

text \<open>\<open>None\<close> is Go's nil, for a map as for a hash.\<close>

record 'd AuditRecord =
  ar_Seq :: nat
  ar_EventID :: string
  ar_Timestamp :: time
  ar_Scope :: string
  ar_Kind :: string
  ar_CanaryType :: string
  ar_SocketCookie :: u64
  ar_Tier :: int
  ar_Verdict :: string
  ar_Action :: string
  ar_Score :: f64
  ar_StingMechanism :: string
  ar_Mode :: int
  ar_Calibrated :: bool
  ar_Posture :: "(string \<times> string) list option"
  ar_SourceAddress :: string
  ar_Method :: string
  ar_Path :: string
  ar_SPIFFEID :: string
  ar_Features :: "(string \<times> f64) list option"
  ar_BytesRealDataCrossed :: int
  ar_Keyed :: bool
  ar_Algo :: string
  ar_PrevHash :: "'d option"
  ar_Hash :: "'d option"

datatype audit_error =
    NonFiniteScore | NonFiniteFeature | MarshalError | GobError | NoScope | ScopeMismatch
  | ErrReadOnly | EmptyScope | DbError error

section \<open>Digests and encodings\<close>

datatype ('d, 'p) msg = GenesisMsg ScopeKey | LinkMsg 'd 'p

text \<open>\<open>Sum key\<close> is sha256 for the empty key and HMAC-SHA256 under \<open>key\<close> otherwise.\<close>

record ('d, 'p, 'b) codec =
  Sum :: "string \<Rightarrow> ('d, 'p) msg \<Rightarrow> 'd"
  Marshal :: "'d AuditRecord \<Rightarrow> 'p option"
  GobEncode :: "'d AuditRecord \<Rightarrow> 'b option"
  GobDecode :: "'b \<Rightarrow> 'd AuditRecord option"

definition genesis :: "('d, 'p, 'b) codec \<Rightarrow> string \<Rightarrow> ScopeKey \<Rightarrow> 'd" where
  "genesis cd key scope = Sum cd key (GenesisMsg scope)"

fun IsFinite :: "f64 \<Rightarrow> bool" where
  "IsFinite (Fin _) = True"
| "IsFinite _ = False"

definition validateFinite :: "'d AuditRecord \<Rightarrow> audit_error option" where
  "validateFinite r =
     (if \<not> IsFinite (ar_Score r) then Some NonFiniteScore
      else if \<exists>kv \<in> set (case ar_Features r of None \<Rightarrow> [] | Some f \<Rightarrow> f). \<not> IsFinite (snd kv) then Some NonFiniteFeature
      else None)"

definition canonicalPreimage :: "('d, 'p, 'b) codec \<Rightarrow> 'd AuditRecord \<Rightarrow> audit_error + 'p" where
  "canonicalPreimage cd r = (case validateFinite r of
       Some err \<Rightarrow> Inl err
     | None \<Rightarrow> (case Marshal cd (r\<lparr>ar_Hash := None\<rparr>) of None \<Rightarrow> Inl MarshalError | Some p \<Rightarrow> Inr p))"

definition computeHash :: "('d, 'p, 'b) codec \<Rightarrow> string \<Rightarrow> 'd \<Rightarrow> 'd AuditRecord \<Rightarrow> audit_error + 'd" where
  "computeHash cd key prevHead r = (case canonicalPreimage cd r of
       Inl err \<Rightarrow> Inl err | Inr pre \<Rightarrow> Inr (Sum cd key (LinkMsg prevHead pre)))"

section \<open>The durable chain\<close>

text \<open>
  The bucket of one scope: the head, the records by sequence number in ascending order, and the
  bucket's sequence counter. The buckets are kept in the order in which bbolt ranges over them.
\<close>

record ('d, 'b) chain =
  ch_head :: "'d option"
  ch_recs :: "(nat \<times> 'b) list"
  ch_seq :: nat

definition empty_chain :: "('d, 'b) chain" where
  "empty_chain = \<lparr>ch_head = None, ch_recs = [], ch_seq = 0\<rparr>"

record ('d, 'b) persist_Store =
  ps_chains :: "(ScopeKey \<times> ('d, 'b) chain) list"
  ps_readOnly :: bool

definition chain_of :: "('d, 'b) persist_Store \<Rightarrow> ScopeKey \<Rightarrow> ('d, 'b) chain" where
  "chain_of db scope = (case map_of (ps_chains db) scope of None \<Rightarrow> empty_chain | Some c \<Rightarrow> c)"

text \<open>
  The failures a transaction may report are the argument \<open>fault\<close>: with \<open>Some e\<close> nothing is committed.
\<close>

definition AppendAuditAndHead ::
  "('d, 'b) persist_Store \<Rightarrow> error option \<Rightarrow> ScopeKey \<Rightarrow> ('d option \<Rightarrow> nat \<Rightarrow> audit_error + 'b \<times> 'd)
    \<Rightarrow> (audit_error + nat) \<times> ('d, 'b) persist_Store" where
  "AppendAuditAndHead db fault scope mk =
     (if ps_readOnly db then (Inl ErrReadOnly, db)
      else if scope = [] then (Inl EmptyScope, db)
      else let c = chain_of db scope; seq = ch_seq c + 1 in
        case mk (ch_head c) seq of
          Inl err \<Rightarrow> (Inl err, db)
        | Inr (blob, newHead) \<Rightarrow>
           (case fault of
              Some e \<Rightarrow> (Inl (DbError e), db)
            | None \<Rightarrow> (Inr seq, db\<lparr>ps_chains := AList.update scope
                 \<lparr>ch_head = Some newHead,
                  ch_recs = insort_key fst (seq, blob) (filter (\<lambda>p. fst p \<noteq> seq) (ch_recs c)),
                  ch_seq = seq\<rparr> (ps_chains db)\<rparr>)))"

definition GetAuditHead :: "('d, 'b) persist_Store \<Rightarrow> error option \<Rightarrow> ScopeKey \<Rightarrow> audit_error + 'd option" where
  "GetAuditHead db fault scope = (case fault of
       Some e \<Rightarrow> Inl (DbError e)
     | None \<Rightarrow> if scope = [] then Inl EmptyScope else Inr (ch_head (chain_of db scope)))"

definition AuditChainStat :: "('d, 'b) persist_Store \<Rightarrow> ScopeKey \<Rightarrow> audit_error + ('d option \<times> nat \<times> nat \<times> bool)" where
  "AuditChainStat db scope =
     (if scope = [] then Inl EmptyScope
      else let c = chain_of db scope
           in Inr (ch_head c, length (ch_recs c), ch_seq c, ch_head c \<noteq> None \<or> 0 < length (ch_recs c)))"

definition RangeAuditChain :: "('d, 'b) persist_Store \<Rightarrow> ScopeKey \<Rightarrow> (nat \<times> 'b) list" where
  "RangeAuditChain db scope = ch_recs (chain_of db scope)"

section \<open>The store\<close>

record ('d, 'b) audit_Store =
  as_heads :: "(ScopeKey \<times> 'd) list"
  as_store :: "('d, 'b) persist_Store option"
  as_hmacKey :: string
  as_mem :: "ScopeKey \<rightharpoonup> 'd AuditRecord list"

definition Keyed :: "('d, 'b) audit_Store \<Rightarrow> bool" where
  "Keyed s \<longleftrightarrow> as_hmacKey s \<noteq> []"

definition algoName :: "('d, 'b) audit_Store \<Rightarrow> string" where
  "algoName s = (if Keyed s then AlgoHMACSHA256 else AlgoSHA256)"

text \<open>Rehydration reads the head of every scope that has a bucket and stops at the first error.\<close>

fun rehydrate_heads :: "('d, 'b) persist_Store \<Rightarrow> (ScopeKey \<Rightarrow> error option) \<Rightarrow> ScopeKey list \<Rightarrow> (ScopeKey \<times> 'd) list
    \<Rightarrow> audit_error + (ScopeKey \<times> 'd) list" where
  "rehydrate_heads db fault [] heads = Inr heads"
| "rehydrate_heads db fault (sc # scs) heads =
     (case GetAuditHead db (fault sc) sc of
        Inl err \<Rightarrow> Inl err
      | Inr None \<Rightarrow> rehydrate_heads db fault scs heads
      | Inr (Some head) \<Rightarrow> rehydrate_heads db fault scs (AList.update sc head heads))"

definition NewWithConfig ::
  "('d, 'b) persist_Store option \<Rightarrow> (ScopeKey \<Rightarrow> error option) \<Rightarrow> string \<Rightarrow> audit_error + ('d, 'b) audit_Store" where
  "NewWithConfig store fault HMACKey =
     (case store of
        None \<Rightarrow> Inr \<lparr>as_heads = [], as_store = None, as_hmacKey = HMACKey, as_mem = Map.empty\<rparr>
      | Some db \<Rightarrow> (case rehydrate_heads db fault (map fst (ps_chains db)) [] of
          Inl err \<Rightarrow> Inl err
        | Inr heads \<Rightarrow> Inr \<lparr>as_heads = heads, as_store = Some db, as_hmacKey = HMACKey, as_mem = Map.empty\<rparr>))"

definition headFor :: "('d, 'b) audit_Store \<Rightarrow> ScopeKey \<Rightarrow> 'd option" where
  "headFor s scope = map_of (as_heads s) scope"

definition Scopes :: "('d, 'b) audit_Store \<Rightarrow> ScopeKey list" where
  "Scopes s = map fst (as_heads s)"

text \<open>The record that \<^verbatim>\<open>append\<close> links into the chain, and its hash.\<close>

definition link_record ::
  "('d, 'p, 'b) codec \<Rightarrow> ('d, 'b) audit_Store \<Rightarrow> 'd \<Rightarrow> nat \<Rightarrow> 'd AuditRecord \<Rightarrow> audit_error + 'd AuditRecord \<times> 'd" where
  "link_record cd s prev seq rec =
     (let rec = rec\<lparr>ar_Seq := seq, ar_PrevHash := Some prev, ar_Keyed := Keyed s, ar_Algo := algoName s\<rparr>
      in case computeHash cd (as_hmacKey s) prev rec of
           Inl err \<Rightarrow> Inl err | Inr h \<Rightarrow> Inr (rec\<lparr>ar_Hash := Some h\<rparr>, h))"

definition appendInMemory ::
  "('d, 'p, 'b) codec \<Rightarrow> ('d, 'b) audit_Store \<Rightarrow> ScopeKey \<Rightarrow> 'd AuditRecord \<Rightarrow> audit_error option \<times> ('d, 'b) audit_Store" where
  "appendInMemory cd s scope rec =
     (let prev = (case headFor s scope of None \<Rightarrow> genesis cd (as_hmacKey s) scope | Some h \<Rightarrow> h);
          recs = (case as_mem s scope of None \<Rightarrow> [] | Some rs \<Rightarrow> rs);
          s = s\<lparr>as_mem := (as_mem s)(scope \<mapsto> recs)\<rparr>
      in case link_record cd s prev (length recs + 1) rec of
           Inl err \<Rightarrow> (Some err, s)
         | Inr (r, h) \<Rightarrow> (None, s\<lparr>as_mem := (as_mem s)(scope \<mapsto> recs @ [r]), as_heads := AList.update scope h (as_heads s)\<rparr>))"

definition audit_append ::
  "('d, 'p, 'b) codec \<Rightarrow> ('d, 'b) audit_Store \<Rightarrow> error option \<Rightarrow> ScopeKey \<Rightarrow> 'd AuditRecord
    \<Rightarrow> audit_error option \<times> ('d, 'b) audit_Store" where
  "audit_append cd s fault scope rec =
     (if ar_Scope rec \<noteq> scope then (Some ScopeMismatch, s)
      else case as_store s of
        None \<Rightarrow> appendInMemory cd s scope rec
      | Some db \<Rightarrow>
         (case validateFinite rec of
            Some err \<Rightarrow> (Some err, s)
          | None \<Rightarrow>
             (let mk = (\<lambda>prevHead seq.
                    case link_record cd s (case prevHead of None \<Rightarrow> genesis cd (as_hmacKey s) scope | Some h \<Rightarrow> h) seq rec of
                      Inl err \<Rightarrow> Inl err
                    | Inr (r, h) \<Rightarrow> (case GobEncode cd r of None \<Rightarrow> Inl GobError | Some blob \<Rightarrow> Inr (blob, h)))
              in case AppendAuditAndHead db fault scope mk of
                   (Inl err, _) \<Rightarrow> (Some err, s)
                 | (Inr seq, db') \<Rightarrow>
                    (None, s\<lparr>as_store := Some db',
                             as_heads := (case ch_head (chain_of db' scope) of None \<Rightarrow> as_heads s
                                           | Some newHead \<Rightarrow> AList.update scope newHead (as_heads s))\<rparr>))))"

section \<open>Capture and append\<close>

definition hexdigit :: "nat \<Rightarrow> char" where
  "hexdigit n = ''0123456789abcdef'' ! n"

definition hexEncode :: "string \<Rightarrow> string" where
  "hexEncode b = concat (map (\<lambda>c. [hexdigit (of_char c div 16), hexdigit (of_char c mod 16)]) b)"

text \<open>Nanoseconds from Go's zero time to the Unix epoch; \<^verbatim>\<open>UnixNano\<close> is a 64-bit integer.\<close>

abbreviation (input) unix_epoch :: time where "unix_epoch \<equiv> 62135596800 * second"

definition eventID :: "ScopeKey \<Rightarrow> u64 \<Rightarrow> time \<Rightarrow> string" where
  "eventID scope cookie t =
     scope @ '':'' @ hexEncode (be64 (fnv64a (be64 cookie @ be64 (word_of_int (t - unix_epoch)))))"

definition tierName :: "Tier \<Rightarrow> string" where
  "tierName t = (if t = TierObserve then ''observe'' else if t = TierTag then ''tag''
     else if t = TierContain then ''contain'' else if t = TierJail then ''jail'' else ''unknown'')"

definition copyStrings :: "(string \<times> string) list option \<Rightarrow> (string \<times> string) list option" where
  "copyStrings m = (case m of None \<Rightarrow> None | Some [] \<Rightarrow> None | Some kvs \<Rightarrow> Some kvs)"

definition copyFeatures :: "(string \<times> f64) list option \<Rightarrow> (string \<times> f64) list option" where
  "copyFeatures f = f"

record DecisionInput =
  di_Scope :: ScopeKey
  di_Canary :: CanaryType
  di_SocketCookie :: u64
  di_Verdict :: Verdict
  di_SourceAddress :: string
  di_Method :: string
  di_Path :: string
  di_SPIFFEID :: string
  di_Features :: "(string \<times> f64) list option"
  di_StingMechanism :: string
  di_Posture :: "(string \<times> string) list option"
  di_Now :: time

record OperatorAction =
  oa_Scope :: ScopeKey
  oa_Action :: string
  oa_SocketCookie :: u64
  oa_SourceAddress :: string
  oa_SPIFFEID :: string
  oa_Posture :: "(string \<times> string) list option"
  oa_Now :: time

definition mode_int :: "EnforcementMode \<Rightarrow> int" where
  "mode_int m = (case m of ModeAsync \<Rightarrow> 0 | ModeInline \<Rightarrow> 1)"

definition decision_record :: "DecisionInput \<Rightarrow> 'd AuditRecord" where
  "decision_record inp = (let v = di_Verdict inp in
     \<lparr>ar_Seq = 0, ar_EventID = eventID (di_Scope inp) (di_SocketCookie inp) (di_Now inp), ar_Timestamp = di_Now inp,
      ar_Scope = di_Scope inp, ar_Kind = KindDecision, ar_CanaryType = di_Canary inp, ar_SocketCookie = di_SocketCookie inp,
      ar_Tier = v_Tier v, ar_Verdict = tierName (v_Tier v), ar_Action = tierName (v_Tier v), ar_Score = v_Score v,
      ar_StingMechanism = di_StingMechanism inp, ar_Mode = mode_int (v_Mode v), ar_Calibrated = v_Calibrated v,
      ar_Posture = copyStrings (di_Posture inp), ar_SourceAddress = di_SourceAddress inp, ar_Method = di_Method inp,
      ar_Path = di_Path inp, ar_SPIFFEID = di_SPIFFEID inp, ar_Features = copyFeatures (di_Features inp),
      ar_BytesRealDataCrossed = 0, ar_Keyed = False, ar_Algo = [], ar_PrevHash = None, ar_Hash = None\<rparr>)"

definition Capture ::
  "('d, 'p, 'b) codec \<Rightarrow> ('d, 'b) audit_Store \<Rightarrow> error option \<Rightarrow> DecisionInput \<Rightarrow> audit_error option \<times> ('d, 'b) audit_Store" where
  "Capture cd s fault inp =
     (if v_Tier (di_Verdict inp) < TierTag then (None, s)
      else if di_Scope inp = [] then (None, s)
      else audit_append cd s fault (di_Scope inp) (decision_record inp))"

definition operator_record :: "OperatorAction \<Rightarrow> 'd AuditRecord" where
  "operator_record a =
     \<lparr>ar_Seq = 0, ar_EventID = eventID (oa_Scope a) (oa_SocketCookie a) (oa_Now a), ar_Timestamp = oa_Now a,
      ar_Scope = oa_Scope a, ar_Kind = KindOperator, ar_CanaryType = [], ar_SocketCookie = oa_SocketCookie a,
      ar_Tier = 0, ar_Verdict = oa_Action a, ar_Action = oa_Action a, ar_Score = Fin 0,
      ar_StingMechanism = [], ar_Mode = 0, ar_Calibrated = False,
      ar_Posture = copyStrings (oa_Posture a), ar_SourceAddress = oa_SourceAddress a, ar_Method = [],
      ar_Path = [], ar_SPIFFEID = oa_SPIFFEID a, ar_Features = None,
      ar_BytesRealDataCrossed = 0, ar_Keyed = False, ar_Algo = [], ar_PrevHash = None, ar_Hash = None\<rparr>"

definition Append ::
  "('d, 'p, 'b) codec \<Rightarrow> ('d, 'b) audit_Store \<Rightarrow> error option \<Rightarrow> OperatorAction \<Rightarrow> audit_error option \<times> ('d, 'b) audit_Store" where
  "Append cd s fault a =
     (if oa_Scope a = [] then (Some NoScope, s) else audit_append cd s fault (oa_Scope a) (operator_record a))"

section \<open>Verification\<close>

definition undecodable :: "('d, 'b) audit_Store \<Rightarrow> ScopeKey \<Rightarrow> nat \<Rightarrow> 'd AuditRecord" where
  "undecodable s scope seq =
     \<lparr>ar_Seq = seq, ar_EventID = [], ar_Timestamp = 0, ar_Scope = scope, ar_Kind = [], ar_CanaryType = [],
      ar_SocketCookie = 0, ar_Tier = 0, ar_Verdict = ''<undecodable>'', ar_Action = [], ar_Score = Fin 0,
      ar_StingMechanism = [], ar_Mode = 0, ar_Calibrated = False, ar_Posture = None, ar_SourceAddress = [],
      ar_Method = [], ar_Path = [], ar_SPIFFEID = [], ar_Features = None, ar_BytesRealDataCrossed = 0,
      ar_Keyed = Keyed s, ar_Algo = algoName s, ar_PrevHash = None, ar_Hash = None\<rparr>"

definition decoded :: "('d, 'p, 'b) codec \<Rightarrow> ('d, 'b) audit_Store \<Rightarrow> ScopeKey \<Rightarrow> nat \<times> 'b \<Rightarrow> 'd AuditRecord" where
  "decoded cd s scope e = (case GobDecode cd (snd e) of None \<Rightarrow> undecodable s scope (fst e) | Some r \<Rightarrow> r)"

definition chainRecords :: "('d, 'p, 'b) codec \<Rightarrow> ('d, 'b) audit_Store \<Rightarrow> ScopeKey \<Rightarrow> 'd AuditRecord list" where
  "chainRecords cd s scope = (case as_store s of
       None \<Rightarrow> (case as_mem s scope of None \<Rightarrow> [] | Some rs \<Rightarrow> rs)
     | Some db \<Rightarrow> map (decoded cd s scope) (RangeAuditChain db scope))"

datatype break_reason =
    Relocated | SeqGap | ModeMismatch | PrevHashMismatch | NotEncodable | HashMismatch | HeadLost | Truncated

text \<open>\<open>BrokenAt\<close> carries \<^verbatim>\<open>BrokenAtSeq\<close> and the reason.\<close>

datatype verify_result = Intact nat | BrokenAt nat break_reason

fun verify_links ::
  "('d, 'p, 'b) codec \<Rightarrow> ('d, 'b) audit_Store \<Rightarrow> ScopeKey \<Rightarrow> 'd \<Rightarrow> nat \<Rightarrow> 'd AuditRecord list \<Rightarrow> (nat \<times> break_reason) + 'd" where
  "verify_links cd s scope prevHead expectedSeq [] = Inr prevHead"
| "verify_links cd s scope prevHead expectedSeq (r # rs) =
     (if ar_Scope r \<noteq> scope then Inl (ar_Seq r, Relocated)
      else if ar_Seq r \<noteq> expectedSeq then Inl (ar_Seq r, SeqGap)
      else if ar_Keyed r \<noteq> Keyed s \<or> ar_Algo r \<noteq> algoName s then Inl (ar_Seq r, ModeMismatch)
      else if ar_PrevHash r \<noteq> Some prevHead then Inl (ar_Seq r, PrevHashMismatch)
      else case computeHash cd (as_hmacKey s) prevHead r of
        Inl _ \<Rightarrow> Inl (ar_Seq r, NotEncodable)
      | Inr want \<Rightarrow>
          if ar_Hash r \<noteq> Some want then Inl (ar_Seq r, HashMismatch)
          else verify_links cd s scope want (expectedSeq + 1) rs)"

definition verify_chain :: "('d, 'p, 'b) codec \<Rightarrow> ('d, 'b) audit_Store \<Rightarrow> ScopeKey \<Rightarrow> 'd AuditRecord list \<Rightarrow> verify_result" where
  "verify_chain cd s scope recs =
     (case verify_links cd s scope (genesis cd (as_hmacKey s) scope) 1 recs of
        Inl (seq, reason) \<Rightarrow> BrokenAt seq reason
      | Inr prevHead \<Rightarrow>
         (case headFor s scope of
            None \<Rightarrow> if recs \<noteq> [] then BrokenAt (length recs + 1) HeadLost else Intact 0
          | Some head \<Rightarrow>
              if recs = [] \<or> prevHead \<noteq> head then BrokenAt (length recs + 1) Truncated else Intact (length recs)))"

definition Verify :: "('d, 'p, 'b) codec \<Rightarrow> ('d, 'b) audit_Store \<Rightarrow> ScopeKey \<Rightarrow> verify_result" where
  "Verify cd s scope = verify_chain cd s scope (chainRecords cd s scope)"

record 'd CaseReport =
  cr_Scope :: ScopeKey
  cr_Records :: "'d AuditRecord list"
  cr_Verify :: verify_result

definition Export :: "('d, 'p, 'b) codec \<Rightarrow> ('d, 'b) audit_Store \<Rightarrow> ScopeKey \<Rightarrow> 'd CaseReport" where
  "Export cd s scope = \<lparr>cr_Scope = scope, cr_Records = chainRecords cd s scope, cr_Verify = Verify cd s scope\<rparr>"

record 'd HighWaterMark =
  hw_Scope :: ScopeKey
  hw_Head :: "'d option"
  hw_Count :: nat
  hw_LatestSeq :: nat
  hw_Algo :: string
  hw_Keyed :: bool

definition high_water_mark :: "('d, 'b) audit_Store \<Rightarrow> ScopeKey \<Rightarrow> 'd HighWaterMark option" where
  "high_water_mark s scope =
     (if scope = [] then None
      else let hwm = \<lparr>hw_Scope = scope, hw_Head = headFor s scope, hw_Count = 0, hw_LatestSeq = 0, hw_Algo = algoName s, hw_Keyed = Keyed s\<rparr>
        in case as_store s of
          None \<Rightarrow>
            (case as_mem s scope of None \<Rightarrow> None | Some [] \<Rightarrow> None
             | Some rs \<Rightarrow> Some (hwm\<lparr>hw_Count := length rs, hw_LatestSeq := ar_Seq (last rs)\<rparr>))
        | Some db \<Rightarrow>
            (case AuditChainStat db scope of
               Inl _ \<Rightarrow> None
             | Inr (ph, n, latestSeq, pok) \<Rightarrow>
                 if \<not> pok \<or> n = 0 then None
                 else Some (hwm\<lparr>hw_Count := n, hw_LatestSeq := latestSeq,
                                hw_Head := (if ph \<noteq> None then ph else headFor s scope)\<rparr>)))"

section \<open>Links\<close>

lemma verify_links_append:
  "verify_links cd s scope prev n (rs @ rs') =
     (case verify_links cd s scope prev n rs of Inl e \<Rightarrow> Inl e | Inr h \<Rightarrow> verify_links cd s scope h (n + length rs) rs')"
  by (induction rs arbitrary: prev n) (simp_all split: sum.split)

lemma computeHash_Hash [simp]: "computeHash cd key prev (r\<lparr>ar_Hash := h\<rparr>) = computeHash cd key prev r"
  by (simp add: computeHash_def canonicalPreimage_def validateFinite_def)

lemma link_record_ok:
  assumes "link_record cd s prev seq rec = Inr (r, h)"
  shows "ar_Seq r = seq \<and> ar_PrevHash r = Some prev \<and> ar_Keyed r = Keyed s \<and> ar_Algo r = algoName s \<and>
    ar_Hash r = Some h \<and> ar_Scope r = ar_Scope rec \<and> computeHash cd (as_hmacKey s) prev r = Inr h"
  using assms by (auto simp: link_record_def Let_def split: sum.splits)

lemma verify_links_snoc:
  assumes "verify_links cd s scope prev 1 rs = Inr h" "link_record cd s h (length rs + 1) rec = Inr (r, h')" "ar_Scope rec = scope"
  shows "verify_links cd s scope prev 1 (rs @ [r]) = Inr h'"
  using link_record_ok[OF assms(2)] assms(1,3) by (simp add: verify_links_append)

text \<open>The walk reads the key of the store and nothing else of it.\<close>

lemma verify_links_key:
  "as_hmacKey s = as_hmacKey s' \<Longrightarrow> verify_links cd s scope prev n rs = verify_links cd s' scope prev n rs"
  by (induction rs arbitrary: prev n) (simp_all add: Keyed_def algoName_def split: sum.split)

section \<open>What the store appends verifies\<close>

text \<open>The chain of a scope holds \<open>n\<close> linked records and both heads are that of the last one.\<close>

definition scope_ok :: "('d, 'p, 'b) codec \<Rightarrow> ('d, 'b) audit_Store \<Rightarrow> ScopeKey \<Rightarrow> nat \<Rightarrow> bool" where
  "scope_ok cd s scope n \<longleftrightarrow> length (chainRecords cd s scope) = n \<and>
     (\<exists>h. verify_links cd s scope (genesis cd (as_hmacKey s) scope) 1 (chainRecords cd s scope) = Inr h \<and>
          headFor s scope = (if n = 0 then None else Some h)) \<and>
     (case as_store s of None \<Rightarrow> True
      | Some db \<Rightarrow> map fst (ch_recs (chain_of db scope)) = [1..<n + 1] \<and> ch_seq (chain_of db scope) = n \<and>
          ch_head (chain_of db scope) = headFor s scope)"

definition store_ok :: "('d, 'p, 'b) codec \<Rightarrow> ('d, 'b) audit_Store \<Rightarrow> (ScopeKey \<Rightarrow> nat) \<Rightarrow> bool" where
  "store_ok cd s n \<longleftrightarrow> (\<forall>scope. scope_ok cd s scope (n scope)) \<and>
     (case as_store s of None \<Rightarrow> True | Some db \<Rightarrow> [] \<notin> fst ` set (ps_chains db))"

lemma decoded_key: "as_hmacKey s' = as_hmacKey s \<Longrightarrow> decoded cd s' = decoded cd s"
  by (rule ext)+ (simp add: decoded_def undecodable_def Keyed_def algoName_def cong: option.case_cong)

definition gob_ok :: "('d, 'p, 'b) codec \<Rightarrow> bool" where
  "gob_ok cd \<longleftrightarrow> (\<forall>r b. GobEncode cd r = Some b \<longrightarrow> GobDecode cd b = Some r)"

lemma scope_ok_Verify: "scope_ok cd s scope n \<Longrightarrow> Verify cd s scope = Intact n"
  by (auto simp: scope_ok_def Verify_def verify_chain_def)

text \<open>A store that holds the same chain of a scope, under the same key, is as good.\<close>

lemma scope_ok_frame:
  assumes "scope_ok cd s scope n" "as_hmacKey s' = as_hmacKey s" "chainRecords cd s' scope = chainRecords cd s scope"
    "headFor s' scope = headFor s scope"
    "\<And>db'. as_store s' = Some db' \<Longrightarrow> \<exists>db. as_store s = Some db \<and> chain_of db' scope = chain_of db scope"
  shows "scope_ok cd s' scope n"
  using assms(1) verify_links_key[OF assms(2), of cd scope] assms(2,3,4,5)
  by (cases "as_store s'") (auto simp: scope_ok_def split: option.splits)

lemma headFor_update: "map_of (AList.update sc h hs) scope = (if scope = sc then Some h else map_of hs scope)"
  by (simp add: update_conv')

lemma chain_of_update:
  "chain_of (db\<lparr>ps_chains := AList.update sc c (ps_chains db)\<rparr>) scope = (if scope = sc then c else chain_of db scope)"
  by (simp add: chain_of_def update_conv')

lemma appendInMemory_ok:
  assumes ok: "\<And>sc. scope_ok cd s sc (n sc)" and mem: "as_store s = None" and rec: "ar_Scope rec = scope"
    and app: "appendInMemory cd s scope rec = (err, s')"
  shows "scope_ok cd s' sc ((if err = None then n(scope := n scope + 1) else n) sc)" "as_store s' = None"
proof -
  define recs where "recs = chainRecords cd s scope"
  have recs: "recs = (case as_mem s scope of None \<Rightarrow> [] | Some rs \<Rightarrow> rs)" by (simp add: recs_def chainRecords_def mem)
  define prev where "prev = (case headFor s scope of None \<Rightarrow> genesis cd (as_hmacKey s) scope | Some h \<Rightarrow> h)"
  obtain h0 where h0: "verify_links cd s scope (genesis cd (as_hmacKey s) scope) 1 recs = Inr h0"
      "headFor s scope = (if n scope = 0 then None else Some h0)" "length recs = n scope"
    using ok[of scope] by (auto simp: scope_ok_def recs_def)
  then have prev: "prev = h0" by (cases "recs = []") (auto simp: prev_def)
  define s1 where "s1 = s\<lparr>as_mem := (as_mem s)(scope \<mapsto> recs)\<rparr>"
  have s1: "as_hmacKey s1 = as_hmacKey s" "as_store s1 = None" "\<And>sc. headFor s1 sc = headFor s sc" "\<And>sc. chainRecords cd s1 sc = chainRecords cd s sc"
    by (auto simp: s1_def mem headFor_def chainRecords_def recs split: option.splits)
  have ok1: "scope_ok cd s1 sc (n sc)" for sc using scope_ok_frame[OF ok s1(1,4,3)] s1(2) by simp
  have app': "appendInMemory cd s scope rec = (case link_record cd s1 prev (length recs + 1) rec of
      Inl err \<Rightarrow> (Some err, s1)
    | Inr (r, h) \<Rightarrow> (None, s1\<lparr>as_mem := (as_mem s1)(scope \<mapsto> recs @ [r]), as_heads := AList.update scope h (as_heads s1)\<rparr>))"
    unfolding appendInMemory_def Let_def s1_def recs prev_def ..
  have "scope_ok cd s' sc ((if err = None then n(scope := n scope + 1) else n) sc) \<and> as_store s' = None"
  proof (cases "link_record cd s1 prev (length recs + 1) rec")
    case (Inl e)
    then show ?thesis using app app' ok1 s1 by auto
  next
    case (Inr rh)
    obtain r h where rh: "rh = (r, h)" by (cases rh)
    define s2 where "s2 = s1\<lparr>as_mem := (as_mem s1)(scope \<mapsto> recs @ [r]), as_heads := AList.update scope h (as_heads s1)\<rparr>"
    have e: "err = None" "s' = s2" using app app' Inr rh by (auto simp: s2_def)
    have s2: "as_hmacKey s2 = as_hmacKey s1" "as_store s2 = None"
      "\<And>sc. chainRecords cd s2 sc = (if sc = scope then recs @ [r] else chainRecords cd s1 sc)"
      "\<And>sc. headFor s2 sc = (if sc = scope then Some h else headFor s1 sc)"
      by (auto simp: s2_def s1(2) chainRecords_def headFor_def headFor_update)
    have "verify_links cd s1 scope (genesis cd (as_hmacKey s1) scope) 1 recs = Inr prev"
      using h0(1) prev s1(1) verify_links_key[OF s1(1), of cd scope] by simp
    from verify_links_snoc[OF this] Inr rh rec
    have "verify_links cd s2 scope (genesis cd (as_hmacKey s2) scope) 1 (recs @ [r]) = Inr h"
      using verify_links_key[OF s2(1), of cd scope] s2(1) by simp
    then have "scope_ok cd s2 scope (n scope + 1)" using s2 h0(3) by (simp add: scope_ok_def)
    moreover have "sc \<noteq> scope \<Longrightarrow> scope_ok cd s2 sc (n sc)"
      using scope_ok_frame[OF ok1[of sc] s2(1)] s2 by simp
    ultimately show ?thesis using e s2(2) by auto
  qed
  then show "scope_ok cd s' sc ((if err = None then n(scope := n scope + 1) else n) sc)" "as_store s' = None" by auto
qed

lemma insort_key_last:
  assumes "\<And>p. p \<in> set xs \<Longrightarrow> fst p < fst x"
  shows "insort_key fst x (filter (\<lambda>p. fst p \<noteq> fst x) xs) = xs @ [x]"
  using assms
proof (induction xs)
  case (Cons y ys)
  then have "insort_key fst x (filter (\<lambda>p. fst p \<noteq> fst x) ys) = ys @ [x]" by simp
  then show ?case using Cons.prems[of y] by auto
qed simp

definition next_head :: "('d, 'p, 'b) codec \<Rightarrow> ('d, 'b) audit_Store \<Rightarrow> ('d, 'b) persist_Store \<Rightarrow> ScopeKey \<Rightarrow> 'd" where
  "next_head cd s db scope = (case ch_head (chain_of db scope) of None \<Rightarrow> genesis cd (as_hmacKey s) scope | Some h \<Rightarrow> h)"

definition next_chain :: "('d, 'b) persist_Store \<Rightarrow> ScopeKey \<Rightarrow> 'b \<Rightarrow> 'd \<Rightarrow> ('d, 'b) chain" where
  "next_chain db scope blob h = (let c = chain_of db scope; seq = ch_seq c + 1 in
     \<lparr>ch_head = Some h, ch_recs = insort_key fst (seq, blob) (filter (\<lambda>p. fst p \<noteq> seq) (ch_recs c)), ch_seq = seq\<rparr>)"

lemma durable_append_cases:
  assumes "as_store s = Some db" "ar_Scope rec = scope"
  shows "(\<exists>e. audit_append cd s fault scope rec = (Some e, s)) \<or>
    (scope \<noteq> [] \<and> (\<exists>r h blob. link_record cd s (next_head cd s db scope) (ch_seq (chain_of db scope) + 1) rec = Inr (r, h) \<and>
       GobEncode cd r = Some blob \<and>
       audit_append cd s fault scope rec =
         (None, s\<lparr>as_store := Some (db\<lparr>ps_chains := AList.update scope (next_chain db scope blob h) (ps_chains db)\<rparr>),
                  as_heads := AList.update scope h (as_heads s)\<rparr>)))"
proof (cases "validateFinite rec = None \<and> \<not> ps_readOnly db \<and> scope \<noteq> []")
  case False
  then show ?thesis using assms by (cases "validateFinite rec") (auto simp: audit_append_def AppendAuditAndHead_def)
next
  case True
  let ?link = "link_record cd s (next_head cd s db scope) (ch_seq (chain_of db scope) + 1) rec"
  show ?thesis
  proof (cases ?link)
    case (Inl e)
    then show ?thesis using assms True by (simp add: audit_append_def AppendAuditAndHead_def Let_def next_head_def)
  next
    case (Inr rh)
    obtain r h where rh: "rh = (r, h)" by (cases rh)
    show ?thesis
    proof (cases "GobEncode cd r")
      case None
      then show ?thesis using assms True Inr rh by (simp add: audit_append_def AppendAuditAndHead_def Let_def next_head_def)
    next
      case (Some blob)
      then show ?thesis using assms True Inr rh
        by (cases fault) (simp_all add: audit_append_def AppendAuditAndHead_def Let_def next_head_def next_chain_def chain_of_update)
    qed
  qed
qed

lemma durable_append_ok:
  assumes ok: "\<And>sc. scope_ok cd s sc (n sc)" and db: "as_store s = Some db" and rec: "ar_Scope rec = scope" and gob: "gob_ok cd"
    and app: "audit_append cd s fault scope rec = (None, s')"
  shows "scope_ok cd s' sc ((n(scope := n scope + 1)) sc)"
    and "\<exists>db'. as_store s' = Some db' \<and> fst ` set (ps_chains db') = insert scope (fst ` set (ps_chains db))" "scope \<noteq> []"
proof -
  define c prev where "c = chain_of db scope" "prev = next_head cd s db scope"
  obtain r h blob where r: "link_record cd s prev (ch_seq c + 1) rec = Inr (r, h)" "GobEncode cd r = Some blob" and ne: "scope \<noteq> []"
    and s': "s' = s\<lparr>as_store := Some (db\<lparr>ps_chains := AList.update scope (next_chain db scope blob h) (ps_chains db)\<rparr>),
                    as_heads := AList.update scope h (as_heads s)\<rparr>"
    using durable_append_cases[OF db rec, of cd fault] app unfolding c_prev_def by (elim disjE exE conjE) simp_all
  have cok: "map fst (ch_recs c) = [1..<n scope + 1]" "ch_seq c = n scope" "ch_head c = headFor s scope" "length (chainRecords cd s scope) = n scope"
    using ok[of scope] by (auto simp: scope_ok_def db c_prev_def)
  obtain h0 where h0: "verify_links cd s scope (genesis cd (as_hmacKey s) scope) 1 (chainRecords cd s scope) = Inr h0"
      "headFor s scope = (if n scope = 0 then None else Some h0)"
    using ok[of scope] by (auto simp: scope_ok_def)
  have prev: "prev = h0" using h0 cok(3,4) by (cases "n scope = 0") (auto simp: c_prev_def next_head_def)
  have lt: "fst p < ch_seq c + 1" if "p \<in> set (ch_recs c)" for p
  proof -
    from that have "fst p \<in> set (map fst (ch_recs c))" by simp
    then show ?thesis unfolding cok(1) using cok(2) by auto
  qed
  have recs: "next_chain db scope blob h = \<lparr>ch_head = Some h, ch_recs = ch_recs c @ [(ch_seq c + 1, blob)], ch_seq = ch_seq c + 1\<rparr>"
    using insort_key_last[of "ch_recs c" "(ch_seq c + 1, blob)"] lt by (simp add: next_chain_def Let_def c_prev_def)
  have key: "as_hmacKey s' = as_hmacKey s" by (simp add: s')
  have dec: "GobDecode cd blob = Some r" using gob r(2) by (simp add: gob_ok_def)
  have st: "as_store s' = Some (db\<lparr>ps_chains := AList.update scope (next_chain db scope blob h) (ps_chains db)\<rparr>)" by (simp add: s')
  have und: "decoded cd s' = decoded cd s" by (rule decoded_key[OF key])
  have chain: "chainRecords cd s' sc = (if sc = scope then chainRecords cd s sc @ [r] else chainRecords cd s sc)" for sc
    by (simp add: chainRecords_def st und decoded_def[of _ _ _ "(_, blob)"] RangeAuditChain_def chain_of_update recs db dec c_prev_def(1))
  have hd: "headFor s' sc = (if sc = scope then Some h else headFor s sc)" for sc
    by (simp add: s' headFor_def headFor_update)
  have "verify_links cd s scope (genesis cd (as_hmacKey s) scope) 1 (chainRecords cd s scope @ [r]) = Inr h"
    using verify_links_snoc[OF h0(1)] r(1) rec prev cok(2,4) by simp
  then have links: "verify_links cd s' scope (genesis cd (as_hmacKey s') scope) 1 (chainRecords cd s' scope) = Inr h"
    using verify_links_key[OF key, of cd scope] by (simp add: key chain)
  have this_scope: "scope_ok cd s' scope (n scope + 1)"
    using links cok recs by (simp add: scope_ok_def chain hd st chain_of_update)
  show "scope_ok cd s' sc ((n(scope := n scope + 1)) sc)"
  proof (cases "sc = scope")
    case False
    then show ?thesis using scope_ok_frame[OF ok[of sc] key] chain hd by (simp add: s' chain_of_update db)
  qed (use this_scope in simp)
  show "\<exists>db'. as_store s' = Some db' \<and> fst ` set (ps_chains db') = insert scope (fst ` set (ps_chains db))" "scope \<noteq> []"
    by (simp_all add: st dom_update ne)
qed

lemma audit_append_ok:
  assumes ok: "store_ok cd s n" and rec: "ar_Scope rec = scope" and gob: "gob_ok cd" and app: "audit_append cd s fault scope rec = (err, s')"
  shows "store_ok cd s' (if err = None then n(scope := n scope + 1) else n)" "as_store s' = None \<longleftrightarrow> as_store s = None"
    "as_hmacKey s' = as_hmacKey s"
proof -
  have ok': "scope_ok cd s sc (n sc)" for sc using ok by (simp add: store_ok_def)
  have "store_ok cd s' (if err = None then n(scope := n scope + 1) else n) \<and> (as_store s' = None \<longleftrightarrow> as_store s = None) \<and>
    as_hmacKey s' = as_hmacKey s"
  proof (cases "as_store s")
    case None
    then have a: "appendInMemory cd s scope rec = (err, s')" using app rec by (simp add: audit_append_def)
    have "as_hmacKey s' = as_hmacKey s"
      using a by (auto simp: appendInMemory_def Let_def split: sum.splits)
    then show ?thesis using appendInMemory_ok[OF ok' None rec a] None by (simp add: store_ok_def)
  next
    case (Some db)
    show ?thesis
    proof (cases err)
      case (Some e)
      then have "s' = s" using durable_append_cases[OF \<open>as_store s = Some db\<close> rec, of cd fault] app by auto
      then show ?thesis using ok Some by simp
    next
      case None
      have "as_hmacKey s' = as_hmacKey s"
        using durable_append_cases[OF \<open>as_store s = Some db\<close> rec, of cd fault] app by auto
      then show ?thesis
        using durable_append_ok[OF ok' \<open>as_store s = Some db\<close> rec gob app[unfolded None]] None ok Some
        by (auto simp: store_ok_def)
    qed
  qed
  then show "store_ok cd s' (if err = None then n(scope := n scope + 1) else n)" "as_store s' = None \<longleftrightarrow> as_store s = None"
    "as_hmacKey s' = as_hmacKey s" by auto
qed

lemma rehydrate_heads_ok:
  assumes "[] \<notin> set scs"
  shows "\<exists>hs. rehydrate_heads db (\<lambda>_. None) scs heads = Inr hs \<and>
    (\<forall>sc. map_of hs sc = (if sc \<in> set scs \<and> ch_head (chain_of db sc) \<noteq> None then ch_head (chain_of db sc) else map_of heads sc))"
  using assms
proof (induction scs arbitrary: heads)
  case (Cons sc scs)
  show ?case
  proof (cases "ch_head (chain_of db sc)")
    case None
    then show ?thesis using Cons.IH[of heads] Cons.prems by (auto simp: GetAuditHead_def)
  next
    case (Some h)
    then show ?thesis using Cons.IH[of "AList.update sc h heads"] Cons.prems
      by (auto simp: GetAuditHead_def headFor_update)
  qed
qed simp

lemma reboot_ok:
  assumes ok: "store_ok cd s n" and db: "as_store s = Some db"
  shows "\<exists>s'. NewWithConfig (Some db) (\<lambda>_. None) (as_hmacKey s) = Inr s' \<and> store_ok cd s' n \<and> as_store s' = Some db \<and>
    as_hmacKey s' = as_hmacKey s"
proof -
  have "[] \<notin> set (map fst (ps_chains db))" using ok db by (simp add: store_ok_def)
  from rehydrate_heads_ok[OF this, of db "[]"] obtain hs where hs: "rehydrate_heads db (\<lambda>_. None) (map fst (ps_chains db)) [] = Inr hs"
    "\<And>sc. map_of hs sc = (if sc \<in> set (map fst (ps_chains db)) \<and> ch_head (chain_of db sc) \<noteq> None then ch_head (chain_of db sc) else None)"
    by auto
  have out: "ch_head (chain_of db sc) = None" if "sc \<notin> set (map fst (ps_chains db))" for sc
    using that by (simp add: chain_of_def map_of_eq_None_iff[symmetric] empty_chain_def split: option.split)
  define s' where "s' = \<lparr>as_heads = hs, as_store = Some db, as_hmacKey = as_hmacKey s, as_mem = Map.empty\<rparr>"
  have hd: "headFor s' sc = headFor s sc" for sc
    using ok db out[of sc] by (auto simp: headFor_def s'_def hs(2) store_ok_def scope_ok_def)
  have key: "as_hmacKey s' = as_hmacKey s" and st: "as_store s' = Some db" by (simp_all add: s'_def)
  have chain: "chainRecords cd s' sc = chainRecords cd s sc" for sc
    by (simp add: chainRecords_def st db decoded_key[OF key])
  have "scope_ok cd s' sc (n sc)" for sc
    by (rule scope_ok_frame[OF _ _ chain hd]) (use ok db in \<open>auto simp: store_ok_def s'_def\<close>)
  then have "store_ok cd s' n" using ok db by (simp add: store_ok_def s'_def)
  then show ?thesis using hs(1) by (simp add: NewWithConfig_def s'_def)
qed

text \<open>A run of the store: captures and operator actions, with the failure the database reports, and reboots.\<close>

datatype audit_op = OpCapture DecisionInput "error option" | OpAppend OperatorAction "error option" | Reboot

definition target :: "audit_op \<Rightarrow> ScopeKey option" where
  "target op = (case op of
       OpCapture inp _ \<Rightarrow> if v_Tier (di_Verdict inp) < TierTag \<or> di_Scope inp = [] then None else Some (di_Scope inp)
     | OpAppend a _ \<Rightarrow> Some (oa_Scope a) | Reboot \<Rightarrow> None)"

definition audit_step :: "('d, 'p, 'b) codec \<Rightarrow> ('d, 'b) audit_Store \<Rightarrow> audit_op \<Rightarrow> audit_error option \<times> ('d, 'b) audit_Store" where
  "audit_step cd s op = (case op of
       OpCapture inp fault \<Rightarrow> Capture cd s fault inp
     | OpAppend a fault \<Rightarrow> Append cd s fault a
     | Reboot \<Rightarrow> (case NewWithConfig (as_store s) (\<lambda>_. None) (as_hmacKey s) of Inl e \<Rightarrow> (Some e, s) | Inr s' \<Rightarrow> (None, s')))"

text \<open>The number of records each scope has been told were written.\<close>

fun audit_run :: "('d, 'p, 'b) codec \<Rightarrow> ('d, 'b) audit_Store \<Rightarrow> (ScopeKey \<Rightarrow> nat) \<Rightarrow> audit_op list \<Rightarrow> (ScopeKey \<Rightarrow> nat) \<times> ('d, 'b) audit_Store" where
  "audit_run cd s n [] = (n, s)"
| "audit_run cd s n (op # ops) =
     (let (err, s') = audit_step cd s op
      in audit_run cd s' (case target op of Some sc \<Rightarrow> if err = None then n(sc := n sc + 1) else n | None \<Rightarrow> n) ops)"

lemma audit_step_ok:
  assumes ok: "store_ok cd s n" and gob: "gob_ok cd" and db: "as_store s \<noteq> None" and step: "audit_step cd s op = (err, s')"
  shows "store_ok cd s' (case target op of Some sc \<Rightarrow> if err = None then n(sc := n sc + 1) else n | None \<Rightarrow> n) \<and> as_store s' \<noteq> None"
proof (cases op)
  case (OpCapture inp fault)
  show ?thesis
  proof (cases "v_Tier (di_Verdict inp) < TierTag \<or> di_Scope inp = []")
    case False
    then have "audit_append cd s fault (di_Scope inp) (decision_record inp) = (err, s')"
      using step OpCapture by (simp add: audit_step_def Capture_def)
    from audit_append_ok[OF ok _ gob this] False db OpCapture show ?thesis by (simp add: decision_record_def Let_def target_def)
  qed (use ok db step OpCapture in \<open>auto simp: audit_step_def Capture_def target_def split: if_splits\<close>)
next
  case (OpAppend a fault)
  show ?thesis
  proof (cases "oa_Scope a = []")
    case False
    then have "audit_append cd s fault (oa_Scope a) (operator_record a) = (err, s')"
      using step OpAppend by (simp add: audit_step_def Append_def)
    from audit_append_ok[OF ok _ gob this] db OpAppend show ?thesis by (simp add: operator_record_def target_def)
  qed (use ok db step OpAppend in \<open>auto simp: audit_step_def Append_def target_def\<close>)
next
  case Reboot
  from db obtain d where "as_store s = Some d" by auto
  with reboot_ok[OF ok this] step Reboot show ?thesis by (auto simp: audit_step_def target_def)
qed

lemma audit_run_ok:
  assumes "store_ok cd s n" "gob_ok cd" "as_store s \<noteq> None" "audit_run cd s n ops = (n', s')"
  shows "store_ok cd s' n'"
  using assms
proof (induction ops arbitrary: s n)
  case (Cons op ops)
  obtain err s1 where step: "audit_step cd s op = (err, s1)" by fastforce
  note ok = audit_step_ok[OF Cons.prems(1,2,3) step]
  show ?case by (rule Cons.IH[OF conjunct1[OF ok] Cons.prems(2) conjunct2[OF ok]]) (use Cons.prems(4) step in simp)
qed simp

text \<open>
  Property C17. What the store writes verifies. Open a fresh durable store under any key, capture
  decisions and append operator actions for any scopes in any order, with database failures and
  reboots in between: every scope's chain then verifies as intact, and holds exactly as many records
  as writes the store reported as done, so no failed write leaves a trace and no reported one is lost.
\<close>

theorem audit_log_verifies:
  assumes "gob_ok cd" and "NewWithConfig (Some \<lparr>ps_chains = [], ps_readOnly = False\<rparr>) (\<lambda>_. None) key = Inr s"
    and "audit_run cd s (\<lambda>_. 0) ops = (n, s')"
  shows "Verify cd s' scope = Intact (n scope)"
proof -
  have "store_ok cd s (\<lambda>_. 0)" "as_store s \<noteq> None"
    using assms(2) by (auto simp: NewWithConfig_def store_ok_def scope_ok_def chainRecords_def RangeAuditChain_def
        chain_of_def empty_chain_def headFor_def)
  from audit_run_ok[OF this(1) assms(1) this(2) assms(3)]
  show ?thesis by (auto simp: store_ok_def intro: scope_ok_Verify)
qed

text \<open>A codec to compute with: heads are numbers, the preimage and the blob are the record itself.\<close>

definition demo_codec :: "(nat, nat AuditRecord, nat AuditRecord) codec" where
  "demo_codec = \<lparr>Sum = (\<lambda>_ m. case m of GenesisMsg _ \<Rightarrow> 0 | LinkMsg d p \<Rightarrow> Suc d), Marshal = Some, GobEncode = Some, GobDecode = Some\<rparr>"

definition demo_action :: OperatorAction where
  "demo_action = \<lparr>oa_Scope = ''zone-a'', oa_Action = ''kill_switch_engage'', oa_SocketCookie = 0, oa_SourceAddress = [],
     oa_SPIFFEID = [], oa_Posture = None, oa_Now = unix_epoch\<rparr>"

theorem audit_log_verifies_witness:
  "\<exists>s. NewWithConfig (Some \<lparr>ps_chains = [], ps_readOnly = False\<rparr>) (\<lambda>_. None) ''key'' = Inr s \<and>
    (let (n, s') = audit_run demo_codec s (\<lambda>_. 0) [OpAppend demo_action None, Reboot, OpAppend demo_action (Some ''disk full''), OpAppend demo_action None]
     in Verify demo_codec s' ''zone-a'' = Intact (n ''zone-a'') \<and> n ''zone-a'' = 2)"
proof -
  let ?ops = "[OpAppend demo_action None, Reboot, OpAppend demo_action (Some ''disk full''), OpAppend demo_action None]"
  obtain s :: "(nat, nat AuditRecord) audit_Store" where
    s: "NewWithConfig (Some \<lparr>ps_chains = [], ps_readOnly = False\<rparr>) (\<lambda>_. None) ''key'' = Inr s"
    by (simp add: NewWithConfig_def)
  obtain n s' where r: "audit_run demo_codec s (\<lambda>_. 0) ?ops = (n, s')" by fastforce
  have g: "gob_ok demo_codec" by (simp add: gob_ok_def demo_codec_def)
  have "fst (audit_run demo_codec s (\<lambda>_. 0) ?ops) ''zone-a'' = 2"
    using s by (auto simp: NewWithConfig_def audit_step_def target_def Append_def demo_action_def operator_record_def
        audit_append_def validateFinite_def AppendAuditAndHead_def chain_of_def empty_chain_def link_record_def
        computeHash_def canonicalPreimage_def demo_codec_def Let_def GetAuditHead_def update_conv' genesis_def)
  with audit_log_verifies[OF g s r, of "''zone-a''"] s r show ?thesis by auto
qed

section \<open>Tampering\<close>

definition collision :: "('d, 'p, 'b) codec \<Rightarrow> string \<Rightarrow> bool" where
  "collision cd key \<longleftrightarrow> (\<exists>a b. a \<noteq> b \<and> Sum cd key a = Sum cd key b)"

text \<open>
  JSON replaces every invalid byte of a string by the same replacement character, so the preimage
  determines a record only among records whose strings are valid UTF-8.
\<close>

definition cont :: "nat \<Rightarrow> nat \<Rightarrow> nat \<Rightarrow> bool" where
  "cont lo hi b \<longleftrightarrow> lo \<le> b \<and> b \<le> hi"

function valid_utf8 :: "nat list \<Rightarrow> bool" where
  "valid_utf8 bs = (case bs of
       [] \<Rightarrow> True
     | b # rest \<Rightarrow>
        if b < 128 then valid_utf8 rest
        else if 194 \<le> b \<and> b \<le> 223 then (case rest of c # rest' \<Rightarrow> cont 128 191 c \<and> valid_utf8 rest' | _ \<Rightarrow> False)
        else if 224 \<le> b \<and> b \<le> 239 then (case rest of
            c # d # rest' \<Rightarrow> cont (if b = 224 then 160 else 128) (if b = 237 then 159 else 191) c \<and> cont 128 191 d \<and> valid_utf8 rest'
          | _ \<Rightarrow> False)
        else if 240 \<le> b \<and> b \<le> 244 then (case rest of
            c # d # e # rest' \<Rightarrow> cont (if b = 240 then 144 else 128) (if b = 244 then 143 else 191) c \<and> cont 128 191 d \<and>
              cont 128 191 e \<and> valid_utf8 rest'
          | _ \<Rightarrow> False)
        else False)"
  by auto
termination
  by (relation "measure length") auto

declare valid_utf8.simps [simp del]

definition utf8 :: "string \<Rightarrow> bool" where
  "utf8 s = valid_utf8 (map of_char s)"

definition utf8_record :: "'d AuditRecord \<Rightarrow> bool" where
  "utf8_record r \<longleftrightarrow> list_all utf8
     ([ar_EventID r, ar_Scope r, ar_Kind r, ar_CanaryType r, ar_Verdict r, ar_Action r, ar_StingMechanism r,
       ar_SourceAddress r, ar_Method r, ar_Path r, ar_SPIFFEID r, ar_Algo r] @
      (case ar_Posture r of None \<Rightarrow> [] | Some m \<Rightarrow> map fst m @ map snd m) @
      (case ar_Features r of None \<Rightarrow> [] | Some m \<Rightarrow> map fst m))"

definition json_ok :: "('d, 'p, 'b) codec \<Rightarrow> bool" where
  "json_ok cd \<longleftrightarrow> (\<forall>r r' p. utf8_record r \<longrightarrow> utf8_record r' \<longrightarrow> Marshal cd r = Some p \<longrightarrow> Marshal cd r' = Some p \<longrightarrow> r = r')"

lemma utf8_record_Hash [simp]: "utf8_record (r\<lparr>ar_Hash := h\<rparr>) = utf8_record r"
  by (simp add: utf8_record_def)

text \<open>Two linked chains from the same seed that end in the same head are the same.\<close>

lemma verify_links_last:
  assumes "verify_links cd s scope prev n (rs @ [r]) = Inr h"
  shows "\<exists>h' p. verify_links cd s scope prev n rs = Inr h' \<and> Marshal cd (r\<lparr>ar_Hash := None\<rparr>) = Some p \<and>
    h = Sum cd (as_hmacKey s) (LinkMsg h' p) \<and> ar_Hash r = Some h"
  using assms by (auto simp: verify_links_append computeHash_def canonicalPreimage_def split: sum.splits option.splits if_splits)

lemma chain_binding:
  assumes json: "json_ok cd" and free: "\<not> collision cd (as_hmacKey s)"
    and "verify_links cd s scope (genesis cd (as_hmacKey s) scope) 1 rs = Inr h"
    and "verify_links cd s scope (genesis cd (as_hmacKey s) scope) 1 rs' = Inr h"
    and "\<forall>r\<in>set rs. utf8_record r" "\<forall>r\<in>set rs'. utf8_record r"
  shows "rs = rs'"
  using assms(3-)
proof (induction rs arbitrary: rs' h rule: rev_induct)
  case Nil
  show ?case
  proof (cases rs' rule: rev_cases)
    case (snoc ys y)
    with Nil verify_links_last[of cd s scope _ 1 ys y h] free show ?thesis
      by (fastforce simp: genesis_def collision_def)
  qed simp
next
  case (snoc r rs)
  obtain h1 p1 where 1: "verify_links cd s scope (genesis cd (as_hmacKey s) scope) 1 rs = Inr h1"
    "Marshal cd (r\<lparr>ar_Hash := None\<rparr>) = Some p1" "h = Sum cd (as_hmacKey s) (LinkMsg h1 p1)" "ar_Hash r = Some h"
    using verify_links_last[OF snoc.prems(1)] by blast
  show ?case
  proof (cases rs' rule: rev_cases)
    case Nil
    then show ?thesis using snoc.prems(2) 1(3) free by (fastforce simp: genesis_def collision_def)
  next
    case (snoc ys y)
    obtain h2 p2 where 2: "verify_links cd s scope (genesis cd (as_hmacKey s) scope) 1 ys = Inr h2"
      "Marshal cd (y\<lparr>ar_Hash := None\<rparr>) = Some p2" "h = Sum cd (as_hmacKey s) (LinkMsg h2 p2)" "ar_Hash y = Some h"
      using verify_links_last[OF snoc.prems(2)[unfolded snoc]] by blast
    have same: "h1 = h2" "p1 = p2" using 1(3) 2(3) free unfolding collision_def by blast+
    have "r\<lparr>ar_Hash := None\<rparr> = y\<lparr>ar_Hash := None\<rparr>"
      using json 1(2) 2(2) same snoc.prems(3,4) snoc unfolding json_ok_def by (metis in_set_conv_decomp utf8_record_Hash)
    then have "r = y" using 1(4) 2(4) by (cases r; cases y) simp
    moreover have "rs = ys" using snoc.IH[of h1 ys] 1(1) 2(1) same snoc.prems(3,4) snoc by simp
    ultimately show ?thesis using snoc by simp
  qed
qed

text \<open>
  Property C4. Tampering shows. Take a store whose chains are in order, and any other contents of
  the database for a scope (records edited, removed, reordered, inserted, moved in from another
  scope, or not decodable) while the store still tracks the head it had. If verification under the
  same key then reports an intact chain, the records are the original ones, every field of them, or
  two different messages with the same digest under that key are at hand. It holds for records, old
  and new, whose strings are valid UTF-8; otherwise the preimage does not tell invalid bytes apart.
\<close>

theorem audit_tampering_shows:
  assumes "json_ok cd" "store_ok cd s n" "as_hmacKey s' = as_hmacKey s" "headFor s' scope = headFor s scope"
    and "Verify cd s' scope = Intact m"
    and "\<forall>r\<in>set (chainRecords cd s scope) \<union> set (chainRecords cd s' scope). utf8_record r"
  shows "chainRecords cd s' scope = chainRecords cd s scope \<and> m = n scope \<or> collision cd (as_hmacKey s)"
proof (cases "collision cd (as_hmacKey s)")
  case False
  obtain h where h: "verify_links cd s scope (genesis cd (as_hmacKey s) scope) 1 (chainRecords cd s scope) = Inr h"
    "headFor s scope = (if n scope = 0 then None else Some h)" "length (chainRecords cd s scope) = n scope"
    using assms(2) by (auto simp: store_ok_def scope_ok_def)
  obtain h' where h': "verify_links cd s scope (genesis cd (as_hmacKey s) scope) 1 (chainRecords cd s' scope) = Inr h'"
    "m = length (chainRecords cd s' scope)" "headFor s' scope = (if chainRecords cd s' scope = [] then None else Some h')"
    using assms(5) verify_links_key[OF assms(3), of cd scope] assms(3)
    by (auto simp: Verify_def verify_chain_def split: sum.splits option.splits if_splits)
  show ?thesis
  proof (cases "n scope = 0")
    case True
    then show ?thesis using h h' assms(4) by (auto split: if_splits)
  next
    case n0: False
    then have "h' = h" using h h' assms(4) by (auto split: if_splits)
    then have "chainRecords cd s scope = chainRecords cd s' scope"
      using chain_binding[OF assms(1) False h(1)] h'(1) assms(6) by blast
    then show ?thesis using h(3) h'(2) by simp
  qed
qed simp

text \<open>A codec without collisions: numbers for heads and preimages, under an injective numbering.\<close>

fun f64_code :: "f64 \<Rightarrow> nat \<times> rat" where
  "f64_code (Fin q) = (0, q)"
| "f64_code PInf = (1, 0)"
| "f64_code NInf = (2, 0)"
| "f64_code NaN = (3, 0)"

lemma f64_code_inj: "f64_code x = f64_code y \<longleftrightarrow> x = y"
  by (cases x; cases y) auto

definition record_code :: "nat AuditRecord \<Rightarrow> nat" where
  "record_code r = to_nat
     ((ar_Seq r, ar_EventID r, ar_Timestamp r, ar_Scope r, ar_Kind r, ar_CanaryType r, unat (ar_SocketCookie r), ar_Tier r),
      (ar_Verdict r, ar_Action r, f64_code (ar_Score r), ar_StingMechanism r, ar_Mode r, ar_Calibrated r, ar_Posture r),
      (ar_SourceAddress r, ar_Method r, ar_Path r, ar_SPIFFEID r, map_option (map (apsnd f64_code)) (ar_Features r)),
      (ar_BytesRealDataCrossed r, ar_Keyed r, ar_Algo r, ar_PrevHash r, ar_Hash r))"

lemma record_code_inj: assumes "record_code r = record_code r'" shows "r = r'"
proof -
  have "inj (map_option (map (apsnd f64_code :: string \<times> f64 \<Rightarrow> _)))"
    by (intro option.inj_map list.inj_map) (auto simp: inj_def f64_code_inj)
  then have "ar_Features r = ar_Features r'" using assms by (auto simp: record_code_def dest: injD)
  moreover have "ar_SocketCookie r = ar_SocketCookie r'" using assms by (simp add: record_code_def word_unat_eq_iff)
  ultimately show ?thesis using assms by (intro AuditRecord.equality) (simp_all add: record_code_def f64_code_inj)
qed

definition free_codec :: "(nat, nat, nat AuditRecord) codec" where
  "free_codec = \<lparr>Sum = (\<lambda>_ m. case m of GenesisMsg sc \<Rightarrow> to_nat (Inl sc :: string + nat \<times> nat) | LinkMsg d p \<Rightarrow> to_nat (Inr (d, p) :: string + nat \<times> nat)),
     Marshal = (\<lambda>r. Some (record_code r)), GobEncode = Some, GobDecode = Some\<rparr>"

lemma free_codec_ok: "json_ok free_codec" "gob_ok free_codec" "\<not> collision free_codec key"
  by (auto simp: json_ok_def gob_ok_def collision_def free_codec_def dest: record_code_inj split: msg.splits)

lemma free_link:
  assumes "validateFinite rec = None"
  shows "\<exists>r h. link_record free_codec s prev seq rec = Inr (r, h) \<and>
    r = rec\<lparr>ar_Seq := seq, ar_PrevHash := Some prev, ar_Keyed := Keyed s, ar_Algo := algoName s, ar_Hash := Some h\<rparr>"
proof -
  let ?r = "rec\<lparr>ar_Seq := seq, ar_PrevHash := Some prev, ar_Keyed := Keyed s, ar_Algo := algoName s\<rparr>"
  have "validateFinite ?r = validateFinite rec" by (simp add: validateFinite_def)
  then have "validateFinite ?r = None" using assms by simp
  then obtain h where "computeHash free_codec (as_hmacKey s) prev ?r = Inr h"
    by (simp add: computeHash_def canonicalPreimage_def free_codec_def)
  then show ?thesis by (simp add: link_record_def Let_def)
qed

lemma utf8_ascii: assumes "list_all (\<lambda>c. of_char c < (128::nat)) s" shows "utf8 s"
  using assms unfolding utf8_def
proof (induction s)
  case (Cons c s)
  then show ?case by (subst valid_utf8.simps) simp
qed (simp add: valid_utf8.simps)

lemma hexEncode_ascii: "list_all (\<lambda>c. of_char c < (128::nat)) (hexEncode s)"
proof -
  have "of_char (hexdigit n) < (128::nat)" if "n < 16" for n
  proof -
    have "hexdigit n \<in> set ''0123456789abcdef''" unfolding hexdigit_def using that by (intro nth_mem) simp
    then show ?thesis by auto
  qed
  moreover have "of_char c div 16 < (16::nat)" for c
    using nat_of_char_less_256[of c] by linarith
  ultimately show ?thesis by (induction s) (simp_all add: hexEncode_def)
qed

definition demo_mem :: "(nat, nat AuditRecord) audit_Store" where
  "demo_mem = \<lparr>as_heads = [], as_store = None, as_hmacKey = ''key'', as_mem = [''zone-a'' \<mapsto> []]\<rparr>"

lemma demo_mem_append:
  "\<exists>r s. audit_append free_codec demo_mem None ''zone-a'' (operator_record demo_action) = (None, s) \<and>
     as_store s = None \<and> chainRecords free_codec s ''zone-a'' = [r] \<and> utf8_record r"
proof -
  define rec :: "nat AuditRecord" where "rec = operator_record demo_action"
  have scope: "ar_Scope rec = ''zone-a''" and fin: "validateFinite rec = None" and u: "utf8_record rec"
    by (simp_all add: rec_def operator_record_def demo_action_def validateFinite_def utf8_record_def copyStrings_def
        eventID_def hexEncode_ascii utf8_ascii)
  obtain r h where r: "link_record free_codec demo_mem (genesis free_codec ''key'' ''zone-a'') 1 rec = Inr (r, h)"
    "r = rec\<lparr>ar_Seq := 1, ar_PrevHash := Some (genesis free_codec ''key'' ''zone-a''), ar_Keyed := Keyed demo_mem,
             ar_Algo := algoName demo_mem, ar_Hash := Some h\<rparr>"
    using free_link[OF fin] by blast
  have "demo_mem\<lparr>as_mem := (as_mem demo_mem)(''zone-a'' \<mapsto> [])\<rparr> = demo_mem" by (simp add: demo_mem_def)
  then have "audit_append free_codec demo_mem None ''zone-a'' rec =
      (None, demo_mem\<lparr>as_mem := (as_mem demo_mem)(''zone-a'' \<mapsto> [r]), as_heads := AList.update ''zone-a'' h (as_heads demo_mem)\<rparr>)"
    using r(1) scope by (simp add: audit_append_def appendInMemory_def headFor_def demo_mem_def)
  moreover have "utf8_record r" using u by (simp add: r(2) utf8_record_def algoName_def utf8_ascii)
  ultimately show ?thesis by (simp add: rec_def chainRecords_def demo_mem_def)
qed

theorem audit_tampering_shows_witness:
  "\<exists>s s'. fst (audit_append free_codec demo_mem None ''zone-a'' (operator_record demo_action)) = None \<and>
    Verify free_codec s' ''zone-a'' = Intact 1 \<and> s' = s\<lparr>as_mem := (as_mem s)(''zone-b'' \<mapsto> [])\<rparr> \<and>
    chainRecords free_codec s' ''zone-a'' = chainRecords free_codec s ''zone-a''"
proof -
  obtain r s where app: "audit_append free_codec demo_mem None ''zone-a'' (operator_record demo_action) = (None, s)"
    and s: "as_store s = None" "chainRecords free_codec s ''zone-a'' = [r]" "utf8_record r"
    using demo_mem_append by blast
  have "store_ok free_codec demo_mem (\<lambda>_. 0)"
    by (simp add: store_ok_def scope_ok_def chainRecords_def headFor_def demo_mem_def)
  from audit_append_ok(1)[OF this _ free_codec_ok(2) app]
  have ok: "store_ok free_codec s ((\<lambda>_. 0)(''zone-a'' := 1))" by (simp add: operator_record_def demo_action_def)
  define s' where "s' = s\<lparr>as_mem := (as_mem s)(''zone-b'' \<mapsto> [])\<rparr>"
  have s': "as_hmacKey s' = as_hmacKey s" "headFor s' ''zone-a'' = headFor s ''zone-a''" "as_store s' = None"
    "chainRecords free_codec s' ''zone-a'' = chainRecords free_codec s ''zone-a''"
    using s(1) by (simp_all add: s'_def chainRecords_def headFor_def)
  have "scope_ok free_codec s ''zone-a'' 1" using ok unfolding store_ok_def by (metis fun_upd_same)
  from scope_ok_frame[OF this s'(1,4,2)] s'(3) have v: "Verify free_codec s' ''zone-a'' = Intact 1"
    by (intro scope_ok_Verify) simp
  have "\<forall>r\<in>set (chainRecords free_codec s ''zone-a'') \<union> set (chainRecords free_codec s' ''zone-a''). utf8_record r"
    using s s'(4) by simp
  from audit_tampering_shows[OF free_codec_ok(1) ok s'(1,2) v this] free_codec_ok(3)
  have "chainRecords free_codec s' ''zone-a'' = chainRecords free_codec s ''zone-a''" by blast
  then show ?thesis using v app unfolding s'_def by (metis fst_conv)
qed

section \<open>What only a witness outside sees\<close>

lemma verify_links_take:
  assumes "verify_links cd s scope prev 1 rs = Inr h" shows "\<exists>h'. verify_links cd s scope prev 1 (take k rs) = Inr h'"
  using assms verify_links_append[of cd s scope prev 1 "take k rs" "drop k rs"]
  by (cases "verify_links cd s scope prev 1 (take k rs)") simp_all

lemma verify_links_head:
  assumes "verify_links cd s scope prev 1 rs = Inr h" "rs \<noteq> []" shows "ar_Hash (last rs) = Some h"
  using assms verify_links_last[of cd s scope prev 1 "butlast rs" "last rs" h] by auto

text \<open>
  The two residuals, and the witness for them. Cut a durable chain back to any of its
  prefixes and rewrite the head to the hash of the last record kept, or erase records and head
  altogether: a store that starts on that database reports an intact chain of that many records. The
  high-water mark, published while the chain was whole, still tells: it carries the full count and
  the latest sequence number, more than what is left.
\<close>

theorem truncation_needs_witness:
  assumes ok: "store_ok cd s n" and "as_store s = Some db" "scope \<noteq> []" "k < n scope"
    and cut: "as_store s' = Some db'" "as_hmacKey s' = as_hmacKey s"
      "ch_recs (chain_of db' scope) = take k (ch_recs (chain_of db scope))"
      "headFor s' scope = (if k = 0 then None else ar_Hash (last (take k (chainRecords cd s scope))))"
  shows "Verify cd s' scope = Intact k \<and>
    (\<exists>hw. high_water_mark s scope = Some hw \<and> hw_Count hw = n scope \<and> hw_LatestSeq hw = n scope \<and> k < hw_LatestSeq hw)"
proof -
  have c: "ch_seq (chain_of db scope) = n scope" "length (chainRecords cd s scope) = n scope"
    and l: "\<exists>h. verify_links cd s scope (genesis cd (as_hmacKey s) scope) 1 (chainRecords cd s scope) = Inr h"
    using ok assms(2) by (auto simp: store_ok_def scope_ok_def)
  have rs: "chainRecords cd s' scope = take k (chainRecords cd s scope)"
    using assms(2) cut by (simp add: chainRecords_def decoded_key[OF cut(2)] RangeAuditChain_def take_map)
  obtain h where "verify_links cd s scope (genesis cd (as_hmacKey s) scope) 1 (take k (chainRecords cd s scope)) = Inr h"
    using l verify_links_take[of cd s scope] by fast
  then have h: "verify_links cd s' scope (genesis cd (as_hmacKey s') scope) 1 (chainRecords cd s' scope) = Inr h"
    using verify_links_key[OF cut(2), of cd scope] cut(2) rs by simp
  have len: "length (chainRecords cd s' scope) = k" using rs c(2) assms(4) by simp
  have "Verify cd s' scope = Intact k"
  proof (cases "k = 0")
    case True
    then show ?thesis using h cut(4) len by (simp add: Verify_def verify_chain_def)
  next
    case False
    then have "chainRecords cd s' scope \<noteq> []" using len by auto
    with verify_links_head[OF h] have "headFor s' scope = Some h" using cut(4) rs False by simp
    then show ?thesis using h len \<open>chainRecords cd s' scope \<noteq> []\<close> by (simp add: Verify_def verify_chain_def)
  qed
  moreover have "length (ch_recs (chain_of db scope)) = n scope"
    using c(2) assms(2) by (simp add: chainRecords_def RangeAuditChain_def)
  ultimately show ?thesis
    using assms(2,3,4) c(1) by (auto simp: high_water_mark_def AuditChainStat_def Let_def)
qed

text \<open>Two records appended; the database is then cut back to nothing.\<close>

theorem truncation_needs_witness_witness:
  "\<exists>s. (let (n, s1) = audit_run demo_codec s (\<lambda>_. 0) [OpAppend demo_action None, OpAppend demo_action None]
     in n ''zone-a'' = 2 \<and> as_store s1 \<noteq> None \<and> Verify demo_codec s ''zone-a'' = Intact 0 \<and>
        (\<exists>hw. high_water_mark s1 ''zone-a'' = Some hw \<and> hw_LatestSeq hw = 2))"
proof -
  let ?ops = "[OpAppend demo_action None, OpAppend demo_action None]"
  obtain s :: "(nat, nat AuditRecord) audit_Store" where
    s: "NewWithConfig (Some \<lparr>ps_chains = [], ps_readOnly = False\<rparr>) (\<lambda>_. None) ''key'' = Inr s"
    by (simp add: NewWithConfig_def)
  then have s_def: "s = \<lparr>as_heads = [], as_store = Some \<lparr>ps_chains = [], ps_readOnly = False\<rparr>, as_hmacKey = ''key'', as_mem = Map.empty\<rparr>"
    by (simp add: NewWithConfig_def)
  obtain n s1 where r: "audit_run demo_codec s (\<lambda>_. 0) ?ops = (n, s1)" by fastforce
  have n: "fst (audit_run demo_codec s (\<lambda>_. 0) ?ops) ''zone-a'' = 2"
    and k: "as_hmacKey (snd (audit_run demo_codec s (\<lambda>_. 0) ?ops)) = ''key''"
    and d: "as_store (snd (audit_run demo_codec s (\<lambda>_. 0) ?ops)) \<noteq> None"
    by (simp_all add: s_def audit_step_def target_def Append_def demo_action_def operator_record_def
        audit_append_def validateFinite_def AppendAuditAndHead_def chain_of_def empty_chain_def link_record_def
        computeHash_def canonicalPreimage_def demo_codec_def Let_def genesis_def)
  have "store_ok demo_codec s (\<lambda>_. 0)"
    by (simp add: s_def store_ok_def scope_ok_def chainRecords_def RangeAuditChain_def chain_of_def empty_chain_def headFor_def)
  from audit_run_ok[OF this _ _ r] have ok: "store_ok demo_codec s1 n" by (simp add: gob_ok_def demo_codec_def s_def)
  obtain db where db: "as_store s1 = Some db" using d r by auto
  have "0 < n ''zone-a''" "n ''zone-a'' = 2" "as_hmacKey s = as_hmacKey s1" using n k r by (simp_all add: s_def)
  with truncation_needs_witness[OF ok db, of "''zone-a''" 0 s "\<lparr>ps_chains = [], ps_readOnly = False\<rparr>"] r db
  show ?thesis by (auto simp: s_def chain_of_def empty_chain_def headFor_def intro!: exI[of _ s])
qed

end
