(* ===== verification/KillSwitch.thy ===== *)
theory KillSwitch
  imports Engine Enforcement AuditChain
begin

text \<open>
  The operator's enforcement disarm, \<^verbatim>\<open>internal/sting/killswitch/killswitch.go\<close>, the outermost engine
  layer \<^verbatim>\<open>killSwitchEngine\<close> that consults it and the audited toggles of \<^verbatim>\<open>internal/boot/boot.go\<close>. The
  theorems show that whatever was toggled before, the switch is active exactly during the window of
  the last engagement, and that over the engine and the adapter's kernel seam an active switch floors
  every verdict, lifts the containment of the flow it concerns, and changes nothing else.
\<close>

section \<open>The switch\<close>

record Status =
  st_Engaged :: bool
  st_Operator :: string
  st_Reason :: string
  st_EngagedAt :: time
  st_ExpiresAt :: time

record KillSwitch =
  ks_engaged :: bool
  ks_operator :: string
  ks_reason :: string
  ks_engagedAt :: time
  ks_expiresAt :: time

definition killswitch_New :: KillSwitch where
  "killswitch_New = \<lparr>ks_engaged = False, ks_operator = [], ks_reason = [], ks_engagedAt = 0, ks_expiresAt = 0\<rparr>"

definition activeLocked :: "KillSwitch \<Rightarrow> time \<Rightarrow> bool" where
  "activeLocked k now = (if \<not> ks_engaged k then False else if IsZero (ks_expiresAt k) then True else now < ks_expiresAt k)"

definition statusLocked :: "KillSwitch \<Rightarrow> time \<Rightarrow> Status" where
  "statusLocked k now = \<lparr>st_Engaged = activeLocked k now, st_Operator = ks_operator k, st_Reason = ks_reason k,
     st_EngagedAt = ks_engagedAt k, st_ExpiresAt = ks_expiresAt k\<rparr>"

definition Engage :: "KillSwitch \<Rightarrow> time \<Rightarrow> duration \<Rightarrow> string \<Rightarrow> string \<Rightarrow> Status \<times> KillSwitch" where
  "Engage k now d operator reason =
     (let k = \<lparr>ks_engaged = True, ks_operator = operator, ks_reason = reason, ks_engagedAt = now,
               ks_expiresAt = (if 0 < d then now + d else 0)\<rparr>
      in (statusLocked k now, k))"

definition killswitch_Revive :: "KillSwitch \<Rightarrow> time \<Rightarrow> string \<Rightarrow> string \<Rightarrow> Status \<times> KillSwitch" where
  "killswitch_Revive k now operator reason =
     (let k = \<lparr>ks_engaged = False, ks_operator = [], ks_reason = [], ks_engagedAt = 0, ks_expiresAt = 0\<rparr>
      in (statusLocked k now, k))"

text \<open>The exported readers take a pointer that may be nil.\<close>

definition Active :: "KillSwitch option \<Rightarrow> time \<Rightarrow> bool" where
  "Active k now = (case k of None \<Rightarrow> False | Some k \<Rightarrow> activeLocked k now)"

definition killswitch_Status :: "KillSwitch option \<Rightarrow> time \<Rightarrow> Status" where
  "killswitch_Status k now = (case k of
       None \<Rightarrow> \<lparr>st_Engaged = False, st_Operator = [], st_Reason = [], st_EngagedAt = 0, st_ExpiresAt = 0\<rparr>
     | Some k \<Rightarrow> statusLocked k now)"

section \<open>The engine layer\<close>

definition killSwitchEngine_Submit ::
  "('s \<Rightarrow> SignalEvent \<Rightarrow> ('e + Verdict) \<times> 's) \<Rightarrow> KillSwitch option \<Rightarrow> time \<Rightarrow> 's \<Rightarrow> SignalEvent \<Rightarrow> ('e + Verdict) \<times> 's" where
  "killSwitchEngine_Submit inner ks now s ev =
     (case inner s ev of
        (Inl err, s') \<Rightarrow> (Inl err, s')
      | (Inr v, s') \<Rightarrow> if Active ks now then (Inr (v\<lparr>v_Tier := TierObserve\<rparr>), s') else (Inr v, s'))"

section \<open>The audited toggles\<close>

record OperatorIdentity =
  id_Name :: string
  id_Role :: string
  id_AuthVia :: string

text \<open>
  What the operator actions use of \<^verbatim>\<open>boot.Built\<close>: the switch, the audit store if there is one, the
  boundary scope, and of the durable store the overlay of triage decisions (by scope and key) and
  whether it is open for reading only. The layout of a timestamp (RFC 3339) is the argument
  \<open>rfc3339\<close>.
\<close>

record DeviantTriageRecord =
  dt_State :: string
  dt_By :: string
  dt_When :: time
  dt_Why :: string
  dt_SrcAddr :: string

record triage_overlay =
  to_rows :: "ScopeKey \<times> string \<rightharpoonup> DeviantTriageRecord"
  to_readOnly :: bool

record ('d, 'b) Built =
  b_KillSwitch :: KillSwitch
  b_Audit :: "('d, 'b) audit_Store option"
  b_BoundaryScope :: ScopeKey
  b_Persist :: "triage_overlay option"

definition identity_posture :: "OperatorIdentity \<Rightarrow> (string \<times> string) list" where
  "identity_posture oid = (if id_Role oid \<noteq> [] then [(''role'', id_Role oid)] else []) @
     (if id_AuthVia oid \<noteq> [] then [(''auth_via'', id_AuthVia oid)] else [])"

definition auditOperatorAction ::
  "('d, 'p, 'b) codec \<Rightarrow> error option \<Rightarrow> (time \<Rightarrow> string) \<Rightarrow> ('d, 'b) Built \<Rightarrow> string \<Rightarrow> OperatorIdentity \<Rightarrow> string \<Rightarrow> Status \<Rightarrow> time
    \<Rightarrow> audit_error option \<times> ('d, 'b) Built" where
  "auditOperatorAction cd fault rfc3339 b action oid reason st now =
     (case b_Audit b of
        None \<Rightarrow> (None, b)
      | Some a \<Rightarrow>
         if b_BoundaryScope b = [] then (None, b)
         else let posture = [(''operator'', id_Name oid), (''reason'', reason),
                             (''engaged'', if st_Engaged st then ''true'' else ''false'')] @ identity_posture oid @
                  (if \<not> IsZero (st_ExpiresAt st) then [(''expires_at'', rfc3339 (st_ExpiresAt st))]
                   else if st_Engaged st then [(''expires_at'', ''indefinite'')] else []);
                  (err, a') = Append cd a fault \<lparr>oa_Scope = b_BoundaryScope b, oa_Action = action, oa_SocketCookie = 0,
                    oa_SourceAddress = [], oa_SPIFFEID = [], oa_Posture = Some posture, oa_Now = now\<rparr>
              in (err, b\<lparr>b_Audit := Some a'\<rparr>))"

definition EngageKillSwitch ::
  "('d, 'p, 'b) codec \<Rightarrow> error option \<Rightarrow> (time \<Rightarrow> string) \<Rightarrow> ('d, 'b) Built \<Rightarrow> time \<Rightarrow> duration \<Rightarrow> OperatorIdentity \<Rightarrow> string
    \<Rightarrow> (Status \<times> audit_error option) \<times> ('d, 'b) Built" where
  "EngageKillSwitch cd fault rfc3339 b now d oid reason =
     (let (st, k) = Engage (b_KillSwitch b) now d (id_Name oid) reason;
          (err, b') = auditOperatorAction cd fault rfc3339 (b\<lparr>b_KillSwitch := k\<rparr>) ''kill_switch_engage'' oid reason st now
      in ((st, err), b'))"

definition ReviveKillSwitch ::
  "('d, 'p, 'b) codec \<Rightarrow> error option \<Rightarrow> (time \<Rightarrow> string) \<Rightarrow> ('d, 'b) Built \<Rightarrow> time \<Rightarrow> OperatorIdentity \<Rightarrow> string
    \<Rightarrow> (Status \<times> audit_error option) \<times> ('d, 'b) Built" where
  "ReviveKillSwitch cd fault rfc3339 b now oid reason =
     (let (st, k) = killswitch_Revive (b_KillSwitch b) now (id_Name oid) reason;
          (err, b') = auditOperatorAction cd fault rfc3339 (b\<lparr>b_KillSwitch := k\<rparr>) ''kill_switch_revive'' oid reason st now
      in ((st, err), b'))"

section \<open>The window\<close>

text \<open>A toggle: an engagement with its time and duration, or a revival.\<close>

datatype toggle = Engaged time duration string string | Revived time string string

fun toggle_step :: "KillSwitch \<Rightarrow> toggle \<Rightarrow> KillSwitch" where
  "toggle_step k (Engaged now d op why) = snd (Engage k now d op why)"
| "toggle_step k (Revived now op why) = snd (killswitch_Revive k now op why)"

text \<open>The specification reads the last toggle of the history only.\<close>

definition halted :: "toggle list \<Rightarrow> time \<Rightarrow> bool" where
  "halted h now = (if h = [] then False
     else case last h of Revived _ _ _ \<Rightarrow> False | Engaged t d _ _ \<Rightarrow> d \<le> 0 \<or> now < t + d)"

fun toggle_time :: "toggle \<Rightarrow> time" where
  "toggle_time (Engaged t _ _ _) = t"
| "toggle_time (Revived t _ _) = t"

lemma fold_toggle_snoc: "foldl toggle_step k (h @ [t]) = toggle_step (foldl toggle_step k h) t"
  by simp

lemma activeLocked_step:
  "0 \<le> toggle_time t \<Longrightarrow> activeLocked (toggle_step k t) now \<longleftrightarrow>
     (case t of Revived _ _ _ \<Rightarrow> False | Engaged t d _ _ \<Rightarrow> d \<le> 0 \<or> now < t + d)"
  by (cases t) (auto simp: Engage_def killswitch_Revive_def activeLocked_def Let_def)

lemma active_iff_halted:
  assumes "\<forall>t\<in>set h. 0 \<le> toggle_time t"
  shows "activeLocked (foldl toggle_step killswitch_New h) now \<longleftrightarrow> halted h now"
proof (cases h rule: rev_cases)
  case (snoc h' t)
  then show ?thesis using assms activeLocked_step[of t] by (simp add: halted_def)
qed (simp add: halted_def activeLocked_def killswitch_New_def)

text \<open>
  Property C14. The switch over the engine and the kernel seam. After any history of toggles, the
  engine layer fails exactly when the inner engine fails and with its error, leaves the inner state
  as the inner engine left it, and emits the inner verdict with nothing changed but the tier, which
  is Observe exactly while the last engagement's window is open (until revived, if it has no
  duration): it never raises a tier. An async verdict emitted while halted, once its kernel call
  succeeds, leaves the flow uncontained, whatever it was before.
\<close>

theorem killswitch_only_disarms:
  assumes "\<forall>t\<in>set h. 0 \<le> toggle_time t" and ks: "ks = foldl toggle_step killswitch_New h"
    and inner: "inner s ev = (r, s')"
  shows "killSwitchEngine_Submit inner (Some ks) now s ev =
      (case r of Inl err \<Rightarrow> Inl err | Inr v \<Rightarrow> Inr (if halted h now then v\<lparr>v_Tier := TierObserve\<rparr> else v), s') \<and>
    (\<forall>v m res m'. r = Inr v \<longrightarrow> halted h now \<longrightarrow> v_Mode v = ModeAsync \<longrightarrow> ebpf_map km \<longrightarrow>
      enforceVerdict (kernelEnforcer (kernel_container km rate burst)) m (v\<lparr>v_Tier := TierObserve\<rparr>) = (res, m') \<longrightarrow>
      en_err res = None \<longrightarrow> SocketCookie (v_Flow v) \<noteq> 0 \<longrightarrow> contained km m' (SocketCookie (v_Flow v)) = None)"
proof -
  have "Active (Some ks) now \<longleftrightarrow> halted h now"
    using active_iff_halted[OF assms(1)] by (simp add: Active_def ks)
  then have 1: "killSwitchEngine_Submit inner (Some ks) now s ev =
      (case r of Inl err \<Rightarrow> Inl err | Inr v \<Rightarrow> Inr (if halted h now then v\<lparr>v_Tier := TierObserve\<rparr> else v), s')"
    using inner by (cases r) (auto simp: killSwitchEngine_Submit_def)
  have 2: "contained km m' (SocketCookie (v_Flow v)) = None"
    if "v_Mode v = ModeAsync" "ebpf_map km" "SocketCookie (v_Flow v) \<noteq> 0" "en_err res = None"
      "enforceVerdict (kernelEnforcer (kernel_container km rate burst)) m (v\<lparr>v_Tier := TierObserve\<rparr>) = (res, m')" for v m res m'
    using ebpf_map.enforce_same[OF that(2) that(5,4)] that(1,3) by (simp add: demand_def ActionForTier_def)
  show ?thesis using 1 2 by blast
qed

text \<open>The demo engine with a tag verdict, half a minute into an hour's halt, over the map of a jailed flow.\<close>

definition demo_inner :: "unit \<Rightarrow> SignalEvent \<Rightarrow> (engine_error + Verdict) \<times> unit" where
  "demo_inner _ ev = (Inr (jail_verdict (SocketCookie (ev_Flow ev))), ())"

theorem killswitch_only_disarms_witness:
  "let ks = foldl toggle_step killswitch_New [Engaged 5 hour ''alice'' ''incident''];
       out = fst (killSwitchEngine_Submit demo_inner (Some ks) (5 + 30 * second) () (touch_event 7 ''fake_secret'' 5));
       m = snd (Apply (kernel_container verdict_map 1 1) [] (jail_verdict 7) Jail)
   in out = Inr ((jail_verdict 7)\<lparr>v_Tier := TierObserve\<rparr>) \<and>
      contained verdict_map (snd (enforceVerdict (kernelEnforcer (kernel_container verdict_map 1 1)) m ((jail_verdict 7)\<lparr>v_Tier := TierObserve\<rparr>))) 7 = None"
proof -
  let ?h = "[Engaged 5 hour ''alice'' ''incident'']" and ?ev = "touch_event 7 ''fake_secret'' 5"
  let ?m = "snd (Apply (kernel_container verdict_map 1 1) [] (jail_verdict 7) Jail)"
  let ?v = "(jail_verdict 7)\<lparr>v_Tier := TierObserve\<rparr>"
  obtain res m' where e: "enforceVerdict (kernelEnforcer (kernel_container verdict_map 1 1)) ?m ?v = (res, m')" by fastforce
  have h: "halted ?h (5 + 30 * second)" "\<forall>t\<in>set ?h. 0 \<le> toggle_time t" by (simp_all add: halted_def)
  have i: "demo_inner () ?ev = (Inr (jail_verdict 7), ())" by (simp add: demo_inner_def)
  have "en_err (fst (enforceVerdict (kernelEnforcer (kernel_container verdict_map 1 1)) ?m ?v)) = None"
    by (simp add: enforce_eval)
  then have ok: "en_err res = None" unfolding e by simp
  note t = killswitch_only_disarms[where inner = demo_inner and s = "()" and ev = ?ev and now = "5 + 30 * second" and km = verdict_map
      and rate = 1 and burst = 1, OF h(2) refl i]
  have a: "v_Mode (jail_verdict 7) = ModeAsync" "SocketCookie (v_Flow (jail_verdict 7)) = 7" "(7::u64) \<noteq> 0"
    by (simp_all add: jail_verdict_def)
  have "contained verdict_map m' (SocketCookie (v_Flow (jail_verdict 7))) = None"
    using conjunct2[OF t, rule_format, OF refl h(1) a(1) lru.ebpf_map_axioms e ok] a(2,3) by simp
  then show ?thesis using conjunct1[OF t] h(1) unfolding Let_def e a(2) by simp
qed

end
