(* ===== verification/GoStrings.thy ===== *)
theory GoStrings
  imports Prelude "HOL-Library.Sublist" "HOL-Library.Char_ord" "HOL-Library.List_Lexorder" "HOL-Library.Product_Lexorder"
begin

text \<open>
  What the components use of Go's \<^verbatim>\<open>strings\<close>, \<^verbatim>\<open>bytes\<close>, \<^verbatim>\<open>strconv\<close> and \<^verbatim>\<open>sort\<close> packages, on byte strings as lists of
  characters. Strings compare by bytes, which is the lexicographic order of the library.
\<close>

section \<open>Trimming\<close>

text \<open>The UTF-8 encodings of the runes that \<^verbatim>\<open>unicode.IsSpace\<close> accepts.\<close>

definition space_runes :: "string list" where
  "space_runes =
    [[CHR 0x09], [CHR 0x0A], [CHR 0x0B], [CHR 0x0C], [CHR 0x0D], [CHR 0x20], [CHR 0xC2, CHR 0x85],
     [CHR 0xC2, CHR 0xA0], [CHR 0xE1, CHR 0x9A, CHR 0x80], [CHR 0xE2, CHR 0x80, CHR 0x80],
     [CHR 0xE2, CHR 0x80, CHR 0x81], [CHR 0xE2, CHR 0x80, CHR 0x82], [CHR 0xE2, CHR 0x80, CHR 0x83],
     [CHR 0xE2, CHR 0x80, CHR 0x84], [CHR 0xE2, CHR 0x80, CHR 0x85], [CHR 0xE2, CHR 0x80, CHR 0x86],
     [CHR 0xE2, CHR 0x80, CHR 0x87], [CHR 0xE2, CHR 0x80, CHR 0x88], [CHR 0xE2, CHR 0x80, CHR 0x89],
     [CHR 0xE2, CHR 0x80, CHR 0x8A], [CHR 0xE2, CHR 0x80, CHR 0xA8], [CHR 0xE2, CHR 0x80, CHR 0xA9],
     [CHR 0xE2, CHR 0x80, CHR 0xAF], [CHR 0xE2, CHR 0x81, CHR 0x9F], [CHR 0xE3, CHR 0x80, CHR 0x80]]"

function strip :: "string list \<Rightarrow> string \<Rightarrow> string" where
  "strip runes s = (case find (\<lambda>r. r \<noteq> [] \<and> take (length r) s = r) runes of
       None \<Rightarrow> s | Some r \<Rightarrow> strip runes (drop (length r) s))"
  by auto
termination
proof (relation "measure (\<lambda>(_, s). length s)")
  fix runes :: "string list" and s r :: string
  assume "find (\<lambda>r. r \<noteq> [] \<and> take (length r) s = r) runes = Some r"
  then have "r \<noteq> []" "take (length r) s = r" by (auto simp: find_Some_iff)
  then have "s \<noteq> []" "0 < length r" by auto
  then show "((runes, drop (length r) s), runes, s) \<in> measure (\<lambda>(_, s). length s)" by (cases s) auto
qed simp

declare strip.simps [simp del]

definition TrimSpace :: "string \<Rightarrow> string" where
  "TrimSpace s = rev (strip (map rev space_runes) (rev (strip space_runes s)))"

definition TrimPrefix :: "string \<Rightarrow> string \<Rightarrow> string" where
  "TrimPrefix s p = (if take (length p) s = p then drop (length p) s else s)"

lemma strip_word: "s \<noteq> [] \<Longrightarrow> hd s \<notin> hd ` set runes \<Longrightarrow> strip runes s = s"
  by (subst strip.simps) (cases s; auto simp: find_Some_iff split: option.split; metis hd_take list.sel(1) length_greater_0_conv nth_mem image_eqI)

lemma TrimSpace_word:
  assumes "s \<noteq> []" "list_all (\<lambda>r. hd r \<noteq> hd s) space_runes" "list_all (\<lambda>r. last r \<noteq> last s) space_runes"
    "list_all (\<lambda>r. r \<noteq> []) space_runes"
  shows "TrimSpace s = s"
proof -
  have "strip space_runes s = s" using assms by (intro strip_word) (auto simp: list_all_iff)
  moreover have "strip (map rev space_runes) (rev s) = rev s"
    using assms by (intro strip_word) (auto simp: list_all_iff hd_rev)
  ultimately show ?thesis by (simp add: TrimSpace_def)
qed

text \<open>\<^verbatim>\<open>strings.TrimRight(s, "/")\<close> and its like, for one byte.\<close>

definition TrimRight :: "char \<Rightarrow> string \<Rightarrow> string" where
  "TrimRight c s = rev (dropWhile (\<lambda>x. x = c) (rev s))"

section \<open>Searching and splitting\<close>

definition HasPrefix :: "string \<Rightarrow> string \<Rightarrow> bool" where
  "HasPrefix s p \<longleftrightarrow> take (length p) s = p"

definition HasSuffix :: "string \<Rightarrow> string \<Rightarrow> bool" where
  "HasSuffix s p \<longleftrightarrow> suffix p s"

fun Contains :: "string \<Rightarrow> string \<Rightarrow> bool" where
  "Contains [] sub = (sub = [])"
| "Contains (c # s) sub = (HasPrefix (c # s) sub \<or> Contains s sub)"

definition CutPrefix :: "string \<Rightarrow> string \<Rightarrow> string option" where
  "CutPrefix s p = (if HasPrefix s p then Some (drop (length p) s) else None)"

text \<open>\<^verbatim>\<open>strings.Cut\<close>: what is before and after the first occurrence of a separator.\<close>

fun Cut :: "string \<Rightarrow> string \<Rightarrow> (string \<times> string) option" where
  "Cut [] sep = (if sep = [] then Some ([], []) else None)"
| "Cut (c # s) sep = (if HasPrefix (c # s) sep then Some ([], drop (length sep) (c # s))
     else map_option (apfst ((#) c)) (Cut s sep))"

text \<open>\<^verbatim>\<open>strings.Split\<close> for a separator of one byte.\<close>

fun Split :: "string \<Rightarrow> char \<Rightarrow> string list" where
  "Split [] sep = [[]]"
| "Split (c # s) sep = (if c = sep then [] # Split s sep
     else case Split s sep of [] \<Rightarrow> [[c]] | p # ps \<Rightarrow> (c # p) # ps)"

text \<open>The position of the last occurrence of a byte, \<^verbatim>\<open>-1\<close> in Go being \<open>None\<close>.\<close>

definition LastIndexByte :: "string \<Rightarrow> char \<Rightarrow> nat option" where
  "LastIndexByte s c = (let t = takeWhile (\<lambda>x. x \<noteq> c) (rev s)
     in if length t = length s then None else Some (length s - length t - 1))"

text \<open>\<^verbatim>\<open>strings.ToLower\<close> on ASCII bytes.\<close>

definition ascii_lower :: "char \<Rightarrow> char" where
  "ascii_lower c = (let r = of_char c :: nat in
     if of_char (CHR ''A'') \<le> r \<and> r \<le> of_char (CHR ''Z'') then char_of (r + 32) else c)"

definition ToLower :: "string \<Rightarrow> string" where
  "ToLower s = map ascii_lower s"

lemma Contains_sublist: "Contains s sub \<longleftrightarrow> sublist sub s"
proof (induction s)
  case (Cons c s)
  then show ?case
    by (simp add: sublist_Cons_right HasPrefix_def prefix_def)
       (metis append_take_drop_id append_eq_conv_conj)
qed simp

section \<open>Decimal integers\<close>

definition digit_value :: "char \<Rightarrow> nat option" where
  "digit_value c = (let n = of_char c in if 48 \<le> n \<and> n \<le> 57 then Some (n - 48) else None)"

fun parse_digits :: "int \<Rightarrow> string \<Rightarrow> int option" where
  "parse_digits acc [] = Some acc"
| "parse_digits acc (c # s) = (case digit_value c of None \<Rightarrow> None | Some d \<Rightarrow> parse_digits (10 * acc + int d) s)"

text \<open>\<^verbatim>\<open>strconv.ParseInt(s, 10, 64)\<close>.\<close>

definition ParseInt :: "string \<Rightarrow> int option" where
  "ParseInt s =
     (let (neg, ds) = (case s of [] \<Rightarrow> (False, [])
                        | c # r \<Rightarrow> if c = CHR ''-'' then (True, r) else if c = CHR ''+'' then (False, r) else (False, s))
      in if ds = [] then None
         else case parse_digits 0 ds of
           None \<Rightarrow> None
         | Some n \<Rightarrow> let i = (if neg then - n else n)
             in if - (2 ^ 63) \<le> i \<and> i < 2 ^ 63 then Some i else None)"

fun nat_digits :: "nat \<Rightarrow> string" where
  "nat_digits n = (if n < 10 then [char_of (48 + n)] else nat_digits (n div 10) @ [char_of (48 + n mod 10)])"

declare nat_digits.simps [simp del]

text \<open>The verb \<^verbatim>\<open>%d\<close>.\<close>

definition FormatInt :: "int \<Rightarrow> string" where
  "FormatInt i = (if i < 0 then CHR ''-'' # nat_digits (nat (- i)) else nat_digits (nat i))"

lemma digit_value_char [simp]: "d < 10 \<Longrightarrow> digit_value (char_of (48 + d)) = Some d"
  by (simp add: digit_value_def of_char_of)

lemma nat_digits_ne [simp]: "nat_digits n \<noteq> []"
  by (subst nat_digits.simps) simp

lemma parse_digits_append:
  "parse_digits acc (s @ t) = (case parse_digits acc s of None \<Rightarrow> None | Some a \<Rightarrow> parse_digits a t)"
  by (induction acc s rule: parse_digits.induct) (auto split: option.splits)

lemma parse_nat_digits: "parse_digits 0 (nat_digits n) = Some (int n)"
proof (induction n rule: nat_digits.induct)
  case (1 n)
  have "10 * int (n div 10) + int (n mod 10) = int n" by presburger
  with 1 show ?case by (subst nat_digits.simps) (auto simp: parse_digits_append)
qed

lemma hd_nat_digits: "hd (nat_digits n) \<noteq> CHR ''-'' \<and> hd (nat_digits n) \<noteq> CHR ''+''"
proof (induction n rule: nat_digits.induct)
  case (1 n)
  show ?case
  proof (cases "n < 10")
    case True
    then have "of_char (char_of (48 + n) :: char) = 48 + n" by (simp add: of_char_of)
    moreover have "of_char (CHR ''-'') = (45 :: nat)" "of_char (CHR ''+'') = (43 :: nat)" by simp_all
    moreover have "48 + n \<noteq> 45" "48 + n \<noteq> 43" by simp_all
    ultimately have "char_of (48 + n) \<noteq> CHR ''-'' \<and> char_of (48 + n) \<noteq> CHR ''+''" by metis
    with True show ?thesis by (subst (1 2) nat_digits.simps) simp
  next
    case False
    with 1 show ?thesis by (subst (1 2) nat_digits.simps) simp
  qed
qed

lemma ParseInt_FormatInt:
  assumes "- (2 ^ 63) \<le> i" "i < 2 ^ 63" shows "ParseInt (FormatInt i) = Some i"
proof (cases "i < 0")
  case True
  then show ?thesis using assms by (simp add: ParseInt_def FormatInt_def parse_nat_digits)
next
  case False
  obtain c r where cr: "nat_digits (nat i) = c # r" by (cases "nat_digits (nat i)") simp_all
  then have "c \<noteq> CHR ''-''" "c \<noteq> CHR ''+''" using hd_nat_digits[of "nat i"] by simp_all
  moreover have "parse_digits 0 (c # r) = Some i" using parse_nat_digits[of "nat i"] cr False by simp
  ultimately show ?thesis using False assms by (simp add: ParseInt_def FormatInt_def cr del: parse_digits.simps)
qed

section \<open>Sorting\<close>

text \<open>
  \<^verbatim>\<open>sort.SliceStable\<close> with a comparison function: an insertion that goes past the elements smaller than
  the new one. When the comparison is by a key of a linear order, it is the library's stable sort.
\<close>

fun insert_by :: "('a \<Rightarrow> 'a \<Rightarrow> bool) \<Rightarrow> 'a \<Rightarrow> 'a list \<Rightarrow> 'a list" where
  "insert_by lt x [] = [x]"
| "insert_by lt x (y # ys) = (if lt y x then y # insert_by lt x ys else x # y # ys)"

definition sort_by :: "('a \<Rightarrow> 'a \<Rightarrow> bool) \<Rightarrow> 'a list \<Rightarrow> 'a list" where
  "sort_by lt xs = foldr (insert_by lt) xs []"

lemma insert_by_key:
  assumes "\<And>a b. lt a b \<longleftrightarrow> f a < (f b :: 'b :: linorder)" shows "insert_by lt x ys = insort_key f x ys"
  by (induction ys) (auto simp: assms)

lemma sort_by_key:
  assumes "\<And>a b. lt a b \<longleftrightarrow> f a < (f b :: 'b :: linorder)" shows "sort_by lt xs = sort_key f xs"
proof -
  have "insert_by lt = insort_key f" by (intro ext insert_by_key assms)
  then show ?thesis by (simp add: sort_by_def sort_key_def)
qed

lemma mset_insert_by [simp]: "mset (insert_by lt x ys) = add_mset x (mset ys)"
  by (induction ys) auto

lemma mset_sort_by [simp]: "mset (sort_by lt xs) = mset xs"
  by (induction xs) (auto simp: sort_by_def)

lemma set_sort_by [simp]: "set (sort_by lt xs) = set xs"
  by (metis mset_sort_by set_mset_mset)

text \<open>Sorting by an injective key forgets the order of the input.\<close>

lemma sort_key_perm:
  assumes "mset xs = mset ys" "inj_on f (set xs)" shows "sort_key f xs = sort_key f ys"
proof -
  have "sort (map f xs) = map f (sort_key f xs)" "sort (map f xs) = map f (sort_key f ys)"
    using assms(1) by (intro properties_for_sort; simp add: mset_map)+
  then show ?thesis using assms by (intro inj_on_map_eq_map[THEN iffD1, of f]) (auto simp: dest: mset_eq_setD)
qed

end
