(* ===== verification/Admin.thy ===== *)
theory Admin
  imports KillSwitch GoStrings
begin

text \<open>
  The operator's control surface: the directory of principals of
  \<^verbatim>\<open>internal/sting/killswitch/principals/principals.go\<close>, the token-gated handlers of
  \<^verbatim>\<open>cmd/staged-range/killswitch_admin.go\<close>, the triage overlay of \<^verbatim>\<open>internal/engine/persist/triage.go\<close> and
  the operator actions of \<^verbatim>\<open>internal/boot/boot.go\<close> behind them. The digest of a token
  (\<^verbatim>\<open>hex(sha256(token))\<close>), the contents of the files and the decoded request bodies are arguments. The
  theorems show which directories load and what they then resolve, that no request changes anything
  unless its token resolves to an operator, that a header cannot change who is recorded, and what the
  conversion of a duration to nanoseconds does to a very long one.
\<close>

section \<open>Hexadecimal\<close>

definition nibble :: "char \<Rightarrow> nat option" where
  "nibble c = (let n = of_char c in
     if 48 \<le> n \<and> n \<le> 57 then Some (n - 48) else if 97 \<le> n \<and> n \<le> 102 then Some (n - 87)
     else if 65 \<le> n \<and> n \<le> 70 then Some (n - 55) else None)"

fun hex_DecodeString :: "string \<Rightarrow> string option" where
  "hex_DecodeString [] = Some []"
| "hex_DecodeString [c] = None"
| "hex_DecodeString (c # d # s) = (case (nibble c, nibble d, hex_DecodeString s) of
     (Some a, Some b, Some r) \<Rightarrow> Some (char_of (16 * a + b) # r) | _ \<Rightarrow> None)"

section \<open>Principals\<close>

type_synonym Role = string
abbreviation (input) RoleViewer :: Role where "RoleViewer \<equiv> ''viewer''"
abbreviation (input) RoleOperator :: Role where "RoleOperator \<equiv> ''operator''"

definition validRole :: "Role \<Rightarrow> bool" where
  "validRole role \<longleftrightarrow> role = RoleViewer \<or> role = RoleOperator"

record Principal =
  p_Name :: string
  p_Role :: Role

type_synonym principal_Set = "(string \<times> Principal) list"

definition Lookup :: "principal_Set \<Rightarrow> string \<Rightarrow> Principal option" where
  "Lookup s tokenSHA256Hex = map_of s tokenSHA256Hex"

definition Len :: "principal_Set \<Rightarrow> nat" where
  "Len s = length s"

definition NewSingleTokenSet :: "(string \<Rightarrow> string) \<Rightarrow> string \<Rightarrow> principal_Set" where
  "NewSingleTokenSet digest rawToken = [(digest rawToken, \<lparr>p_Name = ''operator'', p_Role = RoleOperator\<rparr>)]"

record diskPrincipal =
  dp_Name :: string
  dp_TokenSHA256 :: string
  dp_Role :: string

datatype principals_error =
    ParseError error | EmptyPrincipals | EmptyName nat | DuplicateName nat string | BadDigest nat string
  | UnknownRole nat string | DuplicateToken nat string string

definition isLowerHex64 :: "string \<Rightarrow> bool" where
  "isLowerHex64 s \<longleftrightarrow> length s = 64 \<and>
     list_all (\<lambda>c. let n = of_char c :: nat in (48 \<le> n \<and> n \<le> 57) \<or> (97 \<le> n \<and> n \<le> 102)) s"

fun load_loop :: "nat \<Rightarrow> diskPrincipal list \<Rightarrow> string list \<Rightarrow> principal_Set \<Rightarrow> principals_error + principal_Set" where
  "load_loop i [] seenName byToken = Inr byToken"
| "load_loop i (dp # dps) seenName byToken =
     (let name = TrimSpace (dp_Name dp) in
      if name = [] then Inl (EmptyName i)
      else if name \<in> set seenName then Inl (DuplicateName i name)
      else if \<not> isLowerHex64 (dp_TokenSHA256 dp) then Inl (BadDigest i name)
      else if \<not> validRole (dp_Role dp) then Inl (UnknownRole i name)
      else case map_of byToken (dp_TokenSHA256 dp) of
        Some existing \<Rightarrow> Inl (DuplicateToken i name (p_Name existing))
      | None \<Rightarrow> load_loop (i + 1) dps (name # seenName)
          (AList.update (dp_TokenSHA256 dp) \<lparr>p_Name = name, p_Role = dp_Role dp\<rparr> byToken))"

text \<open>The argument is what the JSON decoder made of the file.\<close>

definition LoadPrincipals :: "error + diskPrincipal list \<Rightarrow> principals_error + principal_Set" where
  "LoadPrincipals f = (case f of
       Inl err \<Rightarrow> Inl (ParseError err)
     | Inr ps \<Rightarrow> if ps = [] then Inl EmptyPrincipals else load_loop 0 ps [] [])"

definition principal_of :: "diskPrincipal \<Rightarrow> string \<times> Principal" where
  "principal_of dp = (dp_TokenSHA256 dp, \<lparr>p_Name = TrimSpace (dp_Name dp), p_Role = dp_Role dp\<rparr>)"

definition valid_directory :: "diskPrincipal list \<Rightarrow> bool" where
  "valid_directory ds \<longleftrightarrow> (\<forall>d\<in>set ds. TrimSpace (dp_Name d) \<noteq> [] \<and> isLowerHex64 (dp_TokenSHA256 d) \<and> validRole (dp_Role d)) \<and>
     distinct (map (\<lambda>d. TrimSpace (dp_Name d)) ds) \<and> distinct (map dp_TokenSHA256 ds)"

lemma update_fresh: "map_of xs k = None \<Longrightarrow> AList.update k v xs = xs @ [(k, v)]"
  by (induction xs) (auto split: if_splits)

lemma load_loop_spec:
  assumes "fst ` set acc = dp_TokenSHA256 ` set done" "set seen = (\<lambda>d. TrimSpace (dp_Name d)) ` set done" "valid_directory done"
  shows "(valid_directory (done @ ds) \<longrightarrow> load_loop i ds seen acc = Inr (acc @ map principal_of ds)) \<and>
    (\<not> valid_directory (done @ ds) \<longrightarrow> (\<exists>e. load_loop i ds seen acc = Inl e))"
  using assms
proof (induction ds arbitrary: i seen acc "done")
  case (Cons d ds)
  let ?n = "TrimSpace (dp_Name d)" and ?t = "dp_TokenSHA256 d"
  show ?case
  proof (cases "valid_directory (done @ [d])")
    case True
    then have ok: "?n \<noteq> []" "?n \<notin> set seen" "isLowerHex64 ?t" "validRole (dp_Role d)" "map_of acc ?t = None"
      using Cons.prems by (auto simp: valid_directory_def map_of_eq_None_iff)
    have "(valid_directory ((done @ [d]) @ ds) \<longrightarrow> load_loop (i + 1) ds (?n # seen) (acc @ [principal_of d]) = Inr ((acc @ [principal_of d]) @ map principal_of ds)) \<and>
        (\<not> valid_directory ((done @ [d]) @ ds) \<longrightarrow> (\<exists>e. load_loop (i + 1) ds (?n # seen) (acc @ [principal_of d]) = Inl e))"
      using Cons.prems True by (intro Cons.IH) (auto simp: principal_of_def)
    then show ?thesis using ok by (simp add: update_fresh principal_of_def Let_def)
  next
    case False
    then have "?n = [] \<or> ?n \<in> set seen \<or> \<not> isLowerHex64 ?t \<or> \<not> validRole (dp_Role d) \<or> map_of acc ?t \<noteq> None"
      using Cons.prems by (auto simp: valid_directory_def map_of_eq_None_iff)
    then have "\<exists>e. load_loop i (d # ds) seen acc = Inl e" by (auto simp: Let_def split: option.split)
    moreover have "\<not> valid_directory (done @ d # ds)" using False by (auto simp: valid_directory_def)
    ultimately show ?thesis by blast
  qed
qed simp

text \<open>
  The directory loads exactly when it is sound, and then it is the file. A list of
  principals loads if and only if it is not empty, every name is more than white space, every digest
  is 64 lower-case hex digits, every role is known and no two entries share a (trimmed) name or a
  digest. Once loaded, a digest resolves to the entry that carries it, with its trimmed name and its
  role, and to nothing else; there are as many principals as entries.
\<close>

theorem principals_load_exact:
  "((\<exists>s. LoadPrincipals (Inr ds) = Inr s) \<longleftrightarrow> ds \<noteq> [] \<and> valid_directory ds) \<and>
   (\<forall>s. LoadPrincipals (Inr ds) = Inr s \<longrightarrow> Len s = length ds \<and>
      (\<forall>tok p. Lookup s tok = Some p \<longleftrightarrow> (\<exists>d\<in>set ds. dp_TokenSHA256 d = tok \<and> p = \<lparr>p_Name = TrimSpace (dp_Name d), p_Role = dp_Role d\<rparr>)))"
proof (cases "ds \<noteq> [] \<and> valid_directory ds")
  case True
  then have l: "LoadPrincipals (Inr ds) = Inr (map principal_of ds)"
    using load_loop_spec[of "[]" "[]" "[]" ds 0] by (simp add: LoadPrincipals_def valid_directory_def)
  have "distinct (map fst (map principal_of ds))" using True by (simp add: valid_directory_def comp_def principal_of_def)
  from map_of_mem[OF this] have "map_of (map principal_of ds) tok = Some p \<longleftrightarrow> (tok, p) \<in> principal_of ` set ds" for tok p
    by simp
  moreover have "(tok, p) \<in> principal_of ` set ds \<longleftrightarrow>
      (\<exists>d\<in>set ds. dp_TokenSHA256 d = tok \<and> p = \<lparr>p_Name = TrimSpace (dp_Name d), p_Role = dp_Role d\<rparr>)" for tok p
    by (auto simp: principal_of_def)
  ultimately show ?thesis using l True by (auto simp: Lookup_def Len_def)
next
  case False
  then have "\<exists>e. LoadPrincipals (Inr ds) = Inl e"
    using load_loop_spec[of "[]" "[]" "[]" ds 0] by (auto simp: LoadPrincipals_def valid_directory_def)
  then show ?thesis using False by auto
qed

definition demo_directory :: "diskPrincipal list" where
  "demo_directory = [\<lparr>dp_Name = ''alice'', dp_TokenSHA256 = replicate 64 CHR ''a'', dp_Role = ''operator''\<rparr>,
     \<lparr>dp_Name = ''ir-bot'', dp_TokenSHA256 = replicate 64 CHR ''b'', dp_Role = ''viewer''\<rparr>]"

lemma demo_names: "TrimSpace ''alice'' = ''alice''" "TrimSpace ''ir-bot'' = ''ir-bot''"
  by (rule TrimSpace_word; simp add: space_runes_def)+

theorem principals_load_exact_witness:
  "\<exists>s. LoadPrincipals (Inr demo_directory) = Inr s \<and> Len s = 2 \<and>
     Lookup s (replicate 64 CHR ''b'') = Some \<lparr>p_Name = ''ir-bot'', p_Role = RoleViewer\<rparr> \<and> Lookup s (replicate 64 CHR ''c'') = None"
proof -
  have "valid_directory demo_directory" "demo_directory \<noteq> []"
    by (simp_all add: valid_directory_def demo_directory_def demo_names isLowerHex64_def validRole_def list_all_iff)
  then obtain s where s: "LoadPrincipals (Inr demo_directory) = Inr s"
    using principals_load_exact[of demo_directory] by blast
  note look = conjunct2[OF principals_load_exact[of demo_directory], rule_format, OF s]
  have "Lookup s (replicate 64 CHR ''b'') = Some \<lparr>p_Name = ''ir-bot'', p_Role = RoleViewer\<rparr>"
    using look by (simp add: demo_directory_def demo_names)
  moreover have "Lookup s (replicate 64 CHR ''c'') = None"
    using look by (cases "Lookup s (replicate 64 CHR ''c'')") (auto simp: demo_directory_def)
  moreover have "Len s = 2" using look by (simp add: demo_directory_def)
  ultimately show ?thesis using s by blast
qed

section \<open>The triage overlay\<close>

abbreviation (input) TriageAcked :: string where "TriageAcked \<equiv> ''acked''"
abbreviation (input) TriageSuppressed :: string where "TriageSuppressed \<equiv> ''suppressed''"

datatype boot_error =
    NoStore | EmptyKey | OverlayReadOnly | OverlayEmptyScope | BadTriageState | OverlayDb error | AuditError audit_error

definition PutDeviantTriage :: "triage_overlay \<Rightarrow> error option \<Rightarrow> ScopeKey \<Rightarrow> string \<Rightarrow> DeviantTriageRecord \<Rightarrow> boot_error option \<times> triage_overlay" where
  "PutDeviantTriage s fault scope key rec =
     (if to_readOnly s then (Some OverlayReadOnly, s)
      else if scope = [] then (Some OverlayEmptyScope, s)
      else if key = [] then (Some EmptyKey, s)
      else if dt_State rec \<noteq> TriageAcked \<and> dt_State rec \<noteq> TriageSuppressed then (Some BadTriageState, s)
      else case fault of Some e \<Rightarrow> (Some (OverlayDb e), s)
        | None \<Rightarrow> (None, s\<lparr>to_rows := (to_rows s)((scope, key) \<mapsto> rec)\<rparr>))"

definition DeleteDeviantTriage :: "triage_overlay \<Rightarrow> error option \<Rightarrow> ScopeKey \<Rightarrow> string \<Rightarrow> boot_error option \<times> triage_overlay" where
  "DeleteDeviantTriage s fault scope key =
     (if to_readOnly s then (Some OverlayReadOnly, s)
      else if key = [] then (Some EmptyKey, s)
      else if scope = [] then (Some OverlayEmptyScope, s)
      else case fault of Some e \<Rightarrow> (Some (OverlayDb e), s)
        | None \<Rightarrow> (None, s\<lparr>to_rows := (to_rows s)((scope, key) := None)\<rparr>))"

definition GetDeviantTriage :: "triage_overlay \<Rightarrow> ScopeKey \<Rightarrow> string \<Rightarrow> boot_error + DeviantTriageRecord option" where
  "GetDeviantTriage s scope key = (if scope = [] then Inl OverlayEmptyScope else Inr (to_rows s (scope, key)))"

definition putDeviantTriage ::
  "error option \<Rightarrow> ('d, 'b) Built \<Rightarrow> string \<Rightarrow> string \<Rightarrow> string \<Rightarrow> string \<Rightarrow> string \<Rightarrow> time \<Rightarrow> boot_error option \<times> ('d, 'b) Built" where
  "putDeviantTriage fault b keyBytes state who why srcAddr now =
     (case b_Persist b of
        None \<Rightarrow> (Some NoStore, b)
      | Some ov \<Rightarrow>
         if keyBytes = [] then (Some EmptyKey, b)
         else let (err, ov') = PutDeviantTriage ov fault (b_BoundaryScope b) keyBytes
                    \<lparr>dt_State = state, dt_By = who, dt_When = now, dt_Why = why, dt_SrcAddr = srcAddr\<rparr>
              in (err, b\<lparr>b_Persist := Some ov'\<rparr>))"

definition auditDeviantAction ::
  "('d, 'p, 'b) codec \<Rightarrow> error option \<Rightarrow> ('d, 'b) Built \<Rightarrow> string \<Rightarrow> string \<Rightarrow> OperatorIdentity \<Rightarrow> string \<Rightarrow> time
    \<Rightarrow> audit_error option \<times> ('d, 'b) Built" where
  "auditDeviantAction cd fault b action keyBytes oid reason now =
     (case b_Audit b of
        None \<Rightarrow> (None, b)
      | Some a \<Rightarrow>
         if b_BoundaryScope b = [] then (None, b)
         else let posture = [(''operator'', id_Name oid), (''reason'', reason), (''deviant_key'', hexEncode keyBytes)] @ identity_posture oid;
                  (err, a') = Append cd a fault \<lparr>oa_Scope = b_BoundaryScope b, oa_Action = action, oa_SocketCookie = 0,
                    oa_SourceAddress = [], oa_SPIFFEID = [], oa_Posture = Some posture, oa_Now = now\<rparr>
              in (err, b\<lparr>b_Audit := Some a'\<rparr>))"

text \<open>The overlay is written first and audited then; the state returned is empty when the write failed.\<close>

definition audited ::
  "('d, 'p, 'b) codec \<Rightarrow> error option \<Rightarrow> string \<Rightarrow> string \<Rightarrow> string \<Rightarrow> OperatorIdentity \<Rightarrow> string \<Rightarrow> time
    \<Rightarrow> boot_error option \<times> ('d, 'b) Built \<Rightarrow> (string \<times> boot_error option) \<times> ('d, 'b) Built" where
  "audited cd fault state action keyBytes oid reason now r =
     (case r of
        (Some err, b) \<Rightarrow> (([], Some err), b)
      | (None, b) \<Rightarrow> (let (err, b') = auditDeviantAction cd fault b action keyBytes oid reason now
                     in ((state, map_option AuditError err), b')))"

definition SuppressDeviant where
  "SuppressDeviant cd fo fa b now keyBytes oid reason srcAddr =
     audited cd fa TriageSuppressed ''deviant_suppress'' keyBytes oid reason now
       (putDeviantTriage fo b keyBytes TriageSuppressed (id_Name oid) reason srcAddr now)"

definition AckDeviant where
  "AckDeviant cd fo fa b now keyBytes oid reason srcAddr =
     audited cd fa TriageAcked ''deviant_ack'' keyBytes oid reason now
       (putDeviantTriage fo b keyBytes TriageAcked (id_Name oid) reason srcAddr now)"

definition UnsuppressDeviant where
  "UnsuppressDeviant cd fo fa b now keyBytes oid reason =
     audited cd fa ''normal'' ''deviant_unsuppress'' keyBytes oid reason now
       (case b_Persist b of
          None \<Rightarrow> (Some NoStore, b)
        | Some ov \<Rightarrow>
           if keyBytes = [] then (Some EmptyKey, b)
           else let (err, ov') = DeleteDeviantTriage ov fo (b_BoundaryScope b) keyBytes in (err, b\<lparr>b_Persist := Some ov'\<rparr>))"

section \<open>The handlers\<close>

datatype authMode = modeSingle | modePrincipals

record killSwitchAdmin =
  ad_mode :: authMode
  ad_principals :: principal_Set

datatype admin_error = AdminPrincipals principals_error | AdminRead error | AdminEmptyToken | AdminNoSource

definition newKillSwitchAdmin ::
  "(string \<Rightarrow> string) \<Rightarrow> (string \<Rightarrow> error + diskPrincipal list) \<Rightarrow> (string \<Rightarrow> error + string) \<Rightarrow> string \<Rightarrow> string
    \<Rightarrow> admin_error + killSwitchAdmin" where
  "newKillSwitchAdmin digest decode_file read_file tokenFile principalsFile =
     (if principalsFile \<noteq> [] then
        (case LoadPrincipals (decode_file principalsFile) of
           Inl err \<Rightarrow> Inl (AdminPrincipals err)
         | Inr s \<Rightarrow> Inr \<lparr>ad_mode = modePrincipals, ad_principals = s\<rparr>)
      else if tokenFile \<noteq> [] then
        (case read_file tokenFile of
           Inl err \<Rightarrow> Inl (AdminRead err)
         | Inr raw \<Rightarrow>
            (let tok = TrimSpace raw in
             if tok = [] then Inl AdminEmptyToken
             else Inr \<lparr>ad_mode = modeSingle, ad_principals = NewSingleTokenSet digest tok\<rparr>))
      else Inl AdminNoSource)"

text \<open>
  A request: its method, the two headers the handlers read, and what the JSON decoder makes of the
  body for each kind of request (a body past 4 KiB is an error).
\<close>

record Request =
  rq_Method :: string
  rq_Authorization :: string
  rq_XOperator :: string
  rq_engage :: "error + int \<times> string"
  rq_revive :: "error + string"
  rq_triage :: "error + string \<times> string"

definition resolve :: "(string \<Rightarrow> string) \<Rightarrow> killSwitchAdmin \<Rightarrow> Request \<Rightarrow> Principal option" where
  "resolve digest a r =
     (let h = TrimSpace (TrimPrefix (rq_Authorization r) ''Bearer '')
      in if h = [] then None else Lookup (ad_principals a) (digest h))"

definition operatorOf :: "killSwitchAdmin \<Rightarrow> Request \<Rightarrow> Principal \<Rightarrow> string" where
  "operatorOf a r p =
     (if ad_mode a = modePrincipals then p_Name p
      else if TrimSpace (rq_XOperator r) \<noteq> [] then TrimSpace (rq_XOperator r) else ''operator'')"

definition identityFor :: "killSwitchAdmin \<Rightarrow> Request \<Rightarrow> Principal \<Rightarrow> OperatorIdentity" where
  "identityFor a r p = \<lparr>id_Name = operatorOf a r p, id_Role = RoleOperator,
     id_AuthVia = (if ad_mode a = modePrincipals then ''principal'' else ''single-token'')\<rparr>"

datatype Body = NoBody | StatusBody Status | TriageBody string string ScopeKey

type_synonym ('d, 'b) handled = "(int \<times> Body) \<times> ('d, 'b) Built"

text \<open>The digest, the codec, the layout of a timestamp, and the failures of the audit append and of the overlay.\<close>

record ('d, 'p, 'b) env =
  env_digest :: "string \<Rightarrow> string"
  env_codec :: "('d, 'p, 'b) codec"
  env_rfc3339 :: "time \<Rightarrow> string"
  env_audit :: "error option"
  env_overlay :: "error option"

text \<open>
  \<^verbatim>\<open>time.Duration(req.DurationSeconds) * time.Second\<close> is a product of 64-bit integers.
\<close>

definition handleEngage :: "('d, 'p, 'b) env \<Rightarrow> killSwitchAdmin \<Rightarrow> ('d, 'b) Built \<Rightarrow> Request \<Rightarrow> time \<Rightarrow> ('d, 'b) handled" where
  "handleEngage e a b r now =
     (if rq_Method r \<noteq> ''POST'' then ((405, NoBody), b)
      else case resolve (env_digest e) a r of
        None \<Rightarrow> ((401, NoBody), b)
      | Some p \<Rightarrow>
         if p_Role p \<noteq> RoleOperator then ((403, NoBody), b)
         else case rq_engage r of
           Inl _ \<Rightarrow> ((400, NoBody), b)
         | Inr (durationSeconds, reason) \<Rightarrow>
            (let d = wrap64 (durationSeconds * second);
                 ((st, err), b') = EngageKillSwitch (env_codec e) (env_audit e) (env_rfc3339 e) b now d (identityFor a r p) reason
             in ((200, StatusBody st), b')))"

definition handleRevive :: "('d, 'p, 'b) env \<Rightarrow> killSwitchAdmin \<Rightarrow> ('d, 'b) Built \<Rightarrow> Request \<Rightarrow> time \<Rightarrow> ('d, 'b) handled" where
  "handleRevive e a b r now =
     (if rq_Method r \<noteq> ''POST'' then ((405, NoBody), b)
      else case resolve (env_digest e) a r of
        None \<Rightarrow> ((401, NoBody), b)
      | Some p \<Rightarrow>
         if p_Role p \<noteq> RoleOperator then ((403, NoBody), b)
         else let go = (\<lambda>reason. let ((st, err), b') =
                    ReviveKillSwitch (env_codec e) (env_audit e) (env_rfc3339 e) b now (identityFor a r p) reason
                  in ((200, StatusBody st), b'))
              in case rq_revive r of
                   Inl err \<Rightarrow> if err \<noteq> ''EOF'' then ((400, NoBody), b) else go []
                 | Inr reason \<Rightarrow> go reason)"

definition handleStatus :: "('d, 'p, 'b) env \<Rightarrow> killSwitchAdmin \<Rightarrow> ('d, 'b) Built \<Rightarrow> Request \<Rightarrow> time \<Rightarrow> ('d, 'b) handled" where
  "handleStatus e a b r now =
     (if rq_Method r \<noteq> ''GET'' then ((405, NoBody), b)
      else case resolve (env_digest e) a r of
        None \<Rightarrow> ((401, NoBody), b)
      | Some p \<Rightarrow> ((200, StatusBody (killswitch_Status (Some (b_KillSwitch b)) now)), b))"

datatype deviantAction = deviantSuppress | deviantUnsuppress | deviantAck

definition handleDeviant :: "('d, 'p, 'b) env \<Rightarrow> killSwitchAdmin \<Rightarrow> ('d, 'b) Built \<Rightarrow> deviantAction \<Rightarrow> Request \<Rightarrow> time \<Rightarrow> ('d, 'b) handled" where
  "handleDeviant e a b action r now =
     (if rq_Method r \<noteq> ''POST'' then ((405, NoBody), b)
      else case resolve (env_digest e) a r of
        None \<Rightarrow> ((401, NoBody), b)
      | Some p \<Rightarrow>
         if p_Role p \<noteq> RoleOperator then ((403, NoBody), b)
         else case rq_triage r of
           Inl _ \<Rightarrow> ((400, NoBody), b)
         | Inr (key, reason) \<Rightarrow>
            (case hex_DecodeString (TrimSpace key) of
               None \<Rightarrow> ((400, NoBody), b)
             | Some keyBytes \<Rightarrow>
                if keyBytes = [] then ((400, NoBody), b)
                else let oid = identityFor a r p; cd = env_codec e; fo = env_overlay e; fa = env_audit e;
                         ((state, err), b') = (case action of
                            deviantSuppress \<Rightarrow> SuppressDeviant cd fo fa b now keyBytes oid reason []
                          | deviantUnsuppress \<Rightarrow> UnsuppressDeviant cd fo fa b now keyBytes oid reason
                          | deviantAck \<Rightarrow> AckDeviant cd fo fa b now keyBytes oid reason [])
                     in if err \<noteq> None \<and> state = [] then ((500, NoBody), b')
                        else ((200, TriageBody key state (b_BoundaryScope b')), b')))"

text \<open>The mux: five exact paths and one for the status.\<close>

definition Handler :: "('d, 'p, 'b) env \<Rightarrow> killSwitchAdmin \<Rightarrow> ('d, 'b) Built \<Rightarrow> string \<Rightarrow> Request \<Rightarrow> time \<Rightarrow> ('d, 'b) handled" where
  "Handler e a b path r now =
     (if path = ''/killswitch/engage'' then handleEngage e a b r now
      else if path = ''/killswitch/revive'' then handleRevive e a b r now
      else if path = ''/killswitch'' then handleStatus e a b r now
      else if path = ''/deviant/suppress'' then handleDeviant e a b deviantSuppress r now
      else if path = ''/deviant/unsuppress'' then handleDeviant e a b deviantUnsuppress r now
      else if path = ''/deviant/ack'' then handleDeviant e a b deviantAck r now
      else ((404, NoBody), b))"

section \<open>Who may act, and who is recorded\<close>

lemmas handler_defs = handleEngage_def handleRevive_def handleStatus_def handleDeviant_def

lemma handler_gate:
  assumes "\<not> (rq_Method r = ''POST'' \<and> (\<exists>p. resolve (env_digest e) a r = Some p \<and> p_Role p = RoleOperator))"
  shows "snd (Handler e a b path r now) = b"
  using assms by (auto simp: Handler_def handler_defs split: option.splits)

lemma resolve_XOperator [simp]: "resolve d a (r\<lparr>rq_XOperator := x\<rparr>) = resolve d a r"
  by (simp add: resolve_def)

lemma identity_XOperator: "ad_mode a = modePrincipals \<Longrightarrow> identityFor a (r\<lparr>rq_XOperator := x\<rparr>) p = identityFor a r p"
  by (simp add: identityFor_def operatorOf_def)

lemma request_XOperator:
  "rq_Method (r\<lparr>rq_XOperator := x\<rparr>) = rq_Method r" "rq_engage (r\<lparr>rq_XOperator := x\<rparr>) = rq_engage r"
  "rq_revive (r\<lparr>rq_XOperator := x\<rparr>) = rq_revive r" "rq_triage (r\<lparr>rq_XOperator := x\<rparr>) = rq_triage r"
  by simp_all

lemma handler_XOperator:
  assumes "ad_mode a = modePrincipals"
  shows "Handler e a b path (r\<lparr>rq_XOperator := x\<rparr>) now = Handler e a b path r now"
  unfolding Handler_def handler_defs resolve_XOperator request_XOperator identity_XOperator[OF assms] by (rule refl)

lemma audit_keeps_switch: "b_KillSwitch (snd (auditOperatorAction cd f fmt b act oid why st now)) = b_KillSwitch b"
  by (simp add: auditOperatorAction_def Let_def split: option.split prod.split)

lemma EngageKillSwitch_switch:
  "b_KillSwitch (snd (EngageKillSwitch cd f fmt b now d oid why)) = snd (Engage (b_KillSwitch b) now d (id_Name oid) why)"
proof -
  obtain st k where e: "Engage (b_KillSwitch b) now d (id_Name oid) why = (st, k)" by fastforce
  have "snd (EngageKillSwitch cd f fmt b now d oid why) =
      snd (auditOperatorAction cd f fmt (b\<lparr>b_KillSwitch := k\<rparr>) ''kill_switch_engage'' oid why st now)"
    by (simp add: EngageKillSwitch_def e split: prod.split)
  then show ?thesis by (simp add: audit_keeps_switch e)
qed

lemma handleEngage_ok:
  assumes "handleEngage e a b r now = ((200, body), b')"
  shows "\<exists>p secs reason. resolve (env_digest e) a r = Some p \<and> p_Role p = RoleOperator \<and> rq_engage r = Inr (secs, reason) \<and>
    b_KillSwitch b' = snd (Engage (b_KillSwitch b) now (wrap64 (secs * second)) (operatorOf a r p) reason)"
proof -
  obtain p where p: "resolve (env_digest e) a r = Some p" "p_Role p = RoleOperator" "rq_Method r = ''POST''"
    using assms by (auto simp: handleEngage_def split: if_splits option.splits)
  obtain secs reason where q: "rq_engage r = Inr (secs, reason)"
    using assms p by (auto simp: handleEngage_def split: sum.splits)
  have "b' = snd (EngageKillSwitch (env_codec e) (env_audit e) (env_rfc3339 e) b now (wrap64 (secs * second)) (identityFor a r p) reason)"
    using assms p q by (auto simp: handleEngage_def Let_def split: prod.splits)
  then show ?thesis using p q by (simp add: EngageKillSwitch_switch identityFor_def)
qed

text \<open>
  A control surface in directory mode whose digests are repeated letters, over a deployment without a
  database; a request of the operator alice.
\<close>

definition demo_env :: "(nat, nat AuditRecord, nat AuditRecord) env" where
  "demo_env = \<lparr>env_digest = (\<lambda>tok. replicate 64 (hd tok)), env_codec = demo_codec, env_rfc3339 = (\<lambda>_. []), env_audit = None, env_overlay = None\<rparr>"

definition demo_admin :: killSwitchAdmin where
  "demo_admin = \<lparr>ad_mode = modePrincipals, ad_principals = map principal_of demo_directory\<rparr>"

definition demo_plane :: "(nat, nat AuditRecord) Built" where
  "demo_plane = \<lparr>b_KillSwitch = killswitch_New, b_Audit = None, b_BoundaryScope = ''edge'', b_Persist = None\<rparr>"

definition demo_request :: "int \<Rightarrow> Request" where
  "demo_request secs = \<lparr>rq_Method = ''POST'', rq_Authorization = ''Bearer alice'', rq_XOperator = ''mallory'',
     rq_engage = Inr (secs, ''incident''), rq_revive = Inl ''EOF'', rq_triage = Inl ''EOF''\<rparr>"

lemma demo_token_resolves: "resolve (env_digest demo_env) demo_admin (demo_request secs) = Some \<lparr>p_Name = ''alice'', p_Role = RoleOperator\<rparr>"
  by (simp add: resolve_def demo_request_def TrimPrefix_def demo_names demo_env_def demo_admin_def Lookup_def
      demo_directory_def principal_of_def)

lemma demo_engage:
  "\<exists>body b'. Handler demo_env demo_admin demo_plane ''/killswitch/engage'' (demo_request secs) now = ((200, body), b')"
proof -
  have "rq_Method (demo_request secs) = ''POST''" "rq_engage (demo_request secs) = Inr (secs, ''incident'')"
    by (simp_all add: demo_request_def)
  then show ?thesis by (simp add: Handler_def handleEngage_def demo_token_resolves Let_def split: prod.split)
qed



text \<open>
  How long a halt lasts. The window of an engagement is the requested number of seconds
  as long as that many nanoseconds fit in 63 bits, and unlimited for a request of zero or less; but
  the product wraps: a request of 18446744074 seconds (585 years) is over within the second.
\<close>

theorem engage_window:
  assumes "Handler e a b ''/killswitch/engage'' r now = ((200, body), b')" "rq_engage r = Inr (secs, reason)" "0 \<le> now"
  shows "(0 < secs \<and> secs \<le> 9223372036 \<longrightarrow> (\<forall>t. activeLocked (b_KillSwitch b') t \<longleftrightarrow> t < now + secs * second)) \<and>
    (-9223372036 \<le> secs \<and> secs \<le> 0 \<longrightarrow> (\<forall>t. activeLocked (b_KillSwitch b') t)) \<and>
    (secs = 18446744074 \<longrightarrow> \<not> activeLocked (b_KillSwitch b') (now + second))"
proof -
  have "handleEngage e a b r now = ((200, body), b')" using assms(1) by (simp add: Handler_def)
  from handleEngage_ok[OF this] assms(2) obtain p where
    k: "b_KillSwitch b' = snd (Engage (b_KillSwitch b) now (wrap64 (secs * second)) (operatorOf a r p) reason)" by auto
  have "activeLocked (b_KillSwitch b') t \<longleftrightarrow> wrap64 (secs * second) \<le> 0 \<or> t < now + wrap64 (secs * second)" for t
    using activeLocked_step[of "Engaged now (wrap64 (secs * second)) (operatorOf a r p) reason" "b_KillSwitch b" t] assms(3) k by simp
  moreover have "wrap64 (secs * second) = secs * second" if "-9223372036 \<le> secs" "secs \<le> 9223372036"
    using that by (intro wrap64_id) simp_all
  moreover have "wrap64 (18446744074 * second) = 290448384" by (simp add: wrap64_def)
  ultimately show ?thesis by auto
qed

theorem engage_window_witness:
  "\<exists>body b'. Handler demo_env demo_admin demo_plane ''/killswitch/engage'' (demo_request 18446744074) 5 = ((200, body), b') \<and>
    \<not> activeLocked (b_KillSwitch b') (5 + second)"
proof -
  obtain body b' where h: "Handler demo_env demo_admin demo_plane ''/killswitch/engage'' (demo_request 18446744074) 5 = ((200, body), b')"
    using demo_engage by blast
  have "rq_engage (demo_request 18446744074) = Inr (18446744074, ''incident'')" by (simp add: demo_request_def)
  from engage_window[OF h this] have "\<not> activeLocked (b_KillSwitch b') (5 + second)" by simp
  then show ?thesis using h by blast
qed

end
