(* ===== verification/Events.thy ===== *)
theory Events
  imports AuditChain GoStrings
begin

text \<open>
  The deployment-local records of canary touches: the interaction events and amended outcomes of
  \<^verbatim>\<open>internal/intelligence/boltevents\<close> over the per-scope logs of \<^verbatim>\<open>internal/engine/persist\<close>, and the enriched
  touch records of \<^verbatim>\<open>internal/intelligence/l7events\<close> with their cap, reaper and durable copy. Theorems: a
  query never leaves its scope and window and returns events with their latest outcome; the touch
  store stays within its cap and a restart rebuilds it from the durable copy.
\<close>

section \<open>Interaction events\<close>

record intel_Sting =
  is_Mechanism :: string
  is_TimeHeldSec :: f64
  is_BytesServed :: int
  is_RequestsAbsrb :: int
  is_TokenCostProxy :: f64
  is_DepthReached :: int
  is_Axes :: AttritionAxis
  is_TimeToDisengageSec :: f64
  is_PoisonClass :: string
  is_PoisonReached :: int
  is_ExploitsObserved :: int
  is_ExposureSignals :: int
  is_DisengageReason :: int

type_synonym feature_map = "(string \<times> f64) list option"

record AdversaryInteractionEvent =
  ie_ScopeKey :: string
  ie_FlowID :: u64
  ie_CanaryType :: string
  ie_Timestamp :: time
  ie_Features :: feature_map
  ie_Tier :: int
  ie_Verdict :: string
  ie_Score :: f64
  ie_Sting :: intel_Sting

definition zero_sting :: intel_Sting where
  "zero_sting = \<lparr>is_Mechanism = [], is_TimeHeldSec = 0, is_BytesServed = 0, is_RequestsAbsrb = 0, is_TokenCostProxy = 0,
     is_DepthReached = 0, is_Axes = 0, is_TimeToDisengageSec = 0, is_PoisonClass = [], is_PoisonReached = 0,
     is_ExploitsObserved = 0, is_ExposureSignals = 0, is_DisengageReason = 0\<rparr>"

definition UnixMilli :: "time \<Rightarrow> int" where
  "UnixMilli t = (t - unix_epoch) div 1000000"

definition of_UnixMilli :: "int \<Rightarrow> time" where
  "of_UnixMilli ms = unix_epoch + ms * 1000000"

record outcomeRecord =
  ocr_SocketCookie :: u64
  ocr_TimestampMs :: int
  ocr_Sting :: intel_Sting

text \<open>
  A blob of the per-scope log is an event, an outcome amendment (its marker is set), or bytes that do
  not decode. The log is in the order of the sequence numbers. A write that bbolt itself fails is left
  out: it changes no log and its error is returned.
\<close>

datatype blob = EventBlob AdversaryInteractionEvent | OutcomeBlob outcomeRecord | BadBlob

record event_Store =
  es_log :: "ScopeKey \<Rightarrow> blob list"
  es_readOnly :: bool
  es_decodeErrors :: nat

datatype store_error = StoreReadOnly | StoreNoScope | StoreFault error

definition AppendEvent :: "event_Store \<Rightarrow> ScopeKey \<Rightarrow> blob \<Rightarrow> store_error option \<times> event_Store" where
  "AppendEvent s scope b =
     (if es_readOnly s then (Some StoreReadOnly, s)
      else if scope = [] then (Some StoreNoScope, s)
      else (None, s\<lparr>es_log := (es_log s)(scope := es_log s scope @ [b])\<rparr>))"

definition RangeEventsRecent :: "event_Store \<Rightarrow> ScopeKey \<Rightarrow> int \<Rightarrow> blob list" where
  "RangeEventsRecent s scope maxN = (let newest = rev (es_log s scope) in if 0 < maxN then take (nat maxN) newest else newest)"

definition recentScanCap :: int where "recentScanCap = 4096"

definition event_Append :: "event_Store \<Rightarrow> AdversaryInteractionEvent \<Rightarrow> store_error option \<times> event_Store" where
  "event_Append s ev = (if ie_ScopeKey ev = [] then (Some StoreNoScope, s) else AppendEvent s (ie_ScopeKey ev) (EventBlob ev))"

definition sting_of :: "StingOutcome \<Rightarrow> intel_Sting" where
  "sting_of o' =
     \<lparr>is_Mechanism = so_Mechanism o', is_TimeHeldSec = so_TimeHeldSec o', is_BytesServed = so_BytesServed o',
      is_RequestsAbsrb = so_RequestsAbsrb o', is_TokenCostProxy = so_TokenCostProxy o', is_DepthReached = so_DepthReached o',
      is_Axes = so_Axes o', is_TimeToDisengageSec = so_TimeToDisengageSec o', is_PoisonClass = so_PoisonClass o',
      is_PoisonReached = so_PoisonReached o', is_ExploitsObserved = so_ExploitsObserved o',
      is_ExposureSignals = so_ExposureSignals o', is_DisengageReason = so_DisengageReason o'\<rparr>"

definition AmendOutcome :: "event_Store \<Rightarrow> OutcomeRecord \<Rightarrow> store_error option \<times> event_Store" where
  "AmendOutcome s rec =
     (if or_Scope rec = [] then (Some StoreNoScope, s)
      else AppendEvent s (or_Scope rec) (OutcomeBlob \<lparr>ocr_SocketCookie = or_SocketCookie rec,
             ocr_TimestampMs = or_TimestampUnixMs rec, ocr_Sting = sting_of (or_Outcome rec)\<rparr>))"

text \<open>One blob of the newest-first scan: the events found so far, and the outcomes by cookie and time.\<close>

type_synonym outcomes = "u64 \<times> int \<rightharpoonup> intel_Sting"

fun query_blob :: "time \<Rightarrow> time \<Rightarrow> AdversaryInteractionEvent list \<times> outcomes \<times> nat \<Rightarrow> blob \<Rightarrow> AdversaryInteractionEvent list \<times> outcomes \<times> nat" where
  "query_blob since until (out, ocs, bad) (OutcomeBlob r) =
     (if ocr_TimestampMs r < UnixMilli since \<or> ocr_TimestampMs r > UnixMilli until then (out, ocs, bad)
      else let k = (ocr_SocketCookie r, ocr_TimestampMs r)
           in (out, (case ocs k of None \<Rightarrow> ocs(k \<mapsto> ocr_Sting r) | Some _ \<Rightarrow> ocs), bad))"
| "query_blob since until (out, ocs, bad) (EventBlob ev) =
     (if ie_Timestamp ev < since \<or> until < ie_Timestamp ev then (out, ocs, bad) else (out @ [ev], ocs, bad))"
| "query_blob since until (out, ocs, bad) BadBlob = (out, ocs, Suc bad)"

definition merge_outcome :: "outcomes \<Rightarrow> AdversaryInteractionEvent \<Rightarrow> AdversaryInteractionEvent" where
  "merge_outcome ocs ev =
     (case ocs (ie_FlowID ev, UnixMilli (ie_Timestamp ev)) of None \<Rightarrow> ev | Some sting \<Rightarrow> ev\<lparr>ie_Sting := sting\<rparr>)"

definition Query :: "event_Store \<Rightarrow> ScopeKey \<Rightarrow> time \<Rightarrow> time \<Rightarrow> (store_error + AdversaryInteractionEvent list) \<times> event_Store" where
  "Query s scope since until =
     (if scope = [] then (Inl StoreNoScope, s)
      else let (out, ocs, bad) = foldl (query_blob since until) ([], Map.empty, 0) (RangeEventsRecent s scope recentScanCap)
           in (Inr (map (merge_outcome ocs) (rev out)), s\<lparr>es_decodeErrors := es_decodeErrors s + bad\<rparr>))"

definition CaptureVerdict :: "event_Store \<Rightarrow> SignalEvent \<Rightarrow> Verdict \<Rightarrow> feature_map \<Rightarrow> store_error option \<times> event_Store" where
  "CaptureVerdict s ev v features =
     (if v_Tier v < TierTag then (None, s)
      else event_Append s \<lparr>ie_ScopeKey = ev_Scope ev, ie_FlowID = SocketCookie (ev_Flow ev), ie_CanaryType = ev_Canary ev,
             ie_Timestamp = ev_Timestamp ev, ie_Features = features, ie_Tier = v_Tier v, ie_Verdict = tierName (v_Tier v),
             ie_Score = v_Score v, ie_Sting = zero_sting\<rparr>)"

section \<open>Enriched touch records\<close>

record EnrichedTouchRecord =
  tr_EventID :: string
  tr_Scope :: string
  tr_SocketCookie :: u64
  tr_CanaryType :: string
  tr_Tier :: int
  tr_Verdict :: string
  tr_Score :: f64
  tr_Calibrated :: bool
  tr_Mode :: EnforcementMode
  tr_StingMechanism :: string
  tr_SourceAddress :: string
  tr_Method :: string
  tr_Path :: string
  tr_SPIFFEID :: string
  tr_Features :: feature_map
  tr_BytesRealDataCrossed :: int
  tr_FirstSeen :: time
  tr_LastSeen :: time
  tr_HitCount :: u64

record L7Context =
  l7_SourceAddress :: string
  l7_Method :: string
  l7_Path :: string
  l7_SPIFFEID :: string

definition attribute :: "FlowIdentity \<Rightarrow> string \<Rightarrow> string" where
  "attribute f k = (case L7Attributes f k of None \<Rightarrow> [] | Some v \<Rightarrow> v)"

definition FromFlow :: "FlowIdentity \<Rightarrow> L7Context" where
  "FromFlow f = \<lparr>l7_SourceAddress = attribute f AttrSourceAddress, l7_Method = attribute f AttrRequestMethod,
     l7_Path = attribute f AttrRequestPath, l7_SPIFFEID = SPIFFEID f\<rparr>"

definition touchKey :: "u64 \<Rightarrow> string \<Rightarrow> string \<Rightarrow> string" where
  "touchKey cookie method path = CHR 0x01 # be64 cookie @ method @ CHR 0x00 # path"

definition l7_eventID :: "ScopeKey \<Rightarrow> u64 \<Rightarrow> time \<Rightarrow> string \<Rightarrow> string \<Rightarrow> string" where
  "l7_eventID scope cookie first method path =
     scope @ '':'' @ hexEncode (be64 (fnv64a (be64 cookie @ be64 (word_of_int (first - unix_epoch)) @ method @ CHR 0x00 # path)))"

type_synonym touch_records = "(string \<times> EnrichedTouchRecord) list"

text \<open>
  The in-memory records of each scope, and the durable copy if there is one. \<open>accepts\<close> says which keys the
  database takes; a write of a batch succeeds as a whole or not at all.
\<close>

record l7_Store =
  l7_byScope :: "ScopeKey \<Rightarrow> touch_records"
  l7_durable :: "(ScopeKey \<Rightarrow> string \<rightharpoonup> EnrichedTouchRecord) option"
  l7_cap :: int
  l7_ttl :: duration
  l7_evicted :: nat

definition touchCapDefault :: int where "touchCapDefault = 4096"
definition touchTTLDefault :: duration where "touchTTLDefault = 30 * 24 * hour"

datatype touch_write = PutTouch ScopeKey string EnrichedTouchRecord | DeleteTouch ScopeKey string

fun write_ok :: "(string \<Rightarrow> bool) \<Rightarrow> touch_write \<Rightarrow> bool" where
  "write_ok accepts (PutTouch scope key r) = (scope \<noteq> [] \<and> accepts key)"
| "write_ok accepts (DeleteTouch scope key) = (scope \<noteq> [])"

fun apply_touch_write :: "(ScopeKey \<Rightarrow> string \<rightharpoonup> EnrichedTouchRecord) \<Rightarrow> touch_write \<Rightarrow> (ScopeKey \<Rightarrow> string \<rightharpoonup> EnrichedTouchRecord)" where
  "apply_touch_write d (PutTouch scope key r) = d(scope := (d scope)(key \<mapsto> r))"
| "apply_touch_write d (DeleteTouch scope key) = d(scope := (d scope)(key := None))"

definition PutL7Touches ::
  "(string \<Rightarrow> bool) \<Rightarrow> (ScopeKey \<Rightarrow> string \<rightharpoonup> EnrichedTouchRecord) \<Rightarrow> touch_write list \<Rightarrow> (ScopeKey \<Rightarrow> string \<rightharpoonup> EnrichedTouchRecord)" where
  "PutL7Touches accepts d ws = (if list_all (write_ok accepts) ws then foldl apply_touch_write d ws else d)"

fun oldest_record :: "touch_records \<Rightarrow> (string \<times> time) option \<Rightarrow> string option" where
  "oldest_record [] best = map_option fst best"
| "oldest_record ((k, r) # rs) best =
     oldest_record rs (case best of
        None \<Rightarrow> Some (k, tr_LastSeen r)
      | Some (v, oldest) \<Rightarrow> if tr_LastSeen r < oldest then Some (k, tr_LastSeen r) else best)"

definition evictOldestIfFull :: "(touch_records \<Rightarrow> touch_records) \<Rightarrow> touch_records \<Rightarrow> int \<Rightarrow> string option \<times> touch_records" where
  "evictOldestIfFull perm rs c =
     (if c \<le> 0 \<or> int (length rs) < c then (None, rs)
      else case oldest_record (perm rs) None of
        None \<Rightarrow> (Some [], AList.delete [] rs)
      | Some victim \<Rightarrow> (Some victim, AList.delete victim rs))"

definition new_touch :: "ScopeKey \<Rightarrow> u64 \<Rightarrow> CanaryType \<Rightarrow> Verdict \<Rightarrow> L7Context \<Rightarrow> feature_map \<Rightarrow> time \<Rightarrow> EnrichedTouchRecord" where
  "new_touch scope cookie canary v l7 feats now =
     \<lparr>tr_EventID = l7_eventID scope cookie now (l7_Method l7) (l7_Path l7), tr_Scope = scope, tr_SocketCookie = cookie,
      tr_CanaryType = canary, tr_Tier = v_Tier v, tr_Verdict = tierName (v_Tier v), tr_Score = v_Score v,
      tr_Calibrated = v_Calibrated v, tr_Mode = v_Mode v, tr_StingMechanism = [], tr_SourceAddress = l7_SourceAddress l7,
      tr_Method = l7_Method l7, tr_Path = l7_Path l7, tr_SPIFFEID = l7_SPIFFEID l7, tr_Features = copyFeatures feats,
      tr_BytesRealDataCrossed = 0, tr_FirstSeen = now, tr_LastSeen = now, tr_HitCount = 1\<rparr>"

definition hit_touch :: "EnrichedTouchRecord \<Rightarrow> Verdict \<Rightarrow> feature_map \<Rightarrow> time \<Rightarrow> EnrichedTouchRecord" where
  "hit_touch r v feats now =
     r\<lparr>tr_HitCount := tr_HitCount r + 1, tr_LastSeen := now, tr_Tier := v_Tier v, tr_Verdict := tierName (v_Tier v),
       tr_Score := v_Score v, tr_Calibrated := v_Calibrated v, tr_Mode := v_Mode v, tr_Features := copyFeatures feats\<rparr>"

definition upsert_touch ::
  "(touch_records \<Rightarrow> touch_records) \<Rightarrow> touch_records \<Rightarrow> int \<Rightarrow> string \<Rightarrow> (EnrichedTouchRecord \<Rightarrow> EnrichedTouchRecord) \<Rightarrow> EnrichedTouchRecord \<Rightarrow>
   string option \<times> touch_records \<times> EnrichedTouchRecord" where
  "upsert_touch perm rs c key hit new =
     (case map_of rs key of
        Some r \<Rightarrow> (None, rs, hit r)
      | None \<Rightarrow> (fst (evictOldestIfFull perm rs c), snd (evictOldestIfFull perm rs c), new))"

definition l7_Capture ::
  "(touch_records \<Rightarrow> touch_records) \<Rightarrow> (string \<Rightarrow> bool) \<Rightarrow> l7_Store \<Rightarrow> ScopeKey \<Rightarrow> u64 \<Rightarrow> CanaryType \<Rightarrow> Verdict \<Rightarrow> L7Context \<Rightarrow>
   feature_map \<Rightarrow> time \<Rightarrow> l7_Store" where
  "l7_Capture perm accepts s scope cookie canary v l7 feats now =
     (if v_Tier v < TierTag then s
      else if scope = [] then s
      else
        let rs = l7_byScope s scope;
            key = touchKey cookie (l7_Method l7) (l7_Path l7);
            (evicted, rs1, r) = upsert_touch perm rs (l7_cap s) key (\<lambda>r. hit_touch r v feats now) (new_touch scope cookie canary v l7 feats now);
            rs2 = AList.update key r rs1;
            ws = (case evicted of None \<Rightarrow> [] | Some ek \<Rightarrow> [DeleteTouch scope ek]) @ [PutTouch scope key r]
        in s\<lparr>l7_byScope := (l7_byScope s)(scope := rs2),
             l7_evicted := l7_evicted s + (if evicted = None then 0 else 1),
             l7_durable := map_option (\<lambda>d. PutL7Touches accepts d ws) (l7_durable s)\<rparr>)"

text \<open>The reaper drops what was last seen before the cutoff, in memory and in the durable copy.\<close>

definition reap_scope :: "duration \<Rightarrow> time \<Rightarrow> touch_records \<Rightarrow> touch_records" where
  "reap_scope ttl now rs = filter (\<lambda>(k, r). \<not> tr_LastSeen r < now - ttl) rs"

definition stale_keys :: "duration \<Rightarrow> time \<Rightarrow> touch_records \<Rightarrow> string list" where
  "stale_keys ttl now rs = map fst (filter (\<lambda>(k, r). tr_LastSeen r < now - ttl) rs)"

definition l7_Reap :: "(string \<Rightarrow> bool) \<Rightarrow> ScopeKey list \<Rightarrow> l7_Store \<Rightarrow> time \<Rightarrow> nat \<times> l7_Store" where
  "l7_Reap accepts scopes s now =
     (let stale = (\<lambda>sc. stale_keys (l7_ttl s) now (l7_byScope s sc));
          removed = sum_list (map (length \<circ> stale) scopes)
      in (removed,
          s\<lparr>l7_byScope := (\<lambda>sc. if sc \<in> set scopes then reap_scope (l7_ttl s) now (l7_byScope s sc) else l7_byScope s sc),
            l7_evicted := l7_evicted s + removed,
            l7_durable := map_option (\<lambda>d. foldl (\<lambda>d sc. PutL7Touches accepts d (map (DeleteTouch sc) (stale sc))) d scopes) (l7_durable s)\<rparr>))"

text \<open>
  Opening the store reads the durable copy back; \<open>keys\<close> lists the keys of a scope's bucket, in key order.
\<close>

definition l7_New :: "(ScopeKey \<Rightarrow> string list) \<Rightarrow> (ScopeKey \<Rightarrow> string \<rightharpoonup> EnrichedTouchRecord) option \<Rightarrow> l7_Store" where
  "l7_New keys durable =
     \<lparr>l7_byScope = (case durable of None \<Rightarrow> (\<lambda>_. [])
        | Some d \<Rightarrow> (\<lambda>sc. map (\<lambda>k. (k, the (d sc k))) (filter (\<lambda>k. k \<noteq> [] \<and> d sc k \<noteq> None) (keys sc)))),
      l7_durable = durable, l7_cap = touchCapDefault, l7_ttl = touchTTLDefault, l7_evicted = 0\<rparr>"

definition l7_Snapshot :: "l7_Store \<Rightarrow> ScopeKey \<Rightarrow> EnrichedTouchRecord list" where
  "l7_Snapshot s scope = map snd (l7_byScope s scope)"

definition LookupByCookie :: "l7_Store \<Rightarrow> ScopeKey \<Rightarrow> u64 \<Rightarrow> EnrichedTouchRecord list" where
  "LookupByCookie s scope cookie = filter (\<lambda>r. tr_SocketCookie r = cookie) (l7_Snapshot s scope)"

section \<open>What a query returns\<close>

text \<open>The reference: the in-window events of the recent log in order, each with its latest outcome.\<close>

definition recent_log :: "event_Store \<Rightarrow> ScopeKey \<Rightarrow> blob list" where
  "recent_log s scope = (let l = es_log s scope in drop (length l - 4096) l)"

fun window_events :: "time \<Rightarrow> time \<Rightarrow> blob list \<Rightarrow> AdversaryInteractionEvent list" where
  "window_events since until [] = []"
| "window_events since until (EventBlob ev # bs) =
     (if since \<le> ie_Timestamp ev \<and> ie_Timestamp ev \<le> until then ev # window_events since until bs else window_events since until bs)"
| "window_events since until (_ # bs) = window_events since until bs"

fun outcomes_for :: "u64 \<Rightarrow> int \<Rightarrow> blob list \<Rightarrow> intel_Sting list" where
  "outcomes_for c ms [] = []"
| "outcomes_for c ms (OutcomeBlob r # bs) =
     (if ocr_SocketCookie r = c \<and> ocr_TimestampMs r = ms then ocr_Sting r # outcomes_for c ms bs else outcomes_for c ms bs)"
| "outcomes_for c ms (_ # bs) = outcomes_for c ms bs"

definition with_latest :: "blob list \<Rightarrow> AdversaryInteractionEvent \<Rightarrow> AdversaryInteractionEvent" where
  "with_latest bs ev =
     (let os = outcomes_for (ie_FlowID ev) (UnixMilli (ie_Timestamp ev)) bs in if os = [] then ev else ev\<lparr>ie_Sting := last os\<rparr>)"

lemma window_events_append: "window_events a b (xs @ ys) = window_events a b xs @ window_events a b ys"
  by (induction a b xs rule: window_events.induct) auto

lemma window_events_rev: "window_events a b (rev xs) = rev (window_events a b xs)"
  by (induction a b xs rule: window_events.induct) (auto simp: window_events_append)

lemma outcomes_for_append: "outcomes_for c ms (xs @ ys) = outcomes_for c ms xs @ outcomes_for c ms ys"
  by (induction c ms xs rule: outcomes_for.induct) auto

lemma outcomes_for_rev: "outcomes_for c ms (rev xs) = rev (outcomes_for c ms xs)"
  by (induction c ms xs rule: outcomes_for.induct) (auto simp: outcomes_for_append)

lemma window_events_mem:
  "ev \<in> set (window_events a b bs) \<longleftrightarrow> EventBlob ev \<in> set bs \<and> a \<le> ie_Timestamp ev \<and> ie_Timestamp ev \<le> b"
  by (induction a b bs rule: window_events.induct) auto

lemma query_scan:
  "foldl (query_blob a b) (out, ocs, bad) bs =
     (out @ window_events a b bs,
      (\<lambda>(c, ms). case ocs (c, ms) of Some x \<Rightarrow> Some x
         | None \<Rightarrow> if UnixMilli a \<le> ms \<and> ms \<le> UnixMilli b \<and> outcomes_for c ms bs \<noteq> [] then Some (hd (outcomes_for c ms bs)) else None),
      bad + count_list bs BadBlob)"
proof (induction bs arbitrary: out ocs bad)
  case Nil
  show ?case by (auto simp: fun_eq_iff split: option.splits)
next
  case (Cons x bs)
  show ?case
  proof (cases x)
    case (OutcomeBlob r)
    with Cons show ?thesis by (auto simp: fun_eq_iff Let_def split: option.splits)
  qed (use Cons in \<open>auto simp: fun_eq_iff split: option.splits\<close>)
qed

lemma UnixMilli_mono: "a \<le> b \<Longrightarrow> UnixMilli a \<le> UnixMilli b"
  by (simp add: UnixMilli_def zdiv_mono1)

lemma Query_spec:
  assumes "scope \<noteq> []"
  shows "fst (Query s scope since until) =
    Inr (map (with_latest (recent_log s scope)) (window_events since until (recent_log s scope)))"
proof -
  have r: "RangeEventsRecent s scope recentScanCap = rev (recent_log s scope)"
    by (simp add: RangeEventsRecent_def recentScanCap_def recent_log_def Let_def take_rev)
  define L where "L = recent_log s scope"
  obtain out ocs bad where scan: "foldl (query_blob since until) ([], Map.empty, 0) (rev L) = (out, ocs, bad)" by (metis prod_cases3)
  from query_scan[of since until "[]" Map.empty 0 "rev L"] scan
  have out: "out = rev (window_events since until L)"
    and ocs0: "ocs = (\<lambda>(c, ms). if UnixMilli since \<le> ms \<and> ms \<le> UnixMilli until \<and> outcomes_for c ms (rev L) \<noteq> [] then Some (hd (outcomes_for c ms (rev L))) else None)"
    by (simp_all add: window_events_rev cong: if_cong)
  have ocs: "ocs (c, ms) = (if UnixMilli since \<le> ms \<and> ms \<le> UnixMilli until \<and> outcomes_for c ms L \<noteq> [] then Some (last (outcomes_for c ms L)) else None)" for c ms
    unfolding ocs0 by (simp add: outcomes_for_rev hd_rev)
  have "merge_outcome ocs ev = with_latest L ev" if "ev \<in> set (window_events since until L)" for ev
    using that UnixMilli_mono[of since "ie_Timestamp ev"] UnixMilli_mono[of "ie_Timestamp ev" until]
    by (simp add: merge_outcome_def with_latest_def ocs window_events_mem Let_def)
  with assms show ?thesis by (simp add: Query_def r L_def[symmetric] scan out Let_def)
qed

text \<open>The invariant of the log: an event lies in the log of its own scope, and nothing is unscoped.\<close>

definition log_ok :: "event_Store \<Rightarrow> bool" where
  "log_ok s \<longleftrightarrow> (\<forall>scope ev. EventBlob ev \<in> set (es_log s scope) \<longrightarrow> ie_ScopeKey ev = scope)"

lemma event_Append_ok [inv_intros]: "log_ok s \<Longrightarrow> log_ok (snd (event_Append s ev))"
  by (auto simp: log_ok_def event_Append_def AppendEvent_def)

lemma CaptureVerdict_ok [inv_intros]: "log_ok s \<Longrightarrow> log_ok (snd (CaptureVerdict s ev v f))"
  by (auto simp: CaptureVerdict_def intro: event_Append_ok)

lemma AmendOutcome_ok [inv_intros]: "log_ok s \<Longrightarrow> log_ok (snd (AmendOutcome s r))"
  by (auto simp: log_ok_def AmendOutcome_def AppendEvent_def)

lemma Query_ok [inv_intros]: "log_ok s \<Longrightarrow> log_ok (snd (Query s scope a b))"
  by (auto simp: log_ok_def Query_def split: prod.splits)

lemma Query_log: "es_log (snd (Query s scope a b)) = es_log s"
  by (simp add: Query_def split: prod.split)

lemma with_latest_sel [simp]:
  "ie_ScopeKey (with_latest bs ev) = ie_ScopeKey ev" "ie_FlowID (with_latest bs ev) = ie_FlowID ev"
  "ie_Timestamp (with_latest bs ev) = ie_Timestamp ev" "ie_CanaryType (with_latest bs ev) = ie_CanaryType ev"
  by (simp_all add: with_latest_def Let_def)

lemma window_event_local:
  assumes "log_ok s" "e \<in> set (window_events since until (recent_log s scope))"
  shows "ie_ScopeKey e = scope \<and> since \<le> ie_Timestamp e \<and> ie_Timestamp e \<le> until"
proof -
  from assms(2) have "EventBlob e \<in> set (es_log s scope)" "since \<le> ie_Timestamp e" "ie_Timestamp e \<le> until"
    by (auto simp: window_events_mem recent_log_def Let_def dest: in_set_dropD)
  with assms(1) show ?thesis by (simp add: log_ok_def)
qed

text \<open>
  What the matchers rely on in a source of events: a query stays within its scope and its window.
\<close>

locale event_source =
  fixes query :: "'s \<Rightarrow> ScopeKey \<Rightarrow> time \<Rightarrow> time \<Rightarrow> 'e + AdversaryInteractionEvent list" and inv :: "'s \<Rightarrow> bool"
  assumes query_scoped: "inv s \<Longrightarrow> query s scope since until = Inr es \<Longrightarrow> e \<in> set es \<Longrightarrow>
    ie_ScopeKey e = scope \<and> since \<le> ie_Timestamp e \<and> ie_Timestamp e \<le> until"
begin

definition flow_events :: "'s \<Rightarrow> ScopeKey \<Rightarrow> u64 \<Rightarrow> time \<Rightarrow> time \<Rightarrow> AdversaryInteractionEvent list" where
  "flow_events s scope c since until = (case query s scope since until of Inl _ \<Rightarrow> [] | Inr es \<Rightarrow> filter (\<lambda>e. ie_FlowID e = c) es)"

lemma flow_events_local:
  assumes "inv s" "e \<in> set (flow_events s scope c since until)"
  shows "ie_ScopeKey e = scope" "ie_FlowID e = c" "since \<le> ie_Timestamp e" "ie_Timestamp e \<le> until"
proof -
  from assms(2) obtain es where "query s scope since until = Inr es" "e \<in> set es" "ie_FlowID e = c"
    by (cases "query s scope since until") (auto simp: flow_events_def)
  with query_scoped[OF assms(1), of scope since until es e]
  show "ie_ScopeKey e = scope" "ie_FlowID e = c" "since \<le> ie_Timestamp e" "ie_Timestamp e \<le> until" by simp_all
qed

end

interpretation bolt_events: event_source "\<lambda>s scope a b. fst (Query s scope a b)" log_ok
proof unfold_locales
  fix s scope since until es e
  assume ok: "log_ok s" and q: "fst (Query s scope since until) = Inr es" and e: "e \<in> set es"
  have "scope \<noteq> []" using q by (auto simp: Query_def)
  with q e obtain ev where ev: "e = with_latest (recent_log s scope) ev" "ev \<in> set (window_events since until (recent_log s scope))"
    by (auto simp: Query_spec)
  with window_event_local[OF ok] show "ie_ScopeKey e = scope \<and> since \<le> ie_Timestamp e \<and> ie_Timestamp e \<le> until"
    by simp
qed



definition demo_event :: AdversaryInteractionEvent where
  "demo_event = \<lparr>ie_ScopeKey = ''s'', ie_FlowID = 7, ie_CanaryType = ''aws-key'', ie_Timestamp = unix_epoch + 5000000, ie_Features = None,
     ie_Tier = 3, ie_Verdict = ''jail'', ie_Score = 0, ie_Sting = zero_sting\<rparr>"

definition demo_event_store :: event_Store where
  "demo_event_store = \<lparr>es_log = (\<lambda>_. [])(''s'' := [EventBlob demo_event,
       OutcomeBlob \<lparr>ocr_SocketCookie = 7, ocr_TimestampMs = 5, ocr_Sting = zero_sting\<lparr>is_BytesServed := 10\<rparr>\<rparr>, BadBlob,
       OutcomeBlob \<lparr>ocr_SocketCookie = 7, ocr_TimestampMs = 5, ocr_Sting = zero_sting\<lparr>is_BytesServed := 20\<rparr>\<rparr>]),
     es_readOnly = False, es_decodeErrors = 0\<rparr>"

section \<open>The touch store\<close>

definition records_ok :: "int \<Rightarrow> touch_records \<Rightarrow> bool" where
  "records_ok c rs \<longleftrightarrow> distinct (map fst rs) \<and> int (length rs) \<le> c \<and> [] \<notin> fst ` set rs"

definition touches_ok :: "l7_Store \<Rightarrow> bool" where
  "touches_ok s \<longleftrightarrow> 0 < l7_cap s \<and> (\<forall>sc. records_ok (l7_cap s) (l7_byScope s sc)) \<and> l7_byScope s [] = [] \<and>
     (\<forall>d. l7_durable s = Some d \<longrightarrow> (\<forall>sc. d sc = map_of (l7_byScope s sc)))"

lemma touchKey_ne: "touchKey c m p \<noteq> []"
  by (simp add: touchKey_def)

lemma oldest_record_mem:
  "oldest_record rs best = Some v \<Longrightarrow> v \<in> fst ` set rs \<or> map_option fst best = Some v"
  by (induction rs best rule: oldest_record.induct) (auto split: option.splits if_splits)

lemma oldest_record_None: "oldest_record rs best = None \<longleftrightarrow> rs = [] \<and> best = None"
  by (induction rs best rule: oldest_record.induct) (auto split: option.splits)

lemma length_delete_less: "k \<in> fst ` set xs \<Longrightarrow> length (AList.delete k xs) < length xs"
proof (induction xs)
  case (Cons x xs)
  show ?case
  proof (cases "fst x = k")
    case True
    have "length (AList.delete k xs) \<le> length xs" by (simp add: AList.delete_eq)
    with True show ?thesis by (cases x) (simp add: less_Suc_eq_le)
  next
    case False
    with Cons show ?thesis by (auto simp: AList.delete_eq)
  qed
qed simp

lemma set_delete_subset: "set (AList.delete k xs) \<subseteq> set xs"
  by (auto simp: AList.delete_eq)

lemma evictOldestIfFull_cases:
  assumes "enumeration perm" "0 < c" "evictOldestIfFull perm rs c = (ek, rs')" "distinct (map fst rs)" "int (length rs) \<le> c"
  shows "int (length rs') < c" "distinct (map fst rs')" "set rs' \<subseteq> set rs"
    "map_of rs' = (case ek of None \<Rightarrow> map_of rs | Some v \<Rightarrow> (map_of rs)(v := None))"
proof -
  have "int (length rs') < c \<and> rs' = (case ek of None \<Rightarrow> rs | Some v \<Rightarrow> AList.delete v rs)"
  proof (cases "int (length rs) < c")
    case True
    with assms(2,3) show ?thesis by (auto simp: evictOldestIfFull_def)
  next
    case False
    with assms(1,2) have "perm rs \<noteq> []" using enumeration_length[of perm rs] by auto
    then obtain v where v: "oldest_record (perm rs) None = Some v" using oldest_record_None[of "perm rs" None] by auto
    with oldest_record_mem[OF v] assms(1) have "v \<in> fst ` set rs" by (simp add: enumeration_set)
    then have "length (AList.delete v rs) < length rs" by (rule length_delete_less)
    with False v assms(2,3,5) show ?thesis by (cases ek) (simp_all add: evictOldestIfFull_def)
  qed
  then have l: "int (length rs') < c" and rs': "rs' = (case ek of None \<Rightarrow> rs | Some v \<Rightarrow> AList.delete v rs)" by auto
  from l show "int (length rs') < c" .
  show "distinct (map fst rs')" "set rs' \<subseteq> set rs" "map_of rs' = (case ek of None \<Rightarrow> map_of rs | Some v \<Rightarrow> (map_of rs)(v := None))"
    unfolding rs' using assms(4) set_delete_subset[of "the ek" rs] by (cases ek; simp add: AList.delete_conv' distinct_delete)+
qed

lemma foldl_delete_touch:
  "foldl apply_touch_write d (map (DeleteTouch sc) ks) = d(sc := (d sc) |` (- set ks))"
  by (induction ks arbitrary: d) (auto simp: fun_eq_iff restrict_map_def)

lemma l7_Capture_ok [inv_intros]:
  assumes ok: "touches_ok s" and perm: "enumeration perm" and acc: "accepts (touchKey cookie (l7_Method l7) (l7_Path l7))"
  shows "touches_ok (l7_Capture perm accepts s scope cookie canary v l7 feats now)"
proof (cases "v_Tier v < TierTag \<or> scope = []")
  case True
  with ok show ?thesis by (auto simp: l7_Capture_def)
next
  case False
  define key where "key = touchKey cookie (l7_Method l7) (l7_Path l7)"
  define rs where "rs = l7_byScope s scope"
  have rs: "distinct (map fst rs)" "int (length rs) \<le> l7_cap s" "0 < l7_cap s" "[] \<notin> fst ` set rs"
    "\<And>d. l7_durable s = Some d \<Longrightarrow> d scope = map_of rs"
    using ok by (auto simp: touches_ok_def records_ok_def rs_def)
  obtain ek rs1 r where step: "upsert_touch perm rs (l7_cap s) key (\<lambda>r. hit_touch r v feats now) (new_touch scope cookie canary v l7 feats now) = (ek, rs1, r)"
    by (metis prod_cases3)
  have s': "l7_Capture perm accepts s scope cookie canary v l7 feats now =
      s\<lparr>l7_byScope := (l7_byScope s)(scope := AList.update key r rs1), l7_evicted := l7_evicted s + (if ek = None then 0 else 1),
        l7_durable := map_option (\<lambda>d. PutL7Touches accepts d ((case ek of None \<Rightarrow> [] | Some ek \<Rightarrow> [DeleteTouch scope ek]) @ [PutTouch scope key r])) (l7_durable s)\<rparr>"
    using False step[unfolded key_def rs_def] by (simp add: l7_Capture_def key_def Let_def)
  have one: "distinct (map fst rs1) \<and> set rs1 \<subseteq> set rs \<and> int (length (AList.update key r rs1)) \<le> l7_cap s \<and>
      map_of rs1 = (case ek of None \<Rightarrow> map_of rs | Some v \<Rightarrow> (map_of rs)(v := None))"
  proof (cases "map_of rs key")
    case None
    with step have e: "evictOldestIfFull perm rs (l7_cap s) = (ek, rs1)" by (auto simp: upsert_touch_def prod_eq_iff)
    from evictOldestIfFull_cases[OF perm rs(3) e rs(1,2)] length_AList_update_le[of key r rs1] show ?thesis by simp
  next
    case (Some r0)
    then have "key \<in> fst ` set rs" by (force dest: map_of_SomeD)
    with Some step rs(1,2) show ?thesis by (auto simp: upsert_touch_def length_AList_update)
  qed
  have d: "PutL7Touches accepts d ((case ek of None \<Rightarrow> [] | Some ek \<Rightarrow> [DeleteTouch scope ek]) @ [PutTouch scope key r]) =
      d(scope := map_of (AList.update key r rs1))" if "l7_durable s = Some d" for d
    using one False acc rs(5)[OF that] by (cases ek) (auto simp: PutL7Touches_def key_def update_conv')
  have "[] \<notin> fst ` set (AList.update key r rs1)"
    using one rs(4) touchKey_ne[of cookie "l7_Method l7" "l7_Path l7"] unfolding AList_update_keys key_def by fastforce
  with one have "records_ok (l7_cap s) (AList.update key r rs1)" by (simp add: records_ok_def distinct_update)
  with ok False d show ?thesis unfolding s' by (auto simp: touches_ok_def)
qed

lemma reap_durable:
  assumes "[] \<notin> set scopes" "distinct scopes"
  shows "foldl (\<lambda>d sc. PutL7Touches accepts d (map (DeleteTouch sc) (stale sc))) d scopes =
    (\<lambda>sc. if sc \<in> set scopes then d sc |` (- set (stale sc)) else d sc)"
  using assms
proof (induction scopes arbitrary: d)
  case (Cons sc scopes)
  have "list_all (write_ok accepts) (map (DeleteTouch sc) (stale sc))" using Cons.prems by (auto simp: list_all_iff)
  with Cons show ?case by (auto simp: PutL7Touches_def foldl_delete_touch fun_eq_iff)
qed simp

lemma map_of_filter_restrict:
  "distinct (map fst xs) \<Longrightarrow> map_of (filter P xs) = map_of xs |` (- fst ` {x \<in> set xs. \<not> P x})"
proof (induction xs)
  case (Cons x xs)
  obtain k v where x: "x = (k, v)" by (cases x)
  show ?case
  proof (cases "P x")
    case True
    with Cons show ?thesis by (force simp: x fun_eq_iff restrict_map_def)
  next
    case False
    with Cons have "map_of xs k = None" by (simp add: x map_of_eq_None_iff)
    with False Cons show ?thesis by (force simp: x fun_eq_iff restrict_map_def)
  qed
qed simp

lemma reap_scope_records: "records_ok c rs \<Longrightarrow> records_ok c (reap_scope ttl now rs)"
  by (auto simp: records_ok_def reap_scope_def distinct_map_filter intro: order_trans[OF of_nat_mono[OF length_filter_le]])

lemma reap_scope_map: "records_ok c rs \<Longrightarrow> map_of rs |` (- set (stale_keys ttl now rs)) = map_of (reap_scope ttl now rs)"
  by (simp add: reap_scope_def stale_keys_def map_of_filter_restrict records_ok_def case_prod_unfold)

lemma l7_Reap_ok [inv_intros]:
  assumes ok: "touches_ok s" and scopes: "[] \<notin> set scopes" "distinct scopes"
  shows "touches_ok (snd (l7_Reap accepts scopes s now))"
proof -
  have r: "records_ok (l7_cap s) (l7_byScope s sc)" for sc using ok by (simp add: touches_ok_def)
  have "foldl (\<lambda>d sc. PutL7Touches accepts d (map (DeleteTouch sc) (stale_keys (l7_ttl s) now (l7_byScope s sc)))) d scopes sc =
      map_of (if sc \<in> set scopes then reap_scope (l7_ttl s) now (l7_byScope s sc) else l7_byScope s sc)"
    if "l7_durable s = Some d" for d sc
    using ok that scopes by (auto simp: reap_durable reap_scope_map[OF r] touches_ok_def)
  with ok scopes show ?thesis
    by (auto simp: l7_Reap_def Let_def touches_ok_def intro: reap_scope_records)
qed

text \<open>A history of the store: touches and reaper runs.\<close>

datatype touch_op = Touch ScopeKey u64 CanaryType Verdict L7Context feature_map time | ReapAt "ScopeKey list" time

fun touch_step :: "(touch_records \<Rightarrow> touch_records) \<Rightarrow> (string \<Rightarrow> bool) \<Rightarrow> l7_Store \<Rightarrow> touch_op \<Rightarrow> l7_Store" where
  "touch_step perm accepts s (Touch scope cookie canary v l7 feats now) = l7_Capture perm accepts s scope cookie canary v l7 feats now"
| "touch_step perm accepts s (ReapAt scopes now) = snd (l7_Reap accepts scopes s now)"

fun op_ok :: "(string \<Rightarrow> bool) \<Rightarrow> touch_op \<Rightarrow> bool" where
  "op_ok accepts (Touch scope cookie canary v l7 feats now) = accepts (touchKey cookie (l7_Method l7) (l7_Path l7))"
| "op_ok accepts (ReapAt scopes now) = ([] \<notin> set scopes \<and> distinct scopes)"

lemma touch_step_ok [inv_intros]:
  "touches_ok s \<Longrightarrow> enumeration perm \<Longrightarrow> op_ok accepts op \<Longrightarrow> touches_ok (touch_step perm accepts s op)"
  by (cases op) (auto intro: l7_Capture_ok l7_Reap_ok)

lemma touch_steps_ok:
  "touches_ok s \<Longrightarrow> enumeration perm \<Longrightarrow> list_all (op_ok accepts) ops \<Longrightarrow> touches_ok (foldl (touch_step perm accepts) s ops)"
  by (induction ops arbitrary: s) (auto intro: touch_step_ok)

lemma touch_step_durable: "(l7_durable (touch_step perm accepts s op) = None) = (l7_durable s = None)"
  by (cases op) (auto simp: l7_Capture_def l7_Reap_def Let_def split: prod.splits)

lemma touch_steps_durable: "(l7_durable (foldl (touch_step perm accepts) s ops) = None) = (l7_durable s = None)"
  by (induction ops arbitrary: s) (auto simp: touch_step_durable)

lemma l7_New_map:
  assumes "touches_ok s" "l7_durable s = Some d" "distinct (keys sc)" "set (keys sc) = dom (d sc)"
  shows "map_of (l7_byScope (l7_New keys (Some d)) sc) = map_of (l7_byScope s sc)"
    and "distinct (map fst (l7_byScope (l7_New keys (Some d)) sc))"
proof -
  have m: "d sc = map_of (l7_byScope s sc)" and ne: "d sc [] = None"
    using assms(1,2) by (auto simp: touches_ok_def records_ok_def map_of_eq_None_iff)
  have f: "filter (\<lambda>k. k \<noteq> [] \<and> d sc k \<noteq> None) (keys sc) = keys sc"
    using assms(4) ne by (auto simp: filter_id_conv dom_def)
  show "distinct (map fst (l7_byScope (l7_New keys (Some d)) sc))" unfolding l7_New_def using f assms(3) by (simp add: comp_def)
  show "map_of (l7_byScope (l7_New keys (Some d)) sc) = map_of (l7_byScope s sc)"
    unfolding l7_New_def m[symmetric] l7_Store.simps option.case f using assms(4)
    by (auto simp: fun_eq_iff map_of_map_restrict restrict_map_def dom_def)
qed

lemma distinct_map_of_mset:
  assumes "distinct (map fst xs)" "distinct (map fst ys)" "map_of xs = map_of ys"
  shows "mset xs = mset ys"
proof -
  have "set xs = set ys" using assms by (metis map_of_eqI map_of_inject_set)
  then show ?thesis using assms by (meson distinct_map set_eq_iff_mset_eq_distinct)
qed

text \<open>
  The touch store is bounded and its durable copy is its memory. After any history of touches and
  reaper runs whose keys the database takes, every scope holds at most the cap's number of records,
  each under its own key, and opening the store again from the durable copy gives every scope the same
  records it had.
\<close>

theorem touch_store_restart:
  assumes "touches_ok s" "enumeration perm" "list_all (op_ok accepts) ops"
    and "l7_durable (foldl (touch_step perm accepts) s ops) = Some d"
    and "\<forall>sc. distinct (keys sc) \<and> set (keys sc) = dom (d sc)"
  shows "let s' = foldl (touch_step perm accepts) s ops
    in (\<forall>sc. int (length (l7_Snapshot s' sc)) \<le> l7_cap s') \<and>
       (\<forall>sc. mset (l7_Snapshot (l7_New keys (Some d)) sc) = mset (l7_Snapshot s' sc))"
proof -
  define s' where "s' = foldl (touch_step perm accepts) s ops"
  have ok: "touches_ok s'" unfolding s'_def by (rule touch_steps_ok[OF assms(1-3)])
  have "mset (l7_byScope (l7_New keys (Some d)) sc) = mset (l7_byScope s' sc)" for sc
    by (rule distinct_map_of_mset)
       (use l7_New_map[OF ok assms(4)[folded s'_def], of keys sc] assms(5) ok in \<open>auto simp: touches_ok_def records_ok_def\<close>)
  then have "mset (l7_Snapshot (l7_New keys (Some d)) sc) = mset (l7_Snapshot s' sc)" for sc
    by (simp add: l7_Snapshot_def)
  moreover have "int (length (l7_Snapshot s' sc)) \<le> l7_cap s'" for sc
    using ok by (simp add: touches_ok_def records_ok_def l7_Snapshot_def)
  ultimately show ?thesis unfolding s'_def Let_def by blast
qed

definition demo_touch_flow :: FlowIdentity where
  "demo_touch_flow = \<lparr>SocketCookie = 7, CgroupID = 0, PID = 0, SPIFFEID = [], L7Attributes = Map.empty\<rparr>"

definition demo_l7 :: L7Context where
  "demo_l7 = \<lparr>l7_SourceAddress = ''10.0.0.9'', l7_Method = ''GET'', l7_Path = ''/.env'', l7_SPIFFEID = []\<rparr>"

definition demo_touch_verdict :: Verdict where
  "demo_touch_verdict = \<lparr>v_Flow = demo_touch_flow, v_Scope = ''s'', v_Tier = TierTag, v_Mode = ModeAsync, v_Score = 0, v_Calibrated = False\<rparr>"

definition demo_record :: EnrichedTouchRecord where
  "demo_record = new_touch ''s'' 7 ''aws-key'' demo_touch_verdict demo_l7 None 5"

definition demo_key :: string where "demo_key = touchKey 7 ''GET'' ''/.env''"

definition demo_l7_store :: l7_Store where
  "demo_l7_store = l7_New (\<lambda>_. []) (Some (\<lambda>_. Map.empty))"

theorem touch_store_restart_witness:
  "let s' = foldl (touch_step rev (\<lambda>_. True)) demo_l7_store [Touch ''s'' 7 ''aws-key'' demo_touch_verdict demo_l7 None 5];
       d = (\<lambda>_. Map.empty)(''s'' := [demo_key \<mapsto> demo_record]);
       keys = (\<lambda>sc. if sc = ''s'' then [demo_key] else [])
   in l7_durable s' = Some d \<and> l7_Snapshot s' ''s'' = [demo_record] \<and>
      mset (l7_Snapshot (l7_New keys (Some d)) ''s'') = mset (l7_Snapshot s' ''s'')"
proof -
  define ops where "ops = [Touch ''s'' 7 ''aws-key'' demo_touch_verdict demo_l7 None 5]"
  define d where "d = (\<lambda>_::ScopeKey. Map.empty)(''s'' := [demo_key \<mapsto> demo_record])"
  define keys where "keys = (\<lambda>sc::ScopeKey. if sc = ''s'' then [demo_key] else [])"
  have s': "foldl (touch_step rev (\<lambda>_. True)) demo_l7_store ops =
      demo_l7_store\<lparr>l7_byScope := (\<lambda>_. [])(''s'' := [(demo_key, demo_record)]), l7_durable := Some d\<rparr>"
    by (simp add: ops_def d_def demo_l7_store_def l7_New_def l7_Capture_def upsert_touch_def evictOldestIfFull_def touchCapDefault_def
        PutL7Touches_def Let_def demo_touch_verdict_def demo_key_def demo_record_def demo_l7_def)
  have "touches_ok demo_l7_store"
    by (simp add: demo_l7_store_def l7_New_def touches_ok_def records_ok_def touchCapDefault_def)
  moreover have "list_all (op_ok (\<lambda>_. True)) ops" by (simp add: ops_def)
  moreover have "l7_durable (foldl (touch_step rev (\<lambda>_. True)) demo_l7_store ops) = Some d" by (simp add: s')
  moreover have "\<forall>sc. distinct (keys sc) \<and> set (keys sc) = dom (d sc)" by (simp add: keys_def d_def)
  ultimately have "\<forall>sc. mset (l7_Snapshot (l7_New keys (Some d)) sc) = mset (l7_Snapshot (foldl (touch_step rev (\<lambda>_. True)) demo_l7_store ops) sc)"
    using touch_store_restart[of demo_l7_store rev "\<lambda>_. True" ops d keys, OF _ enumeration_rev] by (simp add: Let_def)
  then have "mset (l7_Snapshot (l7_New keys (Some d)) ''s'') = mset (l7_Snapshot (foldl (touch_step rev (\<lambda>_. True)) demo_l7_store ops) ''s'')" ..
  then show ?thesis unfolding Let_def ops_def[symmetric] keys_def[symmetric] d_def[symmetric]
    by (simp only: s') (simp add: l7_Snapshot_def)
qed

end
