(* ===== verification/Egress.thy ===== *)
theory Egress
  imports Contract GoStrings
begin

text \<open>
  The egress chokepoint of \<^verbatim>\<open>internal/intelligence/network\<close>: the default-deny filter over tagged export
  structs (\<^verbatim>\<open>filter.go\<close>, \<^verbatim>\<open>justify.go\<close>, \<^verbatim>\<open>block.go\<close>, \<^verbatim>\<open>reidentify.go\<close>), the cross-scope ledger that counts how many
  scopes corroborate a pattern (\<^verbatim>\<open>ledger.go\<close>), the inbound mirror (\<^verbatim>\<open>shared.go\<close>), the aggregated read view
  (\<^verbatim>\<open>aggregate.go\<close>) and the feed built on it. The theorems: what clears is coarse field by field and
  nothing is dropped silently; the ledger counts distinct scopes; what crosses parses back to what was
  cleared. Two theorems state where the coarseness check falls short.
\<close>

section \<open>Reflection\<close>

text \<open>
  What \<^verbatim>\<open>reflect\<close> shows of a type and of a value. A type is a finite tree (no Go type that embeds a
  pointer to itself); a struct tag is the list of its key-value pairs, which is what \<^verbatim>\<open>Lookup\<close> reads.
\<close>

datatype kind =
  KInvalid | KBool | KInt | KInt8 | KInt16 | KInt32 | KInt64 | KUint | KUint8 | KUint16 | KUint32 | KUint64
| KUintptr | KFloat32 | KFloat64 | KComplex64 | KComplex128 | KArray | KChan | KFunc | KInterface | KMap
| KPtr | KSlice | KString | KStruct | KUnsafePointer

type_synonym StructTag = "(string \<times> string) list"

record StructField =
  sf_Name :: string
  sf_PkgPath :: string
  sf_Anonymous :: bool
  sf_Tag :: StructTag

datatype rtype = RType (rt_Kind: kind) (rt_PkgPath: string) (rt_Name: string) (rt_Elem: "rtype option")
  (rt_Fields: "(StructField \<times> rtype) list")

datatype rvalue = VBool bool | VInt int | VUint int | VString string | VStruct "rvalue list"
  | VPtr "rvalue option" | VOther

fun value_Bool :: "rvalue \<Rightarrow> bool" where "value_Bool (VBool b) = b" | "value_Bool _ = False"
fun value_Int :: "rvalue \<Rightarrow> int" where "value_Int (VInt i) = i" | "value_Int _ = 0"
fun value_Uint :: "rvalue \<Rightarrow> int" where "value_Uint (VUint i) = i" | "value_Uint _ = 0"
fun value_String :: "rvalue \<Rightarrow> string" where "value_String (VString s) = s" | "value_String _ = []"
fun value_Fields :: "rvalue \<Rightarrow> rvalue list" where "value_Fields (VStruct vs) = vs" | "value_Fields _ = []"

datatype egress_error =
  NilCandidate | NotOptedIn | SubK nat | SubKClaim int | CountTripwire int | NoLedger | NilExport | NotAStruct kind | NoFields
| DenylistedType string string | TimestampType string string | PermanentlyBlocked string | NotMarkedSafe string
| IdentityNamed string | NotClosedEnum string string | NoBand string | NotCoarse string int int
| OutsideBand string int int int | KindDenied string kind | CarrierBreach string | FormOnly
| NilLedger | LedgerSalt error | NoEnrollment | NotAggregator | NotEnrolled

section \<open>Field justification\<close>

definition tagKey :: string where "tagKey = ''egress''"
definition maxBandSpan :: int where "maxBandSpan = 256"
definition aggregationK :: nat where "aggregationK = 3"

definition isBandedKind :: "kind \<Rightarrow> bool" where
  "isBandedKind k \<longleftrightarrow> k \<in> {KInt, KInt8, KInt16, KInt32, KInt64, KUint, KUint8, KUint16, KUint32, KUint64}"

definition isUintKind :: "kind \<Rightarrow> bool" where
  "isUintKind k \<longleftrightarrow> k \<in> {KUint, KUint8, KUint16, KUint32, KUint64}"

definition safeKind :: "kind \<Rightarrow> bool" where
  "safeKind k \<longleftrightarrow> k = KBool \<or> isBandedKind k"

definition numericAsInt64 :: "kind \<Rightarrow> rvalue \<Rightarrow> int" where
  "numericAsInt64 k v = (if isUintKind k then (let u = value_Uint v in if 2 ^ 62 < u then 2 ^ 62 else u) else value_Int v)"

definition parseSafeTag :: "StructTag \<Rightarrow> string option" where
  "parseSafeTag tag =
     (case map_of tag tagKey of
        None \<Rightarrow> None
      | Some v \<Rightarrow> let p = ''safe,'' in
          if length v \<le> length p \<or> take (length p) v \<noteq> p then None else Some (drop (length p) v))"

fun parseBand_loop :: "string list \<Rightarrow> (int \<times> int) option" where
  "parseBand_loop [] = None"
| "parseBand_loop (part # parts) =
     (case CutPrefix (TrimSpace part) ''band='' of
        None \<Rightarrow> parseBand_loop parts
      | Some spec \<Rightarrow>
         (case Cut spec ''..'' of
            None \<Rightarrow> None
          | Some (l, h) \<Rightarrow>
             (case (ParseInt (TrimSpace l), ParseInt (TrimSpace h)) of
                (Some lo, Some hi) \<Rightarrow> Some (lo, hi)
              | _ \<Rightarrow> None)))"

definition parseBand :: "StructTag \<Rightarrow> (int \<times> int) option" where
  "parseBand tag = (case map_of tag tagKey of None \<Rightarrow> None | Some v \<Rightarrow> parseBand_loop (Split v (CHR '','')))"

definition isBlockedTag :: "StructTag \<Rightarrow> bool" where
  "isBlockedTag tag =
     (case map_of tag tagKey of
        None \<Rightarrow> False
      | Some v \<Rightarrow> length ''blocked,'' \<le> length v \<and> take (length ''blocked,'') v = ''blocked,'')"

definition enumValues :: "string \<Rightarrow> string list option" where
  "enumValues n = (if n = ''poisonclass'' then Some ['''', ''credential'', ''topology'', ''success''] else None)"

section \<open>Names and types that never cross\<close>

definition identityNames :: "string list" where
  "identityNames =
    [''scope'', ''flowid'', ''flow_id'', ''cookie'', ''identity'', ''token'',
     ''ip'', ''host'', ''addr'', ''port'', ''mac'', ''vlan'', ''subnet'', ''cidr'',
     ''domain'', ''fqdn'', ''url'', ''uri'', ''region'', ''geo'', ''country'', ''asn'',
     ''org'', ''tenant'', ''customer'', ''account'', ''cluster'', ''namespace'',
     ''spiffe'', ''cert'', ''serial'', ''agent'', ''method'',
     ''timestamp'', ''time_stamp'', ''lastseen'', ''firstseen'', ''features'',
     ''decoy'', ''baseline'', ''path'', ''content'',
     ''sequence'', ''order'', ''signature'', ''fingerprint'', ''digest'', ''checksum'',
     ''hash'', ''exploit'', ''exposure'']"

definition hasIdentityName :: "string \<Rightarrow> bool" where
  "hasIdentityName name = (let n = ToLower name in list_ex (\<lambda>bad. Contains n bad) identityNames)"

definition canReIdentify :: "string \<Rightarrow> rvalue \<Rightarrow> bool" where
  "canReIdentify name v = hasIdentityName name"

definition denylistedTypeName :: "string \<Rightarrow> string \<Rightarrow> bool" where
  "denylistedTypeName pkg name =
     (if HasSuffix pkg ''internal/intelligence/cost'' \<and> name = ''Summary'' then True
      else if HasSuffix pkg ''internal/intelligence'' \<and> (name = ''AdversaryInteractionEvent'' \<or> name = ''StingOutcome'') then True
      else if HasSuffix pkg ''internal/contract'' \<and>
        (name = ''StingOutcome'' \<or> name = ''OutcomeRecord'' \<or> name = ''Verdict'' \<or>
         name = ''SignalEvent'' \<or> name = ''FlowIdentity'' \<or> name = ''FeedbackLabel'') then True
      else Contains pkg ''internal/engine/'')"

fun denylistedType :: "rtype \<Rightarrow> bool" and denylisted_embedded :: "(StructField \<times> rtype) list \<Rightarrow> bool" where
  "denylistedType (RType k pkg name el fs) =
     (if k = KPtr then (case el of Some e \<Rightarrow> denylistedType e | None \<Rightarrow> denylistedTypeName pkg name)
      else denylistedTypeName pkg name \<or> k = KStruct \<and> denylisted_embedded fs)"
| "denylisted_embedded [] = False"
| "denylisted_embedded ((f, t) # fs) = (sf_Anonymous f \<and> denylistedType t \<or> denylisted_embedded fs)"

definition isTimeType :: "rtype \<Rightarrow> bool" where
  "isTimeType t \<longleftrightarrow> rt_PkgPath t = ''time'' \<and> rt_Name t = ''Time''"

section \<open>The filter\<close>

text \<open>
  A payload entry is a scalar that was copied by value. The floating-point branches of \<^verbatim>\<open>copyScalar\<close> and
  of the switches over payload entries need a float field, which \<open>isBandedKind\<close> refuses.
\<close>

datatype scalar = SNil | SBool bool | SInt int | SUint int | SStr string

type_synonym payload = "(string \<times> scalar) list"

definition copyScalar :: "kind \<Rightarrow> rvalue \<Rightarrow> scalar" where
  "copyScalar k v =
     (if k = KBool then SBool (value_Bool v) else if isUintKind k then SUint (value_Uint v)
      else if isBandedKind k then SInt (value_Int v) else SNil)"

text \<open>One leaf field: tag, name, then kind with its coarseness.\<close>

definition clear_leaf :: "string \<Rightarrow> StructField \<Rightarrow> rtype \<Rightarrow> rvalue \<Rightarrow> egress_error + scalar" where
  "clear_leaf name f t fv =
     (case parseSafeTag (sf_Tag f) of
        None \<Rightarrow> Inl (NotMarkedSafe name)
      | Some _ \<Rightarrow>
          if canReIdentify (sf_Name f) fv then Inl (IdentityNamed name)
          else if rt_Kind t = KString then
            (case enumValues (ToLower (sf_Name f)) of
               None \<Rightarrow> Inl (NotClosedEnum name (value_String fv))
             | Some vs \<Rightarrow> if value_String fv \<in> set vs then Inr (SStr (value_String fv))
                         else Inl (NotClosedEnum name (value_String fv)))
          else if rt_Kind t = KBool then Inr (SBool (value_Bool fv))
          else if isBandedKind (rt_Kind t) then
            (case parseBand (sf_Tag f) of
               None \<Rightarrow> Inl (NoBand name)
             | Some (lo, hi) \<Rightarrow>
                if hi < lo \<or> wrap64 (hi - lo) > maxBandSpan then Inl (NotCoarse name lo hi)
                else let val = numericAsInt64 (rt_Kind t) fv
                     in if val < lo \<or> val > hi then Inl (OutsideBand name val lo hi)
                        else Inr (copyScalar (rt_Kind t) fv))
          else Inl (KindDenied name (rt_Kind t)))"

fun clearStruct :: "rtype \<Rightarrow> rvalue \<Rightarrow> string \<Rightarrow> payload \<Rightarrow> egress_error + payload"
and clear_each :: "(StructField \<times> rtype) list \<Rightarrow> rvalue list \<Rightarrow> string \<Rightarrow> payload \<Rightarrow> egress_error + payload" where
  "clearStruct (RType k pkg tname el fs) rv pre out =
     (if denylistedType (RType k pkg tname el fs) then Inl (DenylistedType pkg tname)
      else if isTimeType (RType k pkg tname el fs) then Inl (TimestampType pkg tname)
      else clear_each fs (value_Fields rv) pre out)"
| "clear_each [] vs pre out = Inr out"
| "clear_each (ft # fs) [] pre out = Inr out"
| "clear_each ((f, t) # fs) (fv # vs) pre out =
     (if sf_PkgPath f \<noteq> [] then clear_each fs vs pre out
      else let name = pre @ sf_Name f in
        if isBlockedTag (sf_Tag f) then Inl (PermanentlyBlocked name)
        else if rt_Kind t = KStruct \<and> \<not> isTimeType t then
          (case clearStruct t fv (name @ ''.'') out of
             Inl err \<Rightarrow> Inl err
           | Inr out' \<Rightarrow> clear_each fs vs pre out')
        else case clear_leaf name f t fv of
             Inl err \<Rightarrow> Inl err
           | Inr s \<Rightarrow> clear_each fs vs pre (AList.update name s out))"

fun deref :: "rtype \<Rightarrow> rvalue \<Rightarrow> egress_error + (rtype \<times> rvalue)" where
  "deref (RType k pkg tname el fs) v =
     (if k = KPtr then
        (case el of
           None \<Rightarrow> Inl NilExport
         | Some e \<Rightarrow> (case v of VPtr (Some w) \<Rightarrow> deref e w | _ \<Rightarrow> Inl NilExport))
      else Inr (RType k pkg tname el fs, v))"

type_synonym export = "rtype \<times> rvalue"

definition clearFields :: "export \<Rightarrow> egress_error + payload" where
  "clearFields e =
     (case deref (fst e) (snd e) of
        Inl err \<Rightarrow> Inl err
      | Inr (t, v) \<Rightarrow>
          if rt_Kind t \<noteq> KStruct then Inl (NotAStruct (rt_Kind t))
          else case clearStruct t v [] [] of
            Inl err \<Rightarrow> Inl err
          | Inr p \<Rightarrow> if p = [] then Inl NoFields else Inr p)"

record ContributionContext =
  Contribute :: bool
  SeenInScopes :: int

record Candidate =
  cd_export :: export
  cd_ctx :: ContributionContext

record Cleared =
  cl_payload :: payload
  cl_seenInScopes :: int
  cl_fieldCount :: nat
  cl_ledgerVerified :: bool

definition Clear :: "Candidate option \<Rightarrow> egress_error + Cleared" where
  "Clear c =
     (case c of
        None \<Rightarrow> Inl NilCandidate
      | Some c \<Rightarrow>
          if \<not> Contribute (cd_ctx c) then Inl NotOptedIn
          else if SeenInScopes (cd_ctx c) < int aggregationK then Inl (SubKClaim (SeenInScopes (cd_ctx c)))
          else case clearFields (cd_export c) of
            Inl err \<Rightarrow> Inl err
          | Inr p \<Rightarrow> Inr \<lparr>cl_payload = p, cl_seenInScopes = SeenInScopes (cd_ctx c), cl_fieldCount = length p,
                          cl_ledgerVerified = False\<rparr>)"

section \<open>The ledger\<close>

record coarseKey =
  ck_ReachedContain :: bool
  ck_EngagedVelocity :: bool
  ck_EngagedPoison :: bool
  ck_DisengagedEarly :: bool
  ck_HeldBand :: int
  ck_CadenceBand :: int
  ck_PoisonClass :: string

text \<open>
  \<open>seen\<close> is a map that \<^verbatim>\<open>Aggregated\<close> ranges over; a set of buckets is a list without repetition. The keyed
  digest behind a bucket, cut to 16 bytes, is a parameter \<open>mac\<close> of the operations, over salts \<open>'k\<close> and
  buckets \<open>'b\<close>.
\<close>

record ('k, 'b) Ledger =
  lg_seen :: "(coarseKey \<times> 'b list) list"
  lg_salt :: 'k
  lg_enrolled :: "(string \<Rightarrow> bool) option"

definition NewLedger :: "error + 'k \<Rightarrow> egress_error + ('k, 'b) Ledger" where
  "NewLedger rand = (case rand of Inl err \<Rightarrow> Inl (LedgerSalt err) | Inr salt \<Rightarrow> Inr \<lparr>lg_seen = [], lg_salt = salt, lg_enrolled = None\<rparr>)"

definition NewAggregatorLedger :: "error + 'k \<Rightarrow> (string \<Rightarrow> bool) option \<Rightarrow> egress_error + ('k, 'b) Ledger" where
  "NewAggregatorLedger rand enrolled =
     (case enrolled of
        None \<Rightarrow> Inl NoEnrollment
      | Some _ \<Rightarrow> (case NewLedger rand of Inl err \<Rightarrow> Inl err | Inr l \<Rightarrow> Inr (l\<lparr>lg_enrolled := enrolled\<rparr>)))"

definition payload_bool :: "payload \<Rightarrow> string \<Rightarrow> bool" where
  "payload_bool p k = (case map_of p k of Some (SBool b) \<Rightarrow> b | _ \<Rightarrow> False)"

definition payload_int :: "payload \<Rightarrow> string \<Rightarrow> int" where
  "payload_int p k = (case map_of p k of Some (SInt i) \<Rightarrow> i | Some (SUint u) \<Rightarrow> wrap64 u | _ \<Rightarrow> 0)"

definition payload_string :: "payload \<Rightarrow> string \<Rightarrow> string" where
  "payload_string p k = (case map_of p k of Some (SStr s) \<Rightarrow> s | _ \<Rightarrow> [])"

definition coarseKeyFromPayload :: "payload \<Rightarrow> coarseKey" where
  "coarseKeyFromPayload p =
     \<lparr>ck_ReachedContain = payload_bool p ''ReachedContain'', ck_EngagedVelocity = payload_bool p ''EngagedVelocity'',
      ck_EngagedPoison = payload_bool p ''EngagedPoison'', ck_DisengagedEarly = payload_bool p ''DisengagedEarly'',
      ck_HeldBand = payload_int p ''HeldBand'', ck_CadenceBand = payload_int p ''CadenceBand'',
      ck_PoisonClass = payload_string p ''PoisonClass''\<rparr>"

definition coarseKeyFromExport :: "export \<Rightarrow> egress_error + coarseKey" where
  "coarseKeyFromExport e = (case clearFields e of Inl err \<Rightarrow> Inl err | Inr p \<Rightarrow> Inr (coarseKeyFromPayload p))"

definition bucket :: "('k \<Rightarrow> string \<Rightarrow> 'b) \<Rightarrow> ('k, 'b) Ledger \<Rightarrow> string \<Rightarrow> 'b" where
  "bucket mac l scope = mac (lg_salt l) scope"

definition buckets_of :: "('k, 'b) Ledger \<Rightarrow> coarseKey \<Rightarrow> 'b list" where
  "buckets_of l key = (case map_of (lg_seen l) key of None \<Rightarrow> [] | Some bs \<Rightarrow> bs)"

definition RecordForm ::
  "('k \<Rightarrow> string \<Rightarrow> 'b) \<Rightarrow> ('k, 'b) Ledger option \<Rightarrow> string \<Rightarrow> export \<Rightarrow> (egress_error + nat) \<times> ('k, 'b) Ledger option" where
  "RecordForm mac l scope e =
     (case l of
        None \<Rightarrow> (Inl NilLedger, None)
      | Some g \<Rightarrow>
         (case coarseKeyFromExport e of
            Inl err \<Rightarrow> (Inl err, l)
          | Inr key \<Rightarrow>
             (let bs = List.insert (bucket mac g scope) (buckets_of g key)
              in (Inr (length bs), Some (g\<lparr>lg_seen := AList.update key bs (lg_seen g)\<rparr>)))))"

definition Patterns :: "('k, 'b) Ledger option \<Rightarrow> nat" where
  "Patterns l = (case l of None \<Rightarrow> 0 | Some g \<Rightarrow> length (lg_seen g))"

definition distinctScopes :: "('k, 'b) Ledger option \<Rightarrow> coarseKey \<Rightarrow> nat" where
  "distinctScopes l key = (case l of None \<Rightarrow> 0 | Some g \<Rightarrow> length (buckets_of g key))"

definition ClearWithLedger :: "Candidate option \<Rightarrow> ('k, 'b) Ledger option \<Rightarrow> egress_error + Cleared" where
  "ClearWithLedger c l =
     (case c of
        None \<Rightarrow> Inl NilCandidate
      | Some c \<Rightarrow>
          if \<not> Contribute (cd_ctx c) then Inl NotOptedIn
          else if SeenInScopes (cd_ctx c) \<noteq> 0 then Inl (CountTripwire (SeenInScopes (cd_ctx c)))
          else if l = None then Inl NoLedger
          else case clearFields (cd_export c) of
            Inl err \<Rightarrow> Inl err
          | Inr p \<Rightarrow>
             (let n = distinctScopes l (coarseKeyFromPayload p)
              in if n < aggregationK then Inl (SubK n)
                 else Inr \<lparr>cl_payload = p, cl_seenInScopes = int n, cl_fieldCount = length p, cl_ledgerVerified = True\<rparr>))"

section \<open>The wire\<close>

text \<open>
  JSON as the code uses it: \<^verbatim>\<open>json.Marshal\<close> of a map of scalars writes the members in the order of their
  keys, and \<^verbatim>\<open>json.Decoder\<close> delivers the members of an object one by one. The text format itself is a
  parameter over wire values \<open>'w\<close>; \<open>json_ok\<close> is what its documentation promises for ASCII documents.
\<close>

datatype jvalue = JNull | JBool bool | JNumber string | JString string | JComposite

datatype jdoc = JUnreadable | JNotObject | JObject "(string \<times> jvalue) list" bool

record 'w json =
  js_Marshal :: "(string \<times> jvalue) list \<Rightarrow> 'w"
  js_Decoder :: "'w \<Rightarrow> jdoc"
  js_newline :: "'w \<Rightarrow> bool"

definition ascii :: "string \<Rightarrow> bool" where
  "ascii s \<longleftrightarrow> list_all (\<lambda>c. (of_char c :: nat) < 128) s"

fun json_scalar :: "jvalue \<Rightarrow> bool" where
  "json_scalar JComposite = False"
| "json_scalar (JString s) = ascii s"
| "json_scalar _ = True"

definition json_ok :: "'w json \<Rightarrow> bool" where
  "json_ok js \<longleftrightarrow> (\<forall>ms. distinct (map fst ms) \<and> list_all (\<lambda>(k, v). ascii k \<and> json_scalar v) ms \<longrightarrow>
     js_Decoder js (js_Marshal js ms) = JObject ms False \<and> \<not> js_newline js (js_Marshal js ms))"

fun json_value :: "scalar \<Rightarrow> jvalue" where
  "json_value SNil = JNull"
| "json_value (SBool b) = JBool b"
| "json_value (SInt i) = JNumber (FormatInt i)"
| "json_value (SUint i) = JNumber (FormatInt i)"
| "json_value (SStr s) = JString s"

definition wire_members :: "payload \<Rightarrow> (string \<times> jvalue) list" where
  "wire_members p = map (apsnd json_value) (sort_by (\<lambda>a b. fst a < fst b) p)"

definition Marshal :: "'w json \<Rightarrow> Cleared \<Rightarrow> egress_error + 'w" where
  "Marshal js c =
     (case find (\<lambda>(k, v). v = SNil) (cl_payload c) of
        Some (k, _) \<Rightarrow> Inl (CarrierBreach k)
      | None \<Rightarrow> if \<not> cl_ledgerVerified c then Inl FormOnly else Inr (js_Marshal js (wire_members (cl_payload c))))"

definition Fields :: "Cleared \<Rightarrow> payload" where
  "Fields c = cl_payload c"

section \<open>The inbound mirror\<close>

record SharedPattern =
  sp_ReachedContain :: bool
  sp_EngagedVelocity :: bool
  sp_EngagedPoison :: bool
  sp_HeldBand :: int
  sp_DisengagedEarly :: bool
  sp_PoisonClass :: string
  sp_CadenceBand :: int

datatype shared_error =
  SharedDecode | SharedNotObject | SharedDuplicate string | SharedTrailing | SharedFieldCount nat | SharedMissing string
| SharedNotBool string | SharedNotNumber string | SharedNotInteger string | SharedOutsideBand string int
| SharedNotString string | SharedNotEnum string string

definition sharedBoolFields :: "string list" where
  "sharedBoolFields = [''ReachedContain'', ''EngagedVelocity'', ''EngagedPoison'', ''DisengagedEarly'']"
definition sharedIntFields :: "string list" where "sharedIntFields = [''HeldBand'', ''CadenceBand'']"
definition sharedStringField :: string where "sharedStringField = ''PoisonClass''"

type_synonym members = "(string \<times> jvalue) list"

fun read_members :: "members \<Rightarrow> members \<Rightarrow> shared_error + members" where
  "read_members [] raw = Inr raw"
| "read_members ((k, v) # ms) raw =
     (if k \<in> fst ` set raw then Inl (SharedDuplicate k) else read_members ms (raw @ [(k, v)]))"

definition getBool :: "members \<Rightarrow> string \<Rightarrow> shared_error + bool" where
  "getBool raw k = (case map_of raw k of
     None \<Rightarrow> Inl (SharedMissing k) | Some (JBool b) \<Rightarrow> Inr b | Some _ \<Rightarrow> Inl (SharedNotBool k))"

definition getBand :: "members \<Rightarrow> string \<Rightarrow> shared_error + int" where
  "getBand raw k = (case map_of raw k of
     None \<Rightarrow> Inl (SharedMissing k)
   | Some (JNumber num) \<Rightarrow>
      (case ParseInt num of
         None \<Rightarrow> Inl (SharedNotInteger k)
       | Some i \<Rightarrow> if i < 0 \<or> i > 3 then Inl (SharedOutsideBand k i) else Inr i)
   | Some _ \<Rightarrow> Inl (SharedNotNumber k))"

definition getClass :: "members \<Rightarrow> string \<Rightarrow> shared_error + string" where
  "getClass raw k = (case map_of raw k of
     None \<Rightarrow> Inl (SharedMissing k)
   | Some (JString pc) \<Rightarrow> if pc \<in> set (the (enumValues ''poisonclass'')) then Inr pc else Inl (SharedNotEnum k pc)
   | Some _ \<Rightarrow> Inl (SharedNotString k))"

definition bind_shared :: "'e + 'a \<Rightarrow> ('a \<Rightarrow> 'e + 'b) \<Rightarrow> 'e + 'b" where
  "bind_shared r f = (case r of Inl e \<Rightarrow> Inl e | Inr x \<Rightarrow> f x)"

definition pattern_of_members :: "members \<Rightarrow> shared_error + SharedPattern" where
  "pattern_of_members raw =
     bind_shared (getBool raw ''ReachedContain'') (\<lambda>rc.
     bind_shared (getBool raw ''EngagedVelocity'') (\<lambda>ev.
     bind_shared (getBool raw ''EngagedPoison'') (\<lambda>ep.
     bind_shared (getBool raw ''DisengagedEarly'') (\<lambda>de.
     bind_shared (getBand raw ''HeldBand'') (\<lambda>hb.
     bind_shared (getBand raw ''CadenceBand'') (\<lambda>cb.
     bind_shared (getClass raw sharedStringField) (\<lambda>pc.
       Inr \<lparr>sp_ReachedContain = rc, sp_EngagedVelocity = ev, sp_EngagedPoison = ep, sp_HeldBand = hb,
            sp_DisengagedEarly = de, sp_PoisonClass = pc, sp_CadenceBand = cb\<rparr>)))))))"

definition ParseSharedPattern :: "'w json \<Rightarrow> 'w \<Rightarrow> shared_error + SharedPattern" where
  "ParseSharedPattern js b =
     (case js_Decoder js b of
        JUnreadable \<Rightarrow> Inl SharedDecode
      | JNotObject \<Rightarrow> Inl SharedNotObject
      | JObject ms trailing \<Rightarrow>
         (case read_members ms [] of
            Inl err \<Rightarrow> Inl err
          | Inr raw \<Rightarrow>
              if trailing then Inl SharedTrailing
              else if length raw \<noteq> length sharedBoolFields + length sharedIntFields + 1 then Inl (SharedFieldCount (length raw))
              else pattern_of_members raw))"

section \<open>The coarse export shape\<close>

text \<open>
  The seven tagged fields that \<^verbatim>\<open>network.referenceExport\<close> and \<^verbatim>\<open>profile.ExportForm\<close> both declare.
\<close>

definition tagged :: "string \<Rightarrow> string \<Rightarrow> StructField" where
  "tagged name tag = \<lparr>sf_Name = name, sf_PkgPath = [], sf_Anonymous = False, sf_Tag = [(''egress'', tag)]\<rparr>"

definition bool_type :: rtype where "bool_type = RType KBool [] ''bool'' None []"
definition int_type :: rtype where "int_type = RType KInt [] ''int'' None []"
definition string_type :: rtype where "string_type = RType KString [] ''string'' None []"

definition export_fields :: "(StructField \<times> rtype) list" where
  "export_fields =
    [(tagged ''ReachedContain'' ''safe,coarse tier bucket (reached T2+); not a raw tier or threshold'', bool_type),
     (tagged ''EngagedVelocity'' ''safe,per-axis engaged boolean; not the raw Axes bitset (which leaks floor config)'', bool_type),
     (tagged ''EngagedPoison'' ''safe,per-axis engaged boolean'', bool_type),
     (tagged ''HeldBand'' ''safe,band=0..3,imposed-hold band 0..3 (bucketed seconds); not a raw duration'', int_type),
     (tagged ''DisengagedEarly'' ''safe,attacker-disengaged-before-cap boolean (the engagement signal)'', bool_type),
     (tagged ''PoisonClass'' ''safe,coarse poison reaction class from the closed vocab; stage taxonomy dropped'', string_type),
     (tagged ''CadenceBand'' ''safe,band=0..3,coarse inter-arrival tempo band (automation vs human-paced); not raw cadence seconds'', int_type)]"

definition export_value :: "SharedPattern \<Rightarrow> rvalue" where
  "export_value sp = VStruct [VBool (sp_ReachedContain sp), VBool (sp_EngagedVelocity sp), VBool (sp_EngagedPoison sp),
     VInt (sp_HeldBand sp), VBool (sp_DisengagedEarly sp), VString (sp_PoisonClass sp), VInt (sp_CadenceBand sp)]"

definition export_type :: "string \<Rightarrow> string \<Rightarrow> rtype" where
  "export_type pkg name = RType KStruct (''github.com/canarysting/canarysting/internal/intelligence/'' @ pkg) name None export_fields"

definition referenceExportFromShared :: "SharedPattern \<Rightarrow> export" where
  "referenceExportFromShared sp = (export_type ''network'' ''referenceExport'', export_value sp)"

definition SharedCandidate :: "SharedPattern \<Rightarrow> Candidate" where
  "SharedCandidate sp = \<lparr>cd_export = referenceExportFromShared sp, cd_ctx = \<lparr>Contribute = True, SeenInScopes = 0\<rparr>\<rparr>"

definition ReferenceCandidate :: Candidate where
  "ReferenceCandidate = \<lparr>cd_export = referenceExportFromShared
       \<lparr>sp_ReachedContain = True, sp_EngagedVelocity = True, sp_EngagedPoison = True, sp_HeldBand = 2,
        sp_DisengagedEarly = True, sp_PoisonClass = ''topology'', sp_CadenceBand = 1\<rparr>,
     cd_ctx = \<lparr>Contribute = True, SeenInScopes = int aggregationK\<rparr>\<rparr>"

definition IngestConfirmation ::
  "('k \<Rightarrow> string \<Rightarrow> 'b) \<Rightarrow> ('k, 'b) Ledger option \<Rightarrow> string \<Rightarrow> SharedPattern \<Rightarrow> (egress_error + nat) \<times> ('k, 'b) Ledger option" where
  "IngestConfirmation mac l tok sp =
     (case l of
        None \<Rightarrow> (Inl NilLedger, l)
      | Some g \<Rightarrow>
         (case lg_enrolled g of
            None \<Rightarrow> (Inl NotAggregator, l)
          | Some enrolled \<Rightarrow>
              if tok = [] \<or> \<not> enrolled tok then (Inl NotEnrolled, l)
              else RecordForm mac l tok (referenceExportFromShared sp)))"

section \<open>The aggregated read view and the feed\<close>

definition FeedK :: int where "FeedK = 5"

record AggregatedPattern =
  ap_ReachedContain :: bool
  ap_EngagedVelocity :: bool
  ap_EngagedPoison :: bool
  ap_DisengagedEarly :: bool
  ap_HeldBand :: int
  ap_CadenceBand :: int
  ap_PoisonClass :: string

definition aggregated_of :: "coarseKey \<Rightarrow> AggregatedPattern" where
  "aggregated_of k =
     \<lparr>ap_ReachedContain = ck_ReachedContain k, ap_EngagedVelocity = ck_EngagedVelocity k, ap_EngagedPoison = ck_EngagedPoison k,
      ap_DisengagedEarly = ck_DisengagedEarly k, ap_HeldBand = ck_HeldBand k, ap_CadenceBand = ck_CadenceBand k,
      ap_PoisonClass = ck_PoisonClass k\<rparr>"

definition aggLess :: "AggregatedPattern \<Rightarrow> AggregatedPattern \<Rightarrow> bool" where
  "aggLess a b =
     (if ap_ReachedContain a \<noteq> ap_ReachedContain b then \<not> ap_ReachedContain a
      else if ap_EngagedVelocity a \<noteq> ap_EngagedVelocity b then \<not> ap_EngagedVelocity a
      else if ap_EngagedPoison a \<noteq> ap_EngagedPoison b then \<not> ap_EngagedPoison a
      else if ap_DisengagedEarly a \<noteq> ap_DisengagedEarly b then \<not> ap_DisengagedEarly a
      else if ap_HeldBand a \<noteq> ap_HeldBand b then ap_HeldBand a < ap_HeldBand b
      else if ap_CadenceBand a \<noteq> ap_CadenceBand b then ap_CadenceBand a < ap_CadenceBand b
      else ap_PoisonClass a < ap_PoisonClass b)"

definition Aggregated ::
  "((coarseKey \<times> 'b list) list \<Rightarrow> (coarseKey \<times> 'b list) list) \<Rightarrow> ('k, 'b) Ledger option \<Rightarrow> int \<Rightarrow> AggregatedPattern list" where
  "Aggregated perm l minScopes =
     (case l of
        None \<Rightarrow> []
      | Some g \<Rightarrow>
         (let m = (if minScopes < FeedK then FeedK else minScopes)
          in sort_by aggLess (map (aggregated_of \<circ> fst) (filter (\<lambda>(key, bs). m \<le> int (length bs)) (perm (lg_seen g))))))"

record FeedView =
  fv_Entries :: "AggregatedPattern list"
  fv_Count :: nat
  fv_GeneratedAt :: string

text \<open>A feed entry has the fields of an aggregated pattern; the layout of the build time is a parameter.\<close>

definition BuildFeed :: "(time \<Rightarrow> string) \<Rightarrow> (int \<Rightarrow> AggregatedPattern list) option \<Rightarrow> time \<Rightarrow> FeedView" where
  "BuildFeed rfc3339 src now =
     (case src of
        None \<Rightarrow> \<lparr>fv_Entries = [], fv_Count = 0, fv_GeneratedAt = rfc3339 now\<rparr>
      | Some aggregated \<Rightarrow> (let ps = aggregated FeedK
          in \<lparr>fv_Entries = ps, fv_Count = length ps, fv_GeneratedAt = rfc3339 now\<rparr>))"

section \<open>What the filter lets through\<close>

text \<open>
  The leaves of an export in the order the filter visits them, and the reference conditions: no struct on
  the way is denylisted or a timestamp, no exported field is blocked, and every leaf is individually
  tagged, anonymous by name and coarse.
\<close>

type_synonym leaf = "string \<times> StructField \<times> rtype \<times> rvalue"

definition leaf_scalar :: "StructField \<Rightarrow> rtype \<Rightarrow> rvalue \<Rightarrow> scalar option" where
  "leaf_scalar f t v = (case clear_leaf [] f t v of Inl _ \<Rightarrow> None | Inr s \<Rightarrow> Some s)"

fun leaves :: "rtype \<Rightarrow> rvalue \<Rightarrow> string \<Rightarrow> leaf list"
and field_leaves :: "(StructField \<times> rtype) list \<Rightarrow> rvalue list \<Rightarrow> string \<Rightarrow> leaf list" where
  "leaves (RType k pkg tname el fs) v pre = field_leaves fs (value_Fields v) pre"
| "field_leaves [] vs pre = []"
| "field_leaves (ft # fs) [] pre = []"
| "field_leaves ((f, t) # fs) (v # vs) pre =
     (if sf_PkgPath f \<noteq> [] then []
      else if rt_Kind t = KStruct \<and> \<not> isTimeType t then leaves t v (pre @ sf_Name f @ ''.'')
      else [(pre @ sf_Name f, f, t, v)]) @ field_leaves fs vs pre"

fun admissible :: "rtype \<Rightarrow> rvalue \<Rightarrow> bool"
and admissible_fields :: "(StructField \<times> rtype) list \<Rightarrow> rvalue list \<Rightarrow> bool" where
  "admissible (RType k pkg tname el fs) v =
     (\<not> denylistedType (RType k pkg tname el fs) \<and> \<not> isTimeType (RType k pkg tname el fs) \<and> admissible_fields fs (value_Fields v))"
| "admissible_fields [] vs = True"
| "admissible_fields (ft # fs) [] = True"
| "admissible_fields ((f, t) # fs) (v # vs) =
     ((sf_PkgPath f = [] \<longrightarrow> \<not> isBlockedTag (sf_Tag f) \<and>
         (if rt_Kind t = KStruct \<and> \<not> isTimeType t then admissible t v else leaf_scalar f t v \<noteq> None)) \<and>
      admissible_fields fs vs)"

definition add_leaf :: "leaf \<Rightarrow> payload \<Rightarrow> payload" where
  "add_leaf l out = (case l of (n, f, t, v) \<Rightarrow> AList.update n (the (leaf_scalar f t v)) out)"

lemma clear_leaf_scalar: "clear_leaf n f t v = Inr s \<longleftrightarrow> leaf_scalar f t v = Some s"
  by (auto simp: leaf_scalar_def clear_leaf_def Let_def split: option.splits prod.splits if_splits)

lemma clear_leaf_fails: "clear_leaf n f t v = Inl e \<Longrightarrow> leaf_scalar f t v = None"
  using clear_leaf_scalar[of n f t v] by (cases "leaf_scalar f t v") auto

lemma clearStruct_iff:
  "clearStruct t v pre out = Inr out' \<longleftrightarrow> admissible t v \<and> out' = fold add_leaf (leaves t v pre) out"
  "clear_each fs vs pre out = Inr out' \<longleftrightarrow> admissible_fields fs vs \<and> out' = fold add_leaf (field_leaves fs vs pre) out"
proof (induction t v pre out and fs vs pre out arbitrary: out' and out' rule: clearStruct_clear_each.induct)
  case (4 f t fs fv vs pre out)
  show ?case
  proof (cases "sf_PkgPath f = [] \<and> \<not> isBlockedTag (sf_Tag f)")
    case True
    show ?thesis
    proof (cases "rt_Kind t = KStruct \<and> \<not> isTimeType t")
      case s: True
      with True 4 show ?thesis by (auto simp: Let_def split: sum.splits) blast
    next
      case s: False
      with True show ?thesis
        using 4(4)[OF _ refl] clear_leaf_scalar[of "pre @ sf_Name f" f t fv] clear_leaf_fails[of "pre @ sf_Name f" f t fv]
        by (auto simp: Let_def add_leaf_def split: sum.splits)
    qed
  qed (use 4(1) in \<open>auto simp: Let_def\<close>)
qed auto

lemma clearFields_iff:
  "clearFields e = Inr p \<longleftrightarrow> (\<exists>t v. deref (fst e) (snd e) = Inr (t, v) \<and> rt_Kind t = KStruct \<and> admissible t v \<and>
     p = fold add_leaf (leaves t v []) [] \<and> p \<noteq> [])"
  by (auto simp: clearFields_def clearStruct_iff split: sum.splits prod.splits if_splits)
     (metis clearStruct_iff(1) sum.distinct(1) sum.exhaust)+


lemma clearFields_names: "clearFields e = Inr p \<Longrightarrow> deref (fst e) (snd e) = Inr (t, v) \<Longrightarrow> fst ` set p = fst ` set (leaves t v [])"
proof -
  have "fst ` set (add_leaf l out) = insert (fst l) (fst ` set out)" for l out
    by (cases l) (simp add: add_leaf_def AList_update_keys)
  then have "fst ` set (fold add_leaf ls out) = fst ` set ls \<union> fst ` set out" for ls out
    by (induction ls arbitrary: out) simp_all
  then show "clearFields e = Inr p \<Longrightarrow> deref (fst e) (snd e) = Inr (t, v) \<Longrightarrow> ?thesis"
    by (auto simp: clearFields_iff)
qed

lemma fold_add_leaf_mem:
  assumes "(n, s) \<in> set (fold add_leaf ls out)"
  shows "(n, s) \<in> set out \<or> (\<exists>f t v. (n, f, t, v) \<in> set ls \<and> s = the (leaf_scalar f t v))"
  using assms
proof (induction ls arbitrary: out)
  case (Cons l ls)
  obtain n' f t v where l: "l = (n', f, t, v)" by (cases l)
  have "set (add_leaf l out) \<subseteq> insert (n', the (leaf_scalar f t v)) (set out)"
    using AList_update_subset by (simp add: l add_leaf_def)
  with Cons.IH[of "add_leaf l out"] Cons.prems l show ?case by auto
qed simp

lemma admissible_leaf:
  "admissible t v \<Longrightarrow> (n, f, t', v') \<in> set (leaves t v pre) \<Longrightarrow> leaf_scalar f t' v' \<noteq> None"
  "admissible_fields fs vs \<Longrightarrow> (n, f, t', v') \<in> set (field_leaves fs vs pre) \<Longrightarrow> leaf_scalar f t' v' \<noteq> None"
  by (induction t v pre and fs vs pre rule: leaves_field_leaves.induct) (auto split: if_splits)

text \<open>The values a field may have on the wire: both booleans, its closed enumeration, or its band.\<close>

definition coarse_values :: "StructField \<Rightarrow> rtype \<Rightarrow> scalar list" where
  "coarse_values f t =
     (if rt_Kind t = KString then (case enumValues (ToLower (sf_Name f)) of None \<Rightarrow> [] | Some vs \<Rightarrow> map SStr vs)
      else if rt_Kind t = KBool then [SBool False, SBool True]
      else case parseBand (sf_Tag f) of
        None \<Rightarrow> []
      | Some (lo, hi) \<Rightarrow> map (if isUintKind (rt_Kind t) then SUint else SInt) [lo..hi])"

definition narrow_band :: "StructTag \<Rightarrow> bool" where
  "narrow_band tag = (case parseBand tag of None \<Rightarrow> True | Some (lo, hi) \<Rightarrow> - (2 ^ 62) \<le> lo \<and> hi < 2 ^ 62)"

lemma leaf_scalar_coarse:
  assumes "leaf_scalar f t v = Some s" "narrow_band (sf_Tag f)"
  shows "s \<in> set (coarse_values f t) \<and> length (coarse_values f t) \<le> 257 \<and> parseSafeTag (sf_Tag f) \<noteq> None \<and> \<not> hasIdentityName (sf_Name f)"
proof -
  have c: "clear_leaf [] f t v = Inr s" using assms(1) by (simp add: clear_leaf_scalar)
  then have tag: "parseSafeTag (sf_Tag f) \<noteq> None" "\<not> hasIdentityName (sf_Name f)"
    by (auto simp: clear_leaf_def canReIdentify_def split: option.splits if_splits)
  consider (str) "rt_Kind t = KString" | (bool) "rt_Kind t = KBool" | (band) "isBandedKind (rt_Kind t)"
    using c by (auto simp: clear_leaf_def split: option.splits if_splits)
  then show ?thesis
  proof cases
    case str
    with c tag show ?thesis by (auto simp: clear_leaf_def coarse_values_def enumValues_def split: option.splits if_splits)
  next
    case bool
    with c tag show ?thesis by (auto simp: clear_leaf_def coarse_values_def split: option.splits if_splits)
  next
    case band
    then have k: "rt_Kind t \<noteq> KString" "rt_Kind t \<noteq> KBool" by (auto simp: isBandedKind_def)
    from c k band obtain lo hi where b: "parseBand (sf_Tag f) = Some (lo, hi)" and lh: "lo \<le> hi" and w: "wrap64 (hi - lo) \<le> 256"
      and val: "lo \<le> numericAsInt64 (rt_Kind t) v" "numericAsInt64 (rt_Kind t) v \<le> hi" and s: "s = copyScalar (rt_Kind t) v"
      by (auto simp: clear_leaf_def Let_def maxBandSpan_def split: option.splits if_splits)
    from assms(2) b have n: "- (2 ^ 62) \<le> lo" "hi < 2 ^ 62" by (auto simp: narrow_band_def)
    then have "wrap64 (hi - lo) = hi - lo" using lh by (intro wrap64_id) auto
    with w lh have len: "length [lo..hi] \<le> 257" by simp
    have "s \<in> set (map (if isUintKind (rt_Kind t) then SUint else SInt) [lo..hi])"
      using s val n(2) band k by (auto simp: copyScalar_def numericAsInt64_def Let_def split: if_splits)
    with k b len tag show ?thesis by (simp add: coarse_values_def)
  qed
qed


lemma clear_with_ledger_iff:
  "ClearWithLedger (Some c) (Some g) = Inr cl \<longleftrightarrow>
     Contribute (cd_ctx c) \<and> SeenInScopes (cd_ctx c) = 0 \<and> (\<exists>p. clearFields (cd_export c) = Inr p \<and>
       aggregationK \<le> length (buckets_of g (coarseKeyFromPayload p)) \<and>
       cl = \<lparr>cl_payload = p, cl_seenInScopes = int (length (buckets_of g (coarseKeyFromPayload p))), cl_fieldCount = length p,
             cl_ledgerVerified = True\<rparr>)"
  by (auto simp: ClearWithLedger_def distinctScopes_def Let_def split: sum.splits)

text \<open>
  Property C6. Only coarse, justified, anonymous fields cross, and only with corroboration. What the
  production path of the egress filter clears comes from a deployment that opted in and did not assert
  a count itself; no struct inside the export is denylisted or a timestamp; the payload has exactly the
  exported leaf fields, each explicitly tagged with a reason, not named like an identifier, and with a
  value out of at most 257 that the field's declaration fixes in advance; and the ledger has at least
  three buckets for the pattern. It holds when no declared band of an exported leaf reaches beyond
  62 bits; with a wider one a raw count can cross, as \<open>raw_count_crosses\<close> shows.
\<close>

theorem egress_only_coarse:
  assumes "ClearWithLedger (Some c) (Some g) = Inr cl" "deref (fst (cd_export c)) (snd (cd_export c)) = Inr (t, v)"
    and narrow: "\<forall>(n, f, t', v')\<in>set (leaves t v []). narrow_band (sf_Tag f)"
  shows "Contribute (cd_ctx c) \<and> SeenInScopes (cd_ctx c) = 0 \<and> cl_ledgerVerified cl \<and> admissible t v \<and>
    3 \<le> length (buckets_of g (coarseKeyFromPayload (cl_payload cl))) \<and>
    fst ` set (cl_payload cl) = fst ` set (leaves t v []) \<and>
    (\<forall>(n, s)\<in>set (cl_payload cl). \<exists>f t' v'. (n, f, t', v') \<in> set (leaves t v []) \<and>
       parseSafeTag (sf_Tag f) \<noteq> None \<and> \<not> hasIdentityName (sf_Name f) \<and>
       s \<in> set (coarse_values f t') \<and> length (coarse_values f t') \<le> 257)"
proof -
  from assms(1) obtain p where p: "clearFields (cd_export c) = Inr p" and k: "aggregationK \<le> length (buckets_of g (coarseKeyFromPayload p))"
    and cl: "cl_payload cl = p" "cl_ledgerVerified cl" "Contribute (cd_ctx c)" "SeenInScopes (cd_ctx c) = 0"
    by (auto simp: clear_with_ledger_iff)
  from p assms(2) have a: "admissible t v" and fold: "p = fold add_leaf (leaves t v []) []" by (auto simp: clearFields_iff)
  have "\<exists>f t' v'. (n, f, t', v') \<in> set (leaves t v []) \<and> parseSafeTag (sf_Tag f) \<noteq> None \<and> \<not> hasIdentityName (sf_Name f) \<and>
       s \<in> set (coarse_values f t') \<and> length (coarse_values f t') \<le> 257" if "(n, s) \<in> set p" for n s
  proof -
    from that fold fold_add_leaf_mem[of n s "leaves t v []" "[]"] obtain f t' v' where
      l: "(n, f, t', v') \<in> set (leaves t v [])" and s: "s = the (leaf_scalar f t' v')" by auto
    with admissible_leaf(1)[OF a l] have "leaf_scalar f t' v' = Some s" by auto
    from leaf_scalar_coarse[OF this] narrow l show ?thesis by fastforce
  qed
  with clearFields_names[OF p assms(2)] a k cl show ?thesis by (auto simp: aggregationK_def)
qed

section \<open>The coarse shape clears\<close>

definition valid_pattern :: "SharedPattern \<Rightarrow> bool" where
  "valid_pattern sp \<longleftrightarrow> sp_HeldBand sp \<in> {0..3} \<and> sp_CadenceBand sp \<in> {0..3} \<and>
     sp_PoisonClass sp \<in> {'''', ''credential'', ''topology'', ''success''}"

definition export_payload :: "SharedPattern \<Rightarrow> payload" where
  "export_payload sp =
    [(''ReachedContain'', SBool (sp_ReachedContain sp)), (''EngagedVelocity'', SBool (sp_EngagedVelocity sp)),
     (''EngagedPoison'', SBool (sp_EngagedPoison sp)), (''HeldBand'', SInt (sp_HeldBand sp)),
     (''DisengagedEarly'', SBool (sp_DisengagedEarly sp)), (''PoisonClass'', SStr (sp_PoisonClass sp)),
     (''CadenceBand'', SInt (sp_CadenceBand sp))]"

definition key_of_pattern :: "SharedPattern \<Rightarrow> coarseKey" where
  "key_of_pattern sp =
     \<lparr>ck_ReachedContain = sp_ReachedContain sp, ck_EngagedVelocity = sp_EngagedVelocity sp, ck_EngagedPoison = sp_EngagedPoison sp,
      ck_DisengagedEarly = sp_DisengagedEarly sp, ck_HeldBand = sp_HeldBand sp, ck_CadenceBand = sp_CadenceBand sp,
      ck_PoisonClass = sp_PoisonClass sp\<rparr>"

lemma key_of_pattern_inj: "key_of_pattern a = key_of_pattern b \<longleftrightarrow> a = b"
  by (auto simp: key_of_pattern_def)

lemma export_names:
  "\<not> hasIdentityName ''ReachedContain''" "\<not> hasIdentityName ''EngagedVelocity''" "\<not> hasIdentityName ''EngagedPoison''"
  "\<not> hasIdentityName ''HeldBand''" "\<not> hasIdentityName ''DisengagedEarly''" "\<not> hasIdentityName ''PoisonClass''"
  "\<not> hasIdentityName ''CadenceBand''"
  by code_simp+

lemma export_tags:
  "list_all (\<lambda>(f, t). parseSafeTag (sf_Tag f) \<noteq> None \<and> \<not> isBlockedTag (sf_Tag f) \<and> sf_PkgPath f = [] \<and> \<not> sf_Anonymous f) export_fields"
  "map (\<lambda>(f, t). parseBand (sf_Tag f)) export_fields = [None, None, None, Some (0, 3), None, None, Some (0, 3)]"
  by code_simp+

lemma export_type_allowed:
  "\<not> denylistedType (export_type ''network'' ''referenceExport'')" "\<not> denylistedType (export_type ''profile'' ''ExportForm'')"
  by code_simp+

lemma poisonclass_enum: "enumValues (ToLower ''PoisonClass'') = Some ['''', ''credential'', ''topology'', ''success'']"
  by code_simp

lemma tagged_sel [simp]: "sf_Name (tagged n tag) = n" "sf_PkgPath (tagged n tag) = []" "sf_Anonymous (tagged n tag) = False"
  by (simp_all add: tagged_def)

lemma export_kinds [simp]: "rt_Kind bool_type = KBool" "rt_Kind int_type = KInt" "rt_Kind string_type = KString"
  by (simp_all add: bool_type_def int_type_def string_type_def)

lemma clear_leaf_safe:
  assumes "parseSafeTag (sf_Tag f) \<noteq> None" "\<not> hasIdentityName (sf_Name f)"
  shows "clear_leaf n f bool_type (VBool b) = Inr (SBool b)"
    and "enumValues (ToLower (sf_Name f)) = Some vs \<Longrightarrow> s \<in> set vs \<Longrightarrow> clear_leaf n f string_type (VString s) = Inr (SStr s)"
    and "parseBand (sf_Tag f) = Some (0, 3) \<Longrightarrow> 0 \<le> i \<Longrightarrow> i \<le> 3 \<Longrightarrow> clear_leaf n f int_type (VInt i) = Inr (SInt i)"
  using assms
  by (auto simp: clear_leaf_def canReIdentify_def isBandedKind_def isUintKind_def wrap64_def maxBandSpan_def numericAsInt64_def copyScalar_def)

lemma clear_export_fields:
  assumes "valid_pattern sp" shows "clear_each export_fields (value_Fields (export_value sp)) [] [] = Inr (export_payload sp)"
proof -
  note tags = export_tags[unfolded export_fields_def list.pred_inject list.map prod.case list.inject]
  have c: "sp_PoisonClass sp \<in> set ['''', ''credential'', ''topology'', ''success'']"
    and b: "0 \<le> sp_HeldBand sp" "sp_HeldBand sp \<le> 3" "0 \<le> sp_CadenceBand sp" "sp_CadenceBand sp \<le> 3"
    using assms by (auto simp: valid_pattern_def)
  show ?thesis
    unfolding export_fields_def export_value_def export_payload_def
    using tags c b
    by (simp add: clear_leaf_safe export_names poisonclass_enum)
qed

lemma clear_export:
  assumes "valid_pattern sp" "(pkg, name) \<in> {(''network'', ''referenceExport''), (''profile'', ''ExportForm'')}"
  shows "clearFields (export_type pkg name, export_value sp) = Inr (export_payload sp)"
proof -
  have "\<not> denylistedType (export_type pkg name)" "\<not> isTimeType (export_type pkg name)"
    using assms(2) export_type_allowed by (auto simp: isTimeType_def export_type_def)
  then show ?thesis using clear_export_fields[OF assms(1)]
    by (simp add: clearFields_def export_type_def) (simp add: export_payload_def)
qed

lemma key_export_payload: "coarseKeyFromPayload (export_payload sp) = key_of_pattern sp"
  by (simp add: coarseKeyFromPayload_def export_payload_def key_of_pattern_def payload_bool_def payload_int_def payload_string_def)

lemma coarseKey_export:
  assumes "valid_pattern sp" "(pkg, name) \<in> {(''network'', ''referenceExport''), (''profile'', ''ExportForm'')}"
  shows "coarseKeyFromExport (export_type pkg name, export_value sp) = Inr (key_of_pattern sp)"
  using clear_export[OF assms] by (simp add: coarseKeyFromExport_def key_export_payload)

section \<open>The ledger counts scopes\<close>

text \<open>A history of recorded forms, and the scopes that exhibited a pattern in it.\<close>

definition record_all :: "('k \<Rightarrow> string \<Rightarrow> 'b) \<Rightarrow> ('k, 'b) Ledger option \<Rightarrow> (string \<times> export) list \<Rightarrow> ('k, 'b) Ledger option" where
  "record_all mac l h = foldl (\<lambda>l (s, e). snd (RecordForm mac l s e)) l h"

definition exhibitors :: "(string \<times> export) list \<Rightarrow> coarseKey \<Rightarrow> string set" where
  "exhibitors h key = {s. \<exists>e. (s, e) \<in> set h \<and> coarseKeyFromExport e = Inr key}"

lemma buckets_of_update:
  "buckets_of (g\<lparr>lg_seen := AList.update key bs (lg_seen g)\<rparr>) key' = (if key' = key then bs else buckets_of g key')"
  by (simp add: buckets_of_def AList.update_conv')

lemma RecordForm_Some:
  "snd (RecordForm mac (Some g) s e) = Some (case coarseKeyFromExport e of Inl _ \<Rightarrow> g
     | Inr key \<Rightarrow> g\<lparr>lg_seen := AList.update key (List.insert (mac (lg_salt g) s) (buckets_of g key)) (lg_seen g)\<rparr>)"
  by (simp add: RecordForm_def bucket_def Let_def split: sum.split)

lemma record_all_buckets:
  assumes "\<forall>key. distinct (buckets_of g key) \<and> set (buckets_of g key) = mac (lg_salt g) ` E key"
  shows "\<exists>g'. record_all mac (Some g) h = Some g' \<and> lg_salt g' = lg_salt g \<and> lg_enrolled g' = lg_enrolled g \<and>
    (\<forall>key. distinct (buckets_of g' key) \<and> set (buckets_of g' key) = mac (lg_salt g) ` (E key \<union> exhibitors h key))"
  using assms
proof (induction h arbitrary: g E)
  case Nil
  then show ?case by (simp add: record_all_def exhibitors_def)
next
  case (Cons x h)
  obtain s e where x: "x = (s, e)" by (cases x)
  let ?E = "\<lambda>key. E key \<union> exhibitors [x] key"
  obtain g1 where g1: "snd (RecordForm mac (Some g) s e) = Some g1" "lg_salt g1 = lg_salt g" "lg_enrolled g1 = lg_enrolled g"
    and b: "\<forall>key. distinct (buckets_of g1 key) \<and> set (buckets_of g1 key) = mac (lg_salt g1) ` ?E key"
    using Cons.prems by (cases "coarseKeyFromExport e")
      (auto simp: RecordForm_Some exhibitors_def x buckets_of_update)
  have "exhibitors (x # h) key = exhibitors [x] key \<union> exhibitors h key" for key by (auto simp: exhibitors_def)
  then show ?case using Cons.IH[OF b] g1(1-3) by (simp add: record_all_def x Un_assoc)
qed

lemma record_all_count:
  assumes "inj (mac salt)" "NewLedger (Inr salt) = Inr g"
  shows "distinctScopes (record_all mac (Some g) h) key = card (exhibitors h key)"
proof -
  have g: "lg_salt g = salt" "\<forall>key. buckets_of g key = []" using assms(2) by (auto simp: NewLedger_def buckets_of_def)
  then obtain g' where "record_all mac (Some g) h = Some g'" "distinct (buckets_of g' key)"
    "set (buckets_of g' key) = mac salt ` exhibitors h key"
    using record_all_buckets[of g mac "\<lambda>_. {}" h] by auto
  with assms(1) show ?thesis
    by (simp add: distinctScopes_def flip: distinct_card) (metis card_image inj_on_subset subset_UNIV)
qed

text \<open>
  Property C33. The count is the number of scopes. Whatever forms were recorded, in whatever order and
  however often, the ledger's count for a pattern is the number of different scopes that exhibited it,
  as long as the keyed digest gives different scopes different buckets.
\<close>

theorem ledger_counts_scopes:
  assumes "inj (mac salt)" "NewLedger (Inr salt) = Inr g"
  shows "distinctScopes (record_all mac (Some g) h) key = card (exhibitors h key)"
  using assms by (rule record_all_count)

section \<open>Across the boundary and back\<close>

lemma read_members_distinct: "distinct (map fst ms) \<Longrightarrow> fst ` set ms \<inter> fst ` set raw = {} \<Longrightarrow> read_members ms raw = Inr (raw @ ms)"
  by (induction ms raw rule: read_members.induct) auto

lemma wire_export:
  "wire_members (export_payload sp) =
    [(''CadenceBand'', JNumber (FormatInt (sp_CadenceBand sp))), (''DisengagedEarly'', JBool (sp_DisengagedEarly sp)),
     (''EngagedPoison'', JBool (sp_EngagedPoison sp)), (''EngagedVelocity'', JBool (sp_EngagedVelocity sp)),
     (''HeldBand'', JNumber (FormatInt (sp_HeldBand sp))), (''PoisonClass'', JString (sp_PoisonClass sp)),
     (''ReachedContain'', JBool (sp_ReachedContain sp))]"
  by (simp add: wire_members_def export_payload_def sort_by_def List_Lexorder.Cons_less_Cons)

lemma band_digits: "i \<in> {0..3} \<Longrightarrow> ParseInt (FormatInt i) = Some i"
  by (rule ParseInt_FormatInt) auto

lemma pattern_of_wire:
  assumes "valid_pattern sp" shows "pattern_of_members (wire_members (export_payload sp)) = Inr sp"
proof -
  have "sp_PoisonClass sp \<in> set (the (enumValues ''poisonclass''))" using assms by (auto simp: valid_pattern_def enumValues_def)
  moreover have "sp_HeldBand sp \<in> {0..3}" "sp_CadenceBand sp \<in> {0..3}" using assms by (auto simp: valid_pattern_def)
  ultimately show ?thesis
    by (simp add: pattern_of_members_def wire_export getBool_def getBand_def getClass_def bind_shared_def band_digits sharedStringField_def)
qed

lemma parse_wire:
  assumes "json_ok js" "valid_pattern sp"
  shows "ParseSharedPattern js (js_Marshal js (wire_members (export_payload sp))) = Inr sp"
    and "\<not> js_newline js (js_Marshal js (wire_members (export_payload sp)))"
proof -
  let ?ms = "wire_members (export_payload sp)"
  have d: "distinct (map fst ?ms)" and l: "length ?ms = 7" by (simp_all add: wire_export)
  moreover have "list_all (\<lambda>(k, v). ascii k \<and> json_scalar v) ?ms"
    using assms(2) by (auto simp: wire_export ascii_def valid_pattern_def)
  ultimately have j: "js_Decoder js (js_Marshal js ?ms) = JObject ?ms False" and n: "\<not> js_newline js (js_Marshal js ?ms)"
    using assms(1) unfolding json_ok_def by blast+
  have "read_members ?ms [] = Inr ?ms" using read_members_distinct[OF d, of "[]"] by simp
  then show "ParseSharedPattern js (js_Marshal js ?ms) = Inr sp"
    using j l pattern_of_wire[OF assms(2)] by (simp add: ParseSharedPattern_def sharedBoolFields_def sharedIntFields_def)
  show "\<not> js_newline js (js_Marshal js ?ms)" by (rule n)
qed

lemma ParseSharedPattern_valid:
  assumes "ParseSharedPattern js w = Inr sp" shows "valid_pattern sp"
proof -
  have b: "0 \<le> i \<and> i \<le> 3" if "getBand raw k = Inr i" for raw k i
    using that by (auto simp: getBand_def split: option.splits jvalue.splits if_splits)
  have c: "pc \<in> {'''', ''credential'', ''topology'', ''success''}" if "getClass raw k = Inr pc" for raw k pc
    using that by (auto simp: getClass_def enumValues_def split: option.splits jvalue.splits if_splits)
  from assms obtain raw where "pattern_of_members raw = Inr sp"
    by (auto simp: ParseSharedPattern_def split: jdoc.splits sum.splits if_splits)
  then have "getBand raw ''HeldBand'' = Inr (sp_HeldBand sp)" "getBand raw ''CadenceBand'' = Inr (sp_CadenceBand sp)"
    "getClass raw sharedStringField = Inr (sp_PoisonClass sp)"
    by (auto simp: pattern_of_members_def bind_shared_def split: sum.splits)
  then show ?thesis unfolding valid_pattern_def using b c by (simp only: atLeastAtMost_iff)
qed

lemma Clear_shared:
  assumes "valid_pattern sp"
  shows "ClearWithLedger (Some (SharedCandidate sp)) (Some g) =
    (let n = length (buckets_of g (key_of_pattern sp))
     in if n < 3 then Inl (SubK n)
        else Inr \<lparr>cl_payload = export_payload sp, cl_seenInScopes = int n, cl_fieldCount = 7, cl_ledgerVerified = True\<rparr>)"
  using clear_export[OF assms, of "''network''" "''referenceExport''"]
  by (simp add: ClearWithLedger_def SharedCandidate_def referenceExportFromShared_def distinctScopes_def
      key_export_payload aggregationK_def Let_def) (simp add: export_payload_def)

lemma Marshal_export:
  "cl_payload c = export_payload sp \<Longrightarrow> Marshal js c = (if cl_ledgerVerified c then Inr (js_Marshal js (wire_members (export_payload sp))) else Inl FormOnly)"
  by (simp add: Marshal_def export_payload_def)

text \<open>
  Property C34. A pattern crosses unchanged. A pattern in the coarse shape (both bands in 0..3, the class in
  the closed vocabulary) clears exactly when the ledger has at least three buckets for its own key, the
  carrier marshals, and the receiving side parses the wire back to the very same pattern; and the
  receiving side accepts nothing that is not in the coarse shape.
\<close>

theorem pattern_crosses_unchanged:
  assumes "json_ok js" "valid_pattern sp"
  shows "(\<forall>c. ClearWithLedger (Some (SharedCandidate sp)) (Some g) = Inr c \<longrightarrow>
      (\<exists>w. Marshal js c = Inr w \<and> ParseSharedPattern js w = Inr sp \<and> \<not> js_newline js w)) \<and>
    ((\<exists>c. ClearWithLedger (Some (SharedCandidate sp)) (Some g) = Inr c) \<longleftrightarrow> 3 \<le> length (buckets_of g (key_of_pattern sp))) \<and>
    (\<forall>w sp'. ParseSharedPattern js w = Inr sp' \<longrightarrow> valid_pattern sp')"
proof (intro conjI allI impI)
  fix c assume "ClearWithLedger (Some (SharedCandidate sp)) (Some g) = Inr c"
  then have "cl_payload c = export_payload sp" "cl_ledgerVerified c"
    by (auto simp: Clear_shared[OF assms(2)] Let_def split: if_splits)
  then show "\<exists>w. Marshal js c = Inr w \<and> ParseSharedPattern js w = Inr sp \<and> \<not> js_newline js w"
    using parse_wire[OF assms] by (simp add: Marshal_export)
qed (auto simp: Clear_shared[OF assms(2)] Let_def not_less split: if_splits dest: ParseSharedPattern_valid)

section \<open>The aggregated view\<close>

definition agg_key :: "AggregatedPattern \<Rightarrow> bool \<times> bool \<times> bool \<times> bool \<times> int \<times> int \<times> string" where
  "agg_key a = (ap_ReachedContain a, ap_EngagedVelocity a, ap_EngagedPoison a, ap_DisengagedEarly a, ap_HeldBand a,
     ap_CadenceBand a, ap_PoisonClass a)"

lemma aggLess_key: "aggLess a b \<longleftrightarrow> agg_key a < agg_key b"
  by (auto simp: aggLess_def agg_key_def less_bool_def)

lemma agg_key_inj: "inj_on agg_key A"
  by (auto simp: inj_on_def agg_key_def)

lemma aggregated_of_inj: "aggregated_of a = aggregated_of b \<longleftrightarrow> a = b"
  by (auto simp: aggregated_of_def)

definition ledger_ok :: "('k, 'b) Ledger \<Rightarrow> bool" where
  "ledger_ok g \<longleftrightarrow> distinct (map fst (lg_seen g))"

lemma RecordForm_ok: "ledger_ok g \<Longrightarrow> snd (RecordForm mac (Some g) s e) = Some g' \<Longrightarrow> ledger_ok g'"
  by (auto simp: RecordForm_Some ledger_ok_def distinct_update split: sum.splits)

lemma record_all_ok:
  "ledger_ok g \<Longrightarrow> record_all mac (Some g) h = Some g' \<Longrightarrow> ledger_ok g'"
proof (induction h arbitrary: g)
  case (Cons x h)
  obtain s e where x: "x = (s, e)" by (cases x)
  obtain g1 where "snd (RecordForm mac (Some g) s e) = Some g1" by (simp add: RecordForm_Some)
  with Cons x RecordForm_ok[of g mac s e g1] show ?case by (simp add: record_all_def)
qed (simp add: record_all_def)

text \<open>
  The external view is k-anonymous and stable. The aggregated patterns are exactly the ones that
  as many scopes as asked for, and never fewer than five, have corroborated, whatever smaller number
  the caller names; they come in one order, whichever order the map is ranged over.
\<close>

theorem aggregated_k_anonymous:
  fixes g :: "('k, 'b) Ledger"
  assumes "ledger_ok g" "enumeration perm"
  shows "set (Aggregated perm (Some g) n) = aggregated_of ` {key. max 5 n \<le> int (length (buckets_of g key))} \<and>
    distinct (Aggregated perm (Some g) n) \<and> Aggregated perm (Some g) n = Aggregated (\<lambda>xs. xs) (Some g) n \<and>
    sorted (map agg_key (Aggregated perm (Some g) n))"
proof -
  let ?m = "if n < FeedK then FeedK else n"
  let ?sel = "\<lambda>xs. map (aggregated_of \<circ> fst) (filter (\<lambda>(key, bs). ?m \<le> int (length bs)) xs)"
  have A: "Aggregated p (Some g) n = sort_key agg_key (?sel (p (lg_seen g)))" for p
    by (simp add: Aggregated_def Let_def sort_by_key[of aggLess agg_key] aggLess_key)
  have ms: "mset (?sel (perm (lg_seen g))) = mset (?sel (lg_seen g))"
  proof -
    have "mset (perm (lg_seen g)) = mset (lg_seen g)" using assms(2) by (simp add: enumeration_def)
    then show ?thesis by (simp only: mset_map mset_filter)
  qed
  have m5: "?m = max 5 n" by (simp add: FeedK_def max_def)
  have "(key, bs) \<in> set (lg_seen g) \<longleftrightarrow> map_of (lg_seen g) key = Some bs" for key bs
    using assms(1) unfolding ledger_ok_def by (rule map_of_mem)
  note mem = this
  have iff: "(\<exists>bs. (key, bs) \<in> set (lg_seen g) \<and> ?m \<le> int (length bs)) \<longleftrightarrow> ?m \<le> int (length (buckets_of g key))" for key
    unfolding mem by (cases "map_of (lg_seen g) key") (simp_all add: buckets_of_def FeedK_def)
  have "fst ` {x \<in> S. case x of (k, bs) \<Rightarrow> P bs} = {key. \<exists>bs. (key, bs) \<in> S \<and> P bs}" for S :: "(coarseKey \<times> 'b list) set" and P
    by force
  then have "fst ` {x \<in> set (lg_seen g). case x of (k, bs) \<Rightarrow> ?m \<le> int (length bs)} = {key. ?m \<le> int (length (buckets_of g key))}"
    by (simp only: iff)
  then have "set (?sel (lg_seen g)) = aggregated_of ` {key. ?m \<le> int (length (buckets_of g key))}"
    by (simp only: set_map set_filter image_comp[symmetric])
  then have s: "set (?sel (perm (lg_seen g))) = aggregated_of ` {key. max 5 n \<le> int (length (buckets_of g key))}"
    using mset_eq_setD[OF ms] m5 by simp
  have "distinct (map fst (filter (\<lambda>(key, bs). ?m \<le> int (length bs)) (lg_seen g)))"
    using assms(1) unfolding ledger_ok_def by (rule distinct_fst_filter)
  then have "distinct (map aggregated_of (map fst (filter (\<lambda>(key, bs). ?m \<le> int (length bs)) (lg_seen g))))"
    unfolding distinct_map[of aggregated_of] by (simp add: inj_on_def aggregated_of_inj)
  then have d: "distinct (?sel (perm (lg_seen g)))" using mset_eq_imp_distinct_iff[OF ms] by simp
  show ?thesis unfolding A
    by (intro conjI sort_key_perm[OF ms agg_key_inj] sorted_sort_key) (simp_all only: set_sort s distinct_sort d)
qed

section \<open>Where coarseness fails\<close>

text \<open>
  A single numeric field whose declared band is the whole range of its type, and one whose band ends at
  the value that \<open>numericAsInt64\<close> substitutes for large unsigned values.
\<close>

definition int64_type :: rtype where "int64_type = RType KInt64 [] ''int64'' None []"
definition uint64_type :: rtype where "uint64_type = RType KUint64 [] ''uint64'' None []"

definition wide_export :: "int \<Rightarrow> int \<Rightarrow> export" where
  "wide_export i u = (RType KStruct ''example.org/producer'' ''Report'' None
     [(tagged ''Count'' ''safe,band=-9223372036854775808..9223372036854775807,a count'', int64_type),
      (tagged ''Total'' ''safe,band=4611686018427387648..4611686018427387904,a total'', uint64_type)],
     VStruct [VInt i, VUint u])"

lemma wide_tags:
  "\<not> hasIdentityName ''Count''" "\<not> hasIdentityName ''Total''"
  "parseSafeTag (sf_Tag (tagged ''Count'' ''safe,band=-9223372036854775808..9223372036854775807,a count'')) = Some ''band=-9223372036854775808..9223372036854775807,a count''"
  "parseSafeTag (sf_Tag (tagged ''Total'' ''safe,band=4611686018427387648..4611686018427387904,a total'')) = Some ''band=4611686018427387648..4611686018427387904,a total''"
  "\<not> isBlockedTag (sf_Tag (tagged ''Count'' ''safe,band=-9223372036854775808..9223372036854775807,a count''))"
  "\<not> isBlockedTag (sf_Tag (tagged ''Total'' ''safe,band=4611686018427387648..4611686018427387904,a total''))"
  "parseBand (sf_Tag (tagged ''Count'' ''safe,band=-9223372036854775808..9223372036854775807,a count'')) = Some (- (2 ^ 63), 2 ^ 63 - 1)"
  "parseBand (sf_Tag (tagged ''Total'' ''safe,band=4611686018427387648..4611686018427387904,a total'')) = Some (2 ^ 62 - 256, 2 ^ 62)"
  "\<not> denylistedTypeName ''example.org/producer'' ''Report''"
  by code_simp+

lemma clear_wide:
  assumes "- (2 ^ 63) \<le> i" "i < 2 ^ 63" "2 ^ 62 \<le> u"
  shows "clearFields (wide_export i u) = Inr [(''Count'', SInt i), (''Total'', SUint u)]"
  using assms
  by (simp add: clearFields_def wide_export_def wide_tags int64_type_def uint64_type_def isTimeType_def clear_leaf_def canReIdentify_def
      isBandedKind_def isUintKind_def numericAsInt64_def copyScalar_def maxBandSpan_def wrap64_def Let_def)

text \<open>
  A raw count can cross. The span of a band is computed in 64 bits and wraps, so a field tagged
  with the whole range of int64 passes as coarse and any value of it crosses; an unsigned value beyond
  62 bits is compared as 2 to the 62 but copied as it is; and the count of scopes is keyed on the seven
  named fields only, so three scopes that recorded three other values corroborate this one.
\<close>

theorem raw_count_crosses:
  assumes "- (2 ^ 63) \<le> i" "i < 2 ^ 63" "2 ^ 62 \<le> u" "inj (mac salt)" "distinct [s1, s2, s3]"
    and "\<forall>(s, j, w)\<in>set h. - (2 ^ 63) \<le> j \<and> j < 2 ^ 63 \<and> 2 ^ 62 \<le> w" "{s1, s2, s3} \<subseteq> fst ` set h"
    and "NewLedger (Inr salt) = Inr g"
  shows "\<exists>c. ClearWithLedger (Some \<lparr>cd_export = wide_export i u, cd_ctx = \<lparr>Contribute = True, SeenInScopes = 0\<rparr>\<rparr>)
      (record_all mac (Some g) (map (\<lambda>(s, j, w). (s, wide_export j w)) h)) = Inr c \<and>
    cl_payload c = [(''Count'', SInt i), (''Total'', SUint u)] \<and> cl_ledgerVerified c"
proof -
  let ?h = "map (\<lambda>(s, j, w). (s, wide_export j w)) h"
  let ?key = "coarseKeyFromPayload [(''Count'', SInt i), (''Total'', SUint u)]"
  have key: "coarseKeyFromExport (wide_export j w) = Inr ?key" if "- (2 ^ 63) \<le> j" "j < 2 ^ 63" "2 ^ 62 \<le> w" for j w
    using clear_wide[OF that] by (simp add: coarseKeyFromExport_def coarseKeyFromPayload_def payload_bool_def payload_int_def payload_string_def)
  have "fst ` set h \<subseteq> exhibitors ?h ?key"
  proof
    fix s assume "s \<in> fst ` set h"
    then obtain j w where m: "(s, j, w) \<in> set h" by auto
    then have "(s, wide_export j w) \<in> set ?h" by force
    moreover have "coarseKeyFromExport (wide_export j w) = Inr ?key" using assms(6) m by (intro key) auto
    ultimately show "s \<in> exhibitors ?h ?key" unfolding exhibitors_def by blast
  qed
  with assms(7) have "{s1, s2, s3} \<subseteq> exhibitors ?h ?key" by blast
  moreover have "finite (exhibitors ?h ?key)"
    by (rule finite_subset[of _ "fst ` set ?h"]) (force simp: exhibitors_def)+
  ultimately have "card {s1, s2, s3} \<le> card (exhibitors ?h ?key)" by (rule card_mono[rotated])
  with assms(5) record_all_count[of mac salt g ?h ?key, OF assms(4,8)] have n: "3 \<le> distinctScopes (record_all mac (Some g) ?h) ?key" by simp
  then have "record_all mac (Some g) ?h \<noteq> None" by (auto simp: distinctScopes_def split: option.splits)
  with n show ?thesis using clear_wide[OF assms(1-3)] by (auto simp: ClearWithLedger_def aggregationK_def Let_def)
qed

section \<open>Witnesses\<close>

text \<open>A pattern of a jailed automation, recorded by three scopes in a ledger whose digest is the name itself.\<close>

definition demo_pattern :: SharedPattern where
  "demo_pattern = \<lparr>sp_ReachedContain = True, sp_EngagedVelocity = True, sp_EngagedPoison = True, sp_HeldBand = 2,
     sp_DisengagedEarly = True, sp_PoisonClass = ''topology'', sp_CadenceBand = 1\<rparr>"

definition demo_mac :: "nat \<Rightarrow> string \<Rightarrow> string" where "demo_mac salt s = s"

definition demo_ledger :: "(nat, string) Ledger" where
  "demo_ledger = \<lparr>lg_seen = [(key_of_pattern demo_pattern, [''a'', ''b'', ''c''])], lg_salt = 0, lg_enrolled = None\<rparr>"

definition identity_json :: "(string \<times> jvalue) list json" where
  "identity_json = \<lparr>js_Marshal = (\<lambda>ms. ms), js_Decoder = (\<lambda>w. JObject w False), js_newline = (\<lambda>_. False)\<rparr>"

lemma identity_json_ok: "json_ok identity_json"
  by (simp add: json_ok_def identity_json_def)

lemma demo_pattern_valid: "valid_pattern demo_pattern"
  by (simp add: valid_pattern_def demo_pattern_def)

lemma demo_buckets: "buckets_of demo_ledger (key_of_pattern demo_pattern) = [''a'', ''b'', ''c'']"
  by (simp add: buckets_of_def demo_ledger_def)

lemma demo_mac_inj: "inj (demo_mac 0)"
  by (simp add: inj_on_def demo_mac_def)

lemma export_leaves:
  "leaves (export_type pkg name) (export_value sp) [] = map2 (\<lambda>(f, t) v. (sf_Name f, f, t, v)) export_fields (value_Fields (export_value sp))"
  by (simp add: export_type_def export_fields_def export_value_def)

theorem egress_only_coarse_witness:
  "\<exists>cl. ClearWithLedger (Some (SharedCandidate demo_pattern)) (Some demo_ledger) = Inr cl \<and>
    (\<forall>(n, s)\<in>set (cl_payload cl). s \<noteq> SNil \<and> \<not> hasIdentityName n)"
proof -
  obtain cl where cl: "ClearWithLedger (Some (SharedCandidate demo_pattern)) (Some demo_ledger) = Inr cl"
    by (simp add: Clear_shared[OF demo_pattern_valid] demo_buckets)
  let ?t = "export_type ''network'' ''referenceExport''" and ?v = "export_value demo_pattern"
  have d: "deref (fst (cd_export (SharedCandidate demo_pattern))) (snd (cd_export (SharedCandidate demo_pattern))) = Inr (?t, ?v)"
    by (simp add: SharedCandidate_def referenceExportFromShared_def export_type_def)
  have "list_all (\<lambda>(f, t). narrow_band (sf_Tag f)) export_fields" by code_simp
  then have n: "\<forall>(n, f, t', v')\<in>set (leaves ?t ?v []). narrow_band (sf_Tag f)"
    unfolding export_leaves by (auto simp: list_all_iff dest!: set_zip_leftD)
  have nm: "n = sf_Name f" if "(n, f, t, v) \<in> set (leaves ?t ?v [])" for n f t v
    using that unfolding export_leaves by auto
  have nn: "s \<noteq> SNil" if "s \<in> set (coarse_values f t)" for s f t
    using that by (auto simp: coarse_values_def split: if_splits option.splits)
  show ?thesis using egress_only_coarse[OF cl d n] cl nm nn by fastforce
qed

theorem ledger_counts_scopes_witness:
  "distinctScopes (record_all demo_mac (Some \<lparr>lg_seen = [], lg_salt = 0, lg_enrolled = None\<rparr>)
     [(''a'', referenceExportFromShared demo_pattern), (''b'', referenceExportFromShared demo_pattern),
      (''a'', referenceExportFromShared demo_pattern)]) (key_of_pattern demo_pattern) = 2"
proof -
  let ?e = "referenceExportFromShared demo_pattern"
  have k: "coarseKeyFromExport ?e = Inr (key_of_pattern demo_pattern)"
    unfolding referenceExportFromShared_def by (rule coarseKey_export[OF demo_pattern_valid]) simp
  have "exhibitors [(''a'', ?e), (''b'', ?e), (''a'', ?e)] (key_of_pattern demo_pattern) = {''a'', ''b''}"
    using k by (auto simp: exhibitors_def simp del: split_paired_Ex)
  with ledger_counts_scopes[where mac = demo_mac and salt = 0, OF demo_mac_inj, of "\<lparr>lg_seen = [], lg_salt = 0, lg_enrolled = None\<rparr>"]
  show ?thesis by (simp add: NewLedger_def)
qed

theorem pattern_crosses_unchanged_witness:
  "\<exists>c w. ClearWithLedger (Some (SharedCandidate demo_pattern)) (Some demo_ledger) = Inr c \<and> Marshal identity_json c = Inr w \<and>
     ParseSharedPattern identity_json w = Inr demo_pattern"
  using pattern_crosses_unchanged[OF identity_json_ok demo_pattern_valid, of demo_ledger] demo_buckets by auto

theorem aggregated_k_anonymous_witness:
  "Aggregated rev (Some \<lparr>lg_seen = [(key_of_pattern demo_pattern, [''a'', ''b'', ''c''])], lg_salt = (0::nat), lg_enrolled = None\<rparr>) 1 = []"
proof -
  let ?g = "\<lparr>lg_seen = [(key_of_pattern demo_pattern, [''a'', ''b'', ''c''])], lg_salt = (0::nat), lg_enrolled = None\<rparr>"
  have "length (buckets_of ?g key) < 5" for key by (simp add: buckets_of_def)
  then have "{key. max 5 1 \<le> int (length (buckets_of ?g key))} = {}" by (simp add: not_le)
  moreover have "ledger_ok ?g" by (simp add: ledger_ok_def)
  ultimately show ?thesis using aggregated_k_anonymous[of ?g rev 1, OF _ enumeration_rev] by (simp del: max_def)
qed

theorem raw_count_crosses_witness:
  "\<exists>c. ClearWithLedger (Some \<lparr>cd_export = wide_export 123456789 (2 ^ 63), cd_ctx = \<lparr>Contribute = True, SeenInScopes = 0\<rparr>\<rparr>)
      (record_all demo_mac (Some \<lparr>lg_seen = [], lg_salt = 0, lg_enrolled = None\<rparr>)
        (map (\<lambda>(s, j, w). (s, wide_export j w)) [(''a'', 1, 2 ^ 62), (''b'', 2, 2 ^ 62), (''c'', 3, 2 ^ 62)])) = Inr c \<and>
    cl_payload c = [(''Count'', SInt 123456789), (''Total'', SUint (2 ^ 63))]"
proof -
  have r: "- (2 ^ 63) \<le> (123456789 :: int)" "(123456789 :: int) < 2 ^ 63" "(2 ^ 62 :: int) \<le> 2 ^ 63" by simp_all
  have d: "distinct [''a'', ''b'', ''c'']" by simp
  show ?thesis
    using raw_count_crosses[where mac = demo_mac and salt = 0, OF r demo_mac_inj d, where g = "\<lparr>lg_seen = [], lg_salt = 0, lg_enrolled = None\<rparr>"
        and h = "[(''a'', 1, 2 ^ 62), (''b'', 2, 2 ^ 62), (''c'', 3, 2 ^ 62)]"]
    by (auto simp: NewLedger_def)
qed

end
