(* ===== verification/Profiles.thy ===== *)
theory Profiles
  imports Events Egress Baseline
begin

text \<open>
  Behavioural profiles and the two matchers that sharpen the multiplier:
  \<^verbatim>\<open>internal/intelligence/stats\<close>, \<^verbatim>\<open>internal/intelligence/profile\<close> (derivation, export form, inbound lift and
  the similarity kernel), \<^verbatim>\<open>internal/intelligence/sharpen\<close> (the confirmed-malicious set of a scope),
  \<^verbatim>\<open>internal/intelligence/sharedset\<close> (patterns of other deployments) and their composition \<^verbatim>\<open>matcherSet\<close> in
  \<^verbatim>\<open>internal/boot/boot.go\<close>. Theorems: a profile does not depend on the order its events arrive in, except
  for one floating-point sum; the kernel is symmetric and stays in \<open>[0, 1]\<close>; a match needs three distinct
  jailed flows of the same scope; every profile has an export form the egress filter clears.
\<close>

section \<open>Summary statistics\<close>

definition Median :: "f64 list \<Rightarrow> f64" where
  "Median xs =
     (if xs = [] then 0
      else let cp = sort_by f64_before xs; n = length cp
           in if odd n then cp ! (n div 2) else fdiv (cp ! (n div 2 - 1) + cp ! (n div 2)) (lit 2))"

definition MAD :: "f64 list \<Rightarrow> f64" where
  "MAD xs = (if length xs < 2 then 0 else let m = Median xs in Median (map (\<lambda>x. fabs (x - m)) xs))"

section \<open>Profiles\<close>

record Profile =
  pf_OrderedTypes :: "string list"
  pf_Touches :: int
  pf_PeakTier :: int
  pf_DepthReached :: int
  pf_CadenceSec :: f64
  pf_CadenceJitter :: f64
  pf_AdjacencyNov :: f64
  pf_IdentityNov :: f64
  pf_AxesEngaged :: "bool list"
  pf_HeldSec :: f64
  pf_PersistsTarpit :: bool
  pf_DisengagedEarly :: bool
  pf_TimeToDisengageSec :: f64
  pf_PoisonClass :: string
  pf_PoisonReached :: int
  pf_ExploitsObserved :: int
  pf_ExposureSignals :: int
  pf_BehavioralHash :: u64

definition zero_profile :: Profile where
  "zero_profile = \<lparr>pf_OrderedTypes = [], pf_Touches = 0, pf_PeakTier = 0, pf_DepthReached = 0, pf_CadenceSec = 0, pf_CadenceJitter = 0,
     pf_AdjacencyNov = 0, pf_IdentityNov = 0, pf_AxesEngaged = replicate 5 False, pf_HeldSec = 0, pf_PersistsTarpit = False,
     pf_DisengagedEarly = False, pf_TimeToDisengageSec = 0, pf_PoisonClass = [], pf_PoisonReached = 0, pf_ExploitsObserved = 0,
     pf_ExposureSignals = 0, pf_BehavioralHash = 0\<rparr>"

definition axisBits :: "AttritionAxis list" where
  "axisBits = [AxisVelocity, AxisPoison, AxisOppCost, AxisExploitBurn, AxisOpExposure]"

abbreviation (input) featAdjacency :: string where "featAdjacency \<equiv> ''adjacency_novelty''"
abbreviation (input) featIdentity :: string where "featIdentity \<equiv> ''identity_novelty''"

definition tarpitPersistSec :: f64 where "tarpitPersistSec = lit 30"

definition cadenceBand :: "f64 \<Rightarrow> int" where
  "cadenceBand sec = (if sec \<le> 0 \<or> sec < lit 5 then 0 else if sec < lit 30 then 1 else if sec < lit 120 then 2 else 3)"

definition heldBand :: "f64 \<Rightarrow> int" where
  "heldBand sec = (if sec \<le> 0 then 0 else if sec < lit 4 then 1 else if sec < lit 30 then 2 else 3)"

text \<open>The order of the events: time, canary type, the deeper poison stage first, poison class.\<close>

definition event_before :: "AdversaryInteractionEvent \<Rightarrow> AdversaryInteractionEvent \<Rightarrow> bool" where
  "event_before a b =
     (if ie_Timestamp a \<noteq> ie_Timestamp b then ie_Timestamp a < ie_Timestamp b
      else if ie_CanaryType a \<noteq> ie_CanaryType b then ie_CanaryType a < ie_CanaryType b
      else if is_PoisonReached (ie_Sting a) \<noteq> is_PoisonReached (ie_Sting b)
        then is_PoisonReached (ie_Sting b) < is_PoisonReached (ie_Sting a)
      else is_PoisonClass (ie_Sting a) < is_PoisonClass (ie_Sting b))"

definition feature :: "feature_map \<Rightarrow> string \<Rightarrow> f64" where
  "feature fm k = (case fm of None \<Rightarrow> 0 | Some m \<Rightarrow> (case map_of m k of None \<Rightarrow> 0 | Some v \<Rightarrow> v))"

definition peak :: "f64 \<Rightarrow> f64 \<Rightarrow> f64" where "peak v m = (if m < v then v else m)"

text \<open>One pass of the loop over the ordered events; the axes are collected beside the profile.\<close>

definition derive_event :: "Profile \<times> AttritionAxis \<Rightarrow> AdversaryInteractionEvent \<Rightarrow> Profile \<times> AttritionAxis" where
  "derive_event pa e =
     (let (p, axes) = pa; st = ie_Sting e; early = is_DisengageReason st = DisengageAttacker
      in (p\<lparr>pf_OrderedTypes := pf_OrderedTypes p @ (if ie_CanaryType e \<noteq> [] then [ie_CanaryType e] else []),
            pf_PeakTier := max (pf_PeakTier p) (ie_Tier e),
            pf_DepthReached := max (pf_DepthReached p) (is_DepthReached st),
            pf_AdjacencyNov := peak (feature (ie_Features e) featAdjacency) (pf_AdjacencyNov p),
            pf_IdentityNov := peak (feature (ie_Features e) featIdentity) (pf_IdentityNov p),
            pf_HeldSec := pf_HeldSec p + is_TimeHeldSec st,
            pf_PersistsTarpit := (pf_PersistsTarpit p \<or> tarpitPersistSec < is_TimeHeldSec st),
            pf_DisengagedEarly := (pf_DisengagedEarly p \<or> early),
            pf_TimeToDisengageSec := (if early then peak (is_TimeToDisengageSec st) (pf_TimeToDisengageSec p) else pf_TimeToDisengageSec p),
            pf_PoisonClass := (if pf_PoisonReached p < is_PoisonReached st then is_PoisonClass st else pf_PoisonClass p),
            pf_PoisonReached := max (pf_PoisonReached p) (is_PoisonReached st),
            pf_ExploitsObserved := wrap64 (pf_ExploitsObserved p + is_ExploitsObserved st),
            pf_ExposureSignals := wrap64 (pf_ExposureSignals p + is_ExposureSignals st)\<rparr>,
          or axes (is_Axes st)))"

text \<open>\<^verbatim>\<open>Time.Sub\<close> saturates at the range of a duration.\<close>

definition time_Sub :: "time \<Rightarrow> time \<Rightarrow> duration" where
  "time_Sub t u = max (- (2 ^ 63)) (min (2 ^ 63 - 1) (t - u))"

fun gaps :: "time list \<Rightarrow> f64 list" where
  "gaps (t # u # ts) = Seconds (time_Sub u t) # gaps (u # ts)"
| "gaps _ = []"

fun strings_Join :: "string list \<Rightarrow> string \<Rightarrow> string" where
  "strings_Join [] sep = []"
| "strings_Join [s] sep = s"
| "strings_Join (s # ss) sep = s @ sep @ strings_Join ss sep"

definition hash_input :: "Profile \<Rightarrow> string" where
  "hash_input p = strings_Join (pf_OrderedTypes p) '','' @ ''|c'' @ FormatInt (cadenceBand (pf_CadenceSec p)) @ ''|'' @
     map (\<lambda>e. if e then CHR ''1'' else CHR ''0'') (pf_AxesEngaged p) @ ''|p'' @ pf_PoisonClass p @ ''|t'' @ FormatInt (pf_PoisonReached p) @
     ''|d'' @ (if pf_DisengagedEarly p then ''true'' else ''false'')"

definition behavioralHash :: "Profile \<Rightarrow> u64" where
  "behavioralHash p = fnv64a (hash_input p)"

definition derive_ordered :: "AdversaryInteractionEvent list \<Rightarrow> Profile" where
  "derive_ordered ordered =
     (let (p, axes) = foldl derive_event (zero_profile\<lparr>pf_Touches := int (length ordered)\<rparr>, 0) ordered;
          gs = gaps (map ie_Timestamp ordered);
          p = p\<lparr>pf_AxesEngaged := map (\<lambda>b. and axes b \<noteq> 0) axisBits, pf_CadenceSec := Median gs,
                pf_CadenceJitter := (if 2 \<le> length gs then MAD gs else 0)\<rparr>
      in p\<lparr>pf_BehavioralHash := behavioralHash p\<rparr>)"

definition DeriveProfile :: "AdversaryInteractionEvent list \<Rightarrow> Profile option" where
  "DeriveProfile events = (if events = [] then None else Some (derive_ordered (sort_by event_before events)))"

section \<open>The export form and the inbound lift\<close>

definition clampPoisonClass :: "string \<Rightarrow> string" where
  "clampPoisonClass c = (if c \<in> {[], ''credential'', ''topology'', ''success''} then c else [])"

definition ToExportForm :: "Profile \<Rightarrow> SharedPattern" where
  "ToExportForm p =
     \<lparr>sp_ReachedContain = TierContain \<le> pf_PeakTier p, sp_EngagedVelocity = pf_AxesEngaged p ! 0, sp_EngagedPoison = pf_AxesEngaged p ! 1,
      sp_HeldBand = heldBand (pf_HeldSec p), sp_DisengagedEarly = pf_DisengagedEarly p,
      sp_PoisonClass = clampPoisonClass (pf_PoisonClass p), sp_CadenceBand = cadenceBand (pf_CadenceSec p)\<rparr>"

definition ExportForm :: "SharedPattern \<Rightarrow> rtype \<times> rvalue" where
  "ExportForm form = (export_type ''profile'' ''ExportForm'', export_value form)"

definition profile_Candidate :: "Profile \<Rightarrow> ContributionContext \<Rightarrow> Candidate" where
  "profile_Candidate p ctx = \<lparr>cd_export = ExportForm (ToExportForm p), cd_ctx = ctx\<rparr>"

datatype share_error = ShareNilProfile | ShareRefused egress_error

definition ValidateProfileForSharing :: "Profile option \<Rightarrow> share_error option" where
  "ValidateProfileForSharing p =
     (case p of None \<Rightarrow> Some ShareNilProfile
      | Some p \<Rightarrow> (case Clear (Some (profile_Candidate p \<lparr>Contribute = True, SeenInScopes = 2 ^ 20\<rparr>)) of
            Inl e \<Rightarrow> Some (ShareRefused e) | Inr _ \<Rightarrow> None))"

definition cadenceRepForBand :: "int \<Rightarrow> f64" where
  "cadenceRepForBand band = (if band = 1 then lit 10 else if band = 2 then lit 60 else if band = 3 then lit 200 else lit 1)"

definition FromSharedPattern :: "SharedPattern \<Rightarrow> Profile" where
  "FromSharedPattern sp =
     zero_profile\<lparr>pf_CadenceSec := cadenceRepForBand (sp_CadenceBand sp), pf_PoisonClass := sp_PoisonClass sp,
       pf_DisengagedEarly := sp_DisengagedEarly sp, pf_PeakTier := (if sp_ReachedContain sp then TierContain else 0),
       pf_AxesEngaged := (pf_AxesEngaged zero_profile)[0 := sp_EngagedVelocity sp, 1 := sp_EngagedPoison sp]\<rparr>"

section \<open>The similarity kernel\<close>

definition clamp01 :: "f64 \<Rightarrow> f64" where
  "clamp01 x = (if x < 0 then 0 else if 1 < x then 1 else x)"

definition typeSet :: "string list \<Rightarrow> string list" where "typeSet types = remdups types"

definition jaccard :: "string list \<Rightarrow> string list \<Rightarrow> f64" where
  "jaccard a b =
     (if a = [] \<and> b = [] then 0
      else let inter = int (length (filter (\<lambda>k. k \<in> set b) a)); union = int (length a) + int (length b) - inter
           in if union = 0 then 0 else fdiv (f64_of_int inter) (f64_of_int union))"

definition axisJaccard :: "bool list \<Rightarrow> bool list \<Rightarrow> f64" where
  "axisJaccard a b =
     (let inter = int (length (filter (\<lambda>(x, y). x \<and> y) (zip a b))); union = int (length (filter (\<lambda>(x, y). x \<or> y) (zip a b)))
      in if union = 0 then 0 else fdiv (f64_of_int inter) (f64_of_int union))"

definition cadSim :: "Profile \<Rightarrow> Profile \<Rightarrow> f64" where
  "cadSim p q = (if cadenceBand (pf_CadenceSec p) = cadenceBand (pf_CadenceSec q) then 1 else 0)"

definition reactSim :: "Profile \<Rightarrow> Profile \<Rightarrow> f64" where
  "reactSim p q =
     (let r = (if pf_PoisonClass p \<noteq> [] \<and> pf_PoisonClass p = pf_PoisonClass q then 0 + lit (1 / 2) else 0)
      in if pf_DisengagedEarly p \<and> pf_DisengagedEarly q then r + lit (1 / 2) else r)"

definition weigh :: "f64 \<Rightarrow> f64 \<Rightarrow> f64 \<Rightarrow> f64 \<Rightarrow> f64" where
  "weigh ts ax cad react = lit (40 / 100) * ts + lit (30 / 100) * ax + lit (15 / 100) * cad + lit (15 / 100) * react"

text \<open>\<open>same\<close> says that the two pointers are equal.\<close>

definition Similarity :: "bool \<Rightarrow> Profile \<Rightarrow> Profile \<Rightarrow> f64" where
  "Similarity same p q =
     (if same \<or> pf_BehavioralHash p \<noteq> 0 \<and> pf_BehavioralHash p = pf_BehavioralHash q then 1
      else clamp01 (weigh (jaccard (typeSet (pf_OrderedTypes p)) (typeSet (pf_OrderedTypes q)))
             (axisJaccard (pf_AxesEngaged p) (pf_AxesEngaged q)) (cadSim p q) (reactSim p q)))"

section \<open>The confirmed-malicious set\<close>

definition MinConfirmedJails :: int where "MinConfirmedJails = 3"
definition FreshnessWindow :: duration where "FreshnessWindow = 30 * 24 * hour"
definition lookbackWindow :: duration where "lookbackWindow = hour"

type_synonym event_query = "ScopeKey \<Rightarrow> time \<Rightarrow> time \<Rightarrow> store_error + AdversaryInteractionEvent list"

definition deriveFlow :: "event_query option \<Rightarrow> ScopeKey \<Rightarrow> u64 \<Rightarrow> time \<Rightarrow> Profile option" where
  "deriveFlow src scope cookie now =
     (case src of None \<Rightarrow> None
      | Some q \<Rightarrow> (case q scope (now - lookbackWindow) now of
            Inl _ \<Rightarrow> None
          | Inr evs \<Rightarrow> DeriveProfile (filter (\<lambda>e. ie_FlowID e = cookie) evs)))"

record jail_entry =
  je_prof :: Profile
  je_flows :: "u64 list"
  je_lastJail :: time

type_synonym sharpen_Store = "ScopeKey \<Rightarrow> (u64 \<times> jail_entry) list"

definition sharpen_NewStore :: sharpen_Store where "sharpen_NewStore = (\<lambda>_. [])"

definition record_entry :: "jail_entry option \<Rightarrow> Profile \<Rightarrow> u64 \<Rightarrow> time \<Rightarrow> jail_entry" where
  "record_entry e p cookie now =
     (let e = (case e of None \<Rightarrow> \<lparr>je_prof = p, je_flows = [], je_lastJail = 0\<rparr> | Some e \<Rightarrow> e)
      in \<lparr>je_prof = p, je_flows = List.insert cookie (je_flows e), je_lastJail = (if je_lastJail e < now then now else je_lastJail e)\<rparr>)"

definition RecordJail :: "event_query option \<Rightarrow> sharpen_Store \<Rightarrow> ScopeKey \<Rightarrow> u64 \<Rightarrow> time \<Rightarrow> Profile option \<times> sharpen_Store" where
  "RecordJail src s scope cookie now =
     (case deriveFlow src scope cookie now of
        None \<Rightarrow> (None, s)
      | Some p \<Rightarrow> (Some p, s(scope := AList.update (pf_BehavioralHash p)
                                  (record_entry (map_of (s scope) (pf_BehavioralHash p)) p cookie now) (s scope))))"

definition eligible :: "sharpen_Store \<Rightarrow> ScopeKey \<Rightarrow> time \<Rightarrow> Profile list" where
  "eligible s scope now = map (je_prof \<circ> snd)
     (filter (\<lambda>(h, e). MinConfirmedJails \<le> int (length (je_flows e)) \<and> time_Sub now (je_lastJail e) \<le> FreshnessWindow) (s scope))"

definition best_similarity :: "Profile \<Rightarrow> Profile list \<Rightarrow> f64" where
  "best_similarity emerging ps = foldl (\<lambda>best cp. let sim = Similarity False emerging cp in if best < sim then sim else best) 0 ps"

text \<open>The set is enumerated in the order \<open>perm\<close> of the map; the emerging profile is a fresh object.\<close>

definition sharpen_Match ::
  "(Profile list \<Rightarrow> Profile list) \<Rightarrow> event_query option \<Rightarrow> sharpen_Store \<Rightarrow> ScopeKey \<Rightarrow> FlowIdentity \<Rightarrow> time \<Rightarrow> f64" where
  "sharpen_Match perm src s scope flow now =
     (if eligible s scope now = [] then 0
      else case deriveFlow src scope (SocketCookie flow) now of
        None \<Rightarrow> 0 | Some emerging \<Rightarrow> best_similarity emerging (perm (eligible s scope now)))"

section \<open>Patterns of other deployments\<close>

type_synonym sharedset_Store = "Profile list"

definition sharedset_Add :: "sharedset_Store \<Rightarrow> SharedPattern \<Rightarrow> sharedset_Store" where
  "sharedset_Add s sp = s @ [FromSharedPattern sp]"

definition sharedset_Match :: "event_query option \<Rightarrow> sharedset_Store \<Rightarrow> ScopeKey \<Rightarrow> FlowIdentity \<Rightarrow> time \<Rightarrow> f64" where
  "sharedset_Match src s scope flow now =
     (if s = [] then 0
      else case deriveFlow src scope (SocketCookie flow) now of None \<Rightarrow> 0 | Some emerging \<Rightarrow> best_similarity emerging s)"

record matcherSet =
  ms_local :: "Matcher option"
  ms_shared :: "Matcher option"

definition matcherSet_Match :: "matcherSet \<Rightarrow> Matcher" where
  "matcherSet_Match m scope flow now =
     (let best = (case ms_local m of None \<Rightarrow> 0 | Some f \<Rightarrow> f scope flow now)
      in case ms_shared m of None \<Rightarrow> best
         | Some f \<Rightarrow> let s = f scope flow now in if best < s then s else best)"

section \<open>A profile forgets the order of its events\<close>

definition event_key :: "AdversaryInteractionEvent \<Rightarrow> int \<times> string \<times> int \<times> string" where
  "event_key e = (ie_Timestamp e, ie_CanaryType e, - is_PoisonReached (ie_Sting e), is_PoisonClass (ie_Sting e))"

lemma event_before_key: "event_before a b \<longleftrightarrow> event_key a < event_key b"
  by (auto simp: event_before_def event_key_def less_prod_def)

lemma sort_events: "sort_by event_before es = sort_key event_key es"
  by (rule sort_by_key) (rule event_before_key)

lemma sorted_keys_perm:
  assumes "mset es = mset es'" shows "map event_key (sort_key event_key es) = map event_key (sort_key event_key es')"
proof -
  have "sort (map event_key es) = map event_key (sort_key event_key es)" "sort (map event_key es) = map event_key (sort_key event_key es')"
    using assms by (intro properties_for_sort; simp add: mset_map)+
  then show ?thesis by simp
qed

text \<open>The loop, field by field: what depends on the keys in their order, and what is commutative.\<close>

definition type_of_key :: "int \<times> string \<times> int \<times> string \<Rightarrow> string list" where
  "type_of_key k = (case k of (t, c, r, cl) \<Rightarrow> if c \<noteq> [] then [c] else [])"

definition poison_of_key :: "string \<times> int \<Rightarrow> int \<times> string \<times> int \<times> string \<Rightarrow> string \<times> int" where
  "poison_of_key pr k = (case pr of (c, r) \<Rightarrow> case k of (t, ty, r', c') \<Rightarrow> if r < - r' then (c', - r') else (c, r))"

abbreviation derive_loop :: "Profile \<times> AttritionAxis \<Rightarrow> AdversaryInteractionEvent list \<Rightarrow> Profile \<times> AttritionAxis" where
  "derive_loop \<equiv> foldl derive_event"

lemma loop_OrderedTypes:
  "pf_OrderedTypes (fst (derive_loop (p, a) es)) = pf_OrderedTypes p @ concat (map type_of_key (map event_key es))"
  by (induction es arbitrary: p a) (auto simp: derive_event_def type_of_key_def event_key_def Let_def)

lemma loop_Poison:
  "(pf_PoisonClass (fst (derive_loop (p, a) es)), pf_PoisonReached (fst (derive_loop (p, a) es))) =
     foldl poison_of_key (pf_PoisonClass p, pf_PoisonReached p) (map event_key es)"
  by (induction es arbitrary: p a) (auto simp: derive_event_def poison_of_key_def event_key_def Let_def max_def)

text \<open>The commutative fields as one tuple.\<close>

type_synonym tallies = "(int \<times> int) \<times> (f64 \<times> f64 \<times> f64) \<times> (bool \<times> bool) \<times> (int \<times> int) \<times> AttritionAxis"

definition tallies :: "Profile \<times> AttritionAxis \<Rightarrow> tallies" where
  "tallies pa = (case pa of (p, a) \<Rightarrow> ((pf_PeakTier p, pf_DepthReached p), (pf_AdjacencyNov p, pf_IdentityNov p, pf_TimeToDisengageSec p),
     (pf_PersistsTarpit p, pf_DisengagedEarly p), (pf_ExploitsObserved p, pf_ExposureSignals p), a))"

definition tally :: "AdversaryInteractionEvent \<Rightarrow> tallies \<Rightarrow> tallies" where
  "tally e x = (case x of ((pk, d), (adj, idn, tt), (per, early), (ex, sg), a) \<Rightarrow>
     let st = ie_Sting e; now = is_DisengageReason st = DisengageAttacker in
     ((max pk (ie_Tier e), max d (is_DepthReached st)),
      (peak (feature (ie_Features e) featAdjacency) adj, peak (feature (ie_Features e) featIdentity) idn,
       if now then peak (is_TimeToDisengageSec st) tt else tt),
      (per \<or> tarpitPersistSec < is_TimeHeldSec st, early \<or> now),
      (wrap64 (ex + is_ExploitsObserved st), wrap64 (sg + is_ExposureSignals st)), or a (is_Axes st)))"

lemma loop_tallies: "tallies (derive_loop pa es) = fold tally es (tallies pa)"
  by (induction es arbitrary: pa) (auto simp: tallies_def tally_def derive_event_def Let_def split: prod.splits)

lemma peak_commute: "peak v (peak w m) = peak w (peak v m)"
  by (cases v; cases w; cases m) (auto simp: peak_def)

lemma wrap64_add_commute: "wrap64 (wrap64 (x + a) + b) = wrap64 (wrap64 (x + b) + a)"
proof -
  have "wrap64 (wrap64 u + v) = wrap64 (u + v)" for u v by (simp add: wrap64_def mod_simps algebra_simps)
  then show ?thesis by (simp add: algebra_simps)
qed

lemma tally_commute: "tally e \<circ> tally e' = tally e' \<circ> tally e"
  by (auto simp: fun_eq_iff tally_def Let_def peak_commute wrap64_add_commute max.commute max.left_commute or.commute or.left_commute split: prod.splits)

lemma loop_tallies_perm: "mset es = mset es' \<Longrightarrow> tallies (derive_loop pa es) = tallies (derive_loop pa es')"
  unfolding loop_tallies by (rule fun_cong[OF fold_multiset_equiv]) (auto simp: tally_commute)

lemma loop_frame:
  "pf_Touches (fst (derive_loop pa es)) = pf_Touches (fst pa)" "pf_CadenceSec (fst (derive_loop pa es)) = pf_CadenceSec (fst pa)"
  "pf_CadenceJitter (fst (derive_loop pa es)) = pf_CadenceJitter (fst pa)" "pf_AxesEngaged (fst (derive_loop pa es)) = pf_AxesEngaged (fst pa)"
  "pf_BehavioralHash (fst (derive_loop pa es)) = pf_BehavioralHash (fst pa)"
  by (induction es arbitrary: pa) (auto simp: derive_event_def Let_def split: prod.splits)

lemma loop_perm:
  assumes "mset es = mset es'"
  shows "(fst (derive_loop pa (sort_key event_key es)))\<lparr>pf_HeldSec := 0\<rparr> = (fst (derive_loop pa (sort_key event_key es')))\<lparr>pf_HeldSec := 0\<rparr>"
    and "snd (derive_loop pa (sort_key event_key es)) = snd (derive_loop pa (sort_key event_key es'))"
proof -
  let ?x = "derive_loop pa (sort_key event_key es)" and ?y = "derive_loop pa (sort_key event_key es')"
  have t: "tallies ?x = tallies ?y" using assms by (intro loop_tallies_perm) simp
  have o: "pf_OrderedTypes (fst ?x) = pf_OrderedTypes (fst ?y)"
    using loop_OrderedTypes[of "fst pa" "snd pa"] sorted_keys_perm[OF assms] by (simp del: map_map)
  have p: "pf_PoisonClass (fst ?x) = pf_PoisonClass (fst ?y) \<and> pf_PoisonReached (fst ?x) = pf_PoisonReached (fst ?y)"
    using loop_Poison[of "fst pa" "snd pa"] sorted_keys_perm[OF assms] by (metis (no_types, lifting) prod.collapse prod.inject)
  show "(fst ?x)\<lparr>pf_HeldSec := 0\<rparr> = (fst ?y)\<lparr>pf_HeldSec := 0\<rparr>"
    using t o p loop_frame by (simp add: tallies_def case_prod_unfold Profile.equality)
  show "snd ?x = snd ?y" using t by (simp add: tallies_def case_prod_unfold)
qed

lemma hash_HeldSec [simp]: "behavioralHash (p\<lparr>pf_HeldSec := h\<rparr>) = behavioralHash p"
  by (simp add: behavioralHash_def hash_input_def)

lemma timestamps_perm: "mset es = mset es' \<Longrightarrow> map ie_Timestamp (sort_key event_key es) = map ie_Timestamp (sort_key event_key es')"
  using arg_cong[OF sorted_keys_perm, of es es' "map fst"] by (simp add: event_key_def comp_def)

text \<open>
  Property C38. A profile does not depend on the order its events arrive in. Two lists with the same events give
  profiles equal in every field, the behavioural hash included, except the total hold time, which is
  summed in binary64.
\<close>

theorem derive_order_independent:
  assumes "mset events = mset events'"
  shows "map_option (\<lambda>p. p\<lparr>pf_HeldSec := 0\<rparr>) (DeriveProfile events) = map_option (\<lambda>p. p\<lparr>pf_HeldSec := 0\<rparr>) (DeriveProfile events')"
proof (cases "events = []")
  case False
  then have ne: "events' \<noteq> []" using assms by auto
  have len: "length events = length events'" using assms by (metis size_mset)
  let ?pa = "(zero_profile\<lparr>pf_Touches := int (length events')\<rparr>, 0)"
  obtain p a where x: "derive_loop ?pa (sort_key event_key events) = (p, a)" by (metis surj_pair)
  obtain p' a' where y: "derive_loop ?pa (sort_key event_key events') = (p', a')" by (metis surj_pair)
  have pp: "p\<lparr>pf_HeldSec := 0\<rparr> = p'\<lparr>pf_HeldSec := 0\<rparr>" "a = a'" using loop_perm[OF assms, of ?pa] x y by simp_all
  have "(derive_ordered (sort_key event_key events))\<lparr>pf_HeldSec := 0\<rparr> = (derive_ordered (sort_key event_key events'))\<lparr>pf_HeldSec := 0\<rparr>"
    using pp by (cases p; cases p') (simp add: derive_ordered_def len x y timestamps_perm[OF assms] Let_def behavioralHash_def hash_input_def)
  with False ne show ?thesis by (simp add: DeriveProfile_def sort_events)
qed (use assms in simp)

definition demo_hold :: "f64 \<Rightarrow> AdversaryInteractionEvent" where
  "demo_hold sec = demo_event\<lparr>ie_Sting := zero_sting\<lparr>is_TimeHeldSec := sec\<rparr>\<rparr>"

theorem derive_order_independent_witness:
  "mset [demo_event, demo_hold 1] = mset [demo_hold 1, demo_event] \<and>
   map_option (\<lambda>p. p\<lparr>pf_HeldSec := 0\<rparr>) (DeriveProfile [demo_event, demo_hold 1]) =
   map_option (\<lambda>p. p\<lparr>pf_HeldSec := 0\<rparr>) (DeriveProfile [demo_hold 1, demo_event])"
  using derive_order_independent[of "[demo_event, demo_hold 1]" "[demo_hold 1, demo_event]"] by simp

lemma demo_hold_before: "\<not> event_before (demo_hold a) (demo_hold b)"
  by (simp add: event_before_def demo_hold_def)

lemma demo_hold_HeldSec:
  "map_option pf_HeldSec (DeriveProfile [demo_hold a, demo_hold b, demo_hold c]) = Some (0 + a + b + c)"
proof -
  have "sort_by event_before [demo_hold a, demo_hold b, demo_hold c] = [demo_hold a, demo_hold b, demo_hold c]"
    by (simp add: sort_by_def demo_hold_before)
  then show ?thesis
    by (simp add: DeriveProfile_def derive_ordered_def derive_event_def Let_def zero_profile_def) (simp add: demo_hold_def)
qed

lemma hold_lits: "lit (3 / 10) = Fin (5404319552844595 / 18014398509481984)" "lit (34 / 10) = Fin (7656119366529843 / 2251799813685248)"
    "lit 4 = Fin 4" "lit 30 = Fin 30"
  by (simp_all add: f64_eval)

text \<open>
  The hold band of an export form does depend on the order. Three touches of one millisecond held for
  0.3, 0.3 and 3.4 seconds sum to 4.0 in one order and to less in another, and land in different bands:
  the same behaviour is counted in the ledger under two patterns.
\<close>

theorem held_band_depends_on_order:
  "mset [demo_hold (lit (3 / 10)), demo_hold (lit (3 / 10)), demo_hold (lit (34 / 10))] =
   mset [demo_hold (lit (34 / 10)), demo_hold (lit (3 / 10)), demo_hold (lit (3 / 10))] \<and>
   map_option (sp_HeldBand \<circ> ToExportForm) (DeriveProfile [demo_hold (lit (3 / 10)), demo_hold (lit (3 / 10)), demo_hold (lit (34 / 10))]) = Some 2 \<and>
   map_option (sp_HeldBand \<circ> ToExportForm) (DeriveProfile [demo_hold (lit (34 / 10)), demo_hold (lit (3 / 10)), demo_hold (lit (3 / 10))]) = Some 1"
proof -
  have f: "map_option (sp_HeldBand \<circ> ToExportForm) (DeriveProfile [demo_hold a, demo_hold b, demo_hold c]) = Some (heldBand (0 + a + b + c))" for a b c
    using demo_hold_HeldSec[of a b c] by (cases "DeriveProfile [demo_hold a, demo_hold b, demo_hold c]") (auto simp: ToExportForm_def)
  have "heldBand (0 + lit (3 / 10) + lit (3 / 10) + lit (34 / 10)) = 2" "heldBand (0 + lit (34 / 10) + lit (3 / 10) + lit (3 / 10)) = 1"
    by (simp_all add: heldBand_def hold_lits f64_eval)
  then show ?thesis by (simp add: f)
qed

section \<open>Export\<close>

lemma heldBand_range: "heldBand s \<in> {0..3}"
  by (simp add: heldBand_def)

lemma cadenceBand_range: "cadenceBand s \<in> {0..3}"
  by (simp add: cadenceBand_def)

lemma ToExportForm_valid: "valid_pattern (ToExportForm p)"
  using heldBand_range cadenceBand_range by (simp add: valid_pattern_def ToExportForm_def clampPoisonClass_def)

lemma cadenceRepForBand_band: "b \<in> {0..3} \<Longrightarrow> cadenceBand (cadenceRepForBand b) = b"
proof -
  assume "b \<in> {0..3}"
  then have "b = 0 \<or> b = 1 \<or> b = 2 \<or> b = 3" by auto
  moreover have "cadenceBand (cadenceRepForBand 0) = 0" "cadenceBand (cadenceRepForBand 1) = 1"
    "cadenceBand (cadenceRepForBand 2) = 2" "cadenceBand (cadenceRepForBand 3) = 3"
    by (simp_all add: cadenceBand_def cadenceRepForBand_def f64_eval)
  ultimately show ?thesis by auto
qed

lemma lift_export: "valid_pattern sp \<Longrightarrow> ToExportForm (FromSharedPattern sp) = sp\<lparr>sp_HeldBand := 0\<rparr>"
  by (cases sp) (auto simp: ToExportForm_def FromSharedPattern_def zero_profile_def valid_pattern_def clampPoisonClass_def
      heldBand_def numeral_eq_Suc cadenceRepForBand_band zero_f64_def)

text \<open>
  Every profile is shareable, and sharing forgets. Whatever events a profile was derived from, the
  egress filter clears its export form, with the seven coarse fields and nothing else; and what a
  receiver lifts from the pattern exports again as the same pattern, up to the hold band, which the
  lift drops.
\<close>

theorem profile_shareable:
  "ValidateProfileForSharing (Some p) = None \<and>
   clearFields (ExportForm (ToExportForm p)) = Inr (export_payload (ToExportForm p)) \<and>
   length (export_payload (ToExportForm p)) = 7 \<and>
   ToExportForm (FromSharedPattern (ToExportForm p)) = (ToExportForm p)\<lparr>sp_HeldBand := 0\<rparr>"
proof -
  have c: "clearFields (ExportForm (ToExportForm p)) = Inr (export_payload (ToExportForm p))"
    unfolding ExportForm_def by (rule clear_export) (simp_all add: ToExportForm_valid)
  moreover have "ValidateProfileForSharing (Some p) = None"
    using c by (simp add: ValidateProfileForSharing_def Clear_def profile_Candidate_def aggregationK_def)
  ultimately show ?thesis using lift_export[OF ToExportForm_valid] by (simp add: export_payload_def)
qed

section \<open>The kernel\<close>

text \<open>A similarity term: a number of the unit interval.\<close>

definition unit64 :: "f64 \<Rightarrow> bool" where
  "unit64 x \<longleftrightarrow> 0 \<le> x \<and> x \<le> 1"

lemma unit64E: assumes "unit64 x" obtains q where "x = Fin q" "0 \<le> q" "q \<le> 1"
  using assms by (cases x) (auto simp: unit64_def zero_f64_def one_f64_def)

lemma unit64_0 [simp]: "unit64 0" and unit64_1 [simp]: "unit64 1"
  by (simp_all add: unit64_def zero_f64_def one_f64_def)

lemma unit64_rnd: "0 \<le> q \<Longrightarrow> q \<le> 1 \<Longrightarrow> unit64 (rnd q)"
  using rnd_mono[of 0 q] rnd_mono[of q 1] by (simp add: unit64_def zero_f64_def one_f64_def rnd_exact)

lemma unit64_ratio:
  assumes "0 \<le> a" "a \<le> b" "0 < b" "b \<le> 2 ^ 53" shows "unit64 (fdiv (f64_of_int a) (f64_of_int b))"
proof -
  have "rat_of_int a / rat_of_int b \<le> 1" using assms by simp
  with assms show ?thesis by (simp add: f64_of_int_exact unit64_rnd)
qed

lemma card_filter: "distinct xs \<Longrightarrow> length (filter P xs) = card {x \<in> set xs. P x}"
  by (metis distinct_card distinct_filter set_filter)

lemma inter_card: "distinct a \<Longrightarrow> length (filter (\<lambda>k. k \<in> set b) a) = card (set a \<inter> set b)"
  by (simp add: card_filter Int_def)

text \<open>The count over two lists without repetition is the Jaccard index of their sets.\<close>

lemma jaccard_set:
  assumes "distinct a" "distinct b"
  shows "jaccard a b = (if a = [] \<and> b = [] then 0
    else fdiv (f64_of_int (int (card (set a \<inter> set b)))) (f64_of_int (int (card (set a \<union> set b)))))"
proof -
  have "int (length a) + int (length b) - int (card (set a \<inter> set b)) = int (card (set a \<union> set b))"
    using card_Un_Int[of "set a" "set b"] assms by (simp add: distinct_card)
  moreover have "card (set a \<union> set b) \<noteq> 0" if "\<not> (a = [] \<and> b = [])" using that by auto
  ultimately show ?thesis using assms by (auto simp: jaccard_def inter_card Let_def)
qed

lemma jaccard_commute: "distinct a \<Longrightarrow> distinct b \<Longrightarrow> jaccard a b = jaccard b a"
  by (auto simp: jaccard_set Int_commute Un_commute)

lemma jaccard_unit:
  assumes "distinct a" "distinct b" "int (length a) + int (length b) \<le> 2 ^ 53" shows "unit64 (jaccard a b)"
proof (cases "a = [] \<and> b = []")
  case False
  have "card (set a \<inter> set b) \<le> card (set a \<union> set b)" by (intro card_mono) auto
  moreover have "0 < card (set a \<union> set b)" using False by (auto simp: card_gt_0_iff)
  moreover have "int (card (set a \<union> set b)) \<le> 2 ^ 53"
    using card_Un_le[of "set a" "set b"] assms by (simp add: distinct_card)
  ultimately show ?thesis using False assms by (simp add: jaccard_set unit64_ratio)
qed (simp add: jaccard_def)

lemma jaccard_empty: "int (length a) \<le> 2 ^ 53 \<Longrightarrow> distinct a \<Longrightarrow> jaccard a [] = 0"
  by (auto simp: jaccard_set f64_of_int_exact zero_f64_def rnd_exact distinct_card)

lemma axisJaccard_commute: "length a = length b \<Longrightarrow> axisJaccard a b = axisJaccard b a"
proof -
  assume "length a = length b"
  then have "length (filter (\<lambda>(x, y). P x y) (zip a b)) = length (filter (\<lambda>(x, y). P y x) (zip b a))" for P
    by (induction a b rule: list_induct2) auto
  from this[of "\<lambda>x y. x \<and> y"] this[of "\<lambda>x y. x \<or> y"] show ?thesis
    by (simp add: axisJaccard_def conj_commute disj_commute)
qed

lemma axisJaccard_unit: "length a = 5 \<Longrightarrow> unit64 (axisJaccard a b)"
proof -
  assume a: "length a = 5"
  have "length (filter (\<lambda>(x, y). x \<and> y) zs) \<le> length (filter (\<lambda>(x, y). x \<or> y) zs)" for zs :: "(bool \<times> bool) list"
    by (induction zs) auto
  moreover have "length (filter (\<lambda>(x, y). x \<or> y) (zip a b)) \<le> 5"
    by (rule order_trans[OF length_filter_le]) (simp add: a)
  ultimately show ?thesis by (auto simp: axisJaccard_def Let_def intro!: unit64_ratio)
qed

lemma cadSim_unit: "unit64 (cadSim p q)" and cadSim_commute: "cadSim p q = cadSim q p"
  by (simp_all add: cadSim_def eq_commute)

lemma reactSim_values: "reactSim p q \<in> {0, Fin (1 / 2), 1}"
  by (simp add: reactSim_def Let_def zero_f64_def one_f64_def rnd_exact wf64_half_int[of 1, simplified])

lemma reactSim_unit: "unit64 (reactSim p q)"
  using reactSim_values[of p q] by (auto simp: unit64_def zero_f64_def one_f64_def)

lemma reactSim_commute: "reactSim p q = reactSim q p"
  by (auto simp: reactSim_def Let_def)

lemma clamp01_unit: "x \<noteq> NaN \<Longrightarrow> unit64 (clamp01 x)"
  by (cases x) (auto simp: clamp01_def unit64_def zero_f64_def one_f64_def)

lemma kernel_lits:
  "lit (40 / 100) = Fin (3602879701896397 / 9007199254740992)" "lit (30 / 100) = Fin (5404319552844595 / 18014398509481984)"
  "lit (15 / 100) = Fin (5404319552844595 / 36028797018963968)" "lit (60 / 100) = Fin (5404319552844595 / 9007199254740992)"
  by (simp_all add: f64_eval)

text \<open>Rounded products and sums of numbers with known bounds.\<close>

definition below :: "rat \<Rightarrow> f64 \<Rightarrow> bool" where
  "below c x \<longleftrightarrow> (\<exists>q. x = Fin q \<and> 0 \<le> q \<and> q \<le> c)"

lemma below_rnd:
  assumes "0 \<le> q" "q \<le> c" "rnd c = Fin d" shows "below d (rnd q)"
proof -
  have "rnd q \<le> Fin d" "Fin 0 \<le> rnd q" using rnd_mono[OF assms(2)] rnd_nonneg[OF assms(1)] assms(3) by simp_all
  then show ?thesis by (cases "rnd q") (auto simp: below_def)
qed

lemma below_times: "unit64 x \<Longrightarrow> 0 \<le> w \<Longrightarrow> rnd w = Fin w \<Longrightarrow> below w (Fin w * x)"
  by (erule unit64E) (auto intro!: below_rnd[where c = w] mult_left_le)

lemma below_plus:
  assumes "below a x" "below b y" "rnd (a + b) = Fin d" shows "below d (x + y)"
proof -
  obtain p q where "x = Fin p" "0 \<le> p" "p \<le> a" "y = Fin q" "0 \<le> q" "q \<le> b" using assms(1,2) by (auto simp: below_def)
  then show ?thesis using below_rnd[of "p + q" "a + b" d] assms(3) by simp
qed

lemma weigh_terms:
  assumes "unit64 ts" "unit64 ax" "unit64 cad" "unit64 react"
  shows "below (3602879701896397 / 9007199254740992) (lit (40 / 100) * ts)" "below (5404319552844595 / 18014398509481984) (lit (30 / 100) * ax)"
    "below (5404319552844595 / 36028797018963968) (lit (15 / 100) * cad)" "below (5404319552844595 / 36028797018963968) (lit (15 / 100) * react)"
  unfolding kernel_lits by (intro below_times assms; simp add: f64_eval)+

lemma weigh_sums:
  "rnd (3602879701896397 / 9007199254740992 + 5404319552844595 / 18014398509481984) = Fin (3152519739159347 / 4503599627370496)"
  "rnd (3152519739159347 / 4503599627370496 + 5404319552844595 / 36028797018963968) = Fin (7656119366529843 / 9007199254740992)"
  "rnd (7656119366529843 / 9007199254740992 + 5404319552844595 / 36028797018963968) = Fin 1"
  "rnd (0 + 5404319552844595 / 18014398509481984) = Fin (5404319552844595 / 18014398509481984)"
  "rnd (5404319552844595 / 18014398509481984 + 5404319552844595 / 36028797018963968) = Fin (2026619832316723 / 4503599627370496)"
  "rnd (2026619832316723 / 4503599627370496 + 5404319552844595 / 36028797018963968) = Fin (5404319552844595 / 9007199254740992)"
  by (simp_all add: f64_eval)

lemma weigh_below:
  assumes "unit64 ts" "unit64 ax" "unit64 cad" "unit64 react"
  shows "below 1 (weigh ts ax cad react)"
  unfolding weigh_def using weigh_terms[OF assms] weigh_sums(1-3) by (blast intro: below_plus)

lemma weigh_no_types:
  assumes "unit64 ax" "unit64 cad" "unit64 react"
  shows "below (5404319552844595 / 9007199254740992) (weigh 0 ax cad react)"
proof -
  have z: "below 0 (lit (40 / 100) * 0)" unfolding kernel_lits by (simp add: zero_f64_def below_def rnd_exact)
  show ?thesis unfolding weigh_def using z weigh_terms(2-4)[OF unit64_0 assms] weigh_sums(4-6) by (blast intro: below_plus)
qed

lemma clamp01_below: "below c x \<Longrightarrow> c \<le> 1 \<Longrightarrow> clamp01 x = x"
  by (auto simp: below_def clamp01_def zero_f64_def one_f64_def)

definition wf_profile :: "Profile \<Rightarrow> bool" where
  "wf_profile p \<longleftrightarrow> length (pf_AxesEngaged p) = 5 \<and> int (length (pf_OrderedTypes p)) \<le> 2 ^ 52"

lemma typeSet_length: "wf_profile p \<Longrightarrow> int (length (typeSet (pf_OrderedTypes p))) \<le> 2 ^ 52"
  unfolding wf_profile_def typeSet_def by (meson length_remdups_leq of_nat_mono order_trans)

lemma typeSet_distinct [simp]: "distinct (typeSet ts)"
  by (simp add: typeSet_def)

lemma kernel_unit:
  assumes "wf_profile p" "wf_profile q"
  shows "below 1 (weigh (jaccard (typeSet (pf_OrderedTypes p)) (typeSet (pf_OrderedTypes q)))
    (axisJaccard (pf_AxesEngaged p) (pf_AxesEngaged q)) (cadSim p q) (reactSim p q))"
  using assms typeSet_length[OF assms(1)] typeSet_length[OF assms(2)]
  by (intro weigh_below jaccard_unit axisJaccard_unit cadSim_unit reactSim_unit) (auto simp: wf_profile_def)

lemma FromSharedPattern_sel [simp]:
  "pf_OrderedTypes (FromSharedPattern sp) = []" "pf_BehavioralHash (FromSharedPattern sp) = 0" "length (pf_AxesEngaged (FromSharedPattern sp)) = 5"
  by (simp_all add: FromSharedPattern_def zero_profile_def)

text \<open>
  The similarity kernel is a bounded, symmetric measure. Between any two profiles it lies in \<open>[0, 1]\<close> and does not depend
  on which one is asked, it is exactly 1 for equal behavioural hashes, and against a pattern received
  from another deployment it never exceeds 0.6, in binary64 arithmetic.
\<close>

theorem similarity_bounded:
  assumes "wf_profile p" "wf_profile q"
  shows "0 \<le> Similarity same p q \<and> Similarity same p q \<le> 1 \<and> Similarity same p q = Similarity same q p \<and>
    (pf_BehavioralHash p \<noteq> 0 \<longrightarrow> Similarity False p p = 1) \<and> Similarity False p (FromSharedPattern sp) \<le> lit (60 / 100)"
proof (intro conjI)
  let ?k = "\<lambda>p q. weigh (jaccard (typeSet (pf_OrderedTypes p)) (typeSet (pf_OrderedTypes q)))
    (axisJaccard (pf_AxesEngaged p) (pf_AxesEngaged q)) (cadSim p q) (reactSim p q)"
  have k: "below 1 (?k p q)" by (rule kernel_unit[OF assms])
  then have "unit64 (Similarity same p q)"
    by (auto simp: Similarity_def clamp01_below[OF k] below_def unit64_def zero_f64_def one_f64_def)
  then show "0 \<le> Similarity same p q" "Similarity same p q \<le> 1" by (simp_all add: unit64_def)
  have "?k p q = ?k q p"
    using assms by (simp add: jaccard_commute axisJaccard_commute cadSim_commute[of p q] reactSim_commute[of p q] wf_profile_def)
  then show "Similarity same p q = Similarity same q p" by (auto simp: Similarity_def)
  show "pf_BehavioralHash p \<noteq> 0 \<longrightarrow> Similarity False p p = 1" by (simp add: Similarity_def)
  have j: "jaccard (typeSet (pf_OrderedTypes p)) (typeSet []) = 0"
    using typeSet_length[OF assms(1)] by (simp add: typeSet_def jaccard_empty)
  have b: "below (5404319552844595 / 9007199254740992) (weigh 0 (axisJaccard (pf_AxesEngaged p) (pf_AxesEngaged (FromSharedPattern sp)))
      (cadSim p (FromSharedPattern sp)) (reactSim p (FromSharedPattern sp)))"
    using assms by (intro weigh_no_types axisJaccard_unit cadSim_unit reactSim_unit) (simp add: wf_profile_def)
  show "Similarity False p (FromSharedPattern sp) \<le> lit (60 / 100)"
    unfolding kernel_lits using b by (auto simp: Similarity_def j clamp01_below[OF b] below_def)
qed

definition demo_profile :: Profile where
  "demo_profile = zero_profile\<lparr>pf_OrderedTypes := [''aws-key'', ''db-cred''], pf_BehavioralHash := 1\<rparr>"

theorem similarity_bounded_witness:
  "Similarity False demo_profile demo_profile = 1 \<and> Similarity False demo_profile zero_profile \<le> 1 \<and>
   Similarity False demo_profile (FromSharedPattern demo_pattern) \<le> lit (60 / 100)"
proof -
  have "wf_profile demo_profile" "wf_profile zero_profile" "pf_BehavioralHash demo_profile \<noteq> 0"
    by (simp_all add: wf_profile_def demo_profile_def zero_profile_def)
  with similarity_bounded[of demo_profile zero_profile False demo_pattern] show ?thesis by blast
qed

section \<open>The matchers\<close>

text \<open>
  What the baseline relies on in a matcher: the strength is a number of the unit interval, whatever the
  state. A store with such a matcher keeps its features numbers, so its multiplier keeps its bounds.
\<close>

locale matcher =
  fixes mtch :: "'s \<Rightarrow> Matcher" and good :: "'s \<Rightarrow> bool"
  assumes strength_unit: "good m \<Longrightarrow> unit64 (mtch m scope flow now)"
begin

lemma strength_number: "good m \<Longrightarrow> mtch m scope flow now \<noteq> NaN"
  using strength_unit[of m scope flow now] by (auto elim: unit64E)

lemma matched_features:
  assumes "good m" "bs_matcher s = Some (mtch m)" "NaN \<notin> set (contributions (flow_features s k f t))"
  shows "no_NaN (flow_features s k f t)"
  using assms strength_number by (auto simp: no_NaN_def flow_features_def Let_def split: option.splits prod.splits)

end

lemma clamp01_NaN: "clamp01 NaN = NaN"
  by (simp add: clamp01_def)

lemma Similarity_update:
  assumes "b < Similarity same p q" shows "unit64 (Similarity same p q)"
proof -
  have "Similarity same p q = 1 \<or> (\<exists>x. Similarity same p q = clamp01 x)" by (auto simp: Similarity_def)
  moreover have "Similarity same p q \<noteq> NaN" using assms by auto
  ultimately show ?thesis using clamp01_unit clamp01_NaN unit64_1 by metis
qed

lemma best_similarity_unit: "unit64 (best_similarity p qs)"
proof -
  have "unit64 b \<Longrightarrow> unit64 (foldl (\<lambda>best cp. let sim = Similarity False p cp in if best < sim then sim else best) b qs)" for b
    by (induction qs arbitrary: b) (auto simp: Let_def dest: Similarity_update)
  then show ?thesis by (simp add: best_similarity_def)
qed

lemma sharpen_unit: "unit64 (sharpen_Match perm src s scope flow now)"
  by (simp add: sharpen_Match_def best_similarity_unit split: option.split)

lemma sharedset_unit: "unit64 (sharedset_Match src s scope flow now)"
  by (simp add: sharedset_Match_def best_similarity_unit split: option.split)

interpretation local_matcher: matcher "\<lambda>(perm, src, s). sharpen_Match perm src s" "\<lambda>_. True"
  by unfold_locales (auto simp: sharpen_unit)

interpretation shared_matcher: matcher "\<lambda>(src, s). sharedset_Match src s" "\<lambda>_. True"
  by unfold_locales (auto simp: sharedset_unit)

definition members_unit :: "matcherSet \<Rightarrow> bool" where
  "members_unit m \<longleftrightarrow> (\<forall>f. ms_local m = Some f \<or> ms_shared m = Some f \<longrightarrow> (\<forall>scope flow t. unit64 (f scope flow t)))"

interpretation composed_matcher: matcher matcherSet_Match members_unit
  by unfold_locales (auto simp: matcherSet_Match_def members_unit_def Let_def split: option.split)

text \<open>The histories of the confirmed-malicious set: what was queried, and which flow was jailed where and when.\<close>

type_synonym jail = "event_query option \<times> ScopeKey \<times> u64 \<times> time"

definition jail_step :: "sharpen_Store \<Rightarrow> jail \<Rightarrow> sharpen_Store" where
  "jail_step s j = (case j of (src, scope, cookie, t) \<Rightarrow> snd (RecordJail src s scope cookie t))"

text \<open>The jails of a history that exhibit the behaviour \<open>h\<close> in a scope.\<close>

definition exhibits :: "jail list \<Rightarrow> ScopeKey \<Rightarrow> u64 \<Rightarrow> (u64 \<times> time) set" where
  "exhibits js scope h = {(c, t). \<exists>src p. (src, scope, c, t) \<in> set js \<and> deriveFlow src scope c t = Some p \<and> pf_BehavioralHash p = h}"

definition entry_ok :: "jail list \<Rightarrow> ScopeKey \<Rightarrow> u64 \<Rightarrow> jail_entry \<Rightarrow> bool" where
  "entry_ok js scope h e \<longleftrightarrow> distinct (je_flows e) \<and> set (je_flows e) \<subseteq> fst ` exhibits js scope h \<and> je_lastJail e \<in> snd ` exhibits js scope h"

definition jails_ok :: "jail list \<Rightarrow> sharpen_Store \<Rightarrow> bool" where
  "jails_ok js s \<longleftrightarrow> (\<forall>scope. distinct (map fst (s scope)) \<and> (\<forall>(h, e)\<in>set (s scope). entry_ok js scope h e))"

lemma exhibits_mono: "exhibits js scope h \<subseteq> exhibits (js @ js') scope h"
  by (auto simp: exhibits_def)

lemma entry_ok_mono: "entry_ok js scope h e \<Longrightarrow> entry_ok (js @ js') scope h e"
  unfolding entry_ok_def by (meson exhibits_mono image_mono subset_iff)

lemma record_entry_ok:
  assumes old: "\<And>e. eo = Some e \<Longrightarrow> entry_ok js scope h e" and "0 < t" and new: "(c, t) \<in> exhibits js scope h"
  shows "entry_ok js scope h (record_entry eo p c t)"
proof -
  have "c \<in> fst ` exhibits js scope h" "t \<in> snd ` exhibits js scope h" using new by force+
  then show ?thesis using old assms(2) by (cases eo) (simp_all add: entry_ok_def record_entry_def Let_def)
qed

lemma jail_step_ok:
  assumes ok: "jails_ok js s" and t: "0 < snd (snd (snd j))" shows "jails_ok (js @ [j]) (jail_step s j)"
proof -
  obtain src scope c t where j: "j = (src, scope, c, t)" by (metis prod_cases4)
  have old: "entry_ok (js @ [j]) sc h e" if "(h, e) \<in> set (s sc)" for sc h e
    using ok that unfolding jails_ok_def by (blast intro: entry_ok_mono)
  show ?thesis
  proof (cases "deriveFlow src scope c t")
    case None
    with ok old show ?thesis by (auto simp: j jail_step_def RecordJail_def jails_ok_def)
  next
    case (Some p)
    then have ex: "(c, t) \<in> exhibits (js @ [j]) scope (pf_BehavioralHash p)" by (auto simp: exhibits_def j)
    have new: "entry_ok (js @ [j]) scope (pf_BehavioralHash p) (record_entry (map_of (s scope) (pf_BehavioralHash p)) p c t)"
      using t ex old map_of_SomeD by (intro record_entry_ok) (fastforce simp: j)+
    have sub: "entry_ok (js @ [j]) scope h e"
      if "(h, e) \<in> set (AList.update (pf_BehavioralHash p) (record_entry (map_of (s scope) (pf_BehavioralHash p)) p c t) (s scope))" for h e
      using subsetD[OF AList_update_subset that] new old by auto
    have "jail_step s j = s(scope := AList.update (pf_BehavioralHash p) (record_entry (map_of (s scope) (pf_BehavioralHash p)) p c t) (s scope))"
      by (simp add: j jail_step_def RecordJail_def Some)
    moreover have "distinct (map fst (s sc))" for sc using ok by (simp add: jails_ok_def)
    ultimately show ?thesis using old sub unfolding jails_ok_def by (simp add: distinct_update) blast
  qed
qed

lemma jails_run:
  assumes "\<forall>j\<in>set js. 0 < snd (snd (snd j))" shows "jails_ok js (foldl jail_step sharpen_NewStore js)"
  using assms
proof (induction js rule: rev_induct)
  case Nil
  show ?case by (simp add: jails_ok_def sharpen_NewStore_def)
next
  case (snoc j js)
  then show ?case using jail_step_ok[of js "foldl jail_step sharpen_NewStore js" j] by simp
qed

text \<open>
  Property C22. One actor cannot sharpen a scope. Whenever the confirmed-malicious set gives a flow any strength at all,
  three distinct flows were jailed in the same scope with one and the same behaviour, and the freshest
  of those jails is at most thirty days old; the strength is never more than 1.
\<close>

theorem sharpen_needs_three_jails:
  assumes "\<forall>j\<in>set js. 0 < snd (snd (snd j))"
    and "0 < sharpen_Match perm src (foldl jail_step sharpen_NewStore js) scope flow now"
  shows "sharpen_Match perm src (foldl jail_step sharpen_NewStore js) scope flow now \<le> 1 \<and>
    (\<exists>h. 3 \<le> card (fst ` exhibits js scope h) \<and> (\<exists>t \<in> snd ` exhibits js scope h. time_Sub now t \<le> 30 * 24 * hour))"
proof -
  let ?s = "foldl jail_step sharpen_NewStore js"
  from assms(2) have "eligible ?s scope now \<noteq> []" by (auto simp: sharpen_Match_def zero_f64_def split: if_splits)
  then obtain h e where e: "(h, e) \<in> set (?s scope)" "3 \<le> length (je_flows e)" "time_Sub now (je_lastJail e) \<le> FreshnessWindow"
    by (auto simp: eligible_def MinConfirmedJails_def filter_empty_conv)
  have ok: "jails_ok js ?s" by (rule jails_run[OF assms(1)])
  then have eo: "entry_ok js scope h e" using e(1) unfolding jails_ok_def by blast
  have fin: "finite (exhibits js scope h)"
    by (rule finite_subset[of _ "(\<lambda>(s, sc, c, t). (c, t)) ` set js"]) (force simp: exhibits_def)+
  have "3 \<le> card (set (je_flows e))" using eo e(2) by (simp add: entry_ok_def distinct_card)
  also have "\<dots> \<le> card (fst ` exhibits js scope h)" using eo fin by (intro card_mono) (auto simp: entry_ok_def)
  finally have "3 \<le> card (fst ` exhibits js scope h)" .
  moreover have "je_lastJail e \<in> snd ` exhibits js scope h" using eo by (simp add: entry_ok_def)
  ultimately show ?thesis using e(3) sharpen_unit[of perm src ?s scope flow now] unfolding FreshnessWindow_def unit64_def by blast
qed

text \<open>
  Sharpening never leaves the multiplier's bounds. With the composed matcher of the deployment installed, in any
  state of the two pattern stores, the multiplier stays between 1 and its cap and a base of zero stays
  zero, as long as the observed features are numbers.
\<close>

theorem sharpened_multiplier_bounded:
  assumes "baseline_reach cfg s" "sane_params (bc_Params cfg)"
    and "bs_matcher s = Some (matcherSet_Match \<lparr>ms_local = Some (sharpen_Match perm src jails), ms_shared = Some (sharedset_Match src pats)\<rparr>)"
    and "NaN \<notin> set (contributions (flow_features s k f t))"
  shows "1 \<le> Multiplier s k f t \<and> Multiplier s k f t \<le> store_cap s \<and> 0 * Multiplier s k f t = 0"
proof -
  have "members_unit \<lparr>ms_local = Some (sharpen_Match perm src jails), ms_shared = Some (sharedset_Match src pats)\<rparr>"
    by (auto simp: members_unit_def sharpen_unit sharedset_unit)
  from composed_matcher.matched_features[OF this assms(3,4)]
  have "store_good s k f t"
    using assms(1,2) by (simp add: store_good_def baseline_reach_params sane_Normalized)
  then show ?thesis
    using baseline_source.mult_ge_one baseline_source.mult_le_cap baseline_source.never_triggers by blast
qed

definition demo_query :: event_query where
  "demo_query = (\<lambda>scope since until. Inr [demo_event\<lparr>ie_FlowID := 1\<rparr>, demo_event\<lparr>ie_FlowID := 2\<rparr>, demo_event\<lparr>ie_FlowID := 3\<rparr>])"

definition demo_jails :: "jail list" where
  "demo_jails = [(Some demo_query, ''s'', 1, unix_epoch), (Some demo_query, ''s'', 2, unix_epoch), (Some demo_query, ''s'', 3, unix_epoch)]"

definition demo_jailed :: Profile where
  "demo_jailed = derive_ordered [demo_event]"

lemma derive_flow_id: "derive_ordered [e\<lparr>ie_FlowID := c\<rparr>] = derive_ordered [e]"
  by (simp add: derive_ordered_def derive_event_def Let_def)

lemma demo_derive: "c \<in> {1, 2, 3} \<Longrightarrow> deriveFlow (Some demo_query) scope c t = Some demo_jailed"
  by (auto simp: deriveFlow_def demo_query_def DeriveProfile_def sort_by_def derive_flow_id demo_jailed_def)

lemma demo_jails_store:
  "foldl jail_step sharpen_NewStore demo_jails =
     (\<lambda>_. [])(''s'' := [(pf_BehavioralHash demo_jailed, \<lparr>je_prof = demo_jailed, je_flows = [3, 2, 1], je_lastJail = unix_epoch\<rparr>)])"
  by (simp add: demo_jails_def jail_step_def RecordJail_def demo_derive sharpen_NewStore_def record_entry_def)

lemma char_48: "char_of (48 :: nat) = CHR ''0''"
  by code_simp

theorem sharpen_needs_three_jails_witness:
  "\<exists>h. 3 \<le> card (fst ` exhibits demo_jails ''s'' h) \<and> (\<exists>t \<in> snd ` exhibits demo_jails ''s'' h. time_Sub unix_epoch t \<le> 30 * 24 * hour)"
proof -
  have e: "eligible (foldl jail_step sharpen_NewStore demo_jails) ''s'' unix_epoch = [demo_jailed]"
    unfolding demo_jails_store by (simp add: eligible_def MinConfirmedJails_def time_Sub_def FreshnessWindow_def)
  have "pf_BehavioralHash demo_jailed = fnv64a ''aws-key|c0|00000|p|t0|dfalse''"
    by (simp add: demo_jailed_def derive_ordered_def derive_event_def Let_def zero_profile_def demo_event_def zero_sting_def axisBits_def
        behavioralHash_def hash_input_def Median_def cadenceBand_def FormatInt_def nat_digits.simps zero_f64_def char_48)
  moreover have "fnv64a ''aws-key|c0|00000|p|t0|dfalse'' \<noteq> 0" by code_simp
  ultimately have "pf_BehavioralHash demo_jailed \<noteq> 0" by simp
  then have "0 < sharpen_Match rev (Some demo_query) (foldl jail_step sharpen_NewStore demo_jails) ''s'' (cookie_flow 1) unix_epoch"
    unfolding sharpen_Match_def e
    by (simp add: cookie_flow_def demo_derive best_similarity_def Similarity_def zero_f64_def one_f64_def)
  moreover have "\<forall>j\<in>set demo_jails. 0 < snd (snd (snd j))" by (simp add: demo_jails_def)
  ultimately show ?thesis using sharpen_needs_three_jails[of demo_jails] by blast
qed

theorem sharpened_multiplier_bounded_witness:
  "let s = UseMatcher (baseline_New \<lparr>bc_Params = DefaultParams, bc_Bucketer = Some WindowBucketer, bc_Calibrated = Some (\<lambda>_. True)\<rparr>)
       (Some (matcherSet_Match \<lparr>ms_local = Some (sharpen_Match rev (Some demo_query) (foldl jail_step sharpen_NewStore demo_jails)),
          ms_shared = Some (sharedset_Match (Some demo_query) [FromSharedPattern demo_pattern])\<rparr>))
   in 1 \<le> Multiplier s ''s'' (cookie_flow 1) 1"
proof -
  define s where "s = UseMatcher (baseline_New \<lparr>bc_Params = DefaultParams, bc_Bucketer = Some WindowBucketer, bc_Calibrated = Some (\<lambda>_. True)\<rparr>)
       (Some (matcherSet_Match \<lparr>ms_local = Some (sharpen_Match rev (Some demo_query) (foldl jail_step sharpen_NewStore demo_jails)),
          ms_shared = Some (sharedset_Match (Some demo_query) [FromSharedPattern demo_pattern])\<rparr>))"
  have r: "baseline_reach \<lparr>bc_Params = DefaultParams, bc_Bucketer = Some WindowBucketer, bc_Calibrated = Some (\<lambda>_. True)\<rparr> s"
    unfolding s_def by (intro baseline_reach.intros)
  have "sane_params DefaultParams"
    using wf64_half_int[of 1] by (simp add: sane_params_def DefaultParams_def DefaultMMax_def DefaultK_def DefaultCMax_def zero_f64_def one_f64_def rnd_exact)
  moreover have "bs_matcher s = Some (matcherSet_Match \<lparr>ms_local = Some (sharpen_Match rev (Some demo_query) (foldl jail_step sharpen_NewStore demo_jails)),
          ms_shared = Some (sharedset_Match (Some demo_query) [FromSharedPattern demo_pattern])\<rparr>)"
    by (simp add: s_def UseMatcher_def)
  moreover have "NaN \<notin> set (contributions (flow_features s ''s'' (cookie_flow 1) 1))"
    by (simp add: s_def flow_features_def contributions_def UseMatcher_def baseline_New_def neutral_features_def zero_f64_def)
  ultimately have "1 \<le> Multiplier s ''s'' (cookie_flow 1) 1" using sharpened_multiplier_bounded[OF r] by simp
  then show ?thesis by (simp add: s_def Let_def)
qed
end
