(* ===== verification/Aggregator.thy ===== *)
theory Aggregator
  imports Egress
begin

text \<open>
  The transport between deployments and the central aggregator: the cleared-pattern spool
  (\<^verbatim>\<open>internal/intelligence/transport/transport.go\<close>), the confirmation spool (\<^verbatim>\<open>transport/confirm.go\<close>) and the
  aggregation cycle with its enrolled tokens (\<^verbatim>\<open>cmd/aggregator/main.go\<close>). Theorems: a pattern crosses to
  the consumers exactly once, and only when three distinct enrolled tokens confirmed it; a consumer
  reads back exactly the patterns that crossed.
\<close>

section \<open>Spools\<close>

text \<open>
  A spool is a file of lines. \<open>lc_long\<close> says which lines exceed the scanner's buffer of one MiB,
  \<open>lc_blank\<close> which are empty once trimmed. \<open>disk\<close> says whether opening and writing the file succeeds.
\<close>

record 'w lines =
  lc_long :: "'w \<Rightarrow> bool"
  lc_blank :: "'w \<Rightarrow> bool"

datatype transport_error = NilCleared | MarshalFailed egress_error | ContainsNewline | WriteFailed | EmptyToken
| BadPattern shared_error | BadConfirmation | MissingScopeOrPattern | LineTooLong

definition Send :: "'w json \<Rightarrow> bool \<Rightarrow> 'w list \<Rightarrow> Cleared option \<Rightarrow> transport_error option \<times> 'w list" where
  "Send js disk file c =
     (case c of
        None \<Rightarrow> (Some NilCleared, file)
      | Some c \<Rightarrow>
         (case Marshal js c of
            Inl err \<Rightarrow> (Some (MarshalFailed err), file)
          | Inr b \<Rightarrow>
              if js_newline js b then (Some ContainsNewline, file)
              else if \<not> disk then (Some WriteFailed, file)
              else (None, file @ [b])))"

text \<open>The scan both readers share: it ends at the first line that is too long.\<close>

fun scan_lines :: "'w lines \<Rightarrow> ('w \<Rightarrow> transport_error + 'a) \<Rightarrow> 'w list \<Rightarrow> 'a list \<times> transport_error list" where
  "scan_lines lc parse [] = ([], [])"
| "scan_lines lc parse (w # ws) =
     (if lc_long lc w then ([], [LineTooLong])
      else let (out, errs) = scan_lines lc parse ws
           in if lc_blank lc w then (out, errs)
              else case parse w of Inl err \<Rightarrow> (out, err # errs) | Inr x \<Rightarrow> (x # out, errs))"

definition Receive :: "'w json \<Rightarrow> 'w lines \<Rightarrow> 'w list option \<Rightarrow> SharedPattern list \<times> transport_error list" where
  "Receive js lc file =
     (case file of None \<Rightarrow> ([], [])
      | Some ws \<Rightarrow> scan_lines lc (\<lambda>w. case ParseSharedPattern js w of Inl err \<Rightarrow> Inl (BadPattern err) | Inr sp \<Rightarrow> Inr sp) ws)"

record 'w Confirmation =
  cf_Scope :: string
  cf_Pattern :: "'w option"

text \<open>
  The envelope of a confirmation, another JSON document: \<open>cj_Marshal\<close> fails on raw bytes that are not
  JSON, \<open>cj_Unmarshal\<close> on lines that are not an object of this shape. A pattern that is absent or empty
  is None.
\<close>

record ('w, 'c) envelope =
  cj_Marshal :: "string \<Rightarrow> 'w \<Rightarrow> 'c option"
  cj_Unmarshal :: "'c \<Rightarrow> 'w Confirmation option"

definition SendConfirmation ::
  "'w json \<Rightarrow> ('w, 'c) envelope \<Rightarrow> bool \<Rightarrow> 'c list \<Rightarrow> string \<Rightarrow> 'w \<Rightarrow> transport_error option \<times> 'c list" where
  "SendConfirmation js cj disk file scopeToken clearedPattern =
     (if scopeToken = [] then (Some EmptyToken, file)
      else if js_newline js clearedPattern then (Some ContainsNewline, file)
      else case cj_Marshal cj scopeToken clearedPattern of
        None \<Rightarrow> (Some BadConfirmation, file)
      | Some line \<Rightarrow> if \<not> disk then (Some WriteFailed, file) else (None, file @ [line]))"

definition ReceiveConfirmations :: "('w, 'c) envelope \<Rightarrow> 'c lines \<Rightarrow> 'c list option \<Rightarrow> (string \<times> 'w) list \<times> transport_error list" where
  "ReceiveConfirmations cj lc file =
     (case file of None \<Rightarrow> ([], [])
      | Some ls \<Rightarrow> scan_lines lc
          (\<lambda>l. case cj_Unmarshal cj l of
             None \<Rightarrow> Inl BadConfirmation
           | Some c \<Rightarrow> (case cf_Pattern c of
                None \<Rightarrow> Inl MissingScopeOrPattern
              | Some p \<Rightarrow> if cf_Scope c = [] then Inl MissingScopeOrPattern else Inr (cf_Scope c, p))) ls)"

section \<open>The aggregation cycle\<close>

definition loadTokens :: "string \<Rightarrow> string list \<Rightarrow> string list" where
  "loadTokens csv file_lines =
     remdups (filter (\<lambda>t. t \<noteq> []) (map TrimSpace (Split csv CHR '','')) @
              filter (\<lambda>t. t \<noteq> [] \<and> \<not> HasPrefix t ''#'') (map TrimSpace file_lines))"

record ('k, 'b, 'w) aggregator =
  ag_ledger :: "('k, 'b) Ledger"
  ag_sent :: "SharedPattern list"
  ag_out :: "'w list"

datatype start_error = NoEnrolledTokens | LedgerFailed egress_error

definition aggregator_start :: "error + 'k \<Rightarrow> string \<Rightarrow> string list \<Rightarrow> 'w list \<Rightarrow> start_error + ('k, 'b, 'w) aggregator" where
  "aggregator_start rand csv file_lines out =
     (let allow = loadTokens csv file_lines
      in if allow = [] then Inl NoEnrolledTokens
         else case NewAggregatorLedger rand (Some (\<lambda>t. t \<in> set allow)) of
           Inl err \<Rightarrow> Inl (LedgerFailed err)
         | Inr l \<Rightarrow> Inr \<lparr>ag_ledger = l, ag_sent = [], ag_out = out\<rparr>)"

text \<open>One confirmation of a cycle; \<open>disk\<close> says whether a write to the cleared spool succeeds.\<close>

definition ingest_one ::
  "'w json \<Rightarrow> ('k \<Rightarrow> string \<Rightarrow> 'b) \<Rightarrow> ('w list \<Rightarrow> bool) \<Rightarrow> ('k, 'b, 'w) aggregator \<Rightarrow> string \<times> 'w \<Rightarrow> ('k, 'b, 'w) aggregator" where
  "ingest_one js mac disk st c =
     (case ParseSharedPattern js (snd c) of
        Inl _ \<Rightarrow> st
      | Inr sp \<Rightarrow>
         (case IngestConfirmation mac (Some (ag_ledger st)) (fst c) sp of
            (Inl _, l) \<Rightarrow> st
          | (Inr n, l) \<Rightarrow>
              let st1 = st\<lparr>ag_ledger := the l\<rparr>
              in case ClearWithLedger (Some (SharedCandidate sp)) l of
                   Inl _ \<Rightarrow> st1
                 | Inr cleared \<Rightarrow>
                     if sp \<in> set (ag_sent st) then st1
                     else case Send js (disk (ag_out st)) (ag_out st) (Some cleared) of
                            (Some _, f) \<Rightarrow> st1
                          | (None, f) \<Rightarrow> st1\<lparr>ag_out := f, ag_sent := ag_sent st @ [sp]\<rparr>))"

definition ingest ::
  "'w json \<Rightarrow> ('k \<Rightarrow> string \<Rightarrow> 'b) \<Rightarrow> ('w list \<Rightarrow> bool) \<Rightarrow> ('w, 'c) envelope \<Rightarrow> 'c lines \<Rightarrow> 'c list option \<Rightarrow> ('k, 'b, 'w) aggregator \<Rightarrow>
   nat \<times> ('k, 'b, 'w) aggregator" where
  "ingest js mac disk cj lc file st =
     (let st' = foldl (ingest_one js mac disk) st (fst (ReceiveConfirmations cj lc file))
      in (length (ag_sent st') - length (ag_sent st), st'))"

section \<open>What crosses\<close>

text \<open>The enrolled tokens that confirmed a pattern in a history of confirmations.\<close>

definition confirmers :: "'w json \<Rightarrow> (string \<Rightarrow> bool) \<Rightarrow> (string \<times> 'w) list \<Rightarrow> SharedPattern \<Rightarrow> string set" where
  "confirmers js enrolled cs sp = {t. t \<noteq> [] \<and> enrolled t \<and> (\<exists>w. (t, w) \<in> set cs \<and> ParseSharedPattern js w = Inr sp)}"

definition pattern_wire :: "'w json \<Rightarrow> SharedPattern \<Rightarrow> 'w" where
  "pattern_wire js sp = js_Marshal js (wire_members (export_payload sp))"

definition aggregator_ok ::
  "'w json \<Rightarrow> ('k \<Rightarrow> string \<Rightarrow> 'b) \<Rightarrow> 'k \<Rightarrow> (string \<Rightarrow> bool) \<Rightarrow> 'w list \<Rightarrow> (string \<times> 'w) list \<Rightarrow> ('k, 'b, 'w) aggregator \<Rightarrow> bool" where
  "aggregator_ok js mac salt enrolled out cs st \<longleftrightarrow>
     lg_salt (ag_ledger st) = salt \<and> lg_enrolled (ag_ledger st) = Some enrolled \<and>
     (\<forall>sp. valid_pattern sp \<longrightarrow> distinct (buckets_of (ag_ledger st) (key_of_pattern sp)) \<and>
        set (buckets_of (ag_ledger st) (key_of_pattern sp)) = mac salt ` confirmers js enrolled cs sp) \<and>
     distinct (ag_sent st) \<and> (\<forall>sp\<in>set (ag_sent st). valid_pattern sp \<and> 3 \<le> card (confirmers js enrolled cs sp)) \<and>
     ag_out st = out @ map (pattern_wire js) (ag_sent st)"

definition complete :: "'w json \<Rightarrow> (string \<Rightarrow> bool) \<Rightarrow> (string \<times> 'w) list \<Rightarrow> ('k, 'b, 'w) aggregator \<Rightarrow> bool" where
  "complete js enrolled cs st \<longleftrightarrow> (\<forall>sp. 3 \<le> card (confirmers js enrolled cs sp) \<longrightarrow> sp \<in> set (ag_sent st))"

lemma confirmers_snoc:
  "confirmers js enrolled (cs @ [(t, w)]) sp =
     confirmers js enrolled cs sp \<union> (if t \<noteq> [] \<and> enrolled t \<and> ParseSharedPattern js w = Inr sp then {t} else {})"
  by (auto simp: confirmers_def)

lemma confirmers_finite: "finite (confirmers js enrolled cs sp)"
  by (rule finite_subset[of _ "fst ` set cs"]) (force simp: confirmers_def)+

lemma confirmers_valid: "t \<in> confirmers js enrolled cs sp \<Longrightarrow> valid_pattern sp"
  by (auto simp: confirmers_def dest: ParseSharedPattern_valid)

lemma confirmers_mono: "card (confirmers js enrolled cs sp) \<le> card (confirmers js enrolled (cs @ [c]) sp)"
  by (intro card_mono confirmers_finite) (auto simp: confirmers_def)

lemma ingest_confirmation:
  assumes "lg_enrolled g = Some enrolled" "t \<noteq> []" "enrolled t" "valid_pattern sp"
  shows "IngestConfirmation mac (Some g) t sp =
    (let bs = List.insert (mac (lg_salt g) t) (buckets_of g (key_of_pattern sp))
     in (Inr (length bs), Some (g\<lparr>lg_seen := AList.update (key_of_pattern sp) bs (lg_seen g)\<rparr>)))"
  using assms coarseKey_export[OF assms(4), of "''network''" "''referenceExport''"]
  by (simp add: IngestConfirmation_def RecordForm_def referenceExportFromShared_def bucket_def)

lemma buckets_after:
  "buckets_of (g\<lparr>lg_seen := AList.update k bs (lg_seen g)\<rparr>) k' = (if k' = k then bs else buckets_of g k')"
  by (simp add: buckets_of_def update_conv')

lemma Send_cleared:
  assumes "json_ok js" "valid_pattern sp" "cl_payload c = export_payload sp" "cl_ledgerVerified c"
  shows "Send js disk file (Some c) = (if disk then (None, file @ [pattern_wire js sp]) else (Some WriteFailed, file))"
  using assms parse_wire(2)[OF assms(1,2)] by (simp add: Send_def Marshal_export pattern_wire_def)

lemma ingest_one_ok:
  assumes ok: "aggregator_ok js mac salt enrolled out cs st" and js: "json_ok js" and inj: "inj (mac salt)"
  shows "aggregator_ok js mac salt enrolled out (cs @ [c]) (ingest_one js mac disk st c)"
    and "(\<And>f. disk f) \<Longrightarrow> complete js enrolled cs st \<Longrightarrow> complete js enrolled (cs @ [c]) (ingest_one js mac disk st c)"
proof -
  obtain t w where c: "c = (t, w)" by (cases c)
  let ?g = "ag_ledger st" and ?cs = "cs @ [c]"
  have g: "lg_salt ?g = salt" "lg_enrolled ?g = Some enrolled" using ok by (simp_all add: aggregator_ok_def)
  have buckets: "distinct (buckets_of ?g (key_of_pattern sp))" "set (buckets_of ?g (key_of_pattern sp)) = mac salt ` confirmers js enrolled cs sp"
    if "valid_pattern sp" for sp using ok that by (simp_all add: aggregator_ok_def)
  have sent: "distinct (ag_sent st)" "ag_out st = out @ map (pattern_wire js) (ag_sent st)"
    "\<And>sp. sp \<in> set (ag_sent st) \<Longrightarrow> valid_pattern sp \<and> 3 \<le> card (confirmers js enrolled cs sp)"
    using ok by (auto simp: aggregator_ok_def)
  have sent': "valid_pattern sp \<and> 3 \<le> card (confirmers js enrolled ?cs sp)" if "sp \<in> set (ag_sent st)" for sp
    using sent(3)[OF that] confirmers_mono[of js enrolled cs sp c] by linarith
  have "aggregator_ok js mac salt enrolled out ?cs (ingest_one js mac disk st c) \<and>
    ((\<forall>f. disk f) \<longrightarrow> complete js enrolled cs st \<longrightarrow> complete js enrolled ?cs (ingest_one js mac disk st c))"
  proof (cases "\<exists>sp. ParseSharedPattern js w = Inr sp \<and> t \<noteq> [] \<and> enrolled t")
    case False
    then have same: "confirmers js enrolled ?cs sp = confirmers js enrolled cs sp" for sp by (auto simp: confirmers_snoc c)
    have "ingest_one js mac disk st c = st"
      using False g by (auto simp: ingest_one_def c IngestConfirmation_def split: sum.split)
    then show ?thesis using ok by (simp add: aggregator_ok_def complete_def same)
  next
    case True
    then obtain sp where sp: "ParseSharedPattern js w = Inr sp" "t \<noteq> []" "enrolled t" by blast
    have v: "valid_pattern sp" using sp(1) by (rule ParseSharedPattern_valid)
    define bs where "bs = List.insert (mac salt t) (buckets_of ?g (key_of_pattern sp))"
    define l where "l = ?g\<lparr>lg_seen := AList.update (key_of_pattern sp) bs (lg_seen ?g)\<rparr>"
    have ing: "IngestConfirmation mac (Some ?g) t sp = (Inr (length bs), Some l)"
      using ingest_confirmation[OF g(2) sp(2,3) v] by (simp add: bs_def l_def g Let_def)
    have conf: "confirmers js enrolled ?cs sp' = (if sp' = sp then insert t (confirmers js enrolled cs sp) else confirmers js enrolled cs sp')" for sp'
      using sp by (simp add: confirmers_snoc c)
    have bs: "distinct bs" "set bs = mac salt ` confirmers js enrolled ?cs sp"
      using buckets[OF v] by (auto simp: bs_def conf)
    have len: "length bs = card (confirmers js enrolled ?cs sp)"
      using bs inj by (metis card_image distinct_card inj_on_subset subset_UNIV)
    have bl: "distinct (buckets_of l (key_of_pattern sp')) \<and> set (buckets_of l (key_of_pattern sp')) = mac salt ` confirmers js enrolled ?cs sp'"
      if "valid_pattern sp'" for sp'
      using bs buckets[OF that] by (auto simp: l_def buckets_after key_of_pattern_inj conf)
    have clear: "ClearWithLedger (Some (SharedCandidate sp)) (Some l) = (if length bs < 3 then Inl (SubK (length bs))
        else Inr \<lparr>cl_payload = export_payload sp, cl_seenInScopes = int (length bs), cl_fieldCount = 7, cl_ledgerVerified = True\<rparr>)"
      using Clear_shared[OF v, of l] by (simp add: l_def buckets_after Let_def)
    let ?st1 = "st\<lparr>ag_ledger := l\<rparr>"
    have step: "ingest_one js mac disk st c =
        (if length bs < 3 \<or> sp \<in> set (ag_sent st) \<or> \<not> disk (ag_out st) then ?st1
         else ?st1\<lparr>ag_out := ag_out st @ [pattern_wire js sp], ag_sent := ag_sent st @ [sp]\<rparr>)"
      using sp(1) by (simp add: ingest_one_def c ing clear Send_cleared[OF js v] Let_def)
    have keep: "aggregator_ok js mac salt enrolled out ?cs ?st1"
      using g bl sent(1,2) sent' by (simp add: aggregator_ok_def l_def)
    have new: "aggregator_ok js mac salt enrolled out ?cs (?st1\<lparr>ag_out := ag_out st @ [pattern_wire js sp], ag_sent := ag_sent st @ [sp]\<rparr>)"
      if "3 \<le> length bs" "sp \<notin> set (ag_sent st)"
      using that keep v len sent(2) by (auto simp: aggregator_ok_def)
    have "complete js enrolled ?cs (ingest_one js mac disk st c)" if "\<forall>f. disk f" "complete js enrolled cs st"
      using that len by (auto simp: step complete_def conf split: if_splits)
    then show ?thesis using keep new by (simp add: step)
  qed
  then show "aggregator_ok js mac salt enrolled out ?cs (ingest_one js mac disk st c)"
    and "(\<And>f. disk f) \<Longrightarrow> complete js enrolled cs st \<Longrightarrow> complete js enrolled ?cs (ingest_one js mac disk st c)" by blast+
qed

lemma ingest_all_ok:
  assumes "json_ok js" "inj (mac salt)" "aggregator_ok js mac salt enrolled out cs st"
  shows "aggregator_ok js mac salt enrolled out (cs @ ds) (foldl (ingest_one js mac disk) st ds)"
    and "(\<And>f. disk f) \<Longrightarrow> complete js enrolled cs st \<Longrightarrow> complete js enrolled (cs @ ds) (foldl (ingest_one js mac disk) st ds)"
  using assms(3)
proof (induction ds arbitrary: cs st)
  case (Cons c ds)
  { case 1 then show ?case using Cons(1)[OF ingest_one_ok(1)[OF 1 assms(1,2)]] by simp }
  { case 2 then show ?case using Cons(2)[OF 2(1) ingest_one_ok(2)[OF 2(3) assms(1,2) 2(1,2)] ingest_one_ok(1)[OF 2(3) assms(1,2)]] by simp }
qed simp_all

lemma ingest_snd: "snd (ingest js mac disk cj lc f st) = foldl (ingest_one js mac disk) st (fst (ReceiveConfirmations cj lc f))"
  by (simp add: ingest_def Let_def)

lemma cycles_flat:
  "foldl (\<lambda>st f. snd (ingest js mac disk cj lc f st)) st files =
     foldl (ingest_one js mac disk) st (concat (map (\<lambda>f. fst (ReceiveConfirmations cj lc f)) files))"
  by (induction files arbitrary: st) (simp_all add: ingest_snd)

lemma aggregator_start_ok:
  assumes "aggregator_start (Inr salt) csv file_lines out = Inr st"
  shows "aggregator_ok js mac salt (\<lambda>t. t \<in> set (loadTokens csv file_lines)) out [] st"
    and "complete js (\<lambda>t. t \<in> set (loadTokens csv file_lines)) [] st"
  using assms
  by (auto simp: aggregator_start_def NewAggregatorLedger_def NewLedger_def aggregator_ok_def complete_def buckets_of_def confirmers_def Let_def
      split: if_splits)

lemma scan_parsed:
  assumes "\<forall>w\<in>set ws. \<not> lc_long lc w \<and> \<not> lc_blank lc w" "list_all2 (\<lambda>w x. parse w = Inr x) ws xs"
  shows "scan_lines lc parse ws = (xs, [])"
  using assms(2,1) by (induction rule: list_all2_induct) auto

text \<open>
  Property C3. Patterns cross once, and only with three enrolled confirmations. Over any number of cycles and any contents of the
  confirmation spool, forged tokens and malformed patterns included, the cleared spool holds every pattern at most
  once, each of them in the coarse shape and confirmed by at least three distinct enrolled tokens; when the
  spool can be written it holds exactly the patterns that have three such tokens. A consumer whose scanner
  takes the lines reads back exactly these patterns and reports no error.
\<close>

theorem crosses_once_at_three:
  fixes js :: "'w json" and files :: "'c list option list" and disk :: "'w list \<Rightarrow> bool"
    and cj :: "('w, 'c) envelope" and lc :: "'c lines"
  assumes "json_ok js" "inj (mac salt)" "aggregator_start (Inr salt) csv file_lines [] = Inr st0"
  defines "enrolled \<equiv> \<lambda>t. t \<in> set (loadTokens csv file_lines)"
    and "cs \<equiv> concat (map (\<lambda>f. fst (ReceiveConfirmations cj lc f)) files)"
    and "st \<equiv> foldl (\<lambda>st f. snd (ingest js mac disk cj lc f st)) st0 files"
  shows "distinct (ag_sent st) \<and>
    (\<forall>sp\<in>set (ag_sent st). valid_pattern sp \<and> 3 \<le> card (confirmers js enrolled cs sp)) \<and>
    ((\<forall>f. disk f) \<longrightarrow> set (ag_sent st) = {sp. 3 \<le> card (confirmers js enrolled cs sp)}) \<and>
    ((\<forall>w\<in>set (ag_out st). \<not> lc_long lc' w \<and> \<not> lc_blank lc' w) \<longrightarrow> Receive js lc' (Some (ag_out st)) = (ag_sent st, []))"
proof -
  note start = aggregator_start_ok(1)[OF assms(3), where js = js and mac = mac, folded enrolled_def]
    aggregator_start_ok(2)[OF assms(3), where js = js, folded enrolled_def]
  have ok: "aggregator_ok js mac salt enrolled [] cs st"
    using ingest_all_ok(1)[where mac = mac and salt = salt, OF assms(1,2) start(1), where disk = disk and ds = cs] by (simp add: st_def cs_def cycles_flat)
  then have d: "distinct (ag_sent st)" and v: "\<forall>sp\<in>set (ag_sent st). valid_pattern sp \<and> 3 \<le> card (confirmers js enrolled cs sp)"
    and out: "ag_out st = map (pattern_wire js) (ag_sent st)" by (auto simp: aggregator_ok_def)
  have "set (ag_sent st) = {sp. 3 \<le> card (confirmers js enrolled cs sp)}" if "\<forall>f. disk f"
    using that ingest_all_ok(2)[where mac = mac and salt = salt, OF assms(1,2) start(1), where disk = disk and ds = cs] start(2) v
    by (auto simp: st_def cs_def cycles_flat complete_def)
  moreover have "Receive js lc' (Some (ag_out st)) = (ag_sent st, [])" if l: "\<forall>w\<in>set (ag_out st). \<not> lc_long lc' w \<and> \<not> lc_blank lc' w"
  proof -
    have "list_all2 (\<lambda>w x. (case ParseSharedPattern js w of Inl err \<Rightarrow> Inl (BadPattern err) | Inr sp \<Rightarrow> Inr sp) = Inr x) (ag_out st) (ag_sent st)"
      using v parse_wire(1)[OF assms(1)] by (auto simp: out list_all2_map1 list_all2_same pattern_wire_def)
    from scan_parsed[OF l this] show ?thesis by (simp add: Receive_def)
  qed
  ultimately show ?thesis using d v by blast
qed

definition demo_envelope :: "('w, string \<times> 'w) envelope" where
  "demo_envelope = \<lparr>cj_Marshal = (\<lambda>t w. Some (t, w)), cj_Unmarshal = (\<lambda>(t, w). Some \<lparr>cf_Scope = t, cf_Pattern = Some w\<rparr>)\<rparr>"

definition demo_lines :: "'w lines" where
  "demo_lines = \<lparr>lc_long = (\<lambda>_. False), lc_blank = (\<lambda>_. False)\<rparr>"

definition demo_wire :: "(string \<times> jvalue) list" where
  "demo_wire = pattern_wire identity_json demo_pattern"

definition demo_confirmations :: "(string \<times> (string \<times> jvalue) list) list" where
  "demo_confirmations = [(''a'', demo_wire), (''forged'', demo_wire), (''b'', demo_wire), (''c'', demo_wire)]"

lemma confirmers_list:
  "confirmers js enrolled cs sp = set (map fst (filter (\<lambda>(t, w). t \<noteq> [] \<and> enrolled t \<and> ParseSharedPattern js w = Inr sp) cs))"
  by (force simp: confirmers_def)

lemma distinct_singleton: "distinct xs \<Longrightarrow> set xs = {x} \<Longrightarrow> xs = [x]"
proof -
  assume a: "distinct xs" "set xs = {x}"
  then have "length xs = 1" using distinct_card[of xs] by simp
  then obtain y where "xs = [y]" by (auto simp: length_Suc_conv)
  with a show "xs = [x]" by simp
qed

theorem crosses_once_at_three_witness:
  "\<exists>st0. aggregator_start (Inr (0 :: nat)) ''a,b,c'' [] [] = Inr st0 \<and>
    ag_sent (foldl (\<lambda>st f. snd (ingest identity_json demo_mac (\<lambda>_. True) demo_envelope demo_lines f st)) st0 [Some demo_confirmations, Some demo_confirmations])
      = [demo_pattern]"
proof -
  let ?en = "\<lambda>t. t \<in> set (loadTokens ''a,b,c'' [])"
  have tok: "loadTokens ''a,b,c'' [] = [''a'', ''b'', ''c'']" by code_simp
  obtain st0 :: "(nat, string, (string \<times> jvalue) list) aggregator" where st0: "aggregator_start (Inr (0 :: nat)) ''a,b,c'' [] [] = Inr st0"
    unfolding aggregator_start_def tok by (simp add: NewAggregatorLedger_def NewLedger_def)
  let ?files = "[Some demo_confirmations, Some demo_confirmations]"
  let ?st = "foldl (\<lambda>st f. snd (ingest identity_json demo_mac (\<lambda>_. True) demo_envelope demo_lines f st)) st0 ?files"
  let ?cs = "concat (map (\<lambda>f. fst (ReceiveConfirmations demo_envelope demo_lines f)) ?files)"
  have cs: "?cs = demo_confirmations @ demo_confirmations"
    by (simp add: ReceiveConfirmations_def demo_envelope_def demo_lines_def demo_confirmations_def)
  have p: "ParseSharedPattern identity_json demo_wire = Inr demo_pattern"
    unfolding demo_wire_def pattern_wire_def by (rule parse_wire(1)[OF identity_json_ok demo_pattern_valid])
  have conf: "confirmers identity_json ?en ?cs sp = (if sp = demo_pattern then {''a'', ''b'', ''c''} else {})" for sp
    unfolding cs tok confirmers_list by (simp add: demo_confirmations_def p eq_commute[of sp] insert_commute)
  have "distinct (ag_sent ?st) \<and> set (ag_sent ?st) = {sp. 3 \<le> card (confirmers identity_json ?en ?cs sp)}"
    using crosses_once_at_three[where mac = demo_mac and salt = 0, OF identity_json_ok demo_mac_inj st0, where files = ?files and cj = demo_envelope and lc = demo_lines and disk = "\<lambda>_. True"]
    by blast
  moreover have "{sp. 3 \<le> card (confirmers identity_json ?en ?cs sp)} = {demo_pattern}" unfolding conf by auto
  ultimately have "ag_sent ?st = [demo_pattern]"
    by (intro distinct_singleton) (blast | metis)+
  with st0 show ?thesis by blast
qed
end
