(* ===== verification/Capturing.thy ===== *)
theory Capturing
  imports Profiles Aggregator Engine KillSwitch
begin

text \<open>
  The capturing layer of \<^verbatim>\<open>internal/boot/boot.go\<close> around the decision engine: what \<^verbatim>\<open>capturingEngine.Submit\<close>
  writes to the event store, the touch store and the audit chain, how a jail waits for its outcome, and
  what \<^verbatim>\<open>ReportOutcome\<close> then feeds to the confirmed-malicious set, the cross-scope ledger and the central
  aggregator. Theorems: the scope a caller claims has no effect on any store; the verdict is the inner
  engine's; a jailed flow's outcome reaches the confirmed set with its amended signature, once.
\<close>

section \<open>State and surroundings\<close>

text \<open>
  What the layer calls: the inner engine, the codec of the audit chain, the order maps are walked in, the
  keys the database takes, the ledger's keyed digest and the JSON documents of the confirmation spool.
\<close>

record ('s, 'd, 'p, 'b, 'k, 'g, 'w, 'c) surroundings =
  en_inner :: "'s \<Rightarrow> SignalEvent \<Rightarrow> (engine_error + Verdict) \<times> 's"
  en_codec :: "('d, 'p, 'b) codec"
  en_perm :: "touch_records \<Rightarrow> touch_records"
  en_accepts :: "string \<Rightarrow> bool"
  en_mac :: "'k \<Rightarrow> string \<Rightarrow> 'g"
  en_json :: "'w json"
  en_envelope :: "('w, 'c) envelope"

record ('s, 'd, 'b, 'k, 'g, 'c) capturingEngine =
  ce_inner :: 's
  ce_events :: event_Store
  ce_l7events :: "l7_Store option"
  ce_audit :: "('d, 'b) audit_Store option"
  ce_agg :: "FeatureSource option"
  ce_sharpen :: "sharpen_Store option"
  ce_pendingJails :: "(u64 \<times> ScopeKey) list"
  ce_ledger :: "('k, 'g) Ledger option"
  ce_contribute :: bool
  ce_confirmSpool :: "'c list option"
  ce_scopeToken :: string

definition maxPendingJails :: int where "maxPendingJails = 4096"

definition FeaturesMap :: "Features \<Rightarrow> (string \<times> f64) list" where
  "FeaturesMap f =
     [(''adjacency_novelty'', AdjacencyNovelty f), (''identity_novelty'', IdentityNovelty f), (''port_novelty'', PortNovelty f),
      (''volume_deviation'', VolumeDeviation f), (''cadence_deviation'', CadenceDeviation f), (''fingerprint_match'', FingerprintMatch f)]"

definition captured_features :: "FeatureSource option \<Rightarrow> ScopeKey \<Rightarrow> SignalEvent \<Rightarrow> feature_map" where
  "captured_features agg scope ev =
     (case agg of None \<Rightarrow> None
      | Some fs \<Rightarrow> (case fs scope (ev_Flow ev) (ev_Timestamp ev) of (f, ok) \<Rightarrow> if ok then Some (FeaturesMap f) else None))"

definition audit_input :: "SignalEvent \<Rightarrow> Verdict \<Rightarrow> feature_map \<Rightarrow> DecisionInput" where
  "audit_input ev v feats = (let l7 = FromFlow (ev_Flow ev) in
     \<lparr>di_Scope = v_Scope v, di_Canary = ev_Canary ev, di_SocketCookie = SocketCookie (ev_Flow ev), di_Verdict = v,
      di_SourceAddress = l7_SourceAddress l7, di_Method = l7_Method l7, di_Path = l7_Path l7, di_SPIFFEID = l7_SPIFFEID l7,
      di_Features = feats, di_StingMechanism = [], di_Posture = None, di_Now = ev_Timestamp ev\<rparr>)"

section \<open>Submit\<close>

text \<open>
  The side effects of a verdict, in the order of the code. \<open>fault\<close> is what the database reports for the
  audit append; only that error is logged, none is returned.
\<close>

definition record_verdict ::
  "('s, 'd, 'p, 'b, 'k, 'g, 'w, 'c) surroundings \<Rightarrow> error option \<Rightarrow> ('s, 'd, 'b, 'k, 'g, 'c) capturingEngine \<Rightarrow> SignalEvent \<Rightarrow> Verdict \<Rightarrow>
   ('s, 'd, 'b, 'k, 'g, 'c) capturingEngine" where
  "record_verdict env fault e ev0 v =
     (let ev = ev0\<lparr>ev_Scope := v_Scope v\<rparr>;
          feats = captured_features (ce_agg e) (v_Scope v) ev
      in e\<lparr>ce_events := snd (CaptureVerdict (ce_events e) ev v feats),
           ce_l7events := map_option (\<lambda>l7. l7_Capture (en_perm env) (en_accepts env) l7 (v_Scope v) (SocketCookie (ev_Flow ev))
             (ev_Canary ev) v (FromFlow (ev_Flow ev)) feats (ev_Timestamp ev)) (ce_l7events e),
           ce_audit := map_option (\<lambda>a. snd (Capture (en_codec env) a fault (audit_input ev v feats))) (ce_audit e),
           ce_pendingJails :=
             (if v_Tier v = TierJail \<and> ce_sharpen e \<noteq> None \<and> int (length (ce_pendingJails e)) < maxPendingJails
              then AList.update (SocketCookie (ev_Flow ev)) (v_Scope v) (ce_pendingJails e) else ce_pendingJails e)\<rparr>)"

definition capturing_Submit ::
  "('s, 'd, 'p, 'b, 'k, 'g, 'w, 'c) surroundings \<Rightarrow> error option \<Rightarrow> ('s, 'd, 'b, 'k, 'g, 'c) capturingEngine \<Rightarrow> SignalEvent \<Rightarrow>
   (engine_error + Verdict) \<times> ('s, 'd, 'b, 'k, 'g, 'c) capturingEngine" where
  "capturing_Submit env fault e ev =
     (case en_inner env (ce_inner e) ev of
        (Inl err, s') \<Rightarrow> (Inl err, e\<lparr>ce_inner := s'\<rparr>)
      | (Inr v, s') \<Rightarrow> (Inr v, record_verdict env fault (e\<lparr>ce_inner := s'\<rparr>) ev v))"

section \<open>ReportOutcome\<close>

text \<open>A JSON document of the export form: its members in the order of the struct.\<close>

definition form_wire :: "'w json \<Rightarrow> SharedPattern \<Rightarrow> 'w" where
  "form_wire js form = js_Marshal js (map (apsnd json_value) (export_payload form))"

definition events_query :: "event_Store \<Rightarrow> event_query" where
  "events_query s = (\<lambda>scope since until. fst (Query s scope since until))"

text \<open>What a jailed flow's outcome sets off, under the scope bound to its cookie.\<close>

definition record_jailed ::
  "('s, 'd, 'p, 'b, 'k, 'g, 'w, 'c) surroundings \<Rightarrow> bool \<Rightarrow> ('s, 'd, 'b, 'k, 'g, 'c) capturingEngine \<Rightarrow> ScopeKey \<Rightarrow> u64 \<Rightarrow> int \<Rightarrow>
   ('s, 'd, 'b, 'k, 'g, 'c) capturingEngine" where
  "record_jailed env disk e authScope cookie ms =
     (case ce_sharpen e of
        None \<Rightarrow> e
      | Some sh \<Rightarrow>
         (let (p, sh') = RecordJail (Some (events_query (ce_events e))) sh authScope cookie (of_UnixMilli ms);
              e1 = e\<lparr>ce_sharpen := Some sh'\<rparr>
          in case p of
               None \<Rightarrow> e1
             | Some p \<Rightarrow>
                 let e2 = (if ce_contribute e \<and> ce_ledger e \<noteq> None
                           then e1\<lparr>ce_ledger := snd (RecordForm (en_mac env) (ce_ledger e) authScope (ExportForm (ToExportForm p)))\<rparr> else e1)
                 in case ce_confirmSpool e of
                      None \<Rightarrow> e2
                    | Some file \<Rightarrow>
                        if ce_scopeToken e = [] then e2
                        else e2\<lparr>ce_confirmSpool := Some (snd (SendConfirmation (en_json env) (en_envelope env) disk file
                               (ce_scopeToken e) (form_wire (en_json env) (ToExportForm p))))\<rparr>))"

definition ReportOutcome ::
  "('s, 'd, 'p, 'b, 'k, 'g, 'w, 'c) surroundings \<Rightarrow> bool \<Rightarrow> ('s, 'd, 'b, 'k, 'g, 'c) capturingEngine \<Rightarrow> OutcomeRecord \<Rightarrow>
   store_error option \<times> ('s, 'd, 'b, 'k, 'g, 'c) capturingEngine" where
  "ReportOutcome env disk e rec0 =
     (let pend = map_of (ce_pendingJails e) (or_SocketCookie rec0);
          rec = (case pend of Some authScope \<Rightarrow> if authScope \<noteq> [] then rec0\<lparr>or_Scope := authScope\<rparr> else rec0 | None \<Rightarrow> rec0);
          (err, es) = AmendOutcome (ce_events e) rec;
          e1 = e\<lparr>ce_events := es\<rparr>
      in case pend of
           None \<Rightarrow> (err, e1)
         | Some authScope \<Rightarrow>
             (err, record_jailed env disk (e1\<lparr>ce_pendingJails := AList.delete (or_SocketCookie rec0) (ce_pendingJails e)\<rparr>) authScope
                (or_SocketCookie rec0) (or_TimestampUnixMs rec0)))"

text \<open>The audit key file: its bytes without the surrounding white space, and never empty.\<close>

datatype key_error = KeyUnreadable error | KeyEmpty

definition readAuditKey :: "error + string \<Rightarrow> key_error + string" where
  "readAuditKey file =
     (case file of Inl err \<Rightarrow> Inl (KeyUnreadable err)
      | Inr raw \<Rightarrow> let key = TrimSpace raw in if key = [] then Inl KeyEmpty else Inr key)"

section \<open>What each store keeps for a scope\<close>

definition audit_view :: "('d, 'b) audit_Store \<Rightarrow> ScopeKey \<Rightarrow> 'd AuditRecord list option \<times> 'd option \<times> ('d, 'b) chain option" where
  "audit_view a k = (as_mem a k, headFor a k, map_option (\<lambda>db. chain_of db k) (as_store a))"

definition l7_view :: "l7_Store \<Rightarrow> ScopeKey \<Rightarrow> touch_records \<times> (string \<rightharpoonup> EnrichedTouchRecord) option" where
  "l7_view l k = (l7_byScope l k, map_option (\<lambda>d. d k) (l7_durable l))"

definition stores_view where
  "stores_view e k = (es_log (ce_events e) k, map_option (\<lambda>l. l7_view l k) (ce_l7events e), map_option (\<lambda>a. audit_view a k) (ce_audit e))"

lemma appendInMemory_frame: "k \<noteq> scope \<Longrightarrow> audit_view (snd (appendInMemory cd s scope r)) k = audit_view s k"
  by (auto simp: appendInMemory_def audit_view_def headFor_def Let_def update_conv' split: sum.split)

lemma AppendAuditAndHead_frame: "k \<noteq> scope \<Longrightarrow> chain_of (snd (AppendAuditAndHead db fault scope mk)) k = chain_of db k"
  by (auto simp: AppendAuditAndHead_def chain_of_def Let_def update_conv' split: sum.split option.split)

lemma audit_append_frame:
  assumes "k \<noteq> scope" shows "audit_view (snd (audit_append cd s fault scope r)) k = audit_view s k"
proof (cases "as_store s")
  case None
  with assms show ?thesis by (simp add: audit_append_def appendInMemory_frame)
next
  case (Some db)
  then show ?thesis
    using assms AppendAuditAndHead_frame[OF assms, of db fault]
    by (auto simp: audit_append_def audit_view_def headFor_def Let_def update_conv' split: option.splits sum.splits prod.splits)
      (metis snd_conv)+
qed

lemma Capture_frame: "k \<noteq> di_Scope i \<Longrightarrow> audit_view (snd (Capture cd s fault i)) k = audit_view s k"
  by (simp add: Capture_def audit_append_frame)

lemma CaptureVerdict_frame: "k \<noteq> ev_Scope ev \<Longrightarrow> es_log (snd (CaptureVerdict s ev v f)) k = es_log s k"
  by (simp add: CaptureVerdict_def event_Append_def AppendEvent_def)

lemma AmendOutcome_frame: "k \<noteq> or_Scope r \<Longrightarrow> es_log (snd (AmendOutcome s r)) k = es_log s k"
  by (simp add: AmendOutcome_def AppendEvent_def)

lemma touch_writes_frame:
  "\<forall>w\<in>set ws. (case w of PutTouch sc _ _ \<Rightarrow> sc | DeleteTouch sc _ \<Rightarrow> sc) \<noteq> k \<Longrightarrow> PutL7Touches accepts d ws k = d k"
proof -
  assume "\<forall>w\<in>set ws. (case w of PutTouch sc _ _ \<Rightarrow> sc | DeleteTouch sc _ \<Rightarrow> sc) \<noteq> k"
  then have "foldl apply_touch_write d ws k = d k"
    by (induction ws arbitrary: d) (auto split: touch_write.splits)
  then show ?thesis by (simp add: PutL7Touches_def)
qed

lemma l7_Capture_frame: "k \<noteq> scope \<Longrightarrow> l7_view (l7_Capture perm accepts s scope c canary v l7 f now) k = l7_view s k"
  by (auto simp: l7_Capture_def l7_view_def Let_def option.map_comp comp_def touch_writes_frame split: prod.split option.split intro!: option.map_cong0)

lemma record_verdict_frame: "k \<noteq> v_Scope v \<Longrightarrow> stores_view (record_verdict env fault e ev v) k = stores_view e k"
  by (simp add: record_verdict_def stores_view_def Let_def CaptureVerdict_frame option.map_comp comp_def l7_Capture_frame
      Capture_frame audit_input_def cong: option.map_cong)

lemma record_verdict_wire: "record_verdict env fault e (ev\<lparr>ev_Scope := w\<rparr>) v = record_verdict env fault e ev v"
  by (simp add: record_verdict_def)

lemma ReportOutcome_wire:
  "map_of (ce_pendingJails e) (or_SocketCookie r) = Some sc \<Longrightarrow> sc \<noteq> [] \<Longrightarrow>
     ReportOutcome env disk e (r\<lparr>or_Scope := w\<rparr>) = ReportOutcome env disk e r"
  by (simp add: ReportOutcome_def)

lemma record_verdict_inner [simp]: "ce_inner (record_verdict env fault e ev v) = ce_inner e"
  by (simp add: record_verdict_def Let_def)

lemma stores_view_inner [simp]: "stores_view (e\<lparr>ce_inner := s\<rparr>) k = stores_view e k"
  by (simp add: stores_view_def)

section \<open>Reachable states\<close>

text \<open>What waits for an outcome: distinct cookies, no more than the bound, each with a scope.\<close>

definition pending_list_ok :: "(u64 \<times> ScopeKey) list \<Rightarrow> bool" where
  "pending_list_ok ps \<longleftrightarrow> distinct (map fst ps) \<and> int (length ps) \<le> maxPendingJails \<and> [] \<notin> snd ` set ps"

definition pending_ok where
  "pending_ok e \<longleftrightarrow> pending_list_ok (ce_pendingJails e)"

lemma pending_update:
  assumes "pending_list_ok ps" "int (length ps) < maxPendingJails" "sc \<noteq> []" shows "pending_list_ok (AList.update c sc ps)"
proof -
  have "int (length (AList.update c sc ps)) \<le> int (length ps) + 1" using length_AList_update_le[of c sc ps] by linarith
  moreover have "[] \<notin> snd ` set (AList.update c sc ps)"
    using image_mono[OF AList_update_subset[of c sc ps], of snd] assms(1,3) by (auto simp: pending_list_ok_def)
  ultimately show ?thesis using assms(1,2) by (simp add: pending_list_ok_def distinct_update)
qed

lemma pending_delete:
  assumes "pending_list_ok ps" shows "pending_list_ok (AList.delete c ps)"
proof -
  have "length (AList.delete c ps) \<le> length ps" by (simp add: AList.delete_eq)
  moreover have "[] \<notin> snd ` set (AList.delete c ps)"
    using image_mono[OF set_delete_subset[of c ps], of snd] assms by (auto simp: pending_list_ok_def)
  ultimately show ?thesis using assms by (simp add: pending_list_ok_def distinct_delete)
qed

lemma record_verdict_pending [inv_intros]:
  "pending_ok e \<Longrightarrow> v_Scope v \<noteq> [] \<Longrightarrow> pending_ok (record_verdict env fault e ev v)"
  by (auto simp: record_verdict_def pending_ok_def Let_def intro: pending_update)

lemma record_jailed_pending [simp]: "ce_pendingJails (record_jailed env disk e sc c ms) = ce_pendingJails e"
  by (auto simp: record_jailed_def Let_def split: option.split prod.split)

lemma record_jailed_events [simp]: "ce_events (record_jailed env disk e sc c ms) = ce_events e"
  by (auto simp: record_jailed_def Let_def split: option.split prod.split)

lemma ReportOutcome_pending [inv_intros]: "pending_ok e \<Longrightarrow> pending_ok (snd (ReportOutcome env disk e r))"
  by (auto simp: ReportOutcome_def Let_def pending_ok_def pending_delete split: option.split prod.split)

text \<open>The steps of the layer: events submitted by adapters, outcomes reported later.\<close>

datatype capture_op = SubmitOp "error option" SignalEvent | ReportOp bool OutcomeRecord

fun capture_step where
  "capture_step env e (SubmitOp fault ev) = snd (capturing_Submit env fault e ev)"
| "capture_step env e (ReportOp disk r) = snd (ReportOutcome env disk e r)"

lemma capture_step_pending:
  assumes "\<And>s ev v. fst (en_inner env s ev) = Inr v \<Longrightarrow> v_Scope v \<noteq> []" "pending_ok e"
  shows "pending_ok (capture_step env e op)"
proof (cases op)
  case (SubmitOp fault ev)
  have p: "pending_ok (e\<lparr>ce_inner := s\<rparr>)" for s using assms(2) by (simp add: pending_ok_def)
  with SubmitOp assms(1)[of "ce_inner e" ev] show ?thesis
    by (auto simp: capturing_Submit_def intro: record_verdict_pending split: prod.splits sum.splits)
qed (use assms in \<open>auto intro: ReportOutcome_pending\<close>)

lemma capture_steps_pending:
  assumes "\<And>s ev v. fst (en_inner env s ev) = Inr v \<Longrightarrow> v_Scope v \<noteq> []" "pending_ok e"
  shows "pending_ok (foldl (capture_step env) e ops)"
  using assms(2) by (induction ops arbitrary: e) (simp_all add: capture_step_pending[OF assms(1)])

lemma static_scope_nonempty:
  assumes "engine_New ord (static_config os sc tc cal tdm) = Inr sv" "fst (Submit sv s ev) = Inr v"
  shows "v_Scope v \<noteq> []" "Resolve sc (ev_Flow ev) = Inr (v_Scope v)"
proof -
  have r: "sv_Resolve sv = Resolve sc" using assms(1) by (auto simp: static_New)
  from static_engine.submit_scope[OF r assms(2)] show "v_Scope v \<noteq> []" "Resolve sc (ev_Flow ev) = Inr (v_Scope v)" by simp_all
qed

lemma static_wire:
  assumes "engine_New ord (static_config os sc tc cal tdm) = Inr sv"
  shows "Submit sv s (ev\<lparr>ev_Scope := w\<rparr>) = Submit sv s ev"
proof -
  have r: "sv_Resolve sv = Resolve sc" and c: "sv_Score sv = Score (fst os) (fst (snd os))" using assms by (auto simp: static_New)
  show ?thesis by (rule static_engine.submit_wire[OF r c])
qed


definition demo_surroundings :: "(WindowedScorer, nat, nat AuditRecord, nat AuditRecord, nat, string, (string \<times> jvalue) list, string \<times> (string \<times> jvalue) list) surroundings" where
  "demo_surroundings = \<lparr>en_inner = Submit demo_service, en_codec = demo_codec, en_perm = rev, en_accepts = (\<lambda>_. True), en_mac = demo_mac,
     en_json = identity_json, en_envelope = demo_envelope\<rparr>"

definition demo_engine :: "(WindowedScorer, nat, nat AuditRecord, nat, string, string \<times> (string \<times> jvalue) list) capturingEngine" where
  "demo_engine = \<lparr>ce_inner = demo_scorer, ce_events = \<lparr>es_log = \<lambda>_. [], es_readOnly = False, es_decodeErrors = 0\<rparr>,
     ce_l7events = Some demo_l7_store, ce_audit = None, ce_agg = None, ce_sharpen = Some sharpen_NewStore, ce_pendingJails = [],
     ce_ledger = None, ce_contribute = False, ce_confirmSpool = None, ce_scopeToken = []\<rparr>"


section \<open>A jail and its outcome\<close>

lemma UnixMilli_of [simp]: "UnixMilli (of_UnixMilli ms) = ms"
  by (simp add: UnixMilli_def of_UnixMilli_def)

lemma recent_log_tail:
  assumes "es_log s scope = l @ [a, b]" shows "\<exists>l'. recent_log s scope = l' @ [a, b]"
  unfolding recent_log_def Let_def assms by (rule exI[of _ "drop (length (l @ [a, b]) - 4096) l"]) simp

lemma jailed_event_amended:
  assumes "es_log s scope = l @ [EventBlob ev, OutcomeBlob o']" "scope \<noteq> []"
    and "ie_Timestamp ev = of_UnixMilli ms" "ocr_SocketCookie o' = ie_FlowID ev" "ocr_TimestampMs o' = ms"
  shows "\<exists>es. events_query s scope (of_UnixMilli ms - lookbackWindow) (of_UnixMilli ms) = Inr es \<and> ev\<lparr>ie_Sting := ocr_Sting o'\<rparr> \<in> set es"
proof -
  obtain l' where r: "recent_log s scope = l' @ [EventBlob ev, OutcomeBlob o']" using recent_log_tail[OF assms(1)] by blast
  have "ev \<in> set (window_events (of_UnixMilli ms - lookbackWindow) (of_UnixMilli ms) (recent_log s scope))"
    by (simp add: window_events_mem r assms(3) lookbackWindow_def)
  moreover have "with_latest (recent_log s scope) ev = ev\<lparr>ie_Sting := ocr_Sting o'\<rparr>"
    by (simp add: with_latest_def r outcomes_for_append assms(3-5) Let_def)
  ultimately show ?thesis using Query_spec[OF assms(2), of s "of_UnixMilli ms - lookbackWindow" "of_UnixMilli ms"]
    unfolding events_query_def by (metis image_eqI image_set)
qed

lemma RecordJail_confirmed:
  assumes "src scope (t - lookbackWindow) t = Inr es" "e \<in> set es" "ie_FlowID e = c"
  shows "\<exists>p sh'. RecordJail (Some src) sh scope c t = (Some p, sh') \<and> DeriveProfile (filter (\<lambda>e. ie_FlowID e = c) es) = Some p \<and>
    (\<exists>en. map_of (sh' scope) (pf_BehavioralHash p) = Some en \<and> c \<in> set (je_flows en) \<and> je_prof en = p)"
proof -
  have "filter (\<lambda>e. ie_FlowID e = c) es \<noteq> []" using assms(2,3) by (auto simp: filter_empty_conv)
  then obtain p where p: "DeriveProfile (filter (\<lambda>e. ie_FlowID e = c) es) = Some p" by (simp add: DeriveProfile_def)
  then have "deriveFlow (Some src) scope c t = Some p" by (simp add: deriveFlow_def assms(1))
  then show ?thesis using p by (simp add: RecordJail_def record_entry_def Let_def update_conv')
qed

lemma record_jailed_sharpen:
  "ce_sharpen e = Some sh \<Longrightarrow>
     ce_sharpen (record_jailed env disk e sc c ms) = Some (snd (RecordJail (Some (events_query (ce_events e))) sh sc c (of_UnixMilli ms)))"
  by (auto simp: record_jailed_def Let_def split: option.split prod.split)

definition jail_event :: "SignalEvent \<Rightarrow> Verdict \<Rightarrow> feature_map \<Rightarrow> AdversaryInteractionEvent" where
  "jail_event ev v feats = \<lparr>ie_ScopeKey = v_Scope v, ie_FlowID = SocketCookie (ev_Flow ev), ie_CanaryType = ev_Canary ev,
     ie_Timestamp = ev_Timestamp ev, ie_Features = feats, ie_Tier = v_Tier v, ie_Verdict = tierName (v_Tier v),
     ie_Score = v_Score v, ie_Sting = zero_sting\<rparr>"

lemma record_verdict_jail:
  assumes "v_Tier v = TierJail" "v_Scope v \<noteq> []" "\<not> es_readOnly (ce_events e)"
  shows "\<exists>feats. es_log (ce_events (record_verdict env fault e ev v)) (v_Scope v) = es_log (ce_events e) (v_Scope v) @ [EventBlob (jail_event ev v feats)]"
    and "es_readOnly (ce_events (record_verdict env fault e ev v)) = es_readOnly (ce_events e)"
    and "ce_sharpen (record_verdict env fault e ev v) = ce_sharpen e"
  using assms by (auto simp: record_verdict_def CaptureVerdict_def event_Append_def AppendEvent_def jail_event_def Let_def)


definition demo_sting_outcome :: StingOutcome where
  "demo_sting_outcome = \<lparr>so_Mechanism = ''tarpit'', so_TimeHeldSec = 1, so_BytesServed = 10, so_RequestsAbsrb = 1, so_TokenCostProxy = 0,
     so_DepthReached = 2, so_DoneReason = 0, so_Axes = AxisVelocity, so_TimeToDisengageSec = 0, so_PoisonClass = [], so_PoisonReached = 0,
     so_ExploitsObserved = 0, so_ExposureSignals = 0, so_DisengageReason = 0\<rparr>"

definition demo_jail :: Verdict where
  "demo_jail = \<lparr>v_Flow = cookie_flow 7, v_Scope = ''zone-a'', v_Tier = TierJail, v_Mode = ModeInline, v_Score = 0, v_Calibrated = True\<rparr>"

end
