(* ===== verification/Netip.thy ===== *)
theory Netip
  imports GoStrings
begin

text \<open>
  What the adapter and the observers use of Go's \<^verbatim>\<open>net\<close> and \<^verbatim>\<open>net/netip\<close>, and the connection tuple of
  \<^verbatim>\<open>adapters/envoy/identity\<close>: host and port splitting, the parsers of both address families, the canonical
  print, and \<^verbatim>\<open>TupleFromAddrs\<close>, which folds every spelling of one address to one key. Lemmas: an IPv4
  address prints to a text that parses back, a mapped address folds to its IPv4 address, and a tuple is
  always in the layout of the kernel's map key.
\<close>

section \<open>Hosts and ports\<close>

definition IndexByte :: "string \<Rightarrow> char \<Rightarrow> nat option" where
  "IndexByte s c = (let t = takeWhile (\<lambda>x. x \<noteq> c) s in if length t = length s then None else Some (length t))"

text \<open>\<^verbatim>\<open>net.SplitHostPort\<close>; every error is \<open>None\<close>.\<close>

definition SplitHostPort :: "string \<Rightarrow> (string \<times> string) option" where
  "SplitHostPort s =
     (case LastIndexByte s CHR '':'' of
        None \<Rightarrow> None
      | Some i \<Rightarrow>
         (let port = drop (Suc i) s
          in if s ! 0 = CHR ''['' then
               (case IndexByte s CHR '']'' of
                  None \<Rightarrow> None
                | Some e \<Rightarrow>
                    if e + 1 = length s \<or> e + 1 \<noteq> i then None
                    else if CHR ''['' \<in> set (drop 1 s) \<or> CHR '']'' \<in> set (drop (e + 1) s) then None
                    else Some (take (e - 1) (drop 1 s), port))
             else if CHR '':'' \<in> set (take i s) then None
             else if CHR ''['' \<in> set s \<or> CHR '']'' \<in> set s then None
             else Some (take i s, port)))"

text \<open>\<^verbatim>\<open>strconv.ParseUint(s, 10, 16)\<close>.\<close>

definition ParseUint16 :: "string \<Rightarrow> nat option" where
  "ParseUint16 s =
     (if s = [] then None
      else case parse_digits 0 s of None \<Rightarrow> None | Some n \<Rightarrow> if n < 65536 then Some (nat n) else None)"

definition splitHostPort :: "string \<Rightarrow> (string \<times> nat) option" where
  "splitHostPort s =
     (case SplitHostPort s of
        None \<Rightarrow> None
      | Some (host, portStr) \<Rightarrow> (case ParseUint16 portStr of None \<Rightarrow> None | Some p \<Rightarrow> Some (host, p)))"

section \<open>Addresses\<close>

text \<open>An address: four bytes, or sixteen bytes and a zone.\<close>

datatype Addr = V4 "nat list" | V6 "nat list" string

text \<open>\<^verbatim>\<open>parseIPv4Fields\<close>: the value and number of digits of the current octet, and the octets so far.\<close>

fun v4_fields :: "nat \<Rightarrow> nat \<Rightarrow> nat list \<Rightarrow> string \<Rightarrow> nat list option" where
  "v4_fields val digLen fs [] = (if length fs < 3 then None else Some (fs @ [val]))"
| "v4_fields val digLen fs (c # s) =
     (case digit_value c of
        Some d \<Rightarrow>
          if digLen = 1 \<and> val = 0 then None
          else if val * 10 + d > 255 then None
          else v4_fields (val * 10 + d) (Suc digLen) fs s
      | None \<Rightarrow>
          if c = CHR ''.'' then
            if digLen = 0 \<or> s = [] then None
            else if length fs = 3 then None
            else v4_fields 0 0 (fs @ [val]) s
          else None)"

definition hex_value :: "char \<Rightarrow> nat option" where
  "hex_value c = (let n = of_char c in
     if 48 \<le> n \<and> n \<le> 57 then Some (n - 48)
     else if 97 \<le> n \<and> n \<le> 102 then Some (n - 97 + 10)
     else if 65 \<le> n \<and> n \<le> 70 then Some (n - 65 + 10) else None)"

text \<open>One group of hex digits: how many, their value and the rest; more than four fail.\<close>

fun hex_group :: "nat \<Rightarrow> nat \<Rightarrow> string \<Rightarrow> (nat \<times> nat \<times> string) option" where
  "hex_group off n [] = Some (off, n, [])"
| "hex_group off n (c # s) =
     (case hex_value c of
        None \<Rightarrow> Some (off, n, c # s)
      | Some d \<Rightarrow> if off > 3 \<or> n * 16 + d > 65535 then None else hex_group (Suc off) (n * 16 + d) s)"

text \<open>
  The loop of \<^verbatim>\<open>parseIPv6\<close> with the number of groups that still fit: the bytes so far, the position of the
  ellipsis and the text left over.
\<close>

fun v6_loop :: "nat \<Rightarrow> nat list \<Rightarrow> nat option \<Rightarrow> string \<Rightarrow> (nat list \<times> nat option \<times> string) option" where
  "v6_loop 0 ip e s = Some (ip, e, s)"
| "v6_loop (Suc n) ip e s =
     (case hex_group 0 0 s of
        None \<Rightarrow> None
      | Some (off, v, rest) \<Rightarrow>
          if off = 0 then None
          else if rest \<noteq> [] \<and> hd rest = CHR ''.'' then
            if e = None \<and> length ip \<noteq> 12 \<or> length ip + 4 > 16 then None
            else (case v4_fields 0 0 [] s of None \<Rightarrow> None | Some f \<Rightarrow> Some (ip @ f, e, []))
          else
           (let ip' = ip @ [v div 256, v mod 256]
            in case rest of
                 [] \<Rightarrow> Some (ip', e, [])
               | c # s1 \<Rightarrow>
                   if c \<noteq> CHR '':'' \<or> s1 = [] then None
                   else if hd s1 = CHR '':'' then
                     if e \<noteq> None then None
                     else if tl s1 = [] then Some (ip', Some (length ip'), [])
                     else v6_loop n ip' (Some (length ip')) (tl s1)
                   else v6_loop n ip' e s1))"

definition v6_finish :: "nat list \<times> nat option \<times> string \<Rightarrow> nat list option" where
  "v6_finish r = (case r of (ip, e, s) \<Rightarrow>
     if s \<noteq> [] then None
     else if length ip < 16 then
       (case e of None \<Rightarrow> None | Some k \<Rightarrow> Some (take k ip @ replicate (16 - length ip) 0 @ drop k ip))
     else if e \<noteq> None then None else Some ip)"

definition parseIPv6 :: "string \<Rightarrow> Addr option" where
  "parseIPv6 inp =
     (let (s, zone, ok) = (case IndexByte inp CHR ''%'' of
              None \<Rightarrow> (inp, [], True)
            | Some i \<Rightarrow> (take i inp, drop (Suc i) inp, drop (Suc i) inp \<noteq> []))
      in if \<not> ok then None
         else if take 2 s = ''::'' \<and> length s = 2 then Some (V6 (replicate 16 0) zone)
         else (case (if take 2 s = ''::'' then v6_loop 8 [] (Some 0) (drop 2 s) else v6_loop 8 [] None s) of
                 None \<Rightarrow> None
               | Some r \<Rightarrow> map_option (\<lambda>ip. V6 ip zone) (v6_finish r)))"

definition ParseAddr :: "string \<Rightarrow> Addr option" where
  "ParseAddr s =
     (case find (\<lambda>c. c = CHR ''.'' \<or> c = CHR '':'' \<or> c = CHR ''%'') s of
        None \<Rightarrow> None
      | Some c \<Rightarrow> if c = CHR ''.'' then map_option V4 (v4_fields 0 0 [] s)
                  else if c = CHR '':'' then parseIPv6 s else None)"

definition mapped_prefix :: "nat list" where
  "mapped_prefix = replicate 10 0 @ [255, 255]"

definition Is4In6 :: "Addr \<Rightarrow> bool" where
  "Is4In6 a = (case a of V4 _ \<Rightarrow> False | V6 b _ \<Rightarrow> take 12 b = mapped_prefix)"

definition Unmap :: "Addr \<Rightarrow> Addr" where
  "Unmap a = (case a of V4 b \<Rightarrow> V4 b | V6 b z \<Rightarrow> if take 12 b = mapped_prefix then V4 (drop 12 b) else V6 b z)"

definition Is4 :: "Addr \<Rightarrow> bool" where
  "Is4 a = (case a of V4 _ \<Rightarrow> True | V6 _ _ \<Rightarrow> False)"

section \<open>Printing\<close>

fun join_with :: "string \<Rightarrow> string list \<Rightarrow> string" where
  "join_with sep [] = []"
| "join_with sep [s] = s"
| "join_with sep (s # t # ts) = s @ sep @ join_with sep (t # ts)"

definition hex_char :: "nat \<Rightarrow> char" where
  "hex_char d = char_of (if d < 10 then 48 + d else 87 + d)"

fun hex_digits :: "nat \<Rightarrow> string" where
  "hex_digits n = (if n < 16 then [hex_char n] else hex_digits (n div 16) @ [hex_char (n mod 16)])"

declare hex_digits.simps [simp del]

fun v6_groups :: "nat list \<Rightarrow> nat list" where
  "v6_groups (a # b # bs) = (a * 256 + b) # v6_groups bs"
| "v6_groups _ = []"

text \<open>The first of the longest runs of at least two zero groups.\<close>

definition zero_run :: "nat list \<Rightarrow> nat \<times> nat" where
  "zero_run gs = foldl (\<lambda>(st, len) i. let l = length (takeWhile (\<lambda>g. g = 0) (drop i gs))
     in if 2 \<le> l \<and> len < l then (i, l) else (st, len)) (0, 0) [0..<length gs]"

definition Addr_String :: "Addr \<Rightarrow> string" where
  "Addr_String a =
     (case a of
        V4 b \<Rightarrow> join_with ''.'' (map nat_digits b)
      | V6 b z \<Rightarrow>
          (if take 12 b = mapped_prefix then ''::ffff:'' @ join_with ''.'' (map nat_digits (drop 12 b))
           else let gs = v6_groups b; (st, len) = zero_run gs
             in if len = 0 then join_with '':'' (map hex_digits gs)
                else join_with '':'' (map hex_digits (take st gs)) @ ''::'' @ join_with '':'' (map hex_digits (drop (st + len) gs)))
          @ (if z = [] then [] else CHR ''%'' # z))"

section \<open>The connection tuple\<close>

abbreviation (input) AFInet :: nat where "AFInet \<equiv> 2"
abbreviation (input) AFInet6 :: nat where "AFInet6 \<equiv> 10"

record FourTuple =
  ft_Family :: nat
  ft_SrcPort :: nat
  ft_DstPort :: nat
  ft_SrcIP :: "nat list"
  ft_DstIP :: "nat list"

definition SourceAddr :: "FourTuple \<Rightarrow> Addr option" where
  "SourceAddr t = (if ft_Family t = AFInet then Some (V4 (take 4 (ft_SrcIP t)))
     else if ft_Family t = AFInet6 then Some (V6 (ft_SrcIP t) []) else None)"

definition TupleFromAddrs :: "string \<Rightarrow> nat \<Rightarrow> string \<Rightarrow> nat \<Rightarrow> FourTuple option" where
  "TupleFromAddrs srcIP srcPort dstIP dstPort =
     (case (ParseAddr srcIP, ParseAddr dstIP) of
        (Some s0, Some d0) \<Rightarrow>
          (case (Unmap s0, Unmap d0) of
             (V4 s, V4 d) \<Rightarrow> Some \<lparr>ft_Family = AFInet, ft_SrcPort = srcPort, ft_DstPort = dstPort,
                                ft_SrcIP = s @ replicate 12 0, ft_DstIP = d @ replicate 12 0\<rparr>
           | (V6 s _, V6 d _) \<Rightarrow> Some \<lparr>ft_Family = AFInet6, ft_SrcPort = srcPort, ft_DstPort = dstPort, ft_SrcIP = s, ft_DstIP = d\<rparr>
           | _ \<Rightarrow> None)
      | _ \<Rightarrow> None)"

text \<open>The kernel side of a tuple; the generation is a vestige of the layout.\<close>

record Resolution =
  rs_Cookie :: u64
  rs_CgroupID :: u64
  rs_PID :: u32
  rs_Generation :: u32

section \<open>What the parsers return\<close>

definition bytes_ok :: "nat \<Rightarrow> nat list \<Rightarrow> bool" where
  "bytes_ok n b \<longleftrightarrow> length b = n \<and> (\<forall>x\<in>set b. x < 256)"

definition addr_ok :: "Addr \<Rightarrow> bool" where
  "addr_ok a = (case a of V4 b \<Rightarrow> bytes_ok 4 b | V6 b _ \<Rightarrow> bytes_ok 16 b)"

lemma v4_fields_ok:
  "v4_fields v n fs s = Some b \<Longrightarrow> v < 256 \<Longrightarrow> length fs \<le> 3 \<Longrightarrow> \<forall>x\<in>set fs. x < 256 \<Longrightarrow> bytes_ok 4 b"
proof (induction v n fs s rule: v4_fields.induct)
  case (2 v n fs c s)
  show ?case
  proof (cases "digit_value c")
    case None
    with "2.prems"(1) have c: "c = CHR ''.''" "n \<noteq> 0" "s \<noteq> []" "length fs \<noteq> 3" "v4_fields 0 0 (fs @ [v]) s = Some b"
      by (simp_all split: if_splits)
    show ?thesis using "2.IH" None c "2.prems"(2-) by simp
  next
    case (Some d)
    with "2.prems"(1) have c: "\<not> (n = 1 \<and> v = 0)" "\<not> v * 10 + d > 255" "v4_fields (v * 10 + d) (Suc n) fs s = Some b"
      by (simp_all split: if_splits)
    show ?thesis using "2.IH" Some c "2.prems"(3,4) by simp
  qed
qed (auto simp: bytes_ok_def split: if_splits)

lemma hex_group_bound: "hex_group off n s = Some (off', v, rest) \<Longrightarrow> n < 65536 \<Longrightarrow> v < 65536"
  by (induction off n s rule: hex_group.induct) (auto split: option.splits if_splits)

text \<open>One round of the loop: it ends with the bytes it adds, or goes on with two more.\<close>

lemma v6_loop_step:
  assumes "v6_loop (Suc n) ip e s = Some r"
  obtains f e' where "bytes_ok 4 f" "length ip + 4 \<le> 16" "r = (ip @ f, e', [])"
  | v e' where "v < 65536" "r = (ip @ [v div 256, v mod 256], e', [])"
  | v e' s' where "v < 65536" "v6_loop n (ip @ [v div 256, v mod 256]) e' s' = Some r"
proof -
  obtain off v rest where g: "hex_group 0 0 s = Some (off, v, rest)" "off \<noteq> 0" using assms by (auto split: option.splits if_splits)
  have v: "v < 65536" using hex_group_bound[OF g(1)] by simp
  show thesis
  proof (cases "rest \<noteq> [] \<and> hd rest = CHR ''.''")
    case True
    with assms g obtain f where "v4_fields 0 0 [] s = Some f" "length ip + 4 \<le> 16" "r = (ip @ f, e, [])"
      by (auto split: option.splits if_splits)
    then show thesis using that(1) v4_fields_ok[of 0 0 "[]" s f] by simp
  next
    case False
    then show thesis using assms g that(2,3)[OF v]
      by (cases rest) (auto simp: Let_def split: if_splits)
  qed
qed

lemma v6_loop_ok:
  "v6_loop n ip e s = Some (ip', e', s') \<Longrightarrow> length ip + 2 * n \<le> 16 \<Longrightarrow> \<forall>x\<in>set ip. x < 256 \<Longrightarrow>
   length ip' \<le> 16 \<and> (\<forall>x\<in>set ip'. x < 256)"
proof (induction n arbitrary: ip e s)
  case (Suc n)
  have group: "length (ip @ [v div 256, v mod 256]) + 2 * n \<le> 16 \<and> (\<forall>x\<in>set (ip @ [v div 256, v mod 256]). x < 256)"
    if "v < 65536" for v :: nat
  proof -
    have "v div 256 < 256" using that by (simp add: less_mult_imp_div_less)
    moreover have "v mod 256 < 256" by simp
    ultimately show ?thesis using Suc.prems(2,3) by (simp only: length_append set_append ball_Un) simp
  qed
  from Suc.prems(1) show ?case
  proof (cases rule: v6_loop_step)
    case (1 f e1)
    then show ?thesis using Suc.prems(3) by (auto simp: bytes_ok_def)
  next
    case (2 v e1)
    then have "ip' = ip @ [v div 256, v mod 256]" by (simp only: prod.inject)
    then show ?thesis using group[OF 2(1)] by (metis add_leD1)
  next
    case (3 v e1 s1)
    then show ?thesis using Suc.IH[OF 3(2)] group[OF 3(1)] by blast
  qed
qed simp

lemma v6_finish_ok: "v6_finish (ip, e, s) = Some b \<Longrightarrow> length ip \<le> 16 \<Longrightarrow> \<forall>x\<in>set ip. x < 256 \<Longrightarrow> bytes_ok 16 b"
  by (auto simp: v6_finish_def bytes_ok_def split: if_splits option.splits dest!: in_set_takeD in_set_dropD)

lemma ParseAddr_ok: "ParseAddr s = Some a \<Longrightarrow> addr_ok a"
proof -
  have v6: "addr_ok a" if "parseIPv6 t = Some a" for t
  proof -
    have u: "addr_ok (V6 (replicate 16 0) z)" for z by (simp add: addr_ok_def bytes_ok_def)
    have l: "addr_ok (V6 b z)" if "v6_loop 8 [] e t = Some r" "v6_finish r = Some b" for e t r b z
      using that v6_loop_ok[of 8 "[]" e t] v6_finish_ok by (cases r) (auto simp: addr_ok_def)
    show ?thesis using that u l
      by (auto simp: parseIPv6_def Let_def split: if_splits option.splits prod.splits)
  qed
  show "ParseAddr s = Some a \<Longrightarrow> addr_ok a"
    using v6 v4_fields_ok[of 0 0 "[]" s] by (auto simp: ParseAddr_def addr_ok_def split: option.splits if_splits)
qed

lemma Unmap_ok: "addr_ok a \<Longrightarrow> addr_ok (Unmap a)"
  by (auto simp: addr_ok_def Unmap_def bytes_ok_def split: Addr.splits dest: in_set_dropD)

lemma Unmap_not_mapped: "\<not> Is4In6 (Unmap a)"
  by (simp add: Unmap_def Is4In6_def split: Addr.splits)

text \<open>The layout of a map key: family, ports in range, sixteen bytes, zeros behind an IPv4 address, nothing mapped.\<close>

definition tuple_ok :: "FourTuple \<Rightarrow> bool" where
  "tuple_ok t \<longleftrightarrow> ft_Family t \<in> {AFInet, AFInet6} \<and> ft_SrcPort t < 65536 \<and> ft_DstPort t < 65536 \<and>
     bytes_ok 16 (ft_SrcIP t) \<and> bytes_ok 16 (ft_DstIP t) \<and>
     (ft_Family t = AFInet \<longrightarrow> drop 4 (ft_SrcIP t) = replicate 12 0 \<and> drop 4 (ft_DstIP t) = replicate 12 0) \<and>
     (ft_Family t = AFInet6 \<longrightarrow> take 12 (ft_SrcIP t) \<noteq> mapped_prefix \<and> take 12 (ft_DstIP t) \<noteq> mapped_prefix)"

lemma TupleFromAddrs_ok:
  assumes "TupleFromAddrs si sp di dp = Some t" "sp < 65536" "dp < 65536" shows "tuple_ok t"
proof -
  obtain s0 d0 where p: "ParseAddr si = Some s0" "ParseAddr di = Some d0"
    using assms(1) by (auto simp: TupleFromAddrs_def split: option.splits)
  have "addr_ok (Unmap s0)" "addr_ok (Unmap d0)" "\<not> Is4In6 (Unmap s0)" "\<not> Is4In6 (Unmap d0)"
    using p ParseAddr_ok Unmap_ok Unmap_not_mapped by blast+
  then show ?thesis using assms p
    by (auto simp: TupleFromAddrs_def tuple_ok_def addr_ok_def bytes_ok_def Is4In6_def split: Addr.splits)
qed

text \<open>The address a tuple was built from is the address it prints, without zone and mapping.\<close>

definition canonical :: "Addr \<Rightarrow> Addr" where
  "canonical a = (case Unmap a of V4 b \<Rightarrow> V4 b | V6 b _ \<Rightarrow> V6 b [])"

lemma SourceAddr_canonical:
  assumes "TupleFromAddrs si sp di dp = Some t" "ParseAddr si = Some a" shows "SourceAddr t = Some (canonical a)"
  using assms Unmap_ok[OF ParseAddr_ok[OF assms(2)]]
  by (auto simp: TupleFromAddrs_def SourceAddr_def canonical_def addr_ok_def bytes_ok_def split: option.splits Addr.splits)

lemma splitHostPort_port: "splitHostPort s = Some (h, p) \<Longrightarrow> p < 65536"
  by (auto simp: splitHostPort_def ParseUint16_def split: option.splits if_splits)

section \<open>Printing IPv4\<close>

lemma v4_digit:
  "d < 10 \<Longrightarrow> \<not> (k = 1 \<and> v = 0) \<Longrightarrow> v * 10 + d \<le> 255 \<Longrightarrow>
   v4_fields v k fs (char_of (48 + d) # s) = v4_fields (v * 10 + d) (Suc k) fs s"
  by auto

lemma v4_fields_digits:
  assumes "n < 256" shows "v4_fields 0 0 fs (nat_digits n @ rest) = v4_fields n (length (nat_digits n)) fs rest"
proof -
  have d: "digit_value (char_of (48 + k)) = Some k" if "k < 10" for k using that by simp
  consider "n < 10" | "10 \<le> n" "n < 100" | "100 \<le> n" by linarith
  then show ?thesis
  proof cases
    case 1
    then show ?thesis by (subst (1 2) nat_digits.simps) (simp add: d)
  next
    case 2
    then have q: "n div 10 < 10" "n div 10 \<noteq> 0" "n mod 10 < 10" "n div 10 * 10 + n mod 10 = n" by auto
    have "nat_digits n = [char_of (48 + n div 10), char_of (48 + n mod 10)]"
      using 2 q by (subst nat_digits.simps, subst nat_digits.simps) simp
    moreover have "n div 10 * 10 + n mod 10 \<le> 255" using q(4) assms by linarith
    ultimately show ?thesis using q(1-3) by (simp add: d q(4) del: div_mult_mod_eq)
  next
    case 3
    define h t u where "h = n div 100" and "t = n div 10 mod 10" and "u = n mod 10"
    have q: "h < 10" "h \<noteq> 0" "t < 10" "u < 10" "n div 10 div 10 = h"
      using 3 assms by (simp_all add: h_def t_def u_def div_mult2_eq[of n 10 10, simplified] less_mult_imp_div_less)
    have q5: "h * 100 + t * 10 + u = n" 
    proof -
      have "n div 100 = n div 10 div 10" using div_mult2_eq[of n 10 10] by simp
      then have "h * 10 + t = n div 10" unfolding h_def t_def using div_mult_mod_eq[of "n div 10" 10] by linarith
      then show ?thesis unfolding u_def using div_mult_mod_eq[of n 10] by linarith
    qed
    have "nat_digits n = [char_of (48 + h), char_of (48 + t), char_of (48 + u)]"
      using 3 q by (subst nat_digits.simps, subst nat_digits.simps, subst nat_digits.simps) (simp add: t_def u_def)
    moreover have "v4_fields 0 0 fs (char_of (48 + h) # char_of (48 + t) # char_of (48 + u) # rest) = v4_fields n 3 fs rest"
    proof -
      have "100 * h + t * 10 + u = n" using q5 by simp
      then show ?thesis using q assms by (simp add: v4_digit numeral_3_eq_3)
    qed
    ultimately show ?thesis by (simp only: append_Cons append_Nil list.size numeral_3_eq_3 add_Suc_right add_0_right)
  qed
qed

lemma nat_digits_no_mark: "c \<in> set (nat_digits n) \<Longrightarrow> digit_value c \<noteq> None"
proof (induction n rule: nat_digits.induct)
  case (1 n)
  then show ?case by (subst (asm) (2) nat_digits.simps) (auto split: if_splits)
qed

lemma find_skip: "\<forall>x\<in>set xs. \<not> P x \<Longrightarrow> find P (xs @ ys) = find P ys"
  by (induction xs) auto

lemma ParseAddr_String4:
  assumes "bytes_ok 4 b" shows "ParseAddr (Addr_String (V4 b)) = Some (V4 b)"
proof -
  obtain w x y z where b: "b = [w, x, y, z]" using assms by (auto simp: bytes_ok_def length_Suc_conv numeral_eq_Suc)
  have r: "w < 256" "x < 256" "y < 256" "z < 256" using assms by (auto simp: bytes_ok_def b)
  have s: "Addr_String (V4 b) = nat_digits w @ ''.'' @ nat_digits x @ ''.'' @ nat_digits y @ ''.'' @ nat_digits z"
    by (simp add: Addr_String_def b)
  have m: "digit_value CHR ''.'' = None" by (simp add: digit_value_def)
  have "v4_fields 0 0 [] (Addr_String (V4 b)) = Some b"
    unfolding s using r v4_fields_digits[of z "[w, x, y]" "[]"] by (simp add: v4_fields_digits m b)
  moreover have "find (\<lambda>c. c = CHR ''.'' \<or> c = CHR '':'' \<or> c = CHR ''%'') (Addr_String (V4 b)) = Some CHR ''.''"
  proof -
    have "\<not> (c = CHR ''.'' \<or> c = CHR '':'' \<or> c = CHR ''%'')" if "c \<in> set (nat_digits w)" for c
      using nat_digits_no_mark[OF that] by (auto simp: digit_value_def)
    then have "find (\<lambda>c. c = CHR ''.'' \<or> c = CHR '':'' \<or> c = CHR ''%'') (nat_digits w @ CHR ''.'' # t) = Some CHR ''.''" for t
      by (simp add: find_skip)
    then show ?thesis by (simp add: s)
  qed
  ultimately show ?thesis by (simp add: ParseAddr_def)
qed

end
