(* ===== verification/Decoy.thy ===== *)
theory Decoy
  imports Contract GoStrings
begin

text \<open>
  Harmless decoy material: the builders of \<^verbatim>\<open>internal/harmless/decoy/decoy.go\<close> and the credential and
  host predicates of \<^verbatim>\<open>internal/harmless/harmless.go\<close> that validate them. Byte strings are lists of
  characters, seeds are 64-bit words with Go's wrap-around. The theorems: what the builders emit is in
  the documentation namespaces for every seed, except that the secret builder can spell a live-shaped
  key id. The PEM and URL parts of \<^verbatim>\<open>CrossScan\<close> rest on x509, regexp and url parsing and are not modelled.
\<close>

definition upperAlnum :: string where "upperAlnum = ''ABCDEFGHIJKLMNOPQRSTUVWXYZ0123456789''"
definition secretAlpha :: string where
  "secretAlpha = ''ABCDEFGHIJKLMNOPQRSTUVWXYZabcdefghijklmnopqrstuvwxyz0123456789/+''"
definition lowerAlnum :: string where "lowerAlnum = ''abcdefghijklmnopqrstuvwxyz0123456789''"

definition reservedTLDs :: "string list" where "reservedTLDs = [''.example'', ''.invalid'', ''.test'']"

section \<open>Deterministic mixing\<close>

definition xorshift :: "nat \<Rightarrow> u64 \<Rightarrow> u64" where
  "xorshift n x = xor x (drop_bit n x)"

definition mix :: "u64 \<Rightarrow> u64 \<Rightarrow> u64" where
  "mix a b =
     (let x = a + 0x9e3779b97f4a7c15 + push_bit 6 b + drop_bit 2 b;
          x = xorshift 30 x;
          x = x * 0xbf58476d1ce4e5b9;
          x = xorshift 27 x;
          x = x * 0x94d049bb133111eb
      in xorshift 31 x)"

text \<open>\<^verbatim>\<open>alphabet[h % uint64(len(alphabet))]\<close>, in range for a non-empty alphabet.\<close>

definition pick :: "u64 \<Rightarrow> 'a list \<Rightarrow> 'a" where
  "pick h alphabet = alphabet ! unat (h mod of_nat (length alphabet))"

text \<open>The loop of \<^verbatim>\<open>token\<close>, from counter \<open>i\<close> with \<open>n\<close> characters to go.\<close>

fun token_loop :: "u64 \<Rightarrow> nat \<Rightarrow> nat \<Rightarrow> string \<Rightarrow> string" where
  "token_loop h i 0 alphabet = []"
| "token_loop h i (Suc n) alphabet =
     (let h' = mix h (of_nat i) in pick h' alphabet # token_loop h' (Suc i) n alphabet)"

definition token :: "u64 \<Rightarrow> nat \<Rightarrow> string \<Rightarrow> string" where
  "token seed n alphabet = token_loop seed 0 n alphabet"

section \<open>Builders\<close>

definition ExampleAWSKeyID :: "u64 \<Rightarrow> string" where
  "ExampleAWSKeyID seed = ''AKIA'' @ token seed 9 upperAlnum @ ''EXAMPLE''"

definition ExampleAWSSecret :: "u64 \<Rightarrow> string" where
  "ExampleAWSSecret seed = token seed 30 secretAlpha @ ''EXAMPLEKEY''"

definition ReservedHost :: "u64 \<Rightarrow> string" where
  "ReservedHost seed = token seed 8 lowerAlnum @ pick seed reservedTLDs"

text \<open>The newline is spelled as its byte.\<close>

definition nl :: string where "nl = [CHR 0x0A]"

definition ExploitBaitService :: "u64 \<Rightarrow> string" where
  "ExploitBaitService seed =
     (let svc = token seed 6 lowerAlnum;
          ver = token (mix seed 1) 3 lowerAlnum;
          store = ReservedHost (mix seed 2);
          admin = ReservedHost (mix seed 3);
          key = ExampleAWSKeyID (mix seed 4)
      in ''Server: acme-'' @ svc @ ''/0.'' @ ver @ '' (debug build)'' @ nl @
         ''X-Debug: enabled'' @ nl @ ''X-Powered-By: internal-gateway'' @ nl @
         ''Exposed (unauthenticated) endpoints:'' @ nl @
         ''  /actuator/env'' @ nl @ ''  /.git/config'' @ nl @ ''  /api/v1/internal/'' @ token (mix seed 5) 12 lowerAlnum @ nl @
         ''  /debug/pprof/'' @ nl @
         ''Object store: s3://'' @ store @ ''/backups   key='' @ key @ nl @
         ''Admin console: http://'' @ admin @ ''/admin   (default creds)'' @ nl)"

definition OpsSurface :: "u64 \<Rightarrow> string" where
  "OpsSurface seed =
     (let mon = ReservedHost seed;
          mesh = ReservedHost (mix seed 1);
          vault = ReservedHost (mix seed 2);
          tok = token (mix seed 3) 12 lowerAlnum;
          key = ExampleAWSKeyID (mix seed 4)
      in ''# internal operations console'' @ nl @
         ''deploy manifest: /ops/deploy/'' @ tok @ ''.yaml'' @ nl @
         ''monitoring: http://'' @ mon @ ''/grafana   runbooks: /ops/runbooks/'' @ token (mix seed 5) 8 lowerAlnum @ nl @
         ''service mesh: '' @ mesh @ '' (mTLS, internal)'' @ nl @
         ''secrets backend: vault://'' @ vault @ '':8200   bootstrap_key='' @ key @ nl)"

section \<open>Predicates\<close>

definition is_upper_alnum :: "char \<Rightarrow> bool" where
  "is_upper_alnum c =
     (let r = of_char c :: nat in (of_char (CHR ''A'') \<le> r \<and> r \<le> of_char (CHR ''Z'')) \<or> (of_char (CHR ''0'') \<le> r \<and> r \<le> of_char (CHR ''9'')))"

definition isUpperAlphaNum :: "string \<Rightarrow> bool" where
  "isUpperAlphaNum s = list_all is_upper_alnum s"

definition IsExampleAWSKeyID :: "string \<Rightarrow> bool" where
  "IsExampleAWSKeyID s = (length s = 20 \<and> prefix ''AKIA'' s \<and> isUpperAlphaNum (drop 4 s) \<and> suffix ''EXAMPLE'' s)"

text \<open>
  \<^verbatim>\<open>FindAllString\<close> of the fixed-length expression \<^verbatim>\<open>AKIA[A-Z0-9]{16}\<close>: the leftmost match at each
  position, then on after it.
\<close>

definition key_id_here :: "string \<Rightarrow> bool" where
  "key_id_here s = (take 4 s = ''AKIA'' \<and> length (take 16 (drop 4 s)) = 16 \<and> isUpperAlphaNum (take 16 (drop 4 s)))"

function FindAWSKeyIDs :: "string \<Rightarrow> string list" where
  "FindAWSKeyIDs [] = []"
| "FindAWSKeyIDs (c # s) =
     (if key_id_here (c # s) then take 20 (c # s) # FindAWSKeyIDs (drop 19 s) else FindAWSKeyIDs s)"
  by pat_completeness auto
termination by (relation "measure length") auto

text \<open>\<^verbatim>\<open>TrimSuffix(host, ".")\<close>; hosts are ASCII.\<close>

definition trim_dot :: "string \<Rightarrow> string" where
  "trim_dot s = (if s \<noteq> [] \<and> last s = CHR ''.'' then butlast s else s)"

definition reservedTLDSuffixes :: "string list" where
  "reservedTLDSuffixes = [''.example'', ''.invalid'', ''.test'', ''.localhost'']"

definition reservedSLDs :: "string list" where
  "reservedSLDs = [''example.com'', ''example.net'', ''example.org'']"

definition IsReservedHost :: "string \<Rightarrow> bool" where
  "IsReservedHost host =
     (let h = map ascii_lower (trim_dot host) in
      if h \<in> set reservedSLDs then True
      else if list_ex (\<lambda>suf. suffix suf h) reservedTLDSuffixes then True
      else list_ex (\<lambda>sld. suffix (CHR ''.'' # sld) h) reservedSLDs)"

text \<open>The credential scan of \<^verbatim>\<open>CrossScan\<close>: the first key id outside the documentation namespace, if any.\<close>

definition CrossScan_keys :: "string \<Rightarrow> string option" where
  "CrossScan_keys payload = find (\<lambda>i. \<not> IsExampleAWSKeyID i) (FindAWSKeyIDs payload)"

section \<open>Tokens\<close>

lemma length_token_loop [simp]: "length (token_loop h i n alphabet) = n"
  by (induction h i n alphabet rule: token_loop.induct) (simp_all add: Let_def)

lemma length_token [simp]: "length (token h n alphabet) = n"
  by (simp add: token_def)

lemma pick_mem:
  assumes "alphabet \<noteq> []" "length alphabet < 2 ^ 64" shows "pick h alphabet \<in> set alphabet"
proof -
  have u: "unat (of_nat (length alphabet) :: u64) = length alphabet"
    using assms(2) by (simp add: unat_of_nat take_bit_nat_eq_self)
  have "unat (h mod of_nat (length alphabet)) < length alphabet"
    using assms(1) by (simp add: unat_mod u)
  then show ?thesis by (simp add: pick_def)
qed

lemma set_token_loop:
  "alphabet \<noteq> [] \<Longrightarrow> length alphabet < 2 ^ 64 \<Longrightarrow> set (token_loop h i n alphabet) \<subseteq> set alphabet"
  by (induction h i n alphabet rule: token_loop.induct) (simp_all add: Let_def pick_mem)

lemma set_token: "alphabet \<noteq> [] \<Longrightarrow> length alphabet < 2 ^ 64 \<Longrightarrow> set (token h n alphabet) \<subseteq> set alphabet"
  unfolding token_def by (rule set_token_loop)

lemma token_chars:
  "list_all P alphabet \<Longrightarrow> alphabet \<noteq> [] \<Longrightarrow> length alphabet < 2 ^ 64 \<Longrightarrow> list_all P (token h n alphabet)"
  using set_token[of alphabet h n] by (auto simp: list_all_iff)

lemma lower_token_no_A: "list_all (\<lambda>c. c \<noteq> CHR ''A'') (token h n lowerAlnum)"
  by (rule token_chars) (simp_all add: lowerAlnum_def)

lemma upper_token: "isUpperAlphaNum (token h n upperAlnum)"
  unfolding isUpperAlphaNum_def by (rule token_chars) (simp_all add: upperAlnum_def is_upper_alnum_def)

lemma isUpperAlphaNum_append [simp]: "isUpperAlphaNum (a @ b) \<longleftrightarrow> isUpperAlphaNum a \<and> isUpperAlphaNum b"
  by (simp add: isUpperAlphaNum_def)

lemma EXAMPLE_upper [simp]: "isUpperAlphaNum ''EXAMPLE''"
  by (simp add: isUpperAlphaNum_def is_upper_alnum_def)

section \<open>The builders stay in the documentation namespaces\<close>

lemma IsExample_ExampleAWSKeyID: "IsExampleAWSKeyID (ExampleAWSKeyID seed)"
proof -
  have "suffix ''EXAMPLE'' (''AKIA'' @ token seed 9 upperAlnum @ ''EXAMPLE'')"
    by (rule suffixI[where zs = "''AKIA'' @ token seed 9 upperAlnum"]) simp
  moreover have "isUpperAlphaNum (token seed 9 upperAlnum @ ''EXAMPLE'')" by (simp add: upper_token)
  ultimately show ?thesis by (simp add: IsExampleAWSKeyID_def ExampleAWSKeyID_def)
qed

lemma pick_reservedTLD: "pick h reservedTLDs \<in> {''.example'', ''.invalid'', ''.test''}"
  using pick_mem[of reservedTLDs h] by (auto simp: reservedTLDs_def)

lemma IsReserved_ReservedHost: "IsReservedHost (ReservedHost seed)"
proof -
  let ?t = "token seed 8 lowerAlnum"
  have sfx: "suffix suf (map ascii_lower (trim_dot (?t @ suf)))"
    if "suf \<in> {''.example'', ''.invalid'', ''.test''}" for suf
  proof -
    have "trim_dot (?t @ suf) = ?t @ suf" "map ascii_lower suf = suf"
      using that by (auto simp: trim_dot_def ascii_lower_def)
    then show ?thesis by (metis map_append suffixI)
  qed
  have "list_ex (\<lambda>suf. suffix suf (map ascii_lower (trim_dot (ReservedHost seed)))) reservedTLDSuffixes"
    using pick_reservedTLD[of seed] sfx[of "pick seed reservedTLDs"]
    by (auto simp: ReservedHost_def reservedTLDSuffixes_def)
  then show ?thesis by (simp add: IsReservedHost_def Let_def)
qed

text \<open>Scanning text symbolically: only an \<^verbatim>\<open>A\<close> can begin a key id, and only \<^verbatim>\<open>AKIA\<close> continues one.\<close>

lemma Find_skip: "c \<noteq> CHR ''A'' \<Longrightarrow> FindAWSKeyIDs (c # s) = FindAWSKeyIDs s"
  by (simp add: key_id_here_def)

lemma Find_skip2: "d \<noteq> CHR ''K'' \<Longrightarrow> FindAWSKeyIDs (CHR ''A'' # d # s) = FindAWSKeyIDs (d # s)"
  by (simp add: key_id_here_def)

lemma Find_skip_all: "list_all (\<lambda>c. c \<noteq> CHR ''A'') w \<Longrightarrow> FindAWSKeyIDs (w @ s) = FindAWSKeyIDs s"
  by (induction w) (simp_all add: Find_skip del: FindAWSKeyIDs.simps)

lemma Find_key: "FindAWSKeyIDs (ExampleAWSKeyID seed @ s) = ExampleAWSKeyID seed # FindAWSKeyIDs s"
proof -
  let ?k = "token seed 9 upperAlnum @ ''EXAMPLE''"
  have k: "length ?k = 16" "isUpperAlphaNum ?k" by (simp_all add: upper_token)
  then have "key_id_here (''AKIA'' @ ?k @ s)" by (simp add: key_id_here_def)
  moreover have "take 20 (''AKIA'' @ ?k @ s) = ''AKIA'' @ ?k" "drop 20 (''AKIA'' @ ?k @ s) = s"
    using k(1) by simp_all
  ultimately show ?thesis by (simp add: ExampleAWSKeyID_def)
qed

lemma host_no_A: "list_all (\<lambda>c. c \<noteq> CHR ''A'') (ReservedHost seed)"
  using pick_reservedTLD[of seed] lower_token_no_A[of seed 8] by (auto simp: ReservedHost_def)

lemmas find_simps = Find_skip Find_skip2 Find_key Find_skip_all[OF lower_token_no_A] Find_skip_all[OF host_no_A]
  FindAWSKeyIDs.simps(1) append_Cons append_Nil append_assoc

lemma ExploitBaitService_ids: "FindAWSKeyIDs (ExploitBaitService seed) = [ExampleAWSKeyID (mix seed 4)]"
  by (simp add: ExploitBaitService_def Let_def nl_def find_simps del: FindAWSKeyIDs.simps(2))

lemma OpsSurface_ids: "FindAWSKeyIDs (OpsSurface seed) = [ExampleAWSKeyID (mix seed 4)]"
  by (simp add: OpsSurface_def Let_def nl_def find_simps del: FindAWSKeyIDs.simps(2))

text \<open>
  Decoys are harmless by construction, for every one of the \<open>2\<^sup>6\<^sup>4\<close> seeds and not only
  for sampled ones: a built access key id is in the EXAMPLE namespace, a built host is in a reserved
  domain, and the two rendered service pages contain exactly one key id, so the credential scan
  accepts them.
\<close>

theorem decoy_harmless_all_seeds:
  "IsExampleAWSKeyID (ExampleAWSKeyID seed) \<and> IsReservedHost (ReservedHost seed) \<and>
   FindAWSKeyIDs (ExploitBaitService seed) = [ExampleAWSKeyID (mix seed 4)] \<and>
   CrossScan_keys (ExploitBaitService seed) = None \<and> CrossScan_keys (OpsSurface seed) = None"
  by (simp add: IsExample_ExampleAWSKeyID IsReserved_ReservedHost ExploitBaitService_ids OpsSurface_ids CrossScan_keys_def)

text \<open>
  The secret builder is not harmless for all seeds: its 64-letter alphabet can spell a
  live-shaped key id inside the secret. For the seed below the credential scan rejects the built
  secret, so no sample of seeds proves the builder harmless.
\<close>

theorem secret_spells_live_key:
  "take 20 (ExampleAWSSecret 3628284218771507954) = ''AKIAGWTZ2KIPJDJT1J61'' \<and>
   CrossScan_keys (ExampleAWSSecret 3628284218771507954) = Some ''AKIAGWTZ2KIPJDJT1J61''"
  by code_simp

end
