(* ===== verification/Governor.thy ===== *)
theory Governor
  imports Contract
begin

text \<open>
  The host-wide accountant of the attrition layer, \<^verbatim>\<open>internal/sting/attrition/governor.go\<close>, with the
  per-flow budget and drip parameters of \<^verbatim>\<open>budget.go\<close>. The operations on the atomics are modelled twice:
  as functions, the way one flow sees them, and as the atomic steps of any number of flows interleaved
  (load, compare-and-swap, add, roll back). The theorems about the steps: the reserved bytes never
  exceed the ceiling, the admitted streams never exceed the cap, nothing leaks, and every step that
  decides a reservation is the one the function takes at that instant.
\<close>

section \<open>Budgets\<close>

abbreviation (input) maxChunkBytes :: int where "maxChunkBytes \<equiv> 16384"
abbreviation (input) DefaultMaxBytesPerFlow :: int where "DefaultMaxBytesPerFlow \<equiv> 5242880"
abbreviation (input) DefaultMaxDepth :: int where "DefaultMaxDepth \<equiv> 8"
abbreviation (input) DefaultMaxDuration :: duration where "DefaultMaxDuration \<equiv> 120 * second"
abbreviation (input) DefaultGlobalCeiling :: int where "DefaultGlobalCeiling \<equiv> 524288000"
abbreviation (input) DefaultMaxConcurrentFlows :: int where "DefaultMaxConcurrentFlows \<equiv> 1024"

record Budget =
  MaxBytesPerFlow :: int
  MaxDepth :: int
  MaxDuration :: duration

definition DefaultBudget :: Budget where
  "DefaultBudget = \<lparr>MaxBytesPerFlow = DefaultMaxBytesPerFlow, MaxDepth = DefaultMaxDepth, MaxDuration = DefaultMaxDuration\<rparr>"

definition Budget_Normalized :: "Budget \<Rightarrow> Budget" where
  "Budget_Normalized b =
     (let b = (if MaxBytesPerFlow b \<le> 0 then b\<lparr>MaxBytesPerFlow := DefaultMaxBytesPerFlow\<rparr> else b);
          b = (if MaxDepth b \<le> 0 then b\<lparr>MaxDepth := DefaultMaxDepth\<rparr> else b)
      in if MaxDuration b \<le> 0 then b\<lparr>MaxDuration := DefaultMaxDuration\<rparr> else b)"

abbreviation (input) DefaultDripChunkBytes :: int where "DefaultDripChunkBytes \<equiv> 64"
abbreviation (input) DefaultDripMinDelay :: duration where "DefaultDripMinDelay \<equiv> 2 * second"
abbreviation (input) DefaultDripMaxDelay :: duration where "DefaultDripMaxDelay \<equiv> 45 * second"
abbreviation (input) DefaultRampSaturate :: int where "DefaultRampSaturate \<equiv> 10"

record DripParams =
  ChunkBytes :: int
  MinDelay :: duration
  MaxDelay :: duration
  RampSaturate :: int

definition DefaultDrip :: DripParams where
  "DefaultDrip = \<lparr>ChunkBytes = DefaultDripChunkBytes, MinDelay = DefaultDripMinDelay, MaxDelay = DefaultDripMaxDelay,
     RampSaturate = DefaultRampSaturate\<rparr>"

definition Drip_Normalized :: "DripParams \<Rightarrow> DripParams" where
  "Drip_Normalized d =
     (let d = (if ChunkBytes d \<le> 0 then d\<lparr>ChunkBytes := DefaultDripChunkBytes\<rparr> else d);
          d = (if ChunkBytes d > maxChunkBytes then d\<lparr>ChunkBytes := maxChunkBytes\<rparr> else d);
          d = (if MinDelay d \<le> 0 then d\<lparr>MinDelay := DefaultDripMinDelay\<rparr> else d);
          d = (if MaxDelay d \<le> 0 then d\<lparr>MaxDelay := DefaultDripMaxDelay\<rparr> else d);
          d = (if MaxDelay d < MinDelay d then d\<lparr>MaxDelay := MinDelay d\<rparr> else d)
      in if RampSaturate d \<le> 0 then d\<lparr>RampSaturate := DefaultRampSaturate\<rparr> else d)"

definition drip_ok :: "DripParams \<Rightarrow> bool" where
  "drip_ok d \<longleftrightarrow> 0 < ChunkBytes d \<and> ChunkBytes d \<le> maxChunkBytes \<and> 0 < MinDelay d \<and> MinDelay d \<le> MaxDelay d \<and> 0 < RampSaturate d"

definition budget_ok :: "Budget \<Rightarrow> bool" where
  "budget_ok b \<longleftrightarrow> 0 < MaxBytesPerFlow b \<and> 0 < MaxDepth b \<and> 0 < MaxDuration b"

lemma Drip_Normalized_ok: "drip_ok (Drip_Normalized d)"
  by (simp add: Drip_Normalized_def drip_ok_def Let_def)

lemma Budget_Normalized_ok: "budget_ok (Budget_Normalized b)"
  by (simp add: Budget_Normalized_def budget_ok_def Let_def)

lemma Drip_Normalized_idem: "drip_ok d \<Longrightarrow> Drip_Normalized d = d"
  by (simp add: Drip_Normalized_def drip_ok_def Let_def)

lemma Budget_Normalized_idem: "budget_ok b \<Longrightarrow> Budget_Normalized b = b"
  by (simp add: Budget_Normalized_def budget_ok_def Let_def)

section \<open>The operations\<close>

record Governor =
  ceilingBytes :: int
  maxStreams :: int
  usedBytes :: int
  activeStreams :: int
  killed :: bool

definition NewGovernor :: "int \<Rightarrow> int \<Rightarrow> Governor" where
  "NewGovernor ceil streams =
     \<lparr>ceilingBytes = (if ceil \<le> 0 then DefaultGlobalCeiling else ceil),
      maxStreams = (if streams \<le> 0 then DefaultMaxConcurrentFlows else streams),
      usedBytes = 0, activeStreams = 0, killed = False\<rparr>"

text \<open>
  Alone, the compare-and-swap of \<^verbatim>\<open>Reserve\<close> succeeds on its first try. The sum is an \<^verbatim>\<open>int64\<close>.
\<close>

definition Reserve :: "Governor \<Rightarrow> int \<Rightarrow> bool \<times> Governor" where
  "Reserve g n =
     (if n \<le> 0 then (True, g)
      else if killed g then (False, g)
      else let cur = usedBytes g in
        if wrap64 (cur + n) > ceilingBytes g then (False, g)
        else (True, g\<lparr>usedBytes := wrap64 (cur + n)\<rparr>))"

definition Release :: "Governor \<Rightarrow> int \<Rightarrow> Governor" where
  "Release g n = (if n > 0 then g\<lparr>usedBytes := wrap64 (usedBytes g - n)\<rparr> else g)"

definition OpenStream :: "Governor \<Rightarrow> bool \<times> Governor" where
  "OpenStream g =
     (if killed g then (False, g)
      else let g' = g\<lparr>activeStreams := activeStreams g + 1\<rparr> in
        if activeStreams g' > maxStreams g' then (False, g'\<lparr>activeStreams := activeStreams g' - 1\<rparr>)
        else (True, g'))"

definition CloseStream :: "Governor \<Rightarrow> Governor" where
  "CloseStream g = g\<lparr>activeStreams := activeStreams g - 1\<rparr>"

definition Kill :: "Governor \<Rightarrow> Governor" where "Kill g = g\<lparr>killed := True\<rparr>"
definition Revive :: "Governor \<Rightarrow> Governor" where "Revive g = g\<lparr>killed := False\<rparr>"
definition Killed :: "Governor \<Rightarrow> bool" where "Killed g = killed g"

definition Snapshot :: "Governor \<Rightarrow> int \<times> int \<times> bool" where
  "Snapshot g =
     (let a = activeStreams g; a = (if a > maxStreams g then maxStreams g else a) in (usedBytes g, a, killed g))"

lemmas governor_ops [op_defs] = Reserve_def Release_def OpenStream_def CloseStream_def Kill_def Revive_def Killed_def

text \<open>The bound on the configuration that keeps the sum of a full ceiling and one chunk an \<^verbatim>\<open>int64\<close>.\<close>

definition gov_ok :: "Governor \<Rightarrow> bool" where
  "gov_ok g \<longleftrightarrow> 0 \<le> usedBytes g \<and> usedBytes g \<le> ceilingBytes g \<and> ceilingBytes g + maxChunkBytes < 2 ^ 63"

lemma Reserve_ok:
  assumes "gov_ok g" "n \<le> maxChunkBytes"
  shows "gov_ok (snd (Reserve g n))" and "fst (Reserve g n) \<Longrightarrow> usedBytes (snd (Reserve g n)) = usedBytes g + max 0 n"
proof -
  have "wrap64 (usedBytes g + n) = usedBytes g + n" if "0 < n"
    using assms that by (intro wrap64_id) (simp_all add: gov_ok_def)
  then show "gov_ok (snd (Reserve g n))" "fst (Reserve g n) \<Longrightarrow> usedBytes (snd (Reserve g n)) = usedBytes g + max 0 n"
    using assms by (auto simp: Reserve_def gov_ok_def Let_def split: if_splits)
qed

lemma Reserve_refused: "\<not> fst (Reserve g n) \<Longrightarrow> snd (Reserve g n) = g"
  by (simp add: Reserve_def Let_def split: if_splits)

lemma Reserve_killed: "killed g \<Longrightarrow> 0 < n \<Longrightarrow> Reserve g n = (False, g)"
  by (simp add: Reserve_def)

lemma Release_ok: "gov_ok g \<Longrightarrow> 0 \<le> n \<Longrightarrow> n \<le> usedBytes g \<Longrightarrow> usedBytes (Release g n) = usedBytes g - n"
  by (auto simp: Release_def gov_ok_def intro: wrap64_id)

section \<open>Interleaved flows\<close>

text \<open>
  Where a flow stands between two atomic operations: past the kill check of \<^verbatim>\<open>Reserve\<close> and about to
  load, holding a loaded value before its compare-and-swap, past the kill check of \<^verbatim>\<open>OpenStream\<close>, about
  to roll its optimistic add back, or inside \<^verbatim>\<open>Close\<close> between the release and the slot.
\<close>

datatype gov_pc = Idle | Load int | CAS int int | OpenAdd | OpenUndo | Closing

text \<open>With each flow, what it holds: the bytes it has reserved and whether it has a stream slot.\<close>

record gov_flow =
  pc :: gov_pc
  held_bytes :: int
  has_slot :: bool

record gov_system =
  gov :: Governor
  flow :: "nat \<Rightarrow> gov_flow"

definition set_flow :: "gov_system \<Rightarrow> nat \<Rightarrow> gov_flow \<Rightarrow> gov_system" where
  "set_flow S i f = S\<lparr>flow := (flow S)(i := f)\<rparr>"

text \<open>
  One atomic operation of one of \<open>N\<close> flows, or of the operator. A flow reserves no more than one chunk at
  a time, only while it has its slot, and closes with what it holds: what the attrition stream does.
\<close>

inductive gov_step :: "nat \<Rightarrow> gov_system \<Rightarrow> gov_system \<Rightarrow> bool" for N where
  reserve_check: "\<lbrakk>i < N; pc (flow S i) = Idle; has_slot (flow S i); 0 < n; n \<le> maxChunkBytes; \<not> killed (gov S)\<rbrakk>
     \<Longrightarrow> gov_step N S (set_flow S i ((flow S i)\<lparr>pc := Load n\<rparr>))"
| reserve_load: "\<lbrakk>i < N; pc (flow S i) = Load n; \<not> wrap64 (usedBytes (gov S) + n) > ceilingBytes (gov S)\<rbrakk>
     \<Longrightarrow> gov_step N S (set_flow S i ((flow S i)\<lparr>pc := CAS n (usedBytes (gov S))\<rparr>))"
| reserve_refuse: "\<lbrakk>i < N; pc (flow S i) = Load n; wrap64 (usedBytes (gov S) + n) > ceilingBytes (gov S)\<rbrakk>
     \<Longrightarrow> gov_step N S (set_flow S i ((flow S i)\<lparr>pc := Idle\<rparr>))"
| cas_success: "\<lbrakk>i < N; pc (flow S i) = CAS n cur; usedBytes (gov S) = cur\<rbrakk>
     \<Longrightarrow> gov_step N S (set_flow (S\<lparr>gov := (gov S)\<lparr>usedBytes := wrap64 (cur + n)\<rparr>\<rparr>) i
           ((flow S i)\<lparr>pc := Idle, held_bytes := held_bytes (flow S i) + n\<rparr>))"
| cas_failure: "\<lbrakk>i < N; pc (flow S i) = CAS n cur; usedBytes (gov S) \<noteq> cur\<rbrakk>
     \<Longrightarrow> gov_step N S (set_flow S i ((flow S i)\<lparr>pc := Load n\<rparr>))"
| open_check: "\<lbrakk>i < N; pc (flow S i) = Idle; \<not> has_slot (flow S i); \<not> killed (gov S)\<rbrakk>
     \<Longrightarrow> gov_step N S (set_flow S i ((flow S i)\<lparr>pc := OpenAdd\<rparr>))"
| open_admit: "\<lbrakk>i < N; pc (flow S i) = OpenAdd; \<not> activeStreams (gov S) + 1 > maxStreams (gov S)\<rbrakk>
     \<Longrightarrow> gov_step N S (set_flow (S\<lparr>gov := (gov S)\<lparr>activeStreams := activeStreams (gov S) + 1\<rparr>\<rparr>) i
           ((flow S i)\<lparr>pc := Idle, has_slot := True\<rparr>))"
| open_over: "\<lbrakk>i < N; pc (flow S i) = OpenAdd; activeStreams (gov S) + 1 > maxStreams (gov S)\<rbrakk>
     \<Longrightarrow> gov_step N S (set_flow (S\<lparr>gov := (gov S)\<lparr>activeStreams := activeStreams (gov S) + 1\<rparr>\<rparr>) i
           ((flow S i)\<lparr>pc := OpenUndo\<rparr>))"
| open_undo: "\<lbrakk>i < N; pc (flow S i) = OpenUndo\<rbrakk>
     \<Longrightarrow> gov_step N S (set_flow (S\<lparr>gov := (gov S)\<lparr>activeStreams := activeStreams (gov S) - 1\<rparr>\<rparr>) i
           ((flow S i)\<lparr>pc := Idle\<rparr>))"
| close_release: "\<lbrakk>i < N; pc (flow S i) = Idle; has_slot (flow S i)\<rbrakk>
     \<Longrightarrow> gov_step N S (set_flow (S\<lparr>gov := Release (gov S) (held_bytes (flow S i))\<rparr>) i
           ((flow S i)\<lparr>pc := Closing, held_bytes := 0\<rparr>))"
| close_slot: "\<lbrakk>i < N; pc (flow S i) = Closing\<rbrakk>
     \<Longrightarrow> gov_step N S (set_flow (S\<lparr>gov := CloseStream (gov S)\<rparr>) i
           ((flow S i)\<lparr>pc := Idle, has_slot := False\<rparr>))"
| kill: "gov_step N S (S\<lparr>gov := Kill (gov S)\<rparr>)"
| revive: "gov_step N S (S\<lparr>gov := Revive (gov S)\<rparr>)"

definition gov_init :: "int \<Rightarrow> int \<Rightarrow> gov_system" where
  "gov_init ceil streams =
     \<lparr>gov = NewGovernor ceil streams, flow = \<lambda>_. \<lparr>pc = Idle, held_bytes = 0, has_slot = False\<rparr>\<rparr>"

text \<open>What the counters must agree with: the sum of what the flows hold.\<close>

definition pc_ok :: "Governor \<Rightarrow> gov_flow \<Rightarrow> bool" where
  "pc_ok g f =
     (0 \<le> held_bytes f \<and> (\<not> has_slot f \<longrightarrow> held_bytes f = 0) \<and>
      (case pc f of
         Load n \<Rightarrow> 0 < n \<and> n \<le> maxChunkBytes \<and> has_slot f
       | CAS n cur \<Rightarrow> 0 < n \<and> n \<le> maxChunkBytes \<and> has_slot f \<and> (0 \<le> cur \<longrightarrow> cur \<le> ceilingBytes g \<longrightarrow> cur + n \<le> ceilingBytes g)
       | Closing \<Rightarrow> has_slot f \<and> held_bytes f = 0
       | OpenAdd \<Rightarrow> \<not> has_slot f
       | OpenUndo \<Rightarrow> \<not> has_slot f
       | Idle \<Rightarrow> True))"

definition slots :: "gov_flow \<Rightarrow> int" where "slots f = of_bool (has_slot f)"
definition undos :: "gov_flow \<Rightarrow> int" where "undos f = of_bool (pc f = OpenUndo)"

definition gov_inv :: "nat \<Rightarrow> gov_system \<Rightarrow> bool" where
  "gov_inv N S \<longleftrightarrow>
     gov_ok (gov S) \<and> 0 \<le> maxStreams (gov S) \<and>
     (\<forall>i<N. pc_ok (gov S) (flow S i)) \<and>
     usedBytes (gov S) = (\<Sum>i<N. held_bytes (flow S i)) \<and>
     activeStreams (gov S) = (\<Sum>i<N. slots (flow S i)) + (\<Sum>i<N. undos (flow S i)) \<and>
     (\<Sum>i<N. slots (flow S i)) \<le> maxStreams (gov S)"

lemma gov_init_inv:
  assumes "ceil + maxChunkBytes < 2 ^ 63" shows "gov_inv N (gov_init ceil streams)"
  using assms by (simp add: gov_inv_def gov_init_def NewGovernor_def gov_ok_def pc_ok_def slots_def undos_def)

text \<open>Every step changes one flow, so one lemma carries the sums for all of them.\<close>

lemma gov_inv_upd:
  assumes "gov_inv N S" "i < N"
    and "ceilingBytes g = ceilingBytes (gov S)" "maxStreams g = maxStreams (gov S)"
    and "0 \<le> usedBytes g" "usedBytes g \<le> ceilingBytes (gov S)" "pc_ok (gov S) f"
    and "usedBytes g = usedBytes (gov S) - held_bytes (flow S i) + held_bytes f"
    and "activeStreams g = activeStreams (gov S) - (slots (flow S i) + undos (flow S i)) + (slots f + undos f)"
    and "slots f \<le> slots (flow S i) \<or> activeStreams g \<le> maxStreams (gov S)"
  shows "gov_inv N (set_flow (S\<lparr>gov := g\<rparr>) i f)"
proof -
  let ?F = "(flow S)(i := f)"
  note inv = assms(1)[unfolded gov_inv_def]
  have i: "finite {..<N}" "i \<in> {..<N}" using assms(2) by simp_all
  note sums = sum_upd[OF i, of held_bytes "flow S" f] sum_upd[OF i, of slots "flow S" f] sum_upd[OF i, of undos "flow S" f]
  have pk: "pc_ok g = pc_ok (gov S)" by (rule ext) (simp add: pc_ok_def assms(3) split: gov_pc.split)
  have "0 \<le> (\<Sum>j<N. undos (?F j))" by (rule sum_nonneg) (simp add: undos_def)
  then have "(\<Sum>j<N. slots (?F j)) \<le> maxStreams (gov S)"
    using assms(9,10) inv sums(2,3) by linarith
  moreover have "activeStreams g = (\<Sum>j<N. slots (?F j)) + (\<Sum>j<N. undos (?F j))"
    using assms(9) inv sums(2,3) by linarith
  moreover have "usedBytes g = (\<Sum>j<N. held_bytes (?F j))" using assms(8) inv sums(1) by linarith
  moreover have "gov_ok g" using inv assms(3,5,6) by (simp add: gov_ok_def)
  ultimately show ?thesis
    using inv assms(4,7) pk by (simp add: gov_inv_def set_flow_def)
qed

lemma gov_inv_flow:
  assumes "gov_inv N S" "i < N" "pc_ok (gov S) f" "held_bytes f = held_bytes (flow S i)"
    and "slots f + undos f = slots (flow S i) + undos (flow S i)" "slots f = slots (flow S i)"
  shows "gov_inv N (set_flow S i f)"
  using gov_inv_upd[OF assms(1,2), of "gov S" f] assms by (simp add: gov_inv_def gov_ok_def)

lemma held_le_used:
  assumes "gov_inv N S" "i < N" shows "held_bytes (flow S i) \<le> usedBytes (gov S)"
proof -
  have "held_bytes (flow S i) \<le> (\<Sum>j<N. held_bytes (flow S j))"
    using assms by (intro member_le_sum) (auto simp: gov_inv_def pc_ok_def)
  with assms show ?thesis by (simp add: gov_inv_def)
qed

lemma gov_step_inv:
  assumes "gov_step N S S'" "gov_inv N S" shows "gov_inv N S'"
proof -
  note inv = assms(2)[unfolded gov_inv_def gov_ok_def]
  have pcs: "pc_ok (gov S) (flow S i)" if "i < N" for i using inv that by simp
  have no_wrap: "wrap64 (usedBytes (gov S) + n) = usedBytes (gov S) + n" if "0 < n" "n \<le> maxChunkBytes" for n
    using inv that by (intro wrap64_id) simp_all
  from assms(1) show ?thesis
  proof cases
    case (reserve_check i n)
    then show ?thesis using pcs[of i]
      by (auto intro!: gov_inv_flow[OF assms(2)] simp: pc_ok_def slots_def undos_def)
  next
    case (reserve_load i n)
    then show ?thesis using pcs[of i] no_wrap[of n]
      by (auto intro!: gov_inv_flow[OF assms(2)] simp: pc_ok_def slots_def undos_def)
  next
    case (reserve_refuse i n)
    then show ?thesis using pcs[of i]
      by (auto intro!: gov_inv_flow[OF assms(2)] simp: pc_ok_def slots_def undos_def)
  next
    case (cas_success i n cur)
    then have n: "0 < n" "n \<le> maxChunkBytes" "cur + n \<le> ceilingBytes (gov S)" using pcs[of i] inv by (auto simp: pc_ok_def)
    show ?thesis unfolding cas_success(1)
      by (rule gov_inv_upd[OF assms(2)]) (use cas_success n pcs[of i] no_wrap[of n] inv in \<open>auto simp: pc_ok_def slots_def undos_def\<close>)
  next
    case (cas_failure i n cur)
    then show ?thesis using pcs[of i]
      by (auto intro!: gov_inv_flow[OF assms(2)] simp: pc_ok_def slots_def undos_def)
  next
    case (open_check i)
    then show ?thesis using pcs[of i]
      by (auto intro!: gov_inv_flow[OF assms(2)] simp: pc_ok_def slots_def undos_def)
  next
    case (open_admit i)
    then show ?thesis using pcs[of i] inv
      by (auto intro!: gov_inv_upd[OF assms(2)] simp: pc_ok_def slots_def undos_def)
  next
    case (open_over i)
    then show ?thesis using pcs[of i] inv
      by (auto intro!: gov_inv_upd[OF assms(2)] simp: pc_ok_def slots_def undos_def)
  next
    case (open_undo i)
    then show ?thesis using pcs[of i] inv
      by (auto intro!: gov_inv_upd[OF assms(2)] simp: pc_ok_def slots_def undos_def)
  next
    case (close_release i)
    have r: "usedBytes (Release (gov S) (held_bytes (flow S i))) = usedBytes (gov S) - held_bytes (flow S i)"
      using Release_ok[of "gov S" "held_bytes (flow S i)"] held_le_used[OF assms(2)] close_release(2) pcs[of i] assms(2)
      by (simp add: gov_inv_def pc_ok_def)
    have fr: "ceilingBytes (Release (gov S) n) = ceilingBytes (gov S)" "maxStreams (Release (gov S) n) = maxStreams (gov S)"
      "activeStreams (Release (gov S) n) = activeStreams (gov S)" for n by (simp_all add: Release_def)
    show ?thesis unfolding close_release(1)
      by (rule gov_inv_upd[OF assms(2)])
        (use close_release pcs[of i] r fr held_le_used[OF assms(2), of i] inv in \<open>auto simp: pc_ok_def slots_def undos_def\<close>)
  next
    case (close_slot i)
    then show ?thesis using pcs[of i] inv
      by (auto intro!: gov_inv_upd[OF assms(2)] simp: pc_ok_def slots_def undos_def CloseStream_def)
  next
    case kill
    then show ?thesis using inv by (simp add: gov_inv_def gov_ok_def Kill_def pc_ok_def cong: gov_pc.case_cong)
  next
    case revive
    then show ?thesis using inv by (simp add: gov_inv_def gov_ok_def Revive_def pc_ok_def cong: gov_pc.case_cong)
  qed
qed

lemma gov_reach_inv: "(gov_step N)\<^sup>*\<^sup>* S S' \<Longrightarrow> gov_inv N S \<Longrightarrow> gov_inv N S'"
  by (induction rule: rtranclp_induct) (auto intro: gov_step_inv)

text \<open>The streams admitted at one moment.\<close>

definition admitted :: "nat \<Rightarrow> gov_system \<Rightarrow> int" where
  "admitted N S = int (card {i. i < N \<and> has_slot (flow S i)})"

lemma admitted_sum: "admitted N S = (\<Sum>i<N. slots (flow S i))"
proof -
  have "(\<Sum>i<N. slots (flow S i)) = (\<Sum>i\<in>{i. i < N \<and> has_slot (flow S i)}. 1)"
    by (rule sum.mono_neutral_cong_right) (auto simp: slots_def)
  then show ?thesis by (simp add: admitted_def)
qed

text \<open>
  Property C5. Concurrent flows never overshoot: in every state any number of interleaved flows and
  the operator can reach from a new governor, the bytes the flows hold together equal the counter and
  stay within the ceiling, the admitted streams stay within the cap, and when every flow has closed
  both counters are back at zero, so nothing erodes.
\<close>

theorem governor_never_overshoots:
  assumes "(gov_step N)\<^sup>*\<^sup>* (gov_init ceil streams) S" "ceil + maxChunkBytes < 2 ^ 63"
  shows "usedBytes (gov S) = (\<Sum>i<N. held_bytes (flow S i)) \<and> usedBytes (gov S) \<le> ceilingBytes (gov S) \<and>
    admitted N S \<le> maxStreams (gov S) \<and>
    ((\<forall>i<N. pc (flow S i) = Idle \<and> \<not> has_slot (flow S i)) \<longrightarrow> usedBytes (gov S) = 0 \<and> activeStreams (gov S) = 0)"
proof -
  have inv: "gov_inv N S" by (rule gov_reach_inv[OF assms(1) gov_init_inv[OF assms(2)]])
  have "usedBytes (gov S) = 0 \<and> activeStreams (gov S) = 0" if "\<forall>i<N. pc (flow S i) = Idle \<and> \<not> has_slot (flow S i)"
    using inv that by (simp add: gov_inv_def pc_ok_def slots_def undos_def)
  then show ?thesis using inv by (auto simp: gov_inv_def gov_ok_def admitted_sum)
qed

text \<open>A flow that was admitted and is about to load the counter for a reservation of five bytes.\<close>

definition demo_loading :: gov_system where
  "demo_loading = \<lparr>gov = (NewGovernor 100 1)\<lparr>activeStreams := 1\<rparr>,
     flow = (\<lambda>_. \<lparr>pc = Idle, held_bytes = 0, has_slot = False\<rparr>)(0 := \<lparr>pc = Load 5, held_bytes = 0, has_slot = True\<rparr>)\<rparr>"

lemma demo_loading_reach: "(gov_step 2)\<^sup>*\<^sup>* (gov_init 100 1) demo_loading"
proof -
  let ?f = "\<lambda>p b. \<lparr>pc = p, held_bytes = 0, has_slot = b\<rparr>"
  let ?S1 = "set_flow (gov_init 100 1) 0 (?f OpenAdd False)"
  let ?S2 = "set_flow (?S1\<lparr>gov := (gov ?S1)\<lparr>activeStreams := 1\<rparr>\<rparr>) 0 (?f Idle True)"
  have 1: "gov_step 2 (gov_init 100 1) ?S1"
    using gov_step.open_check[of 0 2 "gov_init 100 1"] by (simp add: gov_init_def NewGovernor_def)
  have 2: "gov_step 2 ?S1 ?S2"
    using gov_step.open_admit[of 0 2 ?S1] by (simp add: gov_init_def NewGovernor_def set_flow_def)
  have "gov_step 2 ?S2 (set_flow ?S2 0 (?f (Load 5) True))"
    using gov_step.reserve_check[of 0 2 ?S2 5] by (simp add: gov_init_def NewGovernor_def set_flow_def)
  moreover have "set_flow ?S2 0 (?f (Load 5) True) = demo_loading"
    by (simp add: demo_loading_def set_flow_def gov_init_def NewGovernor_def)
  ultimately show ?thesis using 1 2 by (simp add: converse_rtranclp_into_rtranclp)
qed

lemma governor_never_overshoots_witness:
  "usedBytes (gov demo_loading) \<le> 100 \<and> admitted 2 demo_loading \<le> 1"
  using governor_never_overshoots[OF demo_loading_reach] by (simp add: demo_loading_def NewGovernor_def)

section \<open>The steps implement the operation\<close>

text \<open>
  Reservations linearise: in a reachable system, the step at which a flow's
  compare-and-swap succeeds is exactly a successful atomic \<^verbatim>\<open>Reserve\<close> of its amount, and the load at
  which it gives up is exactly a refused one; a failed compare-and-swap changes nothing. (The kill
  switch was read when the operation began, so it is read as off here.)
\<close>

theorem reserve_linearises:
  assumes "(gov_step N)\<^sup>*\<^sup>* (gov_init ceil streams) S" "ceil + maxChunkBytes < 2 ^ 63" "i < N" "\<not> killed (gov S)"
  shows "(pc (flow S i) = CAS n (usedBytes (gov S)) \<longrightarrow>
      Reserve (gov S) n = (True, (gov S)\<lparr>usedBytes := wrap64 (usedBytes (gov S) + n)\<rparr>) \<and>
      wrap64 (usedBytes (gov S) + n) = usedBytes (gov S) + n) \<and>
    (pc (flow S i) = Load n \<longrightarrow> (fst (Reserve (gov S) n) \<longleftrightarrow> \<not> wrap64 (usedBytes (gov S) + n) > ceilingBytes (gov S)))"
proof -
  have inv: "gov_inv N S" by (rule gov_reach_inv[OF assms(1) gov_init_inv[OF assms(2)]])
  then have p: "pc_ok (gov S) (flow S i)" and g: "gov_ok (gov S)" using assms(3) by (simp_all add: gov_inv_def)
  have w: "wrap64 (usedBytes (gov S) + n) = usedBytes (gov S) + n" if "0 < n" "n \<le> maxChunkBytes"
    using g that by (intro wrap64_id) (simp_all add: gov_ok_def)
  show ?thesis using p g w assms(4) by (auto simp: pc_ok_def Reserve_def Let_def gov_ok_def)
qed

lemma reserve_linearises_witness: "fst (Reserve (gov demo_loading) 5)"
  using reserve_linearises[OF demo_loading_reach, of 0 5]
  by (simp add: demo_loading_def NewGovernor_def wrap64_def)

section \<open>The kill switch\<close>

definition pending :: "gov_flow \<Rightarrow> int" where
  "pending f = (case pc f of Load n \<Rightarrow> n | CAS n _ \<Rightarrow> n | _ \<Rightarrow> 0)"

definition killed_step :: "nat \<Rightarrow> gov_system \<Rightarrow> gov_system \<Rightarrow> bool" where
  "killed_step N S S' \<longleftrightarrow> gov_step N S S' \<and> killed (gov S')"

lemma flow_set_flow [simp]: "flow (set_flow S j f) i = (if i = j then f else flow S i)" "gov (set_flow S j f) = gov S"
  by (simp_all add: set_flow_def)

lemma pending_range:
  assumes "gov_inv N S" "i < N"
  shows "0 \<le> pending (flow S i)" "pending (flow S i) \<le> maxChunkBytes" "0 \<le> held_bytes (flow S i)"
proof -
  have "pc_ok (gov S) (flow S i)" using assms by (simp add: gov_inv_def)
  then show "0 \<le> pending (flow S i)" "pending (flow S i) \<le> maxChunkBytes" "0 \<le> held_bytes (flow S i)"
    by (cases "pc (flow S i)"; simp add: pc_ok_def pending_def)+
qed

lemma killed_step_potential:
  assumes "gov_step N S S'" "gov_inv N S" "killed (gov S)" "i < N"
  shows "held_bytes (flow S' i) + pending (flow S' i) \<le> held_bytes (flow S i) + pending (flow S i)"
  using assms(1)
proof cases
  case (close_release j)
  then show ?thesis using pending_range[OF assms(2,4)] by (cases "i = j") (simp_all add: pending_def)
next
  case (reserve_refuse j n)
  then show ?thesis using pending_range[OF assms(2,4)] by (cases "i = j") (simp_all add: pending_def)
qed (use assms(3) in \<open>simp_all add: pending_def\<close>)

text \<open>
  The kill switch drains: from any reachable killed state, however the flows are
  interleaved afterwards and as long as nobody revives the governor, a flow never comes to hold more
  than what it held plus the one chunk that was already past the kill check.
\<close>

theorem kill_stops_within_one_chunk:
  assumes "(gov_step N)\<^sup>*\<^sup>* (gov_init ceil streams) S" "ceil + maxChunkBytes < 2 ^ 63" "killed (gov S)" "i < N"
    and "(killed_step N)\<^sup>*\<^sup>* S S'"
  shows "held_bytes (flow S' i) \<le> held_bytes (flow S i) + pending (flow S i) \<and> pending (flow S i) \<le> maxChunkBytes"
proof -
  have inv: "gov_inv N S" by (rule gov_reach_inv[OF assms(1) gov_init_inv[OF assms(2)]])
  from assms(5) have "gov_inv N S' \<and> killed (gov S') \<and>
      held_bytes (flow S' i) + pending (flow S' i) \<le> held_bytes (flow S i) + pending (flow S i)"
  proof (induction rule: rtranclp_induct)
    case base
    show ?case using inv assms(3) by simp
  next
    case (step T T')
    then have "gov_step N T T'" "killed (gov T')" by (simp_all add: killed_step_def)
    with step.IH show ?case
      using gov_step_inv[of N T T'] killed_step_potential[of N T T' i] assms(4) by fastforce
  qed
  then show ?thesis using pending_range(1)[of N S' i] pending_range(2)[OF inv assms(4)] assms(4) by simp
qed

definition demo_killed :: gov_system where
  "demo_killed = demo_loading\<lparr>gov := Kill (gov demo_loading)\<rparr>"

lemma kill_stops_within_one_chunk_witness:
  "held_bytes (flow (set_flow demo_killed 0 \<lparr>pc = CAS 5 0, held_bytes = 0, has_slot = True\<rparr>) 0) \<le> 5"
proof -
  have r: "(gov_step 2)\<^sup>*\<^sup>* (gov_init 100 1) demo_killed" unfolding demo_killed_def
    by (rule rtranclp.rtrancl_into_rtrancl[OF demo_loading_reach]) (rule gov_step.kill)
  have "gov_step 2 demo_killed (set_flow demo_killed 0 \<lparr>pc = CAS 5 0, held_bytes = 0, has_slot = True\<rparr>)"
    using gov_step.reserve_load[of 0 2 demo_killed 5]
    by (simp add: demo_killed_def demo_loading_def Kill_def NewGovernor_def wrap64_def)
  then have "(killed_step 2)\<^sup>*\<^sup>* demo_killed (set_flow demo_killed 0 \<lparr>pc = CAS 5 0, held_bytes = 0, has_slot = True\<rparr>)"
    by (intro r_into_rtranclp) (simp add: killed_step_def demo_killed_def Kill_def)
  from kill_stops_within_one_chunk[OF r _ _ _ this, of 0] show ?thesis
    by (simp add: demo_killed_def demo_loading_def Kill_def pending_def)
qed

end
