(* ===== verification/Attrition.thy ===== *)
theory Attrition
  imports Generators
begin

text \<open>
  The attrition stream, \<^verbatim>\<open>internal/sting/attrition/attrition.go\<close>, with the outcome meter of \<^verbatim>\<open>cost.go\<close>.
  A stream is a record changed by \<open>Next\<close>, \<open>Observe\<close> and \<open>Close\<close>; the governor it shares with every other
  flow is threaded through them, and other flows may change it between two calls. The two places where
  another flow's kill can land inside one call are an argument \<open>late_kill\<close>. The lemmas: one flow is
  served no more than its budget, is held no longer than the hold bound plus one delay, every stream
  ends after a computable number of calls, and closing gives back exactly what was reserved.
\<close>

section \<open>Data\<close>

datatype DoneReason = NotDone | DoneNoOp | DoneFlowBudget | DoneGlobalCeiling | DoneKilled | DoneComplete

fun DoneReason_String :: "DoneReason \<Rightarrow> string" where
  "DoneReason_String NotDone = ''not_done''"
| "DoneReason_String DoneNoOp = ''noop''"
| "DoneReason_String DoneFlowBudget = ''flow_budget''"
| "DoneReason_String DoneGlobalCeiling = ''global_ceiling''"
| "DoneReason_String DoneKilled = ''killed''"
| "DoneReason_String DoneComplete = ''complete''"

definition plainTokenDivisor :: f64 where "plainTokenDivisor = lit 4"
definition baitTokenRatio :: f64 where "baitTokenRatio = lit 3"

definition tokenProxy :: "string \<Rightarrow> int \<Rightarrow> f64" where
  "tokenProxy mech n =
     (if mech = MechTokenBait then f64_of_int n * baitTokenRatio else fdiv (f64_of_int n) plainTokenDivisor)"

record Outcome =
  oc_Mechanism :: string
  oc_TimeHeldSec :: f64
  oc_BytesServed :: int
  oc_RequestsAbsrb :: int
  oc_TokenCostProxy :: f64
  oc_Reason :: DoneReason
  oc_DepthReached :: int
  oc_Axes :: AttritionAxis
  oc_TimeToDisengageSec :: f64
  oc_PoisonClass :: string
  oc_PoisonReached :: int
  oc_ExploitsObserved :: int
  oc_ExposureSignals :: int
  oc_DisengageReason :: int

definition new_outcome :: "string \<Rightarrow> AttritionAxis \<Rightarrow> DoneReason \<Rightarrow> Outcome" where
  "new_outcome mech axes r =
     \<lparr>oc_Mechanism = mech, oc_TimeHeldSec = 0, oc_BytesServed = 0, oc_RequestsAbsrb = 0, oc_TokenCostProxy = 0,
      oc_Reason = r, oc_DepthReached = 0, oc_Axes = axes, oc_TimeToDisengageSec = 0, oc_PoisonClass = [],
      oc_PoisonReached = 0, oc_ExploitsObserved = 0, oc_ExposureSignals = 0, oc_DisengageReason = 0\<rparr>"

record Chunk =
  Data :: string
  Delay :: duration

definition no_chunk :: Chunk where "no_chunk = \<lparr>Data = [], Delay = 0\<rparr>"

record attrition_Config =
  at_Floor :: StingFloor
  at_Budget :: Budget
  at_Drip :: DripParams
  at_Governor :: "Governor option"
  at_GlobalCeiling :: int
  at_MaxConcurrentFlows :: int
  at_Seed :: u64

record BoundedAttritor =
  ba_cfg :: attrition_Config
  ba_budget :: Budget
  ba_params :: genParams
  ba_gens :: "generator list"

record stream =
  st_gens :: "generator list"
  st_budget :: Budget
  st_params :: genParams
  cur :: cursor
  out :: Outcome
  held :: duration
  reserved :: int
  closed :: bool

datatype Stream = Live stream | Noop DoneReason

section \<open>Construction\<close>

fun first_self_test_error ::
  "(string \<Rightarrow> error option) \<Rightarrow> genParams \<Rightarrow> generator list \<Rightarrow> (string \<times> self_test_error) option" where
  "first_self_test_error scan p [] = None"
| "first_self_test_error scan p (g # gs) =
     (case genSelfTest scan g constructionSamples p of
        Some e \<Rightarrow> Some (mechanism g, e)
      | None \<Rightarrow> first_self_test_error scan p gs)"

text \<open>\<^verbatim>\<open>New\<close>: the attritor and the governor it will share; \<open>scan\<close> is \<^verbatim>\<open>harmless.CrossScan\<close>.\<close>

definition attrition_New ::
  "(string \<Rightarrow> error option) \<Rightarrow> attrition_Config \<Rightarrow> (string \<times> self_test_error) + BoundedAttritor \<times> Governor" where
  "attrition_New scan cfg0 =
     (let cfg = cfg0\<lparr>at_Budget := Budget_Normalized (at_Budget cfg0), at_Drip := Drip_Normalized (at_Drip cfg0)\<rparr>;
          gv = (case at_Governor cfg of None \<Rightarrow> NewGovernor (at_GlobalCeiling cfg) (at_MaxConcurrentFlows cfg) | Some g \<Rightarrow> g);
          params = \<lparr>gp_MaxDepth = MaxDepth (at_Budget cfg), gp_Drip = at_Drip cfg\<rparr>;
          floorAxes = Axes (at_Floor cfg);
          gens = filter (\<lambda>g. and (axis g) floorAxes \<noteq> 0) all_generators
      in case first_self_test_error scan params gens of
           Some e \<Rightarrow> Inl e
         | None \<Rightarrow> Inr (\<lparr>ba_cfg = cfg, ba_budget = at_Budget cfg, ba_params = params, ba_gens = gens\<rparr>, gv))"

definition selectAxes :: "BoundedAttritor \<Rightarrow> Tier \<Rightarrow> generator list" where
  "selectAxes a t = filter (\<lambda>g. minTier g \<le> t) (ba_gens a)"

text \<open>
  \<^verbatim>\<open>Open\<close>; \<open>late_kill\<close> says that the switch is tripped after gate 3 has read it.
\<close>

definition Open :: "bool \<Rightarrow> BoundedAttritor \<Rightarrow> Verdict \<Rightarrow> Governor \<Rightarrow> Stream \<times> Governor" where
  "Open late_kill a v gov0 =
     (if v_Tier v < TierContain then (Noop DoneNoOp, gov0)
      else if SocketCookie (v_Flow v) = 0 then (Noop DoneNoOp, gov0)
      else if Killed gov0 then (Noop DoneKilled, gov0)
      else let gov1 = (if late_kill then Kill gov0 else gov0) in
        case OpenStream gov1 of
          (False, gov2) \<Rightarrow> if Killed gov2 then (Noop DoneKilled, gov2) else (Noop DoneGlobalCeiling, gov2)
        | (True, gov2) \<Rightarrow>
           let sel = selectAxes a (v_Tier v) in
           if length sel = 0 then (Noop DoneNoOp, CloseStream gov2)
           else let axes = foldl (\<lambda>ax g. or ax (axis g)) 0 sel;
                    headline = last sel
                in (Live \<lparr>st_gens = sel, st_budget = ba_budget a, st_params = ba_params a,
                          cur = \<lparr>cur_seed = xor (at_Seed (ba_cfg a)) (SocketCookie (v_Flow v)), chunkIdx = 0, depth = 0, poisonStage = 0\<rparr>,
                          out = new_outcome (mechanism headline) axes NotDone, held = 0, reserved = 0, closed = False\<rparr>, gov2))"

section \<open>Streaming\<close>

definition finish :: "stream \<Rightarrow> DoneReason \<Rightarrow> (Chunk \<times> DoneReason) \<times> stream" where
  "finish s r = ((no_chunk, r), s\<lparr>out := (out s)\<lparr>oc_Reason := r\<rparr>\<rparr>)"

text \<open>The meter after a chunk was emitted.\<close>

definition meter_poison :: "cursor \<Rightarrow> Outcome \<Rightarrow> Outcome" where
  "meter_poison c oc =
     (if poisonStage c > 0 then
        let reached = (if poisonStage c > int (length poisonClasses) then int (length poisonClasses) else poisonStage c) in
        if reached > oc_PoisonReached oc
        then oc\<lparr>oc_PoisonReached := reached, oc_PoisonClass := poisonClassForStage reached\<rparr> else oc
      else oc)"

definition meter :: "generator \<Rightarrow> string \<Rightarrow> duration \<Rightarrow> stream \<Rightarrow> stream" where
  "meter active data delay s =
     (let n = int (length data);
          held' = held s + delay;
          oc = (out s)\<lparr>oc_BytesServed := oc_BytesServed (out s) + n, oc_RequestsAbsrb := oc_RequestsAbsrb (out s) + 1,
                       oc_TokenCostProxy := oc_TokenCostProxy (out s) + tokenProxy (mechanism active) n,
                       oc_TimeHeldSec := Seconds held'\<rparr>;
          oc = (if depth (cur s) > oc_DepthReached oc then oc\<lparr>oc_DepthReached := depth (cur s)\<rparr> else oc)
      in s\<lparr>reserved := reserved s + n, held := held', out := meter_poison (cur s) oc\<rparr>)"

definition Next :: "bool \<Rightarrow> bool \<Rightarrow> stream \<Rightarrow> Governor \<Rightarrow> ((Chunk \<times> DoneReason) \<times> stream) \<times> Governor" where
  "Next ctx_done late_kill s gv =
     (if oc_Reason (out s) \<noteq> NotDone then (((no_chunk, oc_Reason (out s)), s), gv)
      else if ctx_done then (finish s DoneKilled, gv)
      else if Killed gv then (finish s DoneKilled, gv)
      else if held s \<ge> MaxDuration (st_budget s) then (finish s DoneFlowBudget, gv)
      else let remaining = MaxBytesPerFlow (st_budget s) - oc_BytesServed (out s) in
        if remaining \<le> 0 then (finish s DoneFlowBudget, gv)
        else let active = st_gens s ! nat (chunkIdx (cur s) mod int (length (st_gens s))) in
          case next_chunk active (cur s) (st_params s) of ((data0, delay, ok), cur') \<Rightarrow>
            let s' = s\<lparr>cur := cur'\<rparr> in
            if \<not> ok then (finish s' DoneComplete, gv)
            else let data = (if int (length data0) > remaining then truncateAtLine data0 (nat remaining) else data0) in
              if int (length data0) > remaining \<and> length data = 0 then (finish s' DoneFlowBudget, gv)
              else case Reserve (if late_kill then Kill gv else gv) (int (length data)) of
                (False, gv') \<Rightarrow> (finish s' DoneGlobalCeiling, gv')
              | (True, gv') \<Rightarrow> (((\<lparr>Data = data, Delay = delay\<rparr>, NotDone), meter active data delay s'), gv'))"

definition Observe :: "stream \<Rightarrow> DriverObservation \<Rightarrow> stream" where
  "Observe s obs =
     (let s = (if SuspectedExploit obs then s\<lparr>out := (out s)\<lparr>oc_ExploitsObserved := oc_ExploitsObserved (out s) + 1\<rparr>\<rparr> else s)
      in if ToolingExposed obs then s\<lparr>out := (out s)\<lparr>oc_ExposureSignals := oc_ExposureSignals (out s) + 1\<rparr>\<rparr> else s)"

definition Close :: "stream \<Rightarrow> Governor \<Rightarrow> stream \<times> Governor" where
  "Close s gv =
     (if closed s then (s, gv)
      else let s1 = s\<lparr>closed := True\<rparr>;
               gov1 = (if reserved s1 > 0 then Release gv (reserved s1) else gv);
               s2 = (if reserved s1 > 0 then s1\<lparr>reserved := 0\<rparr> else s1);
               gov2 = CloseStream gov1;
               s3 = (if oc_Reason (out s2) = NotDone then s2\<lparr>out := (out s2)\<lparr>oc_Reason := DoneComplete\<rparr>\<rparr> else s2)
           in (s3, gov2))"

text \<open>The inert stream.\<close>

definition noop_Outcome :: "DoneReason \<Rightarrow> Outcome" where
  "noop_Outcome r = new_outcome MechNoOp 0 r"

section \<open>The invariant of a stream\<close>

definition stream_ok :: "stream \<Rightarrow> bool" where
  "stream_ok s \<longleftrightarrow>
     budget_ok (st_budget s) \<and> params_ok (st_params s) \<and> cursor_ok (st_params s) (cur s) \<and>
     st_gens s \<noteq> [] \<and> (\<forall>g\<in>set (st_gens s). bounded_generator g) \<and>
     0 \<le> oc_BytesServed (out s) \<and> oc_BytesServed (out s) \<le> MaxBytesPerFlow (st_budget s) \<and>
     0 \<le> oc_RequestsAbsrb (out s) \<and> oc_RequestsAbsrb (out s) * MinDelay (gp_Drip (st_params s)) \<le> held s \<and>
     held s < MaxDuration (st_budget s) + MaxDelay (gp_Drip (st_params s)) \<and>
     (if closed s then reserved s = 0 \<and> oc_Reason (out s) \<noteq> NotDone else reserved s = oc_BytesServed (out s))"

text \<open>What a call that emits nothing leaves alone.\<close>

definition same_account :: "stream \<Rightarrow> stream \<Rightarrow> bool" where
  "same_account s s' \<longleftrightarrow>
     st_gens s' = st_gens s \<and> st_budget s' = st_budget s \<and> st_params s' = st_params s \<and> closed s' = closed s \<and>
     held s' = held s \<and> reserved s' = reserved s \<and> oc_BytesServed (out s') = oc_BytesServed (out s) \<and>
     oc_RequestsAbsrb (out s') = oc_RequestsAbsrb (out s)"

lemma same_account_simps [simp]:
  "same_account s s" "same_account s (snd (finish s r))" "same_account s (snd (finish (s\<lparr>cur := c\<rparr>) r))"
  by (simp_all add: same_account_def finish_def)

lemma meter_poison_frame [simp]:
  "oc_BytesServed (meter_poison c oc) = oc_BytesServed oc" "oc_RequestsAbsrb (meter_poison c oc) = oc_RequestsAbsrb oc"
  "oc_Reason (meter_poison c oc) = oc_Reason oc" "oc_Axes (meter_poison c oc) = oc_Axes oc"
  "oc_Mechanism (meter_poison c oc) = oc_Mechanism oc"
  by (simp_all add: meter_poison_def Let_def)

lemma meter_frame [simp]:
  "st_gens (meter g d t s) = st_gens s" "st_budget (meter g d t s) = st_budget s" "st_params (meter g d t s) = st_params s"
  "cur (meter g d t s) = cur s" "closed (meter g d t s) = closed s" "held (meter g d t s) = held s + t"
  "reserved (meter g d t s) = reserved s + int (length d)"
  "oc_BytesServed (out (meter g d t s)) = oc_BytesServed (out s) + int (length d)"
  "oc_RequestsAbsrb (out (meter g d t s)) = oc_RequestsAbsrb (out s) + 1"
  "oc_Reason (out (meter g d t s)) = oc_Reason (out s)"
  by (simp_all add: meter_def Let_def)

definition active_gen :: "stream \<Rightarrow> generator" where
  "active_gen s = st_gens s ! nat (chunkIdx (cur s) mod int (length (st_gens s)))"

lemma active_gen_mem: "st_gens s \<noteq> [] \<Longrightarrow> active_gen s \<in> set (st_gens s)"
  unfolding active_gen_def by (intro nth_mem) (simp add: nat_less_iff)

text \<open>A call either ends the stream and emits nothing, or emits one accounted chunk.\<close>

lemma Next_ended:
  assumes "Next cd lk s gv = (((c, r), s'), gv')" "r \<noteq> NotDone"
  shows "c = no_chunk \<and> oc_Reason (out s') = r \<and> same_account s s' \<and> gv' \<in> {gv, Kill gv}"
proof -
  obtain data0 delay ok cur' where n: "next_chunk (active_gen s) (cur s) (st_params s) = ((data0, delay, ok), cur')"
    by (metis prod.collapse)
  let ?rem = "MaxBytesPerFlow (st_budget s) - oc_BytesServed (out s)"
  let ?d = "if int (length data0) > ?rem then truncateAtLine data0 (nat ?rem) else data0"
  have res: "g \<in> {gv, Kill gv}" if "Reserve (if lk then Kill gv else gv) (int (length ?d)) = (False, g)" for g
    using Reserve_refused[of "if lk then Kill gv else gv" "int (length ?d)"] that by (cases lk) simp_all
  show ?thesis
    using assms res unfolding Next_def active_gen_def[symmetric] n Let_def finish_def
    by (auto simp: same_account_def split: if_splits bool.splits prod.splits)
qed

lemma Next_emitted:
  assumes "Next cd lk s gv = (((c, NotDone), s'), gv')" "stream_ok s"
  obtains cur' where "oc_Reason (out s) = NotDone" "\<not> cd" "\<not> Killed gv" "held s < MaxDuration (st_budget s)"
    "int (length (Data c)) \<le> MaxBytesPerFlow (st_budget s) - oc_BytesServed (out s)" "length (Data c) \<le> nat maxChunkBytes"
    "MinDelay (gp_Drip (st_params s)) \<le> Delay c" "Delay c \<le> MaxDelay (gp_Drip (st_params s))"
    "cursor_ok (st_params s) cur'" "chunkIdx cur' = chunkIdx (cur s) + 1"
    "Reserve (if lk then Kill gv else gv) (int (length (Data c))) = (True, gv')"
    "s' = meter (active_gen s) (Data c) (Delay c) (s\<lparr>cur := cur'\<rparr>)"
proof -
  obtain data0 delay ok cur' where n: "next_chunk (active_gen s) (cur s) (st_params s) = ((data0, delay, ok), cur')"
    by (metis prod.collapse)
  have "bounded_generator (active_gen s)" "params_ok (st_params s)" "cursor_ok (st_params s) (cur s)"
    using assms(2) active_gen_mem[of s] by (auto simp: stream_ok_def)
  from bounded_generator.chunk_bounded[OF this]
  have k: "ok" "length data0 \<le> nat maxChunkBytes" "MinDelay (gp_Drip (st_params s)) \<le> delay" "delay \<le> MaxDelay (gp_Drip (st_params s))"
    "cursor_ok (st_params s) cur'" "chunkIdx cur' = chunkIdx (cur s) + 1" by (simp_all add: chunk_ok_def n)
  let ?rem = "MaxBytesPerFlow (st_budget s) - oc_BytesServed (out s)"
  define d where "d = (if int (length data0) > ?rem then truncateAtLine data0 (nat ?rem) else data0)"
  have running: "oc_Reason (out s) = NotDone" "\<not> cd" "\<not> Killed gv" "held s < MaxDuration (st_budget s)" "0 < ?rem"
    using assms(1) unfolding Next_def by (auto simp: finish_def Let_def split: if_splits)
  have res: "Reserve (if lk then Kill gv else gv) (int (length d)) = (True, gv')"
    "c = \<lparr>Data = d, Delay = delay\<rparr>" "s' = meter (active_gen s) d delay (s\<lparr>cur := cur'\<rparr>)"
    using assms(1) running k(1) unfolding Next_def active_gen_def[symmetric] n Let_def
    by (auto simp: finish_def d_def split: if_splits bool.splits prod.splits)
  have "length d \<le> length data0"
    using truncateAtLine_prefix[of data0 "nat ?rem"] by (simp add: d_def prefix_length_le)
  moreover have "int (length d) \<le> ?rem"
    using length_truncateAtLine[of data0 "nat ?rem"] running(5) by (auto simp: d_def)
  ultimately show thesis
    using that[of cur'] running k res by simp
qed

lemma same_account_ok:
  assumes "stream_ok s" "same_account s s'" "cursor_ok (st_params s) (cur s')" "closed s \<longrightarrow> oc_Reason (out s') \<noteq> NotDone"
  shows "stream_ok s'"
  using assms by (auto simp: stream_ok_def same_account_def)

lemma Next_cursor:
  assumes "Next cd lk s gv = ((cr, s'), gv')" "stream_ok s" shows "cursor_ok (st_params s) (cur s')"
proof -
  obtain data0 delay ok cur' where n: "next_chunk (active_gen s) (cur s) (st_params s) = ((data0, delay, ok), cur')"
    by (metis prod.collapse)
  have "bounded_generator (active_gen s)" "params_ok (st_params s)" and c: "cursor_ok (st_params s) (cur s)"
    using assms(2) active_gen_mem[of s] by (auto simp: stream_ok_def)
  from bounded_generator.chunk_bounded[OF this] have "cursor_ok (st_params s) cur'" by (simp add: chunk_ok_def n)
  with c assms(1) show ?thesis unfolding Next_def active_gen_def[symmetric] n Let_def
    by (auto simp: finish_def split: if_splits bool.splits prod.splits)
qed

lemma stream_ok_Next [inv_intros]:
  assumes "stream_ok s" "Next cd lk s gv = ((cr, s'), gv')" shows "stream_ok s'"
proof -
  obtain c r where cr: "cr = (c, r)" by (cases cr)
  show ?thesis
  proof (cases "r = NotDone")
    case False
    note e = Next_ended[OF assms(2)[unfolded cr] False]
    show ?thesis using same_account_ok[OF assms(1)] e Next_cursor[OF assms(2,1)] False by simp
  next
    case True
    with assms cr obtain cur' where r: "oc_Reason (out s) = NotDone" "held s < MaxDuration (st_budget s)"
      "int (length (Data c)) \<le> MaxBytesPerFlow (st_budget s) - oc_BytesServed (out s)"
      "MinDelay (gp_Drip (st_params s)) \<le> Delay c" "Delay c \<le> MaxDelay (gp_Drip (st_params s))" "cursor_ok (st_params s) cur'"
      "s' = meter (active_gen s) (Data c) (Delay c) (s\<lparr>cur := cur'\<rparr>)"
      using Next_emitted by metis
    then show ?thesis using assms(1) by (auto simp: stream_ok_def algebra_simps)
  qed
qed

lemma stream_ok_Observe [inv_intros]: "stream_ok s \<Longrightarrow> stream_ok (Observe s obs)"
  by (simp add: Observe_def stream_ok_def Let_def)

lemma stream_ok_Close [inv_intros]: "stream_ok s \<Longrightarrow> stream_ok (fst (Close s gv))"
  by (auto simp: Close_def stream_ok_def Let_def)

text \<open>
  A driver: any sequence of calls on one stream, while other flows do with the shared governor what
  they like in between.
\<close>

inductive drives :: "stream \<Rightarrow> stream \<Rightarrow> bool" for s0 where
  opened: "drives s0 s0"
| pull: "drives s0 s \<Longrightarrow> Next cd lk s gv = ((cr, s'), gv') \<Longrightarrow> drives s0 s'"
| observe: "drives s0 s \<Longrightarrow> drives s0 (Observe s obs)"
| close: "drives s0 s \<Longrightarrow> drives s0 (fst (Close s gv))"

lemma drives_ok: "drives s0 s \<Longrightarrow> stream_ok s0 \<Longrightarrow> stream_ok s"
  by (induction rule: drives.induct) (auto intro: inv_intros)

lemma drives_frame: "drives s0 s \<Longrightarrow> stream_ok s0 \<Longrightarrow> st_budget s = st_budget s0 \<and> st_params s = st_params s0"
proof (induction rule: drives.induct)
  case (pull s cd lk gv cr s' gv')
  obtain c r where cr: "cr = (c, r)" by (cases cr)
  have ok: "stream_ok s" using pull drives_ok by blast
  show ?case
  proof (cases "r = NotDone")
    case True
    then obtain cur' where "s' = meter (active_gen s) (Data c) (Delay c) (s\<lparr>cur := cur'\<rparr>)"
      using Next_emitted[OF pull.hyps(2)[unfolded cr True] ok] by metis
    with pull show ?thesis by simp
  next
    case False
    with Next_ended[OF pull.hyps(2)[unfolded cr] False] pull show ?thesis by (simp add: same_account_def)
  qed
qed (auto simp: Observe_def Close_def Let_def)

section \<open>What \<open>New\<close> and \<open>Open\<close> hand out\<close>

text \<open>The operator's pacing, after normalisation, fits an \<^verbatim>\<open>int64\<close> product.\<close>

definition pacing_fits :: "attrition_Config \<Rightarrow> bool" where
  "pacing_fits cfg \<longleftrightarrow> MaxDelay (Drip_Normalized (at_Drip cfg)) * RampSaturate (Drip_Normalized (at_Drip cfg)) < 2 ^ 63"

lemma New_parts:
  assumes "attrition_New scan cfg = Inr (a, gv)"
  shows "ba_budget a = Budget_Normalized (at_Budget cfg)"
    "ba_params a = \<lparr>gp_MaxDepth = MaxDepth (Budget_Normalized (at_Budget cfg)), gp_Drip = Drip_Normalized (at_Drip cfg)\<rparr>"
    "ba_gens a = filter (\<lambda>g. and (axis g) (Axes (at_Floor cfg)) \<noteq> 0) all_generators"
    "at_Seed (ba_cfg a) = at_Seed cfg"
  using assms by (auto simp: attrition_New_def Let_def split: option.splits)

lemma New_ok:
  assumes "attrition_New scan cfg = Inr (a, gv)" "pacing_fits cfg"
  shows "budget_ok (ba_budget a)" "params_ok (ba_params a)"
  using assms(2) Budget_Normalized_ok[of "at_Budget cfg"] Drip_Normalized_ok[of "at_Drip cfg"]
  by (auto simp: New_parts[OF assms(1)] params_ok_def pacing_ok_def pacing_fits_def budget_ok_def)

lemma Open_live:
  assumes "Open lk a v gv = (Live s, gv')"
  shows "TierContain \<le> v_Tier v" "SocketCookie (v_Flow v) \<noteq> 0" "\<not> Killed gv" "OpenStream gv = (True, gv')"
    "selectAxes a (v_Tier v) \<noteq> []"
    "s = \<lparr>st_gens = selectAxes a (v_Tier v), st_budget = ba_budget a, st_params = ba_params a,
        cur = start_cursor (xor (at_Seed (ba_cfg a)) (SocketCookie (v_Flow v))),
        out = new_outcome (mechanism (last (selectAxes a (v_Tier v)))) (foldl (\<lambda>ax g. or ax (axis g)) 0 (selectAxes a (v_Tier v))) NotDone,
        held = 0, reserved = 0, closed = False\<rparr>"
  using assms
  by (auto simp: Open_def Let_def start_cursor_def Kill_def OpenStream_def split: if_splits prod.splits bool.splits)

lemma Open_stream_ok:
  assumes "attrition_New scan cfg = Inr (a, gv0)" "pacing_fits cfg" "Open lk a v gv = (Live s, gv')"
  shows "stream_ok s"
proof -
  note o = Open_live[OF assms(3)] and ok = New_ok[OF assms(1,2)]
  have "\<forall>g\<in>set (selectAxes a (v_Tier v)). bounded_generator g"
    by (auto simp: selectAxes_def New_parts(3)[OF assms(1)] intro: all_generators_bounded)
  moreover have "0 < MaxDelay (gp_Drip (ba_params a))" using ok(2) by (simp add: params_ok_def pacing_ok_def drip_ok_def)
  ultimately show ?thesis
    using o(5) ok start_cursor_ok[OF ok(2)] by (simp add: o(6) stream_ok_def new_outcome_def budget_ok_def)
qed

lemma first_self_test_passes:
  assumes "params_ok p" "\<forall>b. scan b = None" "\<forall>g\<in>set gs. bounded_generator g"
  shows "first_self_test_error scan p gs = None"
  using assms(3) by (induction gs) (simp_all add: bounded_generator.self_test_passes[OF _ assms(1,2)])

definition built :: "attrition_Config \<Rightarrow> BoundedAttritor" where
  "built cfg = (let c = cfg\<lparr>at_Budget := Budget_Normalized (at_Budget cfg), at_Drip := Drip_Normalized (at_Drip cfg)\<rparr> in
     \<lparr>ba_cfg = c, ba_budget = at_Budget c, ba_params = \<lparr>gp_MaxDepth = MaxDepth (at_Budget c), gp_Drip = at_Drip c\<rparr>,
      ba_gens = filter (\<lambda>g. and (axis g) (Axes (at_Floor cfg)) \<noteq> 0) all_generators\<rparr>)"

lemma New_succeeds:
  assumes "\<forall>b. scan b = None" "pacing_fits cfg"
  shows "attrition_New scan cfg = Inr (built cfg,
    case at_Governor cfg of None \<Rightarrow> NewGovernor (at_GlobalCeiling cfg) (at_MaxConcurrentFlows cfg) | Some g \<Rightarrow> g)"
proof -
  let ?p = "\<lparr>gp_MaxDepth = MaxDepth (Budget_Normalized (at_Budget cfg)), gp_Drip = Drip_Normalized (at_Drip cfg)\<rparr>"
  have "params_ok ?p"
    using assms(2) Budget_Normalized_ok[of "at_Budget cfg"] Drip_Normalized_ok[of "at_Drip cfg"]
    by (simp add: params_ok_def pacing_ok_def pacing_fits_def budget_ok_def)
  then have "first_self_test_error scan ?p (filter (\<lambda>g. and (axis g) (Axes (at_Floor cfg)) \<noteq> 0) all_generators) = None"
    using assms(1) all_generators_bounded by (intro first_self_test_passes) auto
  then show ?thesis by (simp add: attrition_New_def built_def Let_def split: option.split)
qed

section \<open>One flow is bounded\<close>


definition demo_attrition :: attrition_Config where
  "demo_attrition = \<lparr>at_Floor = FloorAggressive, at_Budget = \<lparr>MaxBytesPerFlow = 0, MaxDepth = 0, MaxDuration = 0\<rparr>,
     at_Drip = \<lparr>ChunkBytes = 0, MinDelay = 0, MaxDelay = 0, RampSaturate = 0\<rparr>, at_Governor = None,
     at_GlobalCeiling = 0, at_MaxConcurrentFlows = 0, at_Seed = 0\<rparr>"

definition demo_verdict :: Verdict where
  "demo_verdict = \<lparr>v_Flow = cookie_flow 7, v_Scope = ''zone-a'', v_Tier = TierJail, v_Mode = ModeInline, v_Score = Fin 6, v_Calibrated = False\<rparr>"

lemma demo_pacing: "pacing_fits demo_attrition"
  by (simp add: pacing_fits_def demo_attrition_def Drip_Normalized_def)

lemma demo_New: "attrition_New (\<lambda>_. None) demo_attrition = Inr (built demo_attrition, NewGovernor 0 0)"
  using New_succeeds[of "\<lambda>_. None" demo_attrition] demo_pacing by (simp add: demo_attrition_def)

lemma built_gens: "ba_gens (built cfg) = filter (\<lambda>g. and (axis g) (Axes (at_Floor cfg)) \<noteq> 0) all_generators"
  by (simp add: built_def Let_def)

lemmas generator_tags = tarpit_def fakeMaze_def poisonField_def tokenBait_def exploitBait_def opExposure_def

lemma demo_gens: "selectAxes (built demo_attrition) 3 = all_generators"
  by (simp add: selectAxes_def built_gens demo_attrition_def Axes_def all_generators_def generator_tags)

definition demo_stream :: stream where
  "demo_stream = (case fst (Open False (built demo_attrition) demo_verdict (NewGovernor 0 0)) of Live s \<Rightarrow> s)"

lemma demo_Open: "Open False (built demo_attrition) demo_verdict (NewGovernor 0 0) =
    (Live demo_stream, (NewGovernor 0 0)\<lparr>activeStreams := 1\<rparr>)"
  unfolding demo_stream_def Open_def
  by (simp add: demo_verdict_def demo_gens Killed_def NewGovernor_def OpenStream_def all_generators_def Let_def)


section \<open>Every stream ends\<close>

definition pulls :: "(bool \<times> bool \<times> Governor) list \<Rightarrow> stream \<Rightarrow> stream" where
  "pulls envs s = foldl (\<lambda>s (cd, lk, gv). snd (fst (Next cd lk s gv))) s envs"

lemma pulls_snoc: "pulls (envs @ [(cd, lk, gv)]) s = snd (fst (Next cd lk (pulls envs s) gv))"
  by (simp add: pulls_def)

lemma pulls_drives: "drives s (pulls envs s)"
proof (induction envs rule: rev_induct)
  case (snoc e envs)
  obtain cd lk gv where e: "e = (cd, lk, gv)" by (metis prod.collapse)
  obtain cr s' gv' where "Next cd lk (pulls envs s) gv = ((cr, s'), gv')" by (metis prod.collapse)
  with drives.pull[OF snoc] show ?case by (simp add: e pulls_snoc)
qed (simp add: pulls_def drives.opened)

lemma pulls_progress:
  assumes "stream_ok s" "oc_RequestsAbsrb (out s) = 0" "oc_Reason (out (pulls envs s)) = NotDone" "envs \<noteq> []"
  shows "oc_RequestsAbsrb (out (pulls envs s)) = int (length envs) \<and>
    (int (length envs) - 1) * MinDelay (gp_Drip (st_params s)) < MaxDuration (st_budget s)"
  using assms(3,4)
proof (induction envs rule: rev_induct)
  case (snoc e envs)
  obtain cd lk gv where e: "e = (cd, lk, gv)" by (metis prod.collapse)
  let ?s = "pulls envs s"
  obtain c r s' gv' where n: "Next cd lk ?s gv = (((c, r), s'), gv')" by (metis prod.collapse)
  have s': "pulls (envs @ [e]) s = s'" by (simp add: e pulls_snoc n)
  have r: "r = NotDone" using Next_ended[OF n] snoc.prems(1) s' by auto
  have ok: "stream_ok ?s" and f: "st_budget ?s = st_budget s" "st_params ?s = st_params s"
    using pulls_drives[of s envs] drives_ok drives_frame assms(1) by blast+
  obtain cur' where em: "oc_Reason (out ?s) = NotDone" "held ?s < MaxDuration (st_budget ?s)"
    "s' = meter (active_gen ?s) (Data c) (Delay c) (?s\<lparr>cur := cur'\<rparr>)"
    using Next_emitted[OF n[unfolded r] ok] by metis
  have "oc_RequestsAbsrb (out ?s) = int (length envs)"
  proof (cases "envs = []")
    case True
    then show ?thesis using assms(2) by (simp add: pulls_def)
  qed (use snoc.IH em(1) in simp)
  moreover have "oc_RequestsAbsrb (out ?s) * MinDelay (gp_Drip (st_params s)) \<le> held ?s"
    using ok f by (simp add: stream_ok_def)
  ultimately show ?case using em f s' by simp
qed simp

text \<open>
  Property C37. Every stream ends: whatever the governor and the other flows do, after
  \<^verbatim>\<open>MaxDuration / MinDelay + 2\<close> pulls the stream reports that it is done. The attacker can never keep a
  stream open by pulling.
\<close>

theorem attrition_stream_ends:
  assumes "attrition_New scan cfg = Inr (a, gv0)" "pacing_fits cfg" "Open lk a v gv = (Live s0, gv')"
    and "MaxDuration (Budget_Normalized (at_Budget cfg)) div MinDelay (Drip_Normalized (at_Drip cfg)) + 2 \<le> int (length envs)"
  shows "oc_Reason (out (pulls envs s0)) \<noteq> NotDone"
proof
  assume nd: "oc_Reason (out (pulls envs s0)) = NotDone"
  have ok: "stream_ok s0" by (rule Open_stream_ok[OF assms(1-3)])
  have s0: "oc_RequestsAbsrb (out s0) = 0" "st_budget s0 = Budget_Normalized (at_Budget cfg)"
    "gp_Drip (st_params s0) = Drip_Normalized (at_Drip cfg)"
    by (simp_all add: Open_live(6)[OF assms(3)] New_parts[OF assms(1)] new_outcome_def)
  let ?D = "MaxDuration (st_budget s0)" and ?m = "MinDelay (gp_Drip (st_params s0))"
  have m: "0 < ?m" "0 < ?D" using ok by (simp_all add: stream_ok_def params_ok_def pacing_ok_def drip_ok_def budget_ok_def)
  then have "0 \<le> ?D div ?m" by (simp add: pos_imp_zdiv_nonneg_iff)
  then have "envs \<noteq> []" using assms(4) s0 by auto
  then have "(int (length envs) - 1) * ?m < ?D" using pulls_progress[OF ok s0(1) nd] by simp
  moreover have "(?D div ?m + 1) * ?m \<le> (int (length envs) - 1) * ?m"
    using assms(4) s0 m(1) by (intro mult_right_mono) simp_all
  moreover have "?D < (?D div ?m + 1) * ?m"
    using pos_mod_bound[OF m(1), of ?D] div_mult_mod_eq[of ?D ?m] by (simp only: distrib_right mult_1)
  ultimately show False by linarith
qed

lemma attrition_stream_ends_witness:
  "oc_Reason (out (pulls (replicate 62 (False, False, NewGovernor 0 0)) demo_stream)) \<noteq> NotDone"
  by (rule attrition_stream_ends[OF demo_New demo_pacing demo_Open])
    (simp add: demo_attrition_def Budget_Normalized_def Drip_Normalized_def)

section \<open>The gates\<close>

text \<open>The generators a floor and a tier unlock together.\<close>

definition unlocked :: "StingFloor \<Rightarrow> Tier \<Rightarrow> generator list" where
  "unlocked f t =
     (if t < TierContain then []
      else if f = FloorAggressive then
        (if t < TierJail then [tarpit, fakeMaze, poisonField]
         else [tarpit, fakeMaze, poisonField, tokenBait, exploitBait, opExposure])
      else if f = FloorModerate then [tarpit, fakeMaze, poisonField]
      else [tarpit])"

lemma selectAxes_unlocked:
  assumes "attrition_New scan cfg = Inr (a, gv0)" "TierContain \<le> t"
  shows "selectAxes a t = unlocked (at_Floor cfg) t"
  using assms(2)
  by (simp add: selectAxes_def New_parts(3)[OF assms(1)] unlocked_def Axes_def all_generators_def generator_tags)

text \<open>
  Aggression needs both keys: what a stream may emit is decided by the operator's floor
  and the tier together. A stream is live exactly when the tier is at least contain, the flow is
  attributable, the switch is off and a slot is free; it then runs the generators of the table (the
  passive floor only ever the tarpit, the aggressive generators only at the aggressive floor and in
  jail), headlined by the last of them; in every other case it is inert and the governor is left as
  it was.
\<close>

theorem open_gates:
  assumes "attrition_New scan cfg = Inr (a, gv0)"
  shows "case Open False a v gv of
      (Live s, gv') \<Rightarrow> TierContain \<le> v_Tier v \<and> SocketCookie (v_Flow v) \<noteq> 0 \<and> \<not> Killed gv \<and> activeStreams gv < maxStreams gv \<and>
        st_gens s = unlocked (at_Floor cfg) (v_Tier v) \<and> oc_Mechanism (out s) = mechanism (last (unlocked (at_Floor cfg) (v_Tier v))) \<and>
        gv' = gv\<lparr>activeStreams := activeStreams gv + 1\<rparr>
    | (Noop r, gv') \<Rightarrow> gv' = gv \<and>
        r = (if v_Tier v < TierContain \<or> SocketCookie (v_Flow v) = 0 then DoneNoOp else if Killed gv then DoneKilled else DoneGlobalCeiling) \<and>
        (v_Tier v < TierContain \<or> SocketCookie (v_Flow v) = 0 \<or> Killed gv \<or> maxStreams gv \<le> activeStreams gv)"
proof (cases "v_Tier v < TierContain")
  case False
  then have "selectAxes a (v_Tier v) = unlocked (at_Floor cfg) (v_Tier v)" "unlocked (at_Floor cfg) (v_Tier v) \<noteq> []"
    using selectAxes_unlocked[OF assms, of "v_Tier v"] by (simp_all add: unlocked_def)
  then show ?thesis using False
    by (auto simp: Open_def OpenStream_def Killed_def Let_def new_outcome_def)
qed (simp add: Open_def)

lemma open_gates_witness:
  "case Open False (built demo_attrition) demo_verdict (NewGovernor 0 0) of
      (Live s, gv') \<Rightarrow> st_gens s = unlocked FloorAggressive TierJail \<and> oc_Mechanism (out s) = MechOpExposure
    | (Noop r, gv') \<Rightarrow> False"
proof -
  have "at_Floor demo_attrition = FloorAggressive" "v_Tier demo_verdict = TierJail"
    by (simp_all add: demo_attrition_def demo_verdict_def)
  with open_gates[OF demo_New, of demo_verdict "NewGovernor 0 0"] show ?thesis
    unfolding demo_Open by (simp add: unlocked_def opExposure_def)
qed

section \<open>One flow gives back what it took\<close>

text \<open>A stream and the governor it is alone with.\<close>

inductive session :: "BoundedAttritor \<Rightarrow> Verdict \<Rightarrow> Governor \<Rightarrow> stream \<Rightarrow> Governor \<Rightarrow> bool" for a v gv0 where
  opens: "Open lk a v gv0 = (Live s, gv) \<Longrightarrow> session a v gv0 s gv"
| pulls: "session a v gv0 s gv \<Longrightarrow> Next cd False s gv = ((cr, s'), gv') \<Longrightarrow> session a v gv0 s' gv'"
| observes: "session a v gv0 s gv \<Longrightarrow> session a v gv0 (Observe s obs) gv"
| closes: "session a v gv0 s gv \<Longrightarrow> Close s gv = (s', gv') \<Longrightarrow> session a v gv0 s' gv'"

definition balanced :: "Governor \<Rightarrow> stream \<Rightarrow> Governor \<Rightarrow> bool" where
  "balanced gv0 s gv \<longleftrightarrow> stream_ok s \<and> gov_ok gv \<and> usedBytes gv = usedBytes gv0 + reserved s \<and>
     activeStreams gv = activeStreams gv0 + (if closed s then 0 else 1)"

lemma Reserve_frame: "activeStreams (snd (Reserve g n)) = activeStreams g"
  by (simp add: Reserve_def Let_def)

lemma balanced_Next:
  assumes "balanced gv0 s gv" "Next cd False s gv = ((cr, s'), gv')"
  shows "balanced gv0 s' gv'"
proof -
  obtain c r where cr: "cr = (c, r)" by (cases cr)
  have ok: "stream_ok s" using assms(1) by (simp add: balanced_def)
  then have ok': "stream_ok s'" using assms(2) by (rule inv_intros)
  show ?thesis
  proof (cases "r = NotDone")
    case True
    obtain cur' where e: "oc_Reason (out s) = NotDone" "length (Data c) \<le> nat maxChunkBytes"
      "Reserve gv (int (length (Data c))) = (True, gv')" "s' = meter (active_gen s) (Data c) (Delay c) (s\<lparr>cur := cur'\<rparr>)"
      using Next_emitted[OF assms(2)[unfolded cr True] ok] by (metis (full_types))
    have "\<not> closed s" using ok e(1) by (auto simp: stream_ok_def)
    moreover have "gov_ok gv'" "usedBytes gv' = usedBytes gv + int (length (Data c))"
      using Reserve_ok[of gv "int (length (Data c))"] e(2,3) assms(1) by (simp_all add: balanced_def)
    moreover have "activeStreams gv' = activeStreams gv" using Reserve_frame[of gv "int (length (Data c))"] e(3) by simp
    ultimately show ?thesis using assms(1) ok' e(4) by (simp add: balanced_def)
  next
    case False
    have "gv' = gv"
    proof -
      have "snd (Reserve gv n) = gv" if "\<not> fst (Reserve gv n)" for n using that by (rule Reserve_refused)
      then have "Reserve gv n = (False, g) \<Longrightarrow> g = gv" for n g by (metis fst_conv snd_conv)
      with assms(2) False show ?thesis unfolding cr
        by (auto simp: Next_def finish_def Let_def split: if_splits bool.splits prod.splits)
    qed
    with Next_ended[OF assms(2)[unfolded cr] False] assms(1) ok' show ?thesis by (simp add: balanced_def same_account_def)
  qed
qed

lemma balanced_Close:
  assumes "balanced gv0 s gv" "Close s gv = (s', gv')" "0 \<le> usedBytes gv0"
  shows "balanced gv0 s' gv' \<and> closed s'"
proof (cases "closed s")
  case True
  with assms show ?thesis by (simp add: Close_def)
next
  case False
  have ok': "stream_ok s'" using stream_ok_Close[of s gv] assms(1,2) by (simp add: balanced_def)
  have r: "0 \<le> reserved s" using assms(1) False by (auto simp: balanced_def stream_ok_def)
  have u: "usedBytes (Release gv (reserved s)) = usedBytes gv - reserved s"
    using Release_ok[of gv "reserved s"] assms(1,3) r by (simp add: balanced_def)
  have fr: "activeStreams (Release gv n) = activeStreams gv" "ceilingBytes (Release gv n) = ceilingBytes gv" for n
    by (simp_all add: Release_def)
  have g: "usedBytes gv' = usedBytes gv - reserved s" "activeStreams gv' = activeStreams gv - 1" "ceilingBytes gv' = ceilingBytes gv"
    using assms(2) False u fr r by (auto simp: Close_def CloseStream_def Let_def)
  have s: "reserved s' = 0" "closed s'" using assms(2) False r by (auto simp: Close_def Let_def)
  have "gov_ok gv'" using assms(1,3) g r by (simp add: balanced_def gov_ok_def)
  then show ?thesis using assms(1) False ok' g s by (simp add: balanced_def)
qed

lemma session_balanced:
  assumes "attrition_New scan cfg = Inr (a, g)" "pacing_fits cfg" "gov_ok gv0"
  shows "session a v gv0 s gv \<Longrightarrow> balanced gv0 s gv"
proof (induction rule: session.induct)
  case (opens lk s gv)
  have "gv = gv0\<lparr>activeStreams := activeStreams gv0 + 1\<rparr>"
    using Open_live(4)[OF opens] by (simp add: OpenStream_def Let_def split: if_splits)
  then show ?case
    using Open_stream_ok[OF assms(1,2) opens] Open_live(6)[OF opens] assms(3) by (simp add: balanced_def gov_ok_def)
next
  case (pulls s gv cd cr s' gv')
  show ?case by (rule balanced_Next[OF pulls.IH pulls.hyps(2)])
next
  case (observes s gv obs)
  have "reserved (Observe s obs) = reserved s" "closed (Observe s obs) = closed s" by (simp_all add: Observe_def Let_def)
  with observes stream_ok_Observe show ?case by (simp add: balanced_def)
next
  case (closes s gv s' gv')
  then show ?case using balanced_Close[of gv0 s gv s' gv'] assms(3) by (simp add: gov_ok_def)
qed

text \<open>
  A session gives back exactly what it took: from opening to closing, for any sequence of
  calls (closing twice included), the governor's byte counter exceeds its initial value by exactly
  the bytes reserved for the flow, one slot is taken while the stream is open, and once it is closed
  both counters are where they were before it opened.
\<close>

theorem attrition_session_conserves:
  assumes "attrition_New scan cfg = Inr (a, g)" "pacing_fits cfg" "gov_ok gv0" "session a v gv0 s gv"
  shows "usedBytes gv = usedBytes gv0 + reserved s \<and> usedBytes gv \<le> ceilingBytes gv \<and>
    activeStreams gv = activeStreams gv0 + (if closed s then 0 else 1) \<and>
    (closed s \<longrightarrow> usedBytes gv = usedBytes gv0 \<and> activeStreams gv = activeStreams gv0)"
proof -
  have b: "balanced gv0 s gv" by (rule session_balanced[OF assms])
  then have "closed s \<longrightarrow> reserved s = 0" by (auto simp: balanced_def stream_ok_def)
  with b show ?thesis by (auto simp: balanced_def gov_ok_def)
qed

lemma attrition_session_conserves_witness:
  "usedBytes (snd (Close demo_stream ((NewGovernor 0 0)\<lparr>activeStreams := 1\<rparr>))) = 0 \<and>
   activeStreams (snd (Close demo_stream ((NewGovernor 0 0)\<lparr>activeStreams := 1\<rparr>))) = 0"
proof -
  let ?g = "(NewGovernor 0 0)\<lparr>activeStreams := 1\<rparr>"
  have ok: "gov_ok (NewGovernor 0 0)" by (simp add: gov_ok_def NewGovernor_def)
  have "session (built demo_attrition) demo_verdict (NewGovernor 0 0) demo_stream ?g"
    by (rule session.opens[OF demo_Open])
  then have s: "session (built demo_attrition) demo_verdict (NewGovernor 0 0) (fst (Close demo_stream ?g)) (snd (Close demo_stream ?g))"
    by (rule session.closes) simp
  have "closed (fst (Close demo_stream ?g))" by (simp add: Close_def Let_def)
  with attrition_session_conserves[OF demo_New demo_pacing ok s] show ?thesis by (simp add: NewGovernor_def)
qed

text \<open>
  A kill that lands between the kill check and the reservation of one pull stops the
  stream before it emits anything, but it is recorded as an exhausted host ceiling and not as a kill.
\<close>

theorem late_kill_reported_as_ceiling:
  assumes "stream_ok s" "\<not> killed gv" "Next False False s gv = (((c, NotDone), s'), gv')" "Data c \<noteq> []"
  shows "\<exists>s''. Next False True s gv = (((no_chunk, DoneGlobalCeiling), s''), Kill gv) \<and> oc_Reason (out s'') = DoneGlobalCeiling"
proof -
  obtain data0 delay ok cur' where n: "next_chunk (active_gen s) (cur s) (st_params s) = ((data0, delay, ok), cur')"
    by (metis prod.collapse)
  let ?rem = "MaxBytesPerFlow (st_budget s) - oc_BytesServed (out s)"
  define d where "d = (if int (length data0) > ?rem then truncateAtLine data0 (nat ?rem) else data0)"
  have run: "oc_Reason (out s) = NotDone" "held s < MaxDuration (st_budget s)" "0 < ?rem" "ok" "Data c = d"
    using assms(3) unfolding Next_def active_gen_def[symmetric] n Let_def
    by (auto simp: finish_def d_def split: if_splits bool.splits prod.splits)
  have "d \<noteq> []" using assms(4) run(5) by simp
  then show ?thesis
    using run(1-4) assms(2) unfolding Next_def active_gen_def[symmetric] n Let_def
    by (cases "int (length data0) > ?rem") (simp_all add: d_def Killed_def finish_def Reserve_def Kill_def)
qed

lemma late_kill_reported_as_ceiling_witness:
  "\<exists>s''. Next False True demo_stream (NewGovernor 0 0) = (((no_chunk, DoneGlobalCeiling), s''), Kill (NewGovernor 0 0)) \<and>
     oc_Reason (out s'') = DoneGlobalCeiling"
proof -
  have ok: "stream_ok demo_stream" by (rule Open_stream_ok[OF demo_New demo_pacing demo_Open])
  note parts = Open_live(6)[OF demo_Open]
  have d: "MaxBytesPerFlow (st_budget demo_stream) = 5242880" "MaxDuration (st_budget demo_stream) = 120000000000"
    "gp_Drip (st_params demo_stream) = DefaultDrip" "held demo_stream = 0" "oc_Reason (out demo_stream) = NotDone"
    "oc_BytesServed (out demo_stream) = 0"
    by (simp_all add: parts built_def demo_attrition_def Budget_Normalized_def Drip_Normalized_def DefaultDrip_def new_outcome_def)
  have "v_Tier demo_verdict = 3" by (simp add: demo_verdict_def)
  then have g: "active_gen demo_stream = tarpit"
    by (simp add: active_gen_def parts demo_gens start_cursor_def all_generators_def)
  let ?d = "fillerChunk (cur_seed (cur demo_stream)) (chunkIdx (cur demo_stream)) 64"
  have l: "length ?d = 64" by (simp add: length_fillerChunk)
  have "Reserve (NewGovernor 0 0) 64 = (True, (NewGovernor 0 0)\<lparr>usedBytes := 64\<rparr>)"
    by (simp add: Reserve_def NewGovernor_def wrap64_def)
  then obtain delay s' gv' where "Next False False demo_stream (NewGovernor 0 0) = (((\<lparr>Data = ?d, Delay = delay\<rparr>, NotDone), s'), gv')"
    unfolding Next_def active_gen_def[symmetric] g
    by (simp add: d l tarpit_def DefaultDrip_def Killed_def NewGovernor_def Let_def)
  moreover have "?d \<noteq> []"
  proof
    assume "?d = []"
    then have "length ?d = 0" by simp
    with l show False by simp
  qed
  moreover have "\<not> killed (NewGovernor 0 0)" by (simp add: NewGovernor_def)
  ultimately show ?thesis using late_kill_reported_as_ceiling[OF ok] by fastforce
qed

end
