(* ===== verification/Hold.thy ===== *)
theory Hold
  imports Attrition GoStrings
begin

text \<open>
  The inline hold of the Envoy adapter, \<^verbatim>\<open>adapters/envoy/pump.go\<close> and \<^verbatim>\<open>attritionOrDeny\<close> of \<^verbatim>\<open>verdict.go\<close>:
  the digest of the request's shape, the pump that serves an attrition stream and waits its delays in
  real time, and how the end of a hold is classified. Time is threaded through the pump; a context is
  the time it ends and why. The pump recurs until the stream ends or the context does, so that it
  returns at all is a theorem. Lemmas: a hold ends by its deadline, serves no more than its cap, gives
  back what it reserved, and reports a final reason.
\<close>

section \<open>Digest\<close>

definition exploitMarkers :: "string list" where
  "exploitMarkers =
     [''../'', ''..%2f'', [CHR ''.'', CHR ''.'', char_of (92 :: nat)], ''%00'', ''/.git/'', ''/actuator'', ''/.env'', ''/.aws/'', ''/cgi-bin/'', ''/wp-admin'',
      ''${jndi:'', ''/etc/passwd'', ''union select'', [char_of (39 :: nat)] @ '' or '' @ [char_of (39 :: nat)], ''<script'', ''onerror='']"

definition toolingMarkers :: "string list" where
  "toolingMarkers =
     [''curl/'', ''wget/'', ''python-requests'', ''python-urllib'', ''go-http-client'', ''libwww'', ''java/'', ''okhttp'', ''httpx'', ''zgrab'',
      ''nikto'', ''sqlmap'', ''nmap'', ''masscan'', ''nuclei'', ''wpscan'', ''gobuster'', ''feroxbuster'', ''ffuf'', ''dirbuster'', ''hydra'',
      ''metasploit'', ''havij'', ''burp'', ''acunetix'', ''nessus'', ''qualys'']"

record RequestObservation =
  ob_Method :: string
  ob_Path :: string
  ob_Headers :: "string \<rightharpoonup> string"

definition header_or_empty :: "RequestObservation \<Rightarrow> string \<Rightarrow> string" where
  "header_or_empty obs k = (case ob_Headers obs k of None \<Rightarrow> [] | Some v \<Rightarrow> v)"

definition digestObservation :: "RequestObservation \<Rightarrow> DriverObservation" where
  "digestObservation obs =
     (let p = ToLower (ob_Path obs);
          ua = ToLower (header_or_empty obs ''user-agent'')
      in \<lparr>RequestCount = 1, DistinctDecoys = 1, SuspectedExploit = list_ex (\<lambda>mk. Contains p mk) exploitMarkers,
          ToolingExposed = (ua \<noteq> [] \<and> list_ex (\<lambda>mk. Contains ua mk) toolingMarkers)\<rparr>)"

section \<open>Contexts and waiting\<close>

datatype ctx_err = Canceled | DeadlineExceeded

text \<open>When a context ends and why; \<open>None\<close> never ends.\<close>

type_synonym ctx = "(time \<times> ctx_err) option"

definition ctx_Err :: "ctx \<Rightarrow> time \<Rightarrow> ctx_err option" where
  "ctx_Err c now = (case c of None \<Rightarrow> None | Some (t, e) \<Rightarrow> if t \<le> now then Some e else None)"

definition WithTimeout :: "ctx \<Rightarrow> time \<Rightarrow> duration \<Rightarrow> ctx" where
  "WithTimeout c now d =
     (case c of None \<Rightarrow> Some (now + d, DeadlineExceeded)
      | Some (t, e) \<Rightarrow> if t \<le> now + d then Some (t, e) else Some (now + d, DeadlineExceeded))"

text \<open>
  The error and the time after the wait. When the timer and the context are due at the same instant
  the context is taken; Go chooses either.
\<close>

definition realSleep :: "ctx \<Rightarrow> time \<Rightarrow> duration \<Rightarrow> ctx_err option \<times> time" where
  "realSleep c now d =
     (if d \<le> 0 then (ctx_Err c now, now)
      else case c of
        None \<Rightarrow> (None, now + d)
      | Some (t, e) \<Rightarrow> if t \<le> now + d then (Some e, max now t) else (None, now + d))"

section \<open>The pump\<close>

text \<open>
  A stream as its interface shows it, live or inert. The world around the pump: the time the \<open>i\<close>-th pull
  takes, what other flows do to the governor before it, and whether a kill lands inside it.
\<close>

definition Stream_Next :: "bool \<Rightarrow> bool \<Rightarrow> Stream \<Rightarrow> Governor \<Rightarrow> (Chunk \<times> DoneReason) \<times> Stream \<times> Governor" where
  "Stream_Next ctx_done late_kill st gv =
     (case st of
        Noop r \<Rightarrow> ((no_chunk, r), Noop r, gv)
      | Live s \<Rightarrow> (case Next ctx_done late_kill s gv of ((cr, s'), gv') \<Rightarrow> (cr, Live s', gv')))"

definition Stream_Observe :: "Stream \<Rightarrow> DriverObservation \<Rightarrow> Stream" where
  "Stream_Observe st obs = (case st of Noop r \<Rightarrow> Noop r | Live s \<Rightarrow> Live (Observe s obs))"

definition Stream_Outcome :: "Stream \<Rightarrow> Outcome" where
  "Stream_Outcome st = (case st of Noop r \<Rightarrow> noop_Outcome r | Live s \<Rightarrow> out s)"

definition Stream_Close :: "Stream \<Rightarrow> Governor \<Rightarrow> Stream \<times> Governor" where
  "Stream_Close st gv = (case st of Noop r \<Rightarrow> (Noop r, gv) | Live s \<Rightarrow> (case Close s gv of (s', gv') \<Rightarrow> (Live s', gv')))"

record pump_env =
  pe_work :: "nat \<Rightarrow> duration"
  pe_others :: "nat \<Rightarrow> Governor \<Rightarrow> Governor"
  pe_late :: "nat \<Rightarrow> bool"

definition append_capped :: "int \<Rightarrow> string \<Rightarrow> string \<Rightarrow> string" where
  "append_capped bodyCap buf data =
     (if int (length buf) < bodyCap then buf @ take (nat (bodyCap - int (length buf))) data else buf)"

text \<open>One round: the pull, and, when it emitted a chunk, the wait.\<close>

definition pump_pull :: "pump_env \<Rightarrow> ctx \<Rightarrow> nat \<Rightarrow> time \<Rightarrow> Stream \<Rightarrow> Governor \<Rightarrow> ((Chunk \<times> DoneReason) \<times> Stream \<times> Governor) \<times> time" where
  "pump_pull env c i now s gv =
     (let now1 = now + pe_work env i
      in (Stream_Next (ctx_Err c now1 \<noteq> None) (pe_late env i) s (pe_others env i gv), now1))"

partial_function (option) pump ::
  "pump_env \<Rightarrow> ctx \<Rightarrow> int \<Rightarrow> nat \<Rightarrow> time \<Rightarrow> string \<Rightarrow> Stream \<Rightarrow> Governor \<Rightarrow> (string \<times> Stream \<times> Governor \<times> time) option" where
  "pump env c bodyCap i now buf s gv =
     (case pump_pull env c i now s gv of (((chunk, dn), s1, gv1), now1) \<Rightarrow>
        if dn \<noteq> NotDone then Some (buf, s1, gv1, now1)
        else case realSleep c now1 (Delay chunk) of
          (Some _, now2) \<Rightarrow>
            (case Stream_Next True False s1 gv1 of (_, s2, gv2) \<Rightarrow> Some (append_capped bodyCap buf (Data chunk), s2, gv2, now2))
        | (None, now2) \<Rightarrow> pump env c bodyCap (Suc i) now2 (append_capped bodyCap buf (Data chunk)) s1 gv1)"

definition defaultAttritionBodyCap :: int where "defaultAttritionBodyCap = 65536"
definition defaultAttritionMaxHold :: duration where "defaultAttritionMaxHold = 8 * second"

definition body_cap :: "int \<Rightarrow> int" where
  "body_cap c = (if c \<le> 0 then defaultAttritionBodyCap else c)"

definition pumpStream ::
  "pump_env \<Rightarrow> ctx \<Rightarrow> Stream \<Rightarrow> int \<Rightarrow> time \<Rightarrow> Governor \<Rightarrow> (string \<times> Stream \<times> Governor \<times> time) option" where
  "pumpStream env c s bodyCap now gv =
     pump env c (body_cap bodyCap) 0 now [] s gv"

section \<open>How a hold ended\<close>

definition classifyDisengage :: "DoneReason \<Rightarrow> ctx_err option \<Rightarrow> f64 \<Rightarrow> int \<times> f64" where
  "classifyDisengage reason holdErr timeHeldSec =
     (case holdErr of
        Some Canceled \<Rightarrow> (DisengageAttacker, timeHeldSec)
      | Some DeadlineExceeded \<Rightarrow> (DisengageDefenderCapped, 0)
      | None \<Rightarrow> (case reason of
            DoneComplete \<Rightarrow> (DisengageGeneratorDone, 0)
          | DoneFlowBudget \<Rightarrow> (DisengageDefenderCapped, 0)
          | DoneGlobalCeiling \<Rightarrow> (DisengageDefenderCapped, 0)
          | DoneKilled \<Rightarrow> (DisengageDefenderCapped, 0)
          | _ \<Rightarrow> (DisengageUnknown, 0)))"

text \<open>
  What the hold leaves: the body, if there is one, and the outcome to report; the governor and the time.
  \<open>late_open\<close> is a kill inside \<^verbatim>\<open>Open\<close>.
\<close>

record hold_result =
  hr_Body :: "string option"
  hr_Outcome :: Outcome
  hr_Gov :: Governor
  hr_Now :: time

definition hold_end :: "ctx \<Rightarrow> string \<Rightarrow> Stream \<Rightarrow> Governor \<Rightarrow> time \<Rightarrow> hold_result" where
  "hold_end holdCtx body s gv now =
     (let oc = Stream_Outcome s; gv' = snd (Stream_Close s gv)
      in if body = [] \<and> oc_BytesServed oc = 0
         then \<lparr>hr_Body = None, hr_Outcome = oc, hr_Gov = gv', hr_Now = now\<rparr>
         else (let (dr, tt) = classifyDisengage (oc_Reason oc) (ctx_Err holdCtx now) (oc_TimeHeldSec oc)
               in \<lparr>hr_Body = Some body, hr_Outcome = oc\<lparr>oc_DisengageReason := dr, oc_TimeToDisengageSec := tt\<rparr>,
                   hr_Gov = gv', hr_Now = now\<rparr>))"

definition attrition_hold ::
  "pump_env \<Rightarrow> bool \<Rightarrow> BoundedAttritor \<Rightarrow> duration \<Rightarrow> int \<Rightarrow> ctx \<Rightarrow> time \<Rightarrow> Governor \<Rightarrow> Verdict \<Rightarrow> DriverObservation \<Rightarrow> hold_result option" where
  "attrition_hold env late_open attr maxHold bodyCap c now gv v digest =
     (case Open late_open attr v gv of (s0, gv0) \<Rightarrow>
       let holdCtx = (if 0 < maxHold then WithTimeout c now maxHold else c)
       in map_option (\<lambda>(body, s, gv1, now1). hold_end holdCtx body s gv1 now1)
            (pumpStream env holdCtx (Stream_Observe s0 digest) bodyCap now gv0))"

section \<open>The pump returns\<close>

text \<open>Enough pulls are left: what the stream may still emit, in chunks.\<close>

definition pulls_left :: "stream \<Rightarrow> nat" where
  "pulls_left s = nat (MaxDuration (st_budget s) - oc_RequestsAbsrb (out s) * MinDelay (gp_Drip (st_params s)))"

lemma Next_pulls_left:
  assumes "Next cd lk s gv = (((c, NotDone), s'), gv')" "stream_ok s"
  shows "stream_ok s'" "pulls_left s' < pulls_left s" "st_budget s' = st_budget s" "st_params s' = st_params s"
proof -
  obtain cur' where e: "held s < MaxDuration (st_budget s)" "s' = meter (active_gen s) (Data c) (Delay c) (s\<lparr>cur := cur'\<rparr>)"
    using Next_emitted[OF assms] by metis
  have ok: "oc_RequestsAbsrb (out s) * MinDelay (gp_Drip (st_params s)) \<le> held s" "0 < MinDelay (gp_Drip (st_params s))"
    using assms(2) by (simp_all add: stream_ok_def params_ok_def pacing_ok_def drip_ok_def)
  show "stream_ok s'" using stream_ok_Next[OF assms(2,1)] .
  show "st_budget s' = st_budget s" "st_params s' = st_params s" using e(2) by simp_all
  show "pulls_left s' < pulls_left s" using e ok by (simp add: pulls_left_def algebra_simps nat_less_iff)
qed

text \<open>
  The rule for the pump: a relation between where a round starts and what the pump returns that holds when
  the round ends it, and is kept by a round that goes on, holds of the pump; and the pump returns.
\<close>

lemma pump_induct:
  assumes ok: "stream_ok s"
    and ended: "\<And>i now buf s gv chunk dn s1 gv1 now1. stream_ok s \<Longrightarrow>
      pump_pull env c i now (Live s) gv = (((chunk, dn), Live s1, gv1), now1) \<Longrightarrow> dn \<noteq> NotDone \<Longrightarrow>
      P i now buf s gv (buf, Live s1, gv1, now1)"
    and cut: "\<And>i now buf s gv chunk s1 gv1 now1 e now2 cr s2 gv2. stream_ok s \<Longrightarrow> stream_ok s1 \<Longrightarrow>
      pump_pull env c i now (Live s) gv = (((chunk, NotDone), Live s1, gv1), now1) \<Longrightarrow>
      realSleep c now1 (Delay chunk) = (Some e, now2) \<Longrightarrow> Next True False s1 gv1 = ((cr, s2), gv2) \<Longrightarrow>
      P i now buf s gv (append_capped bodyCap buf (Data chunk), Live s2, gv2, now2)"
    and more: "\<And>i now buf s gv chunk s1 gv1 now1 now2 r. stream_ok s \<Longrightarrow> stream_ok s1 \<Longrightarrow>
      pump_pull env c i now (Live s) gv = (((chunk, NotDone), Live s1, gv1), now1) \<Longrightarrow>
      realSleep c now1 (Delay chunk) = (None, now2) \<Longrightarrow>
      P (Suc i) now2 (append_capped bodyCap buf (Data chunk)) s1 gv1 r \<Longrightarrow> P i now buf s gv r"
  shows "\<exists>r. pump env c bodyCap i now buf (Live s) gv = Some r \<and> P i now buf s gv r"
  using ok
proof (induction "pulls_left s" arbitrary: s i now buf gv rule: less_induct)
  case less
  obtain chunk dn s1 gv1 where n: "Next (ctx_Err c (now + pe_work env i) \<noteq> None) (pe_late env i) s (pe_others env i gv) = (((chunk, dn), s1), gv1)"
    by (metis prod.collapse)
  then have pp: "pump_pull env c i now (Live s) gv = (((chunk, dn), Live s1, gv1), now + pe_work env i)"
    by (simp add: pump_pull_def Stream_Next_def)
  show ?case
  proof (cases "dn = NotDone")
    case False
    then show ?thesis using ended[OF less.prems pp] by (subst pump.simps) (simp add: pp)
  next
    case True
    note n' = Next_pulls_left[OF n[unfolded True] less.prems]
    obtain sl now2 where sl: "realSleep c (now + pe_work env i) (Delay chunk) = (sl, now2)" by fastforce
    show ?thesis
    proof (cases sl)
      case None
      from less.hyps[OF n'(2,1)] obtain r where r: "pump env c bodyCap (Suc i) now2 (append_capped bodyCap buf (Data chunk)) (Live s1) gv1 = Some r"
        "P (Suc i) now2 (append_capped bodyCap buf (Data chunk)) s1 gv1 r" by blast
      then show ?thesis using more[OF less.prems n'(1) pp[unfolded True] sl[unfolded None]] None True
        by (subst pump.simps) (simp add: pp sl)
    next
      case (Some e)
      obtain cr s2 gv2 where "Next True False s1 gv1 = ((cr, s2), gv2)" by (metis prod.collapse)
      then show ?thesis using cut[OF less.prems n'(1) pp[unfolded True] sl[unfolded Some]] Some True
        by (subst pump.simps) (simp add: pp sl Stream_Next_def)
    qed
  qed
qed

lemma pump_noop: "r \<noteq> NotDone \<Longrightarrow> pump env c bodyCap i now buf (Noop r) gv = Some (buf, Noop r, pe_others env i gv, now + pe_work env i)"
  by (subst pump.simps) (simp add: pump_pull_def Stream_Next_def)

section \<open>What the pump returns\<close>

lemma append_capped_length: "0 < bodyCap \<Longrightarrow> int (length buf) \<le> bodyCap \<Longrightarrow> int (length (append_capped bodyCap buf d)) \<le> bodyCap"
  by (cases "length d \<le> nat (bodyCap - int (length buf))") (auto simp: append_capped_def)

lemma append_capped_le: "length (append_capped bodyCap buf d) \<le> length buf + length d"
  by (simp add: append_capped_def)

lemma append_capped_Nil: "0 < bodyCap \<Longrightarrow> append_capped bodyCap buf d = [] \<longleftrightarrow> buf = [] \<and> d = []"
  by (auto simp: append_capped_def)

lemma realSleep_on: "realSleep (Some (t, e)) now d = (None, now') \<Longrightarrow> now' < t \<and> now' = now + max 0 d"
  by (auto simp: realSleep_def ctx_Err_def split: if_splits)

lemma realSleep_cut: "realSleep (Some (t, e)) now d = (Some e', now') \<Longrightarrow> e' = e \<and> now' = max now t"
  by (auto simp: realSleep_def ctx_Err_def split: if_splits)

lemma pump_pull_Live:
  assumes "pump_pull env c i now (Live s) gv = (((chunk, dn), Live s1, gv1), now1)"
  shows "Next (ctx_Err c now1 \<noteq> None) (pe_late env i) s (pe_others env i gv) = (((chunk, dn), s1), gv1)" "now1 = now + pe_work env i"
  using assms by (auto simp: pump_pull_def Stream_Next_def Let_def split: prod.splits)

text \<open>A pull that is told the context is over finishes the stream and emits nothing.\<close>

lemma Next_over:
  assumes "Next True False s gv = ((cr, s'), gv')"
  shows "oc_Reason (out s') \<noteq> NotDone" "same_account s s'" "gv' = gv"
proof -
  have "gv' = gv \<and> same_account s s' \<and> oc_Reason (out s') \<noteq> NotDone"
    using assms by (auto simp: Next_def finish_def same_account_def split: if_splits)
  then show "oc_Reason (out s') \<noteq> NotDone" "same_account s s'" "gv' = gv" by blast+
qed

text \<open>
  The account of the pump between the start of a round and its end: \<open>D\<close> is a bound on the context's end,
  \<open>W\<close> on the work of a pull.
\<close>

definition pump_account :: "int \<Rightarrow> time \<Rightarrow> duration \<Rightarrow> nat \<Rightarrow> time \<Rightarrow> string \<Rightarrow> stream \<Rightarrow> Governor \<Rightarrow> string \<times> Stream \<times> Governor \<times> time \<Rightarrow> bool" where
  "pump_account bodyCap D W i now buf s gv r =
     (case r of (body, s2', gv2, now2) \<Rightarrow> (case s2' of Noop _ \<Rightarrow> False | Live s2 \<Rightarrow>
        stream_ok s2 \<and> oc_Reason (out s2) \<noteq> NotDone \<and> st_budget s2 = st_budget s \<and> st_params s2 = st_params s \<and>
        (now \<le> D \<longrightarrow> now2 \<le> D + W) \<and> now \<le> now2 \<and>
        (int (length buf) \<le> bodyCap \<longrightarrow> int (length body) \<le> bodyCap) \<and>
        int (length body) - int (length buf) \<le> oc_BytesServed (out s2) - oc_BytesServed (out s) \<and>
        ((buf = [] \<longrightarrow> oc_BytesServed (out s) = 0) \<longrightarrow> (body = [] \<longrightarrow> oc_BytesServed (out s2) = 0)) \<and>
        held s2 - held s \<le> now2 - now + MaxDelay (gp_Drip (st_params s))))"

lemma emitted_account:
  assumes "Next cd lk s gv = (((c, NotDone), s'), gv')" "stream_ok s"
  shows "oc_BytesServed (out s') = oc_BytesServed (out s) + int (length (Data c))" "held s' = held s + Delay c"
    "0 < Delay c" "Delay c \<le> MaxDelay (gp_Drip (st_params s))"
proof -
  obtain cur' where e: "MinDelay (gp_Drip (st_params s)) \<le> Delay c" "Delay c \<le> MaxDelay (gp_Drip (st_params s))"
    "s' = meter (active_gen s) (Data c) (Delay c) (s\<lparr>cur := cur'\<rparr>)"
    using Next_emitted[OF assms] by metis
  then show "oc_BytesServed (out s') = oc_BytesServed (out s) + int (length (Data c))" "held s' = held s + Delay c"
    "Delay c \<le> MaxDelay (gp_Drip (st_params s))" by simp_all
  show "0 < Delay c" using assms(2) e(1) by (simp add: stream_ok_def params_ok_def pacing_ok_def drip_ok_def)
qed

lemma pump_accounts:
  assumes "stream_ok s" "c = Some (t, e)" "t \<le> D" "0 < bodyCap" "\<forall>i. 0 \<le> pe_work env i \<and> pe_work env i \<le> W"
  shows "\<exists>r. pump env c bodyCap i now buf (Live s) gv = Some r \<and> pump_account bodyCap D W i now buf s gv r"
proof (rule pump_induct[OF assms(1)])
  have W: "0 \<le> pe_work env i" "pe_work env i \<le> W" "0 \<le> W" for i using assms(5) order_trans by blast+
  fix i now buf s gv chunk s1 gv1 now1
  assume ok: "stream_ok s"
  have D0: "0 < MaxDelay (gp_Drip (st_params s))" using ok by (simp add: stream_ok_def params_ok_def pacing_ok_def drip_ok_def)
  {
    fix dn assume "pump_pull env c i now (Live s) gv = (((chunk, dn), Live s1, gv1), now1)" "dn \<noteq> NotDone"
    note p = pump_pull_Live[OF this(1)] and e = Next_ended[OF pump_pull_Live(1)[OF this(1)] this(2)]
    have "stream_ok s1" by (rule stream_ok_Next[OF ok p(1)])
    then show "pump_account bodyCap D W i now buf s gv (buf, Live s1, gv1, now1)"
      using e p(2) W(1,2)[of i] D0 \<open>dn \<noteq> NotDone\<close> by (auto simp: pump_account_def same_account_def)
  next
    fix e' now2 cr s2 gv2
    assume ok1: "stream_ok s1" and pp: "pump_pull env c i now (Live s) gv = (((chunk, NotDone), Live s1, gv1), now1)"
      and sl: "realSleep c now1 (Delay chunk) = (Some e', now2)" and n: "Next True False s1 gv1 = ((cr, s2), gv2)"
    note p = pump_pull_Live[OF pp] and o = Next_over[OF n]
    note a = emitted_account[OF p(1) ok] and f = Next_pulls_left(3,4)[OF p(1) ok]
    have "stream_ok s2" by (rule stream_ok_Next[OF ok1 n])
    moreover have "now2 = max now1 t" using realSleep_cut sl assms(2) by blast
    ultimately show "pump_account bodyCap D W i now buf s gv (append_capped bodyCap buf (Data chunk), Live s2, gv2, now2)"
      using o a f p(2) W(1,2)[of i] W(3) assms(3,4) append_capped_length[of bodyCap buf "Data chunk"] append_capped_le[of bodyCap buf "Data chunk"]
      by (auto simp: pump_account_def same_account_def append_capped_Nil)
  next
    fix now2 r
    assume ok1: "stream_ok s1" and pp: "pump_pull env c i now (Live s) gv = (((chunk, NotDone), Live s1, gv1), now1)"
      and sl: "realSleep c now1 (Delay chunk) = (None, now2)"
      and IH: "pump_account bodyCap D W (Suc i) now2 (append_capped bodyCap buf (Data chunk)) s1 gv1 r"
    note p = pump_pull_Live[OF pp] and a = emitted_account[OF pump_pull_Live(1)[OF pp] ok]
      and f = Next_pulls_left(3,4)[OF pump_pull_Live(1)[OF pp] ok]
    have t: "now2 < t" "now2 = now1 + Delay chunk" using realSleep_on[of t e now1 "Delay chunk" now2] sl assms(2) a(3) by simp_all
    obtain body s2 gv2 now3 where r: "r = (body, Live s2, gv2, now3)"
      using IH by (cases r) (auto simp: pump_account_def split: Stream.splits)
    show "pump_account bodyCap D W i now buf s gv r"
      using IH a f t p(2) W(1,2)[of i] assms(3,4) append_capped_length[of bodyCap buf "Data chunk"] append_capped_le[of bodyCap buf "Data chunk"]
      by (simp add: pump_account_def r append_capped_Nil)
  }
qed

lemma pump_balanced:
  assumes "stream_ok s" "\<forall>i. pe_others env i = id \<and> \<not> pe_late env i" "balanced gv0 s gv"
  shows "\<exists>body s2 gv2 now2. pump env c bodyCap i now buf (Live s) gv = Some (body, Live s2, gv2, now2) \<and> balanced gv0 s2 gv2"
proof -
  define P where "P = (\<lambda>(i::nat) (now::time) (buf::string) s gv (r :: string \<times> Stream \<times> Governor \<times> time).
    balanced gv0 s gv \<longrightarrow> (case r of (body, s2, gv2, now2) \<Rightarrow> (case s2 of Noop _ \<Rightarrow> False | Live s2 \<Rightarrow> balanced gv0 s2 gv2)))"
  have pull: "balanced gv0 s1 gv1" if "pump_pull env c i now (Live s) gv = (((chunk, dn), Live s1, gv1), now1)" "balanced gv0 s gv"
    for i now s gv chunk dn s1 gv1 now1
    using pump_pull_Live(1)[OF that(1)] assms(2) balanced_Next[OF that(2)] by auto
  have "\<exists>r. pump env c bodyCap i now buf (Live s) gv = Some r \<and> P i now buf s gv r"
    by (rule pump_induct[OF assms(1)]) (auto simp: P_def dest: pull balanced_Next)
  then show ?thesis using assms(3) by (fastforce simp: P_def split: Stream.splits)
qed

section \<open>The hold\<close>

lemma Observe_frame:
  "oc_BytesServed (out (Observe s obs)) = oc_BytesServed (out s)" "held (Observe s obs) = held s" "reserved (Observe s obs) = reserved s"
  "st_budget (Observe s obs) = st_budget s" "st_params (Observe s obs) = st_params s" "closed (Observe s obs) = closed s"
  "st_gens (Observe s obs) = st_gens s" "cur (Observe s obs) = cur s"
  by (simp_all add: Observe_def Let_def)

lemma Stream_Close_Live: "Stream_Close (Live s) gv = (Live (fst (Close s gv)), snd (Close s gv))"
  by (simp add: Stream_Close_def split: prod.split)

lemma hold_Noop:
  assumes "Open lo a v gv = (Noop r, gv1)"
  shows "attrition_hold env lo a maxHold bodyCap c now gv v digest =
    Some \<lparr>hr_Body = None, hr_Outcome = noop_Outcome r, hr_Gov = pe_others env 0 gv1, hr_Now = now + pe_work env 0\<rparr>"
proof -
  have "r \<noteq> NotDone" using assms by (auto simp: Open_def Let_def split: if_splits prod.splits bool.splits)
  then show ?thesis
    by (simp add: attrition_hold_def assms Stream_Observe_def pumpStream_def pump_noop Stream_Outcome_def Stream_Close_def
        noop_Outcome_def new_outcome_def hold_end_def)
qed

text \<open>The live hold: what the pump accounts for.\<close>

lemma WithTimeout_bound: "\<exists>t e. WithTimeout c now d = Some (t, e) \<and> t \<le> now + d"
  by (cases c) (auto simp: WithTimeout_def)

lemma hold_Live:
  assumes "attrition_New scan cfg = Inr (a, g)" "pacing_fits cfg" "Open lo a v gv = (Live s0, gv1)"
    and "\<forall>i. 0 \<le> pe_work env i \<and> pe_work env i \<le> W" "0 < maxHold"
  shows "\<exists>body s2 gv2 now2.
    pump_account (body_cap bodyCap) (now + maxHold) W 0 now [] (Observe s0 digest) gv1 (body, Live s2, gv2, now2) \<and>
    attrition_hold env lo a maxHold bodyCap c now gv v digest = Some (hold_end (WithTimeout c now maxHold) body (Live s2) gv2 now2) \<and>
    pump env (WithTimeout c now maxHold) (body_cap bodyCap) 0 now [] (Live (Observe s0 digest)) gv1 = Some (body, Live s2, gv2, now2)"
proof -
  obtain t e where c: "WithTimeout c now maxHold = Some (t, e)" "t \<le> now + maxHold" using WithTimeout_bound by blast
  have cap: "0 < body_cap bodyCap" by (simp add: body_cap_def defaultAttritionBodyCap_def)
  have ok: "stream_ok (Observe s0 digest)" using Open_stream_ok[OF assms(1-3)] by (rule inv_intros)
  obtain r where r: "pump env (WithTimeout c now maxHold) (body_cap bodyCap) 0 now [] (Live (Observe s0 digest)) gv1 = Some r"
    "pump_account (body_cap bodyCap) (now + maxHold) W 0 now [] (Observe s0 digest) gv1 r"
    using pump_accounts[OF ok c cap assms(4), of 0 now "[]" gv1] by blast
  obtain body s2 gv2 now2 where r': "r = (body, Live s2, gv2, now2)"
    using r(2) by (cases r) (auto simp: pump_account_def split: Stream.splits)
  have "attrition_hold env lo a maxHold bodyCap c now gv v digest = Some (hold_end (WithTimeout c now maxHold) body (Live s2) gv2 now2)"
    using r(1) assms(5) by (simp add: attrition_hold_def assms(3) Stream_Observe_def pumpStream_def r')
  with r show ?thesis unfolding r' by blast
qed

lemma classifyDisengage_facts:
  "fst (classifyDisengage r e t) = DisengageAttacker \<longleftrightarrow> e = Some Canceled"
  "snd (classifyDisengage r e t) \<noteq> 0 \<Longrightarrow> e = Some Canceled"
  by (auto simp: classifyDisengage_def split: option.splits ctx_err.splits DoneReason.splits)

text \<open>The shape of a result: no body and nothing served, or a body and a classified end.\<close>

lemma hold_end_shape:
  assumes "body = [] \<longrightarrow> oc_BytesServed (out s) = 0"
  shows "hr_Now (hold_end hc body (Live s) gv now) = now" "hr_Gov (hold_end hc body (Live s) gv now) = snd (Close s gv)"
    "oc_Reason (hr_Outcome (hold_end hc body (Live s) gv now)) = oc_Reason (out s)"
    "oc_BytesServed (hr_Outcome (hold_end hc body (Live s) gv now)) = oc_BytesServed (out s)"
    "oc_TimeHeldSec (hr_Outcome (hold_end hc body (Live s) gv now)) = oc_TimeHeldSec (out s)"
    "hr_Body (hold_end hc body (Live s) gv now) = (if body = [] then None else Some body)"
    "body \<noteq> [] \<Longrightarrow> oc_DisengageReason (hr_Outcome (hold_end hc body (Live s) gv now)) = DisengageAttacker \<longleftrightarrow> ctx_Err hc now = Some Canceled"
    "body \<noteq> [] \<Longrightarrow> oc_TimeToDisengageSec (hr_Outcome (hold_end hc body (Live s) gv now)) =
       (if ctx_Err hc now = Some Canceled then oc_TimeHeldSec (out s) else 0)"
  using assms
  by (auto simp: hold_end_def Let_def Stream_Outcome_def Stream_Close_Live classifyDisengage_def
      split: prod.splits option.splits ctx_err.splits DoneReason.splits)

text \<open>What every hold comes to, on all its branches.\<close>

lemma hold_facts:
  assumes "attrition_New scan cfg = Inr (a, g)" "pacing_fits cfg" "\<forall>i. 0 \<le> pe_work env i \<and> pe_work env i \<le> W" "0 < maxHold"
  shows "\<exists>r. attrition_hold env lo a maxHold bodyCap c now gv v digest = Some r \<and> now \<le> hr_Now r \<and> hr_Now r \<le> now + maxHold + W \<and>
    oc_Reason (hr_Outcome r) \<noteq> NotDone \<and>
    (case hr_Body r of None \<Rightarrow> oc_BytesServed (hr_Outcome r) = 0
     | Some b \<Rightarrow> b \<noteq> [] \<and> int (length b) \<le> (if bodyCap \<le> 0 then 65536 else bodyCap) \<and>
         int (length b) \<le> oc_BytesServed (hr_Outcome r) \<and> oc_BytesServed (hr_Outcome r) \<le> MaxBytesPerFlow (Budget_Normalized (at_Budget cfg)) \<and>
         (oc_DisengageReason (hr_Outcome r) = DisengageAttacker \<longleftrightarrow> (\<exists>t. c = Some (t, Canceled) \<and> t \<le> now + maxHold \<and> t \<le> hr_Now r)) \<and>
         (oc_TimeToDisengageSec (hr_Outcome r) \<noteq> 0 \<longrightarrow> oc_DisengageReason (hr_Outcome r) = DisengageAttacker))"
proof (cases "Open lo a v gv")
  case (Pair st gv1)
  have W: "0 \<le> pe_work env 0" "pe_work env 0 \<le> W" using assms(3) by blast+
  show ?thesis
  proof (cases st)
    case (Noop r)
    have "r \<noteq> NotDone" using Pair Noop by (auto simp: Open_def Let_def split: if_splits prod.splits bool.splits)
    then show ?thesis
      using hold_Noop[OF Pair[unfolded Noop], of env maxHold bodyCap c now digest] W assms(4)
      by (simp add: noop_Outcome_def new_outcome_def)
  next
    case (Live s0)
    obtain body s2 gv2 now2 where
      acc: "pump_account (body_cap bodyCap) (now + maxHold) W 0 now [] (Observe s0 digest) gv1 (body, Live s2, gv2, now2)"
      and hold: "attrition_hold env lo a maxHold bodyCap c now gv v digest = Some (hold_end (WithTimeout c now maxHold) body (Live s2) gv2 now2)"
      using hold_Live[OF assms(1,2) Pair[unfolded Live] assms(3,4), of bodyCap now digest c] by blast
    have z: "oc_BytesServed (out s0) = 0" "st_budget s0 = Budget_Normalized (at_Budget cfg)"
      by (simp_all add: Open_live(6)[OF Pair[unfolded Live]] New_parts[OF assms(1)] new_outcome_def)
    have canc: "ctx_Err (WithTimeout c now maxHold) now2 = Some Canceled \<longleftrightarrow> (\<exists>t. c = Some (t, Canceled) \<and> t \<le> now + maxHold \<and> t \<le> now2)"
      by (auto simp: ctx_Err_def WithTimeout_def split: option.splits if_splits)
    note facts = acc[unfolded pump_account_def, simplified Observe_frame z, simplified]
    then have e: "body = [] \<longrightarrow> oc_BytesServed (out s2) = 0" by simp
    have "oc_BytesServed (out s2) \<le> MaxBytesPerFlow (Budget_Normalized (at_Budget cfg))"
      using facts by (auto simp: stream_ok_def)
    with facts assms(4) canc e show ?thesis unfolding hold
      by (cases "body = []") (auto simp: hold_end_shape body_cap_def defaultAttritionBodyCap_def split: if_splits)
  qed
qed

text \<open>
  The hold is bounded for the defender. Whatever attrition configuration was built, whatever the
  client does, whatever other flows and kills do to the shared governor, an inline hold returns; it is over
  at its deadline, up to the work of one pull; the body it serves is never empty, fits the cap and was paid
  for in the budget; the outcome it reports has a final reason, and credits the attacker with giving up only
  if the client's connection ended before the deadline. When it serves nothing the plain denial is sent.
\<close>

theorem hold_bounded:
  assumes "attrition_New scan cfg = Inr (a, g)" "pacing_fits cfg" "\<forall>i. 0 \<le> pe_work env i \<and> pe_work env i \<le> W" "0 < maxHold"
  shows "\<exists>r. attrition_hold env lo a maxHold bodyCap c now gv v digest = Some r \<and> now \<le> hr_Now r \<and> hr_Now r \<le> now + maxHold + W \<and>
    oc_Reason (hr_Outcome r) \<noteq> NotDone \<and>
    (case hr_Body r of None \<Rightarrow> oc_BytesServed (hr_Outcome r) = 0
     | Some b \<Rightarrow> b \<noteq> [] \<and> int (length b) \<le> (if bodyCap \<le> 0 then 65536 else bodyCap) \<and>
         int (length b) \<le> oc_BytesServed (hr_Outcome r) \<and> oc_BytesServed (hr_Outcome r) \<le> MaxBytesPerFlow (Budget_Normalized (at_Budget cfg)) \<and>
         (oc_DisengageReason (hr_Outcome r) = DisengageAttacker \<longleftrightarrow> (\<exists>t. c = Some (t, Canceled) \<and> t \<le> now + maxHold \<and> t \<le> hr_Now r)) \<and>
         (oc_TimeToDisengageSec (hr_Outcome r) \<noteq> 0 \<longrightarrow> oc_DisengageReason (hr_Outcome r) = DisengageAttacker))"
  using hold_facts[OF assms] .

text \<open>An idle host: pulls take no time and nobody else touches the governor.\<close>

definition idle :: pump_env where
  "idle = \<lparr>pe_work = \<lambda>_. 0, pe_others = \<lambda>_. id, pe_late = \<lambda>_. False\<rparr>"

lemma hold_bounded_witness:
  "\<exists>r. attrition_hold idle False (built demo_attrition) defaultAttritionMaxHold 0 None 0 (NewGovernor 0 0) demo_verdict (digestObservation \<lparr>ob_Method = [], ob_Path = [], ob_Headers = (\<lambda>_. None)\<rparr>) = Some r \<and>
    hr_Now r \<le> 8 * second"
proof -
  have "\<forall>i. 0 \<le> pe_work idle i \<and> pe_work idle i \<le> 0" "0 < defaultAttritionMaxHold"
    by (simp_all add: idle_def defaultAttritionMaxHold_def)
  from hold_bounded[OF demo_New demo_pacing this, of False 0 None 0 "NewGovernor 0 0" demo_verdict]
  show ?thesis by (force simp: defaultAttritionMaxHold_def)
qed

text \<open>A hold alone with its governor gives back what it took.\<close>

lemma hold_conserves:
  assumes "attrition_New scan cfg = Inr (a, g)" "pacing_fits cfg" "\<forall>i. pe_others env i = id \<and> \<not> pe_late env i"
    and "\<forall>i. 0 \<le> pe_work env i \<and> pe_work env i \<le> W" "0 < maxHold" "gov_ok gv"
    and "attrition_hold env False a maxHold bodyCap c now gv v digest = Some r"
  shows "usedBytes (hr_Gov r) = usedBytes gv \<and> activeStreams (hr_Gov r) = activeStreams gv"
proof (cases "Open False a v gv")
  case (Pair st gv1)
  show ?thesis
  proof (cases st)
    case (Noop x)
    have "gv1 = gv" using open_gates[OF assms(1), of v gv] Pair Noop by simp
    with hold_Noop[OF Pair[unfolded Noop]] assms(3,7) show ?thesis by auto
  next
    case (Live s0)
    have ok: "stream_ok (Observe s0 digest)" using Open_stream_ok[OF assms(1,2) Pair[unfolded Live]] by (rule inv_intros)
    have "session a v gv (Observe s0 digest) gv1" using Pair Live session.opens session.observes by blast
    then have b: "balanced gv (Observe s0 digest) gv1" by (rule session_balanced[OF assms(1,2,6)])
    obtain body s2 gv2 now2 where h: "attrition_hold env False a maxHold bodyCap c now gv v digest = Some (hold_end (WithTimeout c now maxHold) body (Live s2) gv2 now2)"
      and p: "pump env (WithTimeout c now maxHold) (body_cap bodyCap) 0 now [] (Live (Observe s0 digest)) gv1 = Some (body, Live s2, gv2, now2)"
      using hold_Live[OF assms(1,2) Pair[unfolded Live] assms(4,5), of bodyCap now digest c] by blast
    have "balanced gv s2 gv2" using pump_balanced[OF ok assms(3) b, where c = "WithTimeout c now maxHold" and bodyCap = "body_cap bodyCap" and i = 0 and now = now and buf = "[]"] p by auto
    moreover have "0 \<le> usedBytes gv" using assms(6) by (simp add: gov_ok_def)
    ultimately have "balanced gv (fst (Close s2 gv2)) (snd (Close s2 gv2)) \<and> closed (fst (Close s2 gv2))"
      using balanced_Close[of gv s2 gv2] by (metis prod.collapse)
    moreover have "hr_Gov r = snd (Close s2 gv2)" using h assms(7) by (auto simp: hold_end_def Let_def Stream_Close_Live split: prod.splits if_splits)
    ultimately show ?thesis by (auto simp: balanced_def stream_ok_def)
  qed
qed

text \<open>
  The reported hold is longer than the real one. When the client goes away inside the first wait, the
  outcome credits the whole delay of the chunk as time held and as time to disengage, although the hold
  lasted only until the client left.
\<close>

theorem cut_hold_overreported:
  assumes "attrition_New scan cfg = Inr (a, g)" "pacing_fits cfg" "\<forall>i. pe_work env i = 0" "0 < maxHold"
    and "now < t" "t < now + MinDelay (Drip_Normalized (at_Drip cfg))" "t \<le> now + maxHold"
    and "attrition_hold env lo a maxHold bodyCap (Some (t, Canceled)) now gv v digest = Some r" "hr_Body r = Some b"
  shows "hr_Now r = t \<and> (\<exists>d. MinDelay (Drip_Normalized (at_Drip cfg)) \<le> d \<and>
    oc_TimeHeldSec (hr_Outcome r) = Seconds d \<and> oc_TimeToDisengageSec (hr_Outcome r) = Seconds d)"
proof -
  have W: "\<forall>i. 0 \<le> pe_work env i \<and> pe_work env i \<le> 0" using assms(3) by simp
  obtain s0 gv1 where o: "Open lo a v gv = (Live s0, gv1)"
    using assms(8,9) hold_Noop by (cases "Open lo a v gv"; cases "fst (Open lo a v gv)") fastforce+
  let ?c = "Some (t, Canceled)" and ?s = "Observe s0 digest"
  have c: "WithTimeout ?c now maxHold = ?c" using assms(7) by (simp add: WithTimeout_def)
  obtain body s2 gv2 now2 where h: "attrition_hold env lo a maxHold bodyCap ?c now gv v digest = Some (hold_end ?c body (Live s2) gv2 now2)"
    and acc: "pump_account (body_cap bodyCap) (now + maxHold) 0 0 now [] ?s gv1 (body, Live s2, gv2, now2)"
    and p: "pump env ?c (body_cap bodyCap) 0 now [] (Live ?s) gv1 = Some (body, Live s2, gv2, now2)"
    using hold_Live[OF assms(1,2) o W assms(4), where bodyCap = bodyCap and now = now and digest = digest and c = ?c, unfolded c] by blast
  have ok: "stream_ok ?s" using Open_stream_ok[OF assms(1,2) o] by (rule inv_intros)
  have z: "held s0 = 0" "oc_BytesServed (out s0) = 0" "gp_Drip (st_params s0) = Drip_Normalized (at_Drip cfg)"
    by (simp_all add: Open_live(6)[OF o] New_parts[OF assms(1)] new_outcome_def)
  have "body = [] \<longrightarrow> oc_BytesServed (out s2) = 0" using acc z by (simp add: pump_account_def Observe_frame)
  note shape = hold_end_shape[OF this, where hc = ?c and gv = gv2 and now = now2]
  have r: "r = hold_end ?c body (Live s2) gv2 now2" using h assms(8) by simp
  with shape(6) assms(9) have body: "body \<noteq> []" by (auto split: if_splits)
  obtain chunk dn s1 g1 where n: "Next False (pe_late env 0) ?s (pe_others env 0 gv1) = (((chunk, dn), s1), g1)" by (metis prod.collapse)
  have pull: "pump_pull env ?c 0 now (Live ?s) gv1 = (((chunk, dn), Live s1, g1), now)"
    using n assms(3,5) by (simp add: pump_pull_def Stream_Next_def ctx_Err_def)
  have dn: "dn = NotDone" using p body by (subst (asm) pump.simps) (auto simp: pull split: if_splits)
  obtain cur' where e: "MinDelay (Drip_Normalized (at_Drip cfg)) \<le> Delay chunk" "s1 = meter (active_gen ?s) (Data chunk) (Delay chunk) (?s\<lparr>cur := cur'\<rparr>)"
    using Next_emitted[OF n[unfolded dn] ok] z by (metis Observe_frame(5))
  have sl: "realSleep ?c now (Delay chunk) = (Some Canceled, t)" using e(1) assms(5,6) by (simp add: realSleep_def)
  obtain cr s3 g3 where n3: "Next True False s1 g1 = ((cr, s3), g3)" by (metis prod.collapse)
  have s2: "s2 = s3" "now2 = t"
    using p by (subst (asm) pump.simps, simp add: pull dn sl Stream_Next_def n3)+
  have "oc_TimeHeldSec (out s3) = oc_TimeHeldSec (out s1)" using n3 by (auto simp: Next_def finish_def split: if_splits)
  moreover have "oc_TimeHeldSec (out s1) = Seconds (Delay chunk)"
    using e(2) z by (simp add: meter_def Let_def Observe_frame meter_poison_def)
  moreover have "ctx_Err ?c now2 = Some Canceled" using s2 by (simp add: ctx_Err_def)
  ultimately show ?thesis using shape(1,5) shape(8)[OF body] s2 e(1) r by auto
qed

lemma fillerChunk_ne: "fillerChunk seed idx 64 \<noteq> []" "length (fillerChunk seed idx 64) \<le> 64"
  by (simp_all add: fillerChunk_def Let_def min_le_iff_disj)

lemma demo_jail: "v_Tier demo_verdict = 3"
  by (simp add: demo_verdict_def)

lemma demo_stream_fields:
  "oc_Reason (out demo_stream) = NotDone" "oc_BytesServed (out demo_stream) = 0" "oc_RequestsAbsrb (out demo_stream) = 0"
  "ChunkBytes (gp_Drip (st_params demo_stream)) = 64" "MaxDuration (st_budget demo_stream) = 120 * second"
  "MaxBytesPerFlow (st_budget demo_stream) = 5242880" "st_gens demo_stream = all_generators" "chunkIdx (cur demo_stream) = 0"
  "held demo_stream = 0"
  by (subst Open_live(6)[OF demo_Open], simp add: demo_gens[unfolded demo_verdict_def] new_outcome_def start_cursor_def demo_jail,
      (simp add: built_def demo_attrition_def Budget_Normalized_def Drip_Normalized_def Let_def)?)+

lemma demo_pull:
  "\<exists>c s' gv'. Next False False (Observe demo_stream obs) ((NewGovernor 0 0)\<lparr>activeStreams := 1\<rparr>) = (((c, NotDone), s'), gv') \<and> Data c \<noteq> []"
proof -
  have d: "fillerChunk seed 0 64 \<noteq> [] \<and> int (length (fillerChunk seed 0 64)) \<le> 64" for seed
    using fillerChunk_ne[of seed 0] by simp
  have r: "oc_Reason (out (Observe demo_stream obs)) = NotDone"
    using demo_stream_fields(1) by (simp add: Observe_def Let_def)
  have "wrap64 (int (length (fillerChunk seed 0 64))) = int (length (fillerChunk seed 0 64))" for seed
    using d[of seed] by (intro wrap64_id) auto
  with d[of "cur_seed (cur demo_stream)"] show ?thesis
    by (auto simp: Next_def Observe_frame Killed_def NewGovernor_def demo_stream_fields r tarpit_def Reserve_def Let_def all_generators_def)
qed

lemma demo_min_delay: "MinDelay (gp_Drip (st_params demo_stream)) = 2 * second"
  by (subst Open_live(6)[OF demo_Open], simp add: built_def demo_attrition_def Drip_Normalized_def Let_def)

lemma cut_hold_overreported_witness:
  "\<exists>r d. attrition_hold idle False (built demo_attrition) (8 * second) 0 (Some (1, Canceled)) 0 (NewGovernor 0 0) demo_verdict
      \<lparr>RequestCount = 1, DistinctDecoys = 1, SuspectedExploit = False, ToolingExposed = False\<rparr> = Some r \<and>
    hr_Now r = 1 \<and> 2 * second \<le> d \<and> oc_TimeToDisengageSec (hr_Outcome r) = Seconds d"
proof -
  let ?obs = "\<lparr>RequestCount = 1, DistinctDecoys = 1, SuspectedExploit = False, ToolingExposed = False\<rparr>"
  have w: "\<forall>i. 0 \<le> pe_work idle i \<and> pe_work idle i \<le> 0" "\<forall>i. pe_work idle i = 0" by (simp_all add: idle_def)
  let ?hold = "attrition_hold idle False (built demo_attrition) (8 * second) 0 (Some (1, Canceled)) 0 (NewGovernor 0 0) demo_verdict ?obs"
  obtain c s' gv' where n: "Next False False (Observe demo_stream ?obs) ((NewGovernor 0 0)\<lparr>activeStreams := 1\<rparr>) = (((c, NotDone), s'), gv')" "Data c \<noteq> []"
    using demo_pull by blast
  have ok: "stream_ok (Observe demo_stream ?obs)" using Open_stream_ok[OF demo_New demo_pacing demo_Open] by (rule inv_intros)
  have m: "2 * second \<le> Delay c"
    using Next_emitted[OF n(1) ok] Open_live(6)[OF demo_Open]
    by (metis Observe_frame(5) demo_min_delay)
  obtain cr s2 gv2 where n2: "Next True False s' gv' = ((cr, s2), gv2)" by (metis prod.collapse)
  have b: "oc_BytesServed (out s2) = int (length (Data c))"
    using Next_over(2)[OF n2] emitted_account(1)[OF n(1) ok] by (simp add: same_account_def Observe_frame demo_stream_fields)
  have "pump idle (Some (1, Canceled)) (body_cap 0) 0 0 [] (Live (Observe demo_stream ?obs)) ((NewGovernor 0 0)\<lparr>activeStreams := 1\<rparr>) =
      Some (append_capped (body_cap 0) [] (Data c), Live s2, gv2, 1)"
    using m by (subst pump.simps) (simp add: pump_pull_def Stream_Next_def idle_def ctx_Err_def n(1) realSleep_def n2)
  then have "?hold = Some (hold_end (Some (1, Canceled)) (append_capped (body_cap 0) [] (Data c)) (Live s2) gv2 1)"
    by (simp add: attrition_hold_def demo_Open pumpStream_def Stream_Observe_def WithTimeout_def)
  moreover have "hr_Body (hold_end (Some (1, Canceled)) (append_capped (body_cap 0) [] (Data c)) (Live s2) gv2 1) = Some (append_capped (body_cap 0) [] (Data c))"
    using n(2) b by (subst hold_end_shape(6)) (auto simp: append_capped_Nil body_cap_def defaultAttritionBodyCap_def)
  ultimately show ?thesis
    using cut_hold_overreported[OF demo_New demo_pacing w(2), of "8 * second" 0 1 False 0 "NewGovernor 0 0" demo_verdict ?obs]
    by (fastforce simp: demo_attrition_def Drip_Normalized_def)
qed
end
