(* ===== verification/Canaries.thy ===== *)
theory Canaries
  imports Contract GoStrings Float64
begin

text \<open>
  Where bait is placed and how a touch becomes a signal: the catalog's construction and its fail-closed
  generation (\<^verbatim>\<open>internal/canary/catalog/catalog.go\<close>), the planner, the scope-keyed registry and the seeder
  (\<^verbatim>\<open>internal/canary/seeder\<close>), and the signal builder with its directory walk
  (\<^verbatim>\<open>internal/canary/signal/signal.go\<close>). Theorems: only an attributable touch of a placement in the same scope becomes a
  signal, and the walk finds a directory canary above every clean path; every placed instance passed
  the harmlessness gate; rotation keeps the surface and leaves nothing stale.
\<close>

section \<open>The catalog\<close>

abbreviation (input) TypePlantedCredential :: CanaryType where "TypePlantedCredential \<equiv> ''planted_credential''"
abbreviation (input) TypeFakeSecret :: CanaryType where "TypeFakeSecret \<equiv> ''fake_secret''"
abbreviation (input) TypeDecoyFile :: CanaryType where "TypeDecoyFile \<equiv> ''decoy_file''"
abbreviation (input) TypeFakeBucket :: CanaryType where "TypeFakeBucket \<equiv> ''fake_bucket''"
abbreviation (input) TypeFakeEndpoint :: CanaryType where "TypeFakeEndpoint \<equiv> ''fake_endpoint''"

record Instance =
  in_Type :: CanaryType
  in_Payload :: string

datatype catalog_error =
  MissingFunctions CanaryType | DuplicateType CanaryType | GeneratorFailed CanaryType error | NotHarmless CanaryType string
| UnknownType CanaryType | WrongType CanaryType CanaryType

text \<open>An entry's generator draws from a source of randomness of state \<open>'r\<close>.\<close>

record 'r Entry =
  et_Type :: CanaryType
  et_SeedWeight :: f64
  et_Generate :: "('r \<Rightarrow> (error + Instance) \<times> 'r) option"
  et_Harmless :: "(Instance \<Rightarrow> string option) option"

record 'r Catalog =
  ct_entries :: "(CanaryType \<times> 'r Entry) list"
  ct_order :: "CanaryType list"

definition defaultHarmlessSamples :: nat where "defaultHarmlessSamples = 64"

text \<open>\<open>cross\<close> is the universal scan \<^verbatim>\<open>harmless.CrossScan\<close>.\<close>

definition IsHarmless :: "(string \<Rightarrow> string option) \<Rightarrow> 'r Catalog \<Rightarrow> Instance \<Rightarrow> catalog_error option" where
  "IsHarmless cross c i =
     (case map_of (ct_entries c) (in_Type i) of
        None \<Rightarrow> Some (UnknownType (in_Type i))
      | Some e \<Rightarrow> (case the (et_Harmless e) i of
            Some why \<Rightarrow> Some (NotHarmless (in_Type i) why)
          | None \<Rightarrow> map_option (NotHarmless (in_Type i)) (cross (in_Payload i))))"

fun register :: "'r Entry list \<Rightarrow> 'r Catalog \<Rightarrow> catalog_error + 'r Catalog" where
  "register [] c = Inr c"
| "register (e # es) c =
     (if et_Generate e = None \<or> et_Harmless e = None then Inl (MissingFunctions (et_Type e))
      else if et_Type e \<in> fst ` set (ct_entries c) then Inl (DuplicateType (et_Type e))
      else register es (c\<lparr>ct_entries := ct_entries c @ [(et_Type e, e)], ct_order := ct_order c @ [et_Type e]\<rparr>))"

fun sample_type :: "(string \<Rightarrow> string option) \<Rightarrow> 'r Catalog \<Rightarrow> CanaryType \<Rightarrow> nat \<Rightarrow> 'r \<Rightarrow> catalog_error option \<times> 'r" where
  "sample_type cross c t 0 r = (None, r)"
| "sample_type cross c t (Suc n) r =
     (case the (et_Generate (the (map_of (ct_entries c) t))) r of
        (Inl err, r') \<Rightarrow> (Some (GeneratorFailed t err), r')
      | (Inr inst, r') \<Rightarrow> (case IsHarmless cross c inst of Some err \<Rightarrow> (Some err, r') | None \<Rightarrow> sample_type cross c t n r'))"

fun sample_all :: "(string \<Rightarrow> string option) \<Rightarrow> 'r Catalog \<Rightarrow> CanaryType list \<Rightarrow> nat \<Rightarrow> 'r \<Rightarrow> catalog_error option \<times> 'r" where
  "sample_all cross c [] n r = (None, r)"
| "sample_all cross c (t # ts) n r =
     (case sample_type cross c t n r of (Some err, r') \<Rightarrow> (Some err, r') | (None, r') \<Rightarrow> sample_all cross c ts n r')"

definition build :: "(string \<Rightarrow> string option) \<Rightarrow> 'r Entry list \<Rightarrow> nat \<Rightarrow> 'r \<Rightarrow> (catalog_error + 'r Catalog) \<times> 'r" where
  "build cross defs samples r =
     (case register defs \<lparr>ct_entries = [], ct_order = []\<rparr> of
        Inl err \<Rightarrow> (Inl err, r)
      | Inr c \<Rightarrow> (case sample_all cross c (ct_order c) samples r of (Some err, r') \<Rightarrow> (Inl err, r') | (None, r') \<Rightarrow> (Inr c, r')))"

definition catalog_New :: "(string \<Rightarrow> string option) \<Rightarrow> 'r Entry list \<Rightarrow> int \<Rightarrow> 'r \<Rightarrow> (catalog_error + 'r Catalog) \<times> 'r" where
  "catalog_New cross defs samples r = build cross defs (if samples \<le> 0 then defaultHarmlessSamples else nat samples) r"

definition Generate :: "(string \<Rightarrow> string option) \<Rightarrow> 'r Catalog \<Rightarrow> CanaryType \<Rightarrow> 'r \<Rightarrow> (catalog_error + Instance) \<times> 'r" where
  "Generate cross c t r =
     (case map_of (ct_entries c) t of
        None \<Rightarrow> (Inl (UnknownType t), r)
      | Some e \<Rightarrow>
         (case the (et_Generate e) r of
            (Inl err, r') \<Rightarrow> (Inl (GeneratorFailed t err), r')
          | (Inr inst, r') \<Rightarrow>
              if in_Type inst \<noteq> t then (Inl (WrongType t (in_Type inst)), r')
              else case IsHarmless cross c inst of Some err \<Rightarrow> (Inl err, r') | None \<Rightarrow> (Inr inst, r')))"

definition SeedWeights :: "'r Catalog \<Rightarrow> (CanaryType \<times> f64) list" where
  "SeedWeights c = map (\<lambda>(t, e). (t, et_SeedWeight e)) (ct_entries c)"

section \<open>Placements and the registry\<close>

type_synonym Location = string

datatype Mode = Minefield | Active_mode

datatype PlacementOrigin = OriginOperatorBroad | OriginNegativeSpace | OriginLateralPath

record Placement =
  pl_ID :: string
  pl_Scope :: ScopeKey
  pl_Type :: CanaryType
  pl_Location :: Location
  pl_Instance :: Instance
  pl_Mode :: Mode
  pl_PlacedAt :: time
  pl_ExpiresAt :: time
  pl_Origin :: PlacementOrigin

datatype seeder_error = SeederNoScope | SeederNoLocation | SeederNilCatalog | SeederCatalog catalog_error

type_synonym MemRegistry = "(ScopeKey \<times> (Location \<times> Placement) list) list"

definition partition_of :: "MemRegistry \<Rightarrow> ScopeKey \<Rightarrow> (Location \<times> Placement) list" where
  "partition_of m scope = (case map_of m scope of None \<Rightarrow> [] | Some byLoc \<Rightarrow> byLoc)"

definition registry_Put :: "MemRegistry \<Rightarrow> Placement \<Rightarrow> seeder_error option \<times> MemRegistry" where
  "registry_Put m p =
     (if pl_Scope p = [] then (Some SeederNoScope, m)
      else if pl_Location p = [] then (Some SeederNoLocation, m)
      else (None, AList.update (pl_Scope p) (AList.update (pl_Location p) p (partition_of m (pl_Scope p))) m))"

definition registry_Lookup :: "MemRegistry \<Rightarrow> ScopeKey \<Rightarrow> Location \<Rightarrow> Placement option" where
  "registry_Lookup m scope loc = map_of (partition_of m scope) loc"

definition registry_List :: "(Placement list \<Rightarrow> Placement list) \<Rightarrow> MemRegistry \<Rightarrow> ScopeKey \<Rightarrow> Placement list" where
  "registry_List perm m scope = perm (map snd (partition_of m scope))"

definition registry_Remove :: "MemRegistry \<Rightarrow> ScopeKey \<Rightarrow> Location \<Rightarrow> MemRegistry" where
  "registry_Remove m scope loc =
     (case map_of m scope of None \<Rightarrow> m | Some byLoc \<Rightarrow> AList.update scope (AList.delete loc byLoc) m)"

definition expired_at :: "time \<Rightarrow> Placement \<Rightarrow> bool" where
  "expired_at now p \<longleftrightarrow> pl_ExpiresAt p \<noteq> 0 \<and> \<not> now < pl_ExpiresAt p"

definition Expired :: "(Placement list \<Rightarrow> Placement list) \<Rightarrow> MemRegistry \<Rightarrow> time \<Rightarrow> Placement list" where
  "Expired perm m now = perm (filter (expired_at now) (concat (map (map snd \<circ> snd) m)))"

section \<open>Planning and seeding\<close>

record Proposal =
  pr_Location :: Location
  pr_Type :: CanaryType
  pr_Origin :: PlacementOrigin

type_synonym counts_want = "(CanaryType \<times> int) list"

definition synthetic_location :: "ScopeKey \<Rightarrow> CanaryType \<Rightarrow> nat \<Rightarrow> Location" where
  "synthetic_location scope typ i = ''cs://'' @ scope @ ''/'' @ typ @ ''/'' @ FormatInt (int i)"

definition BroadPlanner_Plan :: "(CanaryType \<times> Location list) list \<Rightarrow> ScopeKey \<Rightarrow> counts_want \<Rightarrow> Proposal list" where
  "BroadPlanner_Plan pinned scope want =
     concat (map (\<lambda>(typ, locs). map (\<lambda>loc. \<lparr>pr_Location = loc, pr_Type = typ, pr_Origin = OriginOperatorBroad\<rparr>) locs) pinned) @
     concat (map (\<lambda>(typ, n). if (case map_of pinned typ of None \<Rightarrow> [] | Some ls \<Rightarrow> ls) \<noteq> [] then []
        else map (\<lambda>i. \<lparr>pr_Location = synthetic_location scope typ i, pr_Type = typ, pr_Origin = OriginOperatorBroad\<rparr>) [0..<nat n]) want)"

definition DefaultMinefieldTTL :: duration where "DefaultMinefieldTTL = 24 * hour"
definition DefaultActiveTTL :: duration where "DefaultActiveTTL = 1 * hour"

definition defaultMix :: "Mode \<Rightarrow> counts_want" where
  "defaultMix m = (case m of
     Minefield \<Rightarrow> [(TypePlantedCredential, 1), (TypeFakeSecret, 1), (TypeDecoyFile, 1), (TypeFakeBucket, 1), (TypeFakeEndpoint, 1)]
   | Active_mode \<Rightarrow> [(TypePlantedCredential, 3), (TypeFakeSecret, 3), (TypeDecoyFile, 2), (TypeFakeBucket, 1), (TypeFakeEndpoint, 1)])"

text \<open>
  The seeder's state. Its random source is shared with the catalog's here only in type; \<open>sd_draw\<close> is
  \<^verbatim>\<open>rand.Int63n\<close>. The planner is a function, \<open>BroadPlanner\<close> unless configured.
\<close>

record 'r seeder_Store =
  sd_cat :: "'r Catalog"
  sd_catRand :: 'r
  sd_reg :: MemRegistry
  sd_planner :: "ScopeKey \<Rightarrow> Mode \<Rightarrow> counts_want \<Rightarrow> Proposal list"
  sd_ttl :: "Mode \<Rightarrow> duration"
  sd_mix :: "Mode \<Rightarrow> counts_want"
  sd_jitter :: duration
  sd_rng :: 'r
  sd_idSeq :: u64

record 'r seeder_Config =
  sg_Catalog :: "'r Catalog option"
  sg_Planner :: "(ScopeKey \<Rightarrow> Mode \<Rightarrow> counts_want \<Rightarrow> Proposal list) option"
  sg_TTL :: "Mode \<Rightarrow> duration"
  sg_Mix :: "(Mode \<Rightarrow> counts_want) option"
  sg_Jitter :: duration

definition seeder_New :: "'r seeder_Config \<Rightarrow> 'r \<Rightarrow> 'r \<Rightarrow> seeder_error + 'r seeder_Store" where
  "seeder_New cfg catRand rng =
     (case sg_Catalog cfg of
        None \<Rightarrow> Inl SeederNilCatalog
      | Some cat \<Rightarrow> Inr
         \<lparr>sd_cat = cat, sd_catRand = catRand, sd_reg = [],
          sd_planner = (case sg_Planner cfg of None \<Rightarrow> (\<lambda>scope mode want. BroadPlanner_Plan [] scope want) | Some p \<Rightarrow> p),
          sd_ttl = (\<lambda>m. if 0 < sg_TTL cfg m then sg_TTL cfg m else case m of Minefield \<Rightarrow> DefaultMinefieldTTL | Active_mode \<Rightarrow> DefaultActiveTTL),
          sd_mix = (case sg_Mix cfg of None \<Rightarrow> defaultMix | Some mx \<Rightarrow> mx), sd_jitter = sg_Jitter cfg, sd_rng = rng, sd_idSeq = 0\<rparr>)"

text \<open>What the seeder is given: the scan, the draw below a bound, and the order maps are walked in.\<close>

record 'r seeder_env =
  se_cross :: "string \<Rightarrow> string option"
  se_Int63n :: "'r \<Rightarrow> int \<Rightarrow> int \<times> 'r"
  se_perm :: "Placement list \<Rightarrow> Placement list"

definition expiry :: "'r seeder_env \<Rightarrow> 'r seeder_Store \<Rightarrow> Mode \<Rightarrow> duration \<times> 'r seeder_Store" where
  "expiry env s mode =
     (let ttl = sd_ttl s mode; j = (if sd_jitter s \<le> 0 then ttl div 10 else sd_jitter s)
      in if 0 < j then (let (x, r) = se_Int63n env (sd_rng s) j in (wrap64 (ttl + x), s\<lparr>sd_rng := r\<rparr>)) else (ttl, s))"

definition nextID :: "'r seeder_Store \<Rightarrow> string \<times> 'r seeder_Store" where
  "nextID s = (let n = sd_idSeq s + 1 in (''p-'' @ FormatInt (uint n), s\<lparr>sd_idSeq := n\<rparr>))"

definition place :: "'r seeder_env \<Rightarrow> time \<Rightarrow> 'r seeder_Store \<Rightarrow> ScopeKey \<Rightarrow> Mode \<Rightarrow> Proposal \<Rightarrow> seeder_error option \<times> 'r seeder_Store" where
  "place env now s scope mode p =
     (case Generate (se_cross env) (sd_cat s) (pr_Type p) (sd_catRand s) of
        (Inl err, r) \<Rightarrow> (Some (SeederCatalog err), s\<lparr>sd_catRand := r\<rparr>)
      | (Inr inst, r) \<Rightarrow>
         (let s1 = s\<lparr>sd_catRand := r\<rparr>;
              (pid, s2) = nextID s1;
              (ttl, s3) = expiry env s2 mode;
              (err, reg) = registry_Put (sd_reg s3)
                \<lparr>pl_ID = pid, pl_Scope = scope, pl_Type = pr_Type p, pl_Location = pr_Location p, pl_Instance = inst, pl_Mode = mode,
                 pl_PlacedAt = now, pl_ExpiresAt = now + ttl, pl_Origin = pr_Origin p\<rparr>
          in (err, s3\<lparr>sd_reg := reg\<rparr>)))"

text \<open>\<open>clock\<close> gives the time of each placement of a run.\<close>

fun place_all :: "'r seeder_env \<Rightarrow> 'r seeder_Store \<Rightarrow> (time \<times> ScopeKey \<times> Mode \<times> Proposal) list \<Rightarrow> seeder_error option \<times> 'r seeder_Store" where
  "place_all env s [] = (None, s)"
| "place_all env s ((now, scope, mode, p) # ps) =
     (case place env now s scope mode p of (Some err, s') \<Rightarrow> (Some err, s') | (None, s') \<Rightarrow> place_all env s' ps)"

definition Seed :: "'r seeder_env \<Rightarrow> (nat \<Rightarrow> time) \<Rightarrow> 'r seeder_Store \<Rightarrow> ScopeKey \<Rightarrow> Mode \<Rightarrow> seeder_error option \<times> 'r seeder_Store" where
  "Seed env clock s scope mode =
     (if scope = [] then (Some SeederNoScope, s)
      else place_all env s (map (\<lambda>(i, p). (clock i, scope, mode, p)) (enumerate 0 (sd_planner s scope mode (sd_mix s mode)))))"

definition rotate_input :: "(nat \<Rightarrow> time) \<Rightarrow> Placement list \<Rightarrow> (time \<times> ScopeKey \<times> Mode \<times> Proposal) list" where
  "rotate_input clock ps = map (\<lambda>(i, p). (clock i, pl_Scope p, pl_Mode p,
     \<lparr>pr_Location = pl_Location p, pr_Type = pl_Type p, pr_Origin = pl_Origin p\<rparr>)) (enumerate 0 ps)"

definition Refresh :: "'r seeder_env \<Rightarrow> time \<Rightarrow> (nat \<Rightarrow> time) \<Rightarrow> 'r seeder_Store \<Rightarrow> ScopeKey \<Rightarrow> seeder_error option \<times> 'r seeder_Store" where
  "Refresh env now clock s scope =
     place_all env s (rotate_input clock (filter (\<lambda>p. pl_Scope p = scope) (Expired (se_perm env) (sd_reg s) now)))"

definition sweepExpired :: "'r seeder_env \<Rightarrow> time \<Rightarrow> (nat \<Rightarrow> time) \<Rightarrow> 'r seeder_Store \<Rightarrow> seeder_error option \<times> 'r seeder_Store" where
  "sweepExpired env now clock s = place_all env s (rotate_input clock (Expired (se_perm env) (sd_reg s) now))"

section \<open>The signal builder\<close>

record Touch =
  to_Flow :: FlowIdentity
  to_Location :: Location
  to_At :: time

datatype signal_error = SignalNoScope | SignalNoSocketCookie | SignalNoPlacement

definition with_slash :: "string \<Rightarrow> string" where
  "with_slash s = (if HasSuffix s ''/'' then s else s @ ''/'')"

text \<open>The walk of \<^verbatim>\<open>resolve\<close> over the ancestors of a path; \<open>lookup\<close> is the registry's in one scope.\<close>

lemma LastIndexByte_spec: "LastIndexByte s c = Some i \<longleftrightarrow> i < length s \<and> s ! i = c \<and> c \<notin> set (drop (Suc i) s)"
proof (induction s rule: rev_induct)
  case (snoc x s)
  show ?case
  proof (cases "x = c")
    case True
    then show ?thesis by (auto simp: LastIndexByte_def nth_append less_Suc_eq)
  next
    case False
    then have "LastIndexByte (s @ [x]) c = LastIndexByte s c" by (auto simp: LastIndexByte_def Let_def)
    with False snoc show ?thesis by (auto simp: nth_append less_Suc_eq)
  qed
qed (simp add: LastIndexByte_def)

lemma LastIndexByte_None: "LastIndexByte s c = None \<longleftrightarrow> c \<notin> set s"
  by (induction s rule: rev_induct) (auto simp: LastIndexByte_def Let_def split: if_splits)

lemma length_TrimRight: "length (TrimRight c s) \<le> length s"
  using length_dropWhile_le[of "\<lambda>x. x = c" "rev s"] by (simp add: TrimRight_def)

lemma ancestor_shorter: "LastIndexByte (TrimRight c s) d = Some i \<Longrightarrow> i < length s"
  using length_TrimRight[of c s] by (simp add: LastIndexByte_spec)

function walk :: "(Location \<Rightarrow> Placement option) \<Rightarrow> string \<Rightarrow> Placement option"
  and walk_up :: "(Location \<Rightarrow> Placement option) \<Rightarrow> string \<Rightarrow> Placement option" where
  "walk lookup cur =
     (case lookup (with_slash cur) of
        Some p \<Rightarrow> if HasSuffix (pl_Location p) ''/'' then Some p else walk_up lookup cur
      | None \<Rightarrow> walk_up lookup cur)"
| "walk_up lookup cur =
     (case LastIndexByte (TrimRight CHR ''/'' cur) CHR ''/'' of
        None \<Rightarrow> None
      | Some i \<Rightarrow> if i = 0 then None else walk lookup (take i (TrimRight CHR ''/'' cur)))"
  by pat_completeness auto
termination
  by (relation "measure (\<lambda>x. case x of Inl (l, c) \<Rightarrow> 2 * length c + 1 | Inr (l, c) \<Rightarrow> 2 * length c)")
    (auto dest: ancestor_shorter simp: min_def)

declare walk.simps [simp del] walk_up.simps [simp del]

definition resolve :: "(Location \<Rightarrow> Placement option) \<Rightarrow> Location \<Rightarrow> Placement option" where
  "resolve lookup loc = (case lookup loc of Some p \<Rightarrow> Some p | None \<Rightarrow> walk lookup loc)"

definition Build :: "MemRegistry \<Rightarrow> time \<Rightarrow> ScopeKey \<Rightarrow> Touch \<Rightarrow> signal_error + SignalEvent" where
  "Build reg wall scope t =
     (if scope = [] then Inl SignalNoScope
      else if SocketCookie (to_Flow t) = 0 then Inl SignalNoSocketCookie
      else case resolve (registry_Lookup reg scope) (to_Location t) of
        None \<Rightarrow> Inl SignalNoPlacement
      | Some p \<Rightarrow> Inr \<lparr>ev_Flow = to_Flow t, ev_Canary = pl_Type p, ev_Scope = scope,
                       ev_Timestamp = (if to_At t = 0 then wall else to_At t)\<rparr>)"

section \<open>The registry's contract\<close>

text \<open>
  What the seeder and the builder rely on: a placement is found where it was put and nowhere else, a
  refused placement changes nothing, and a removal hides one location of one scope.
\<close>

locale registry =
  fixes put :: "'m \<Rightarrow> Placement \<Rightarrow> seeder_error option \<times> 'm" and lookup :: "'m \<Rightarrow> ScopeKey \<Rightarrow> Location \<Rightarrow> Placement option"
    and remove :: "'m \<Rightarrow> ScopeKey \<Rightarrow> Location \<Rightarrow> 'm"
  assumes put_lookup: "fst (put m p) = None \<Longrightarrow>
      lookup (snd (put m p)) sc loc = (if sc = pl_Scope p \<and> loc = pl_Location p then Some p else lookup m sc loc)"
    and put_refused: "fst (put m p) \<noteq> None \<Longrightarrow> snd (put m p) = m"
    and remove_lookup: "lookup (remove m sc loc) sc' loc' = (if sc' = sc \<and> loc' = loc then None else lookup m sc' loc')"
begin

definition located :: "'m \<Rightarrow> bool" where
  "located m \<longleftrightarrow> (\<forall>sc loc p. lookup m sc loc = Some p \<longrightarrow> pl_Scope p = sc \<and> pl_Location p = loc)"

lemma located_put: "located m \<Longrightarrow> located (snd (put m p))"
  by (cases "fst (put m p) = None") (auto simp: located_def put_lookup put_refused split: if_splits)

lemma located_remove: "located m \<Longrightarrow> located (remove m sc loc)"
  by (auto simp: located_def remove_lookup split: if_splits)

lemma put_frame: "sc \<noteq> pl_Scope p \<Longrightarrow> lookup (snd (put m p)) sc loc = lookup m sc loc"
  by (cases "fst (put m p) = None") (simp_all add: put_lookup put_refused)

end

lemma partition_update: "partition_of (AList.update sc b m) sc' = (if sc' = sc then b else partition_of m sc')"
  by (simp add: partition_of_def update_conv')

interpretation mem_registry: registry registry_Put registry_Lookup registry_Remove
proof unfold_locales
  fix m :: MemRegistry and p sc loc
  show "fst (registry_Put m p) = None \<Longrightarrow>
      registry_Lookup (snd (registry_Put m p)) sc loc = (if sc = pl_Scope p \<and> loc = pl_Location p then Some p else registry_Lookup m sc loc)"
    by (auto simp: registry_Put_def registry_Lookup_def partition_update update_conv' split: if_splits)
  show "fst (registry_Put m p) \<noteq> None \<Longrightarrow> snd (registry_Put m p) = m"
    by (auto simp: registry_Put_def split: if_splits)
next
  fix m :: MemRegistry and sc loc sc' loc'
  show "registry_Lookup (registry_Remove m sc loc) sc' loc' = (if sc' = sc \<and> loc' = loc then None else registry_Lookup m sc' loc')"
    by (auto simp: registry_Remove_def registry_Lookup_def partition_update delete_conv' split: option.split)
      (simp_all add: partition_of_def)
qed

section \<open>The directory walk\<close>

definition own_location :: "(Location \<Rightarrow> Placement option) \<Rightarrow> bool" where
  "own_location lookup \<longleftrightarrow> (\<forall>l p. lookup l = Some p \<longrightarrow> pl_Location p = l)"

text \<open>A path without an empty segment.\<close>

definition clean_path :: "string \<Rightarrow> bool" where
  "clean_path s \<longleftrightarrow> (\<forall>i < length s - 1. \<not> (s ! i = CHR ''/'' \<and> s ! Suc i = CHR ''/''))"

lemma HasSuffix_slash: "HasSuffix s ''/'' \<longleftrightarrow> s \<noteq> [] \<and> last s = CHR ''/''"
  unfolding HasSuffix_def by (metis append_butlast_last_id append_is_Nil_conv last_snoc not_Cons_self2 suffix_def suffixI)

lemma TrimRight_prefix: "prefix (TrimRight c s) s"
proof -
  have "rev s = takeWhile (\<lambda>x. x = c) (rev s) @ dropWhile (\<lambda>x. x = c) (rev s)" by simp
  then have "s = TrimRight c s @ rev (takeWhile (\<lambda>x. x = c) (rev s))" unfolding TrimRight_def by (metis rev_append rev_rev_ident)
  then show ?thesis by (metis prefixI)
qed

lemma TrimRight_last: "TrimRight c s = [] \<or> last (TrimRight c s) \<noteq> c"
  using hd_dropWhile[of "\<lambda>x. x = c" "rev s"] by (auto simp: TrimRight_def last_rev)

lemma ancestor_prefix:
  assumes "LastIndexByte (TrimRight CHR ''/'' cur) CHR ''/'' = Some i"
  shows "prefix (with_slash (take i (TrimRight CHR ''/'' cur))) (with_slash cur)"
proof -
  let ?t = "TrimRight CHR ''/'' cur"
  have i: "i < length ?t" "?t ! i = CHR ''/''" using assms by (simp_all add: LastIndexByte_spec)
  have a: "prefix (take i ?t) cur" using TrimRight_prefix[of "CHR ''/''" cur] by (meson prefix_order.trans take_is_prefix)
  have b: "take i ?t @ ''/'' = take (Suc i) ?t" using i by (simp add: take_Suc_conv_app_nth)
  have c: "prefix (take (Suc i) ?t) cur" using TrimRight_prefix[of "CHR ''/''" cur] by (meson prefix_order.trans take_is_prefix)
  have "prefix (with_slash (take i ?t)) cur" unfolding with_slash_def b using a c by presburger
  moreover have "prefix cur (with_slash cur)" by (simp add: with_slash_def)
  ultimately show ?thesis by (rule prefix_order.trans)
qed

lemma walk_sound:
  assumes "own_location lookup"
  shows "walk lookup cur = Some p \<Longrightarrow> lookup (pl_Location p) = Some p \<and> HasSuffix (pl_Location p) ''/'' \<and> prefix (pl_Location p) (with_slash cur)"
    and "walk_up lookup cur = Some p \<Longrightarrow> lookup (pl_Location p) = Some p \<and> HasSuffix (pl_Location p) ''/'' \<and> prefix (pl_Location p) (with_slash cur)"
  using assms
proof (induction lookup cur and lookup cur rule: walk_walk_up.induct)
  case (1 lookup cur)
  note step = walk.simps[of lookup cur]
  show ?case
  proof (cases "lookup (with_slash cur)")
    case None
    then have "walk lookup cur = walk_up lookup cur" by (simp add: step)
    with 1(1)[OF None] 1(3,4) show ?thesis by simp
  next
    case (Some q)
    with 1(4) have q: "pl_Location q = with_slash cur" by (simp add: own_location_def)
    show ?thesis
    proof (cases "HasSuffix (pl_Location q) ''/''")
      case True
      with Some q 1(3) show ?thesis by (auto simp: step)
    next
      case False
      then have "walk lookup cur = walk_up lookup cur" using Some by (simp add: step)
      with 1(2)[OF Some False] 1(3,4) show ?thesis by simp
    qed
  qed
next
  case (2 lookup cur)
  then obtain i where i: "LastIndexByte (TrimRight CHR ''/'' cur) CHR ''/'' = Some i" "i \<noteq> 0"
    "walk lookup (take i (TrimRight CHR ''/'' cur)) = Some p" by (auto simp: walk_up.simps[of lookup cur] split: option.splits if_splits)
  with 2(1)[OF i(1,2) i(3)] 2(3) ancestor_prefix[OF i(1)] show ?case by (meson prefix_order.trans)
qed

lemma clean_trim:
  assumes "clean_path cur" "cur \<noteq> ''/''" "cur \<noteq> []" shows "with_slash cur = TrimRight CHR ''/'' cur @ ''/''" "TrimRight CHR ''/'' cur \<noteq> []"
proof -
  let ?t = "TrimRight CHR ''/'' cur"
  have "?t @ ''/'' = with_slash cur \<and> ?t \<noteq> []"
  proof (cases "last cur = CHR ''/''")
    case False
    then have "?t = cur" using assms(3) by (cases cur rule: rev_cases) (simp_all add: TrimRight_def)
    with False assms(3) show ?thesis by (simp add: with_slash_def HasSuffix_slash)
  next
    case True
    obtain s where s: "cur = s @ ''/''" using True assms(3) by (metis append_butlast_last_id)
    with assms(2) have ne: "s \<noteq> []" by auto
    have "last s \<noteq> CHR ''/''"
    proof
      assume "last s = CHR ''/''"
      with ne have "cur ! (length s - 1) = CHR ''/''" "cur ! Suc (length s - 1) = CHR ''/''" "length s - 1 < length cur - 1"
        by (simp_all add: s nth_append last_conv_nth)
      with assms(1) show False unfolding clean_path_def by blast
    qed
    then have "?t = s" using ne by (cases s rule: rev_cases) (simp_all add: TrimRight_def s)
    with ne s show ?thesis by (simp add: with_slash_def HasSuffix_slash)
  qed
  then show "with_slash cur = ?t @ ''/''" "?t \<noteq> []" by simp_all
qed

lemma clean_prefix:
  assumes "clean_path s" "prefix t s" shows "clean_path t"
proof -
  obtain u where s: "s = t @ u" using assms(2) by (auto simp: prefix_def)
  have "t ! i = s ! i \<and> t ! Suc i = s ! Suc i \<and> i < length s - 1" if "i < length t - 1" for i
    using that by (auto simp: s nth_append)
  with assms(1) show ?thesis unfolding clean_path_def by metis
qed

text \<open>One step up from a clean path keeps every directory above it in reach.\<close>

lemma walk_step:
  assumes "clean_path cur" "HasSuffix d ''/''" "1 < length d" "strict_prefix d (with_slash cur)"
  shows "\<exists>i. LastIndexByte (TrimRight CHR ''/'' cur) CHR ''/'' = Some i \<and> i \<noteq> 0 \<and> clean_path (take i (TrimRight CHR ''/'' cur)) \<and>
    prefix d (with_slash (take i (TrimRight CHR ''/'' cur)))"
proof -
  let ?t = "TrimRight CHR ''/'' cur"
  have ne: "cur \<noteq> ''/''" "cur \<noteq> []"
    using assms(3,4) prefix_length_less[OF assms(4)] by (auto simp: with_slash_def HasSuffix_slash)
  have w: "with_slash cur = ?t @ ''/''" by (rule clean_trim(1)[OF assms(1) ne])
  then have p: "prefix d ?t" using assms(4) by (metis prefix_order.less_le_not_le prefix_snoc prefix_order.order_refl strict_prefix_def)
  have d: "d ! (length d - 1) = CHR ''/''" using assms(2) last_conv_nth[of d] by (simp add: HasSuffix_slash)
  then have "?t ! (length d - 1) = CHR ''/''" "length d - 1 < length ?t"
    using p assms(3) by (auto simp: prefix_def nth_append)
  then have mem: "CHR ''/'' \<in> set (drop (length d - 1) ?t)" by (simp add: in_set_conv_nth) (metis add_0 length_drop nth_drop zero_less_diff add.right_neutral)
  then have "CHR ''/'' \<in> set ?t" by (metis in_set_dropD)
  then obtain i where i: "LastIndexByte ?t CHR ''/'' = Some i" using LastIndexByte_None[of ?t "CHR ''/''"] by blast
  then have il: "i < length ?t" "?t ! i = CHR ''/''" "CHR ''/'' \<notin> set (drop (Suc i) ?t)" by (simp_all add: LastIndexByte_spec)
  have ge: "length d - 1 \<le> i"
  proof (rule ccontr)
    assume "\<not> length d - 1 \<le> i"
    then have "set (drop (length d - 1) ?t) \<subseteq> set (drop (Suc i) ?t)" by (intro set_drop_subset_set_drop) simp
    with mem il(3) show False by blast
  qed
  have cl: "clean_path ?t" using assms(1) TrimRight_prefix by (rule clean_prefix)
  have c: "clean_path (take i ?t)" using cl take_is_prefix by (rule clean_prefix)
  have tk: "take i ?t @ ''/'' = take (Suc i) ?t" using il by (simp add: take_Suc_conv_app_nth)
  have "prefix d (take (Suc i) ?t)"
    using p ge assms(3) by (auto simp: prefix_def)
  moreover have "with_slash (take i ?t) = take i ?t @ ''/''"
  proof -
    have "last (take i ?t) \<noteq> CHR ''/''" if "take i ?t \<noteq> []"
    proof
      assume l: "last (take i ?t) = CHR ''/''"
      from that have "0 < i" by auto
      with l il(1) that have "?t ! (i - 1) = CHR ''/''" "?t ! Suc (i - 1) = CHR ''/''" "i - 1 < length ?t - 1"
        using il(2) by (simp_all add: last_conv_nth)
      with cl show False unfolding clean_path_def by blast
    qed
    then show ?thesis by (auto simp: with_slash_def HasSuffix_slash)
  qed
  ultimately show ?thesis using i ge assms(3) c tk by (metis One_nat_def Suc_pred bot_nat_0.extremum_uniqueI less_numeral_extra(3) linorder_not_less zero_less_diff)
qed

lemma walk_complete:
  assumes "own_location lookup" "clean_path cur" "HasSuffix d ''/''" "1 < length d" "prefix d (with_slash cur)" "lookup d \<noteq> None"
  shows "walk lookup cur \<noteq> None"
  using assms(2,5)
proof (induction "length cur" arbitrary: cur rule: less_induct)
  case less
  show ?case
  proof (cases "with_slash cur = d")
    case True
    with assms(6) obtain p where "lookup (with_slash cur) = Some p" by auto
    moreover then have "HasSuffix (pl_Location p) ''/''" using assms(1,3) True by (simp add: own_location_def)
    ultimately show ?thesis by (simp add: walk.simps[of lookup cur])
  next
    case False
    with less.prems have "strict_prefix d (with_slash cur)" by (simp add: strict_prefix_def)
    from walk_step[OF less.prems(1) assms(3,4) this] obtain i where i: "LastIndexByte (TrimRight CHR ''/'' cur) CHR ''/'' = Some i" "i \<noteq> 0"
      "clean_path (take i (TrimRight CHR ''/'' cur))" "prefix d (with_slash (take i (TrimRight CHR ''/'' cur)))" by blast
    have "length (take i (TrimRight CHR ''/'' cur)) < length cur" using ancestor_shorter[OF i(1)] by simp
    from less.hyps[OF this i(3,4)] have "walk_up lookup cur \<noteq> None" using i by (simp add: walk_up.simps[of lookup cur])
    then show ?thesis by (simp add: walk.simps[of lookup cur] split: option.split)
  qed
qed

section \<open>From a touch to a signal\<close>

lemma located_own: "mem_registry.located m \<Longrightarrow> own_location (registry_Lookup m sc)"
  by (simp add: mem_registry.located_def own_location_def)

lemma resolve_sound:
  assumes "own_location lookup" "resolve lookup loc = Some p"
  shows "lookup (pl_Location p) = Some p \<and> (pl_Location p = loc \<or> HasSuffix (pl_Location p) ''/'' \<and> prefix (pl_Location p) (with_slash loc))"
proof (cases "lookup loc")
  case None
  with assms walk_sound(1)[OF assms(1), of loc p] show ?thesis by (simp add: resolve_def)
next
  case (Some q)
  with assms show ?thesis by (auto simp: resolve_def own_location_def)
qed

lemma Build_sound:
  assumes "mem_registry.located reg" "Build reg wall scope t = Inr ev"
  shows "scope \<noteq> [] \<and> SocketCookie (to_Flow t) \<noteq> 0 \<and> ev_Scope ev = scope \<and> ev_Flow ev = to_Flow t \<and>
    ev_Timestamp ev = (if to_At t = 0 then wall else to_At t) \<and>
    (\<exists>p. registry_Lookup reg scope (pl_Location p) = Some p \<and> pl_Scope p = scope \<and> ev_Canary ev = pl_Type p \<and>
       (pl_Location p = to_Location t \<or> HasSuffix (pl_Location p) ''/'' \<and> prefix (pl_Location p) (with_slash (to_Location t))))"
proof -
  note own = located_own[OF assms(1), of scope]
  obtain p where p: "resolve (registry_Lookup reg scope) (to_Location t) = Some p" "scope \<noteq> []" "SocketCookie (to_Flow t) \<noteq> 0"
    and ev: "ev = \<lparr>ev_Flow = to_Flow t, ev_Canary = pl_Type p, ev_Scope = scope, ev_Timestamp = (if to_At t = 0 then wall else to_At t)\<rparr>"
    using assms(2) by (auto simp: Build_def split: if_splits option.splits)
  have l: "registry_Lookup reg scope (pl_Location p) = Some p" using resolve_sound[OF own p(1)] by simp
  then have "pl_Scope p = scope" using assms(1) by (simp add: mem_registry.located_def)
  with l p ev resolve_sound[OF own p(1)] show ?thesis by auto
qed

lemma Build_complete:
  assumes "mem_registry.located reg" "scope \<noteq> []" "SocketCookie (to_Flow t) \<noteq> 0" "registry_Lookup reg scope d \<noteq> None"
    and "d = to_Location t \<or> HasSuffix d ''/'' \<and> 1 < length d \<and> prefix d (with_slash (to_Location t)) \<and> clean_path (to_Location t)"
  shows "\<exists>ev. Build reg wall scope t = Inr ev"
proof -
  have "resolve (registry_Lookup reg scope) (to_Location t) \<noteq> None"
    using walk_complete[OF located_own[OF assms(1)], of "to_Location t" d scope] assms(4,5) by (auto simp: resolve_def split: option.split)
  with assms(2,3) show ?thesis by (auto simp: Build_def)
qed

text \<open>
  Property C7. A signal is a real, attributable canary touch. The builder emits an event only for a flow with a
  socket cookie, in a scope, that touched the location of a placement of that very scope or a path below a
  directory canary of it; the event carries that placement's type and the given scope. And it emits one for
  every touch of an exact location, and for every touch of a path without empty segments below a
  directory canary other than the root; a path with empty segments can go unseen.
\<close>

theorem signal_only_real_touch:
  assumes "mem_registry.located reg"
  shows "(\<forall>ev. Build reg wall scope t = Inr ev \<longrightarrow> scope \<noteq> [] \<and> SocketCookie (to_Flow t) \<noteq> 0 \<and> ev_Scope ev = scope \<and> ev_Flow ev = to_Flow t \<and>
      (\<exists>p. registry_Lookup reg scope (pl_Location p) = Some p \<and> pl_Scope p = scope \<and> ev_Canary ev = pl_Type p \<and>
         (pl_Location p = to_Location t \<or> HasSuffix (pl_Location p) ''/'' \<and> prefix (pl_Location p) (with_slash (to_Location t))))) \<and>
    (\<forall>d. scope \<noteq> [] \<and> SocketCookie (to_Flow t) \<noteq> 0 \<and> registry_Lookup reg scope d \<noteq> None \<and>
      (d = to_Location t \<or> HasSuffix d ''/'' \<and> 1 < length d \<and> prefix d (with_slash (to_Location t)) \<and> clean_path (to_Location t)) \<longrightarrow>
      (\<exists>ev. Build reg wall scope t = Inr ev))"
  using Build_sound[OF assms, of wall scope t] Build_complete[OF assms, of scope t _ wall] by blast

definition demo_placement :: Placement where
  "demo_placement = \<lparr>pl_ID = ''p-1'', pl_Scope = ''s'', pl_Type = TypeDecoyFile, pl_Location = ''/admin/'',
     pl_Instance = \<lparr>in_Type = TypeDecoyFile, in_Payload = ''x-ref-A''\<rparr>, pl_Mode = Minefield, pl_PlacedAt = 1, pl_ExpiresAt = 100,
     pl_Origin = OriginOperatorBroad\<rparr>"

definition demo_registry :: MemRegistry where
  "demo_registry = snd (registry_Put [] demo_placement)"

definition demo_at :: "string \<Rightarrow> Touch" where
  "demo_at loc = \<lparr>to_Flow = cookie_flow 7, to_Location = loc, to_At = 5\<rparr>"

lemma demo_registry_located: "mem_registry.located demo_registry"
  unfolding demo_registry_def by (rule mem_registry.located_put) (simp add: mem_registry.located_def registry_Lookup_def partition_of_def)

theorem signal_only_real_touch_witness:
  "\<exists>ev. Build demo_registry 9 ''s'' (demo_at ''/admin/login/x'') = Inr ev \<and> ev_Scope ev = ''s''"
proof -
  have "clean_path ''/admin/login/x''" "prefix ''/admin/'' (with_slash ''/admin/login/x'')" "HasSuffix ''/admin/'' ''/''"
    by code_simp+
  moreover have "registry_Lookup demo_registry ''s'' ''/admin/'' \<noteq> None"
    by (simp add: demo_registry_def registry_Put_def registry_Lookup_def partition_of_def demo_placement_def)
  ultimately show ?thesis
    using signal_only_real_touch[OF demo_registry_located, of 9 "''s''" "demo_at ''/admin/login/x''"] by (fastforce simp: demo_at_def)
qed

text \<open>
  A doubled slash hides a touch: with a directory canary at \<^verbatim>\<open>/admin/\<close>, the path \<^verbatim>\<open>/admin//\<close> is at
  the directory but raises no signal, because the walk trims all trailing slashes at once and goes on
  to the parent; the plain paths do raise one.
\<close>

theorem doubled_slash_hides_touch:
  "Build demo_registry 9 ''s'' (demo_at ''/admin//'') = Inl SignalNoPlacement \<and>
   Build demo_registry 9 ''s'' (demo_at ''/admin/'') \<noteq> Inl SignalNoPlacement \<and>
   Build demo_registry 9 ''s'' (demo_at ''/admin'') \<noteq> Inl SignalNoPlacement"
proof -
  have "resolve (registry_Lookup demo_registry ''s'') ''/admin//'' = None" "resolve (registry_Lookup demo_registry ''s'') ''/admin/'' \<noteq> None"
    "resolve (registry_Lookup demo_registry ''s'') ''/admin'' \<noteq> None" by code_simp+
  then show ?thesis by (auto simp: Build_def demo_at_def)
qed

section \<open>What the seeder keeps\<close>

definition registry_wf :: "MemRegistry \<Rightarrow> bool" where
  "registry_wf m \<longleftrightarrow> distinct (map fst m) \<and> (\<forall>(sc, b)\<in>set m. distinct (map fst b)) \<and> mem_registry.located m"

lemma partition_distinct: "registry_wf m \<Longrightarrow> distinct (map fst (partition_of m sc))"
  by (auto simp: registry_wf_def partition_of_def split: option.split dest: map_of_SomeD)

lemma registry_Put_wf [inv_intros]: "registry_wf m \<Longrightarrow> registry_wf (snd (registry_Put m p))"
proof -
  assume wf: "registry_wf m"
  then have "distinct (map fst (AList.update (pl_Location p) p (partition_of m (pl_Scope p))))" by (simp add: partition_distinct distinct_update)
  with wf AList_update_subset[of "pl_Scope p" "AList.update (pl_Location p) p (partition_of m (pl_Scope p))" m] mem_registry.located_put[of m p]
  show ?thesis by (fastforce simp: registry_wf_def registry_Put_def distinct_update)
qed

lemma placements_mem:
  assumes "registry_wf m" shows "p \<in> set (concat (map (map snd \<circ> snd) m)) \<longleftrightarrow> registry_Lookup m (pl_Scope p) (pl_Location p) = Some p"
proof
  assume "p \<in> set (concat (map (map snd \<circ> snd) m))"
  then obtain sc b loc where b: "(sc, b) \<in> set m" "(loc, p) \<in> set b" by auto
  then have "map_of m sc = Some b" "map_of b loc = Some p" using assms by (auto simp: registry_wf_def)
  then have "registry_Lookup m sc loc = Some p" by (simp add: registry_Lookup_def partition_of_def)
  with assms show "registry_Lookup m (pl_Scope p) (pl_Location p) = Some p" by (auto simp: registry_wf_def mem_registry.located_def)
next
  assume "registry_Lookup m (pl_Scope p) (pl_Location p) = Some p"
  then show "p \<in> set (concat (map (map snd \<circ> snd) m))"
    by (force simp: registry_Lookup_def partition_of_def split: option.splits dest!: map_of_SomeD)
qed

text \<open>A placement the gate let through.\<close>

definition gated :: "(string \<Rightarrow> string option) \<Rightarrow> 'r Catalog \<Rightarrow> Placement \<Rightarrow> bool" where
  "gated cross c p \<longleftrightarrow> in_Type (pl_Instance p) = pl_Type p \<and> IsHarmless cross c (pl_Instance p) = None \<and> pl_Scope p \<noteq> []"

definition seeder_ok :: "'r seeder_env \<Rightarrow> 'r Catalog \<Rightarrow> 'r seeder_Store \<Rightarrow> bool" where
  "seeder_ok env c s \<longleftrightarrow> sd_cat s = c \<and> registry_wf (sd_reg s) \<and>
     (\<forall>sc loc p. registry_Lookup (sd_reg s) sc loc = Some p \<longrightarrow> gated (se_cross env) c p)"

lemma Generate_gated: "Generate cross c t r = (Inr inst, r') \<Longrightarrow> in_Type inst = t \<and> IsHarmless cross c inst = None"
  by (auto simp: Generate_def split: option.splits prod.splits sum.splits if_splits)

lemma nextID_frame: "nextID s = (i, s') \<Longrightarrow> sd_reg s' = sd_reg s \<and> sd_cat s' = sd_cat s \<and> sd_ttl s' = sd_ttl s \<and> sd_jitter s' = sd_jitter s"
  by (auto simp: nextID_def Let_def)

lemma expiry_frame: "expiry env s m = (d, s') \<Longrightarrow> sd_reg s' = sd_reg s \<and> sd_cat s' = sd_cat s \<and> sd_ttl s' = sd_ttl s \<and> sd_jitter s' = sd_jitter s"
  by (auto simp: expiry_def Let_def split: if_splits prod.splits)

text \<open>What one placement does: nothing to the registry on an error, otherwise one gated placement at its location.\<close>

definition placed_as :: "'r seeder_env \<Rightarrow> 'r seeder_Store \<Rightarrow> time \<Rightarrow> ScopeKey \<Rightarrow> Mode \<Rightarrow> Proposal \<Rightarrow> Placement \<Rightarrow> bool" where
  "placed_as env s now scope mode p pl \<longleftrightarrow>
     gated (se_cross env) (sd_cat s) pl \<and> pl_Scope pl = scope \<and> pl_Location pl = pr_Location p \<and> pl_Type pl = pr_Type p \<and> pl_Mode pl = mode \<and>
     (\<exists>s1. pl_ExpiresAt pl = now + fst (expiry env s1 mode) \<and> sd_ttl s1 = sd_ttl s \<and> sd_jitter s1 = sd_jitter s)"

lemma place_cases:
  assumes "place env now s scope mode p = (err, s')"
  shows "sd_cat s' = sd_cat s" "sd_ttl s' = sd_ttl s" "sd_jitter s' = sd_jitter s" "err \<noteq> None \<Longrightarrow> sd_reg s' = sd_reg s"
    "err = None \<Longrightarrow> \<exists>pl. sd_reg s' = snd (registry_Put (sd_reg s) pl) \<and> fst (registry_Put (sd_reg s) pl) = None \<and> placed_as env s now scope mode p pl"
proof -
  obtain g r where gen: "Generate (se_cross env) (sd_cat s) (pr_Type p) (sd_catRand s) = (g, r)" by (metis surj_pair)
  obtain pid s2 where id: "nextID (s\<lparr>sd_catRand := r\<rparr>) = (pid, s2)" by (metis surj_pair)
  obtain d s3 where ex: "expiry env s2 mode = (d, s3)" by (metis surj_pair)
  define pl where "pl inst = \<lparr>pl_ID = pid, pl_Scope = scope, pl_Type = pr_Type p, pl_Location = pr_Location p, pl_Instance = inst, pl_Mode = mode,
                 pl_PlacedAt = now, pl_ExpiresAt = now + d, pl_Origin = pr_Origin p\<rparr>" for inst
  have fr: "sd_reg s3 = sd_reg s" "sd_cat s3 = sd_cat s" "sd_ttl s3 = sd_ttl s" "sd_jitter s3 = sd_jitter s" "sd_ttl s2 = sd_ttl s" "sd_jitter s2 = sd_jitter s"
    using nextID_frame[OF id] expiry_frame[OF ex] by simp_all
  have e: "(case g of Inl err' \<Rightarrow> err = Some (SeederCatalog err') \<and> s' = s\<lparr>sd_catRand := r\<rparr>
     | Inr inst \<Rightarrow> err = fst (registry_Put (sd_reg s) (pl inst)) \<and> s' = s3\<lparr>sd_reg := snd (registry_Put (sd_reg s) (pl inst))\<rparr>)"
    using assms gen id ex fr by (auto simp: place_def Let_def pl_def split: prod.splits sum.splits)
  show "sd_cat s' = sd_cat s" "sd_ttl s' = sd_ttl s" "sd_jitter s' = sd_jitter s" using e fr by (auto split: sum.splits)
  show "sd_reg s' = sd_reg s" if "err \<noteq> None"
    using e that mem_registry.put_refused by (auto split: sum.splits)
  show "\<exists>pl. sd_reg s' = snd (registry_Put (sd_reg s) pl) \<and> fst (registry_Put (sd_reg s) pl) = None \<and> placed_as env s now scope mode p pl" if "err = None"
  proof -
    from e that obtain inst where i: "g = Inr inst" "fst (registry_Put (sd_reg s) (pl inst)) = None" "sd_reg s' = snd (registry_Put (sd_reg s) (pl inst))"
      by (auto split: sum.splits)
    have "pl_Scope (pl inst) \<noteq> []" using i(2) by (auto simp: registry_Put_def split: if_splits)
    then have "placed_as env s now scope mode p (pl inst)"
      using Generate_gated[of "se_cross env" "sd_cat s" "pr_Type p" "sd_catRand s" inst r] gen i(1) ex fr
      by (auto simp: placed_as_def gated_def pl_def intro!: exI[of _ s2])
    with i show ?thesis by blast
  qed
qed

lemma place_ok [inv_intros]:
  assumes "seeder_ok env c s" "place env now s scope mode p = (err, s')" shows "seeder_ok env c s'"
proof (cases "err = None")
  case False
  with place_cases[OF assms(2)] assms(1) show ?thesis by (simp add: seeder_ok_def)
next
  case True
  from place_cases(5)[OF assms(2) True] obtain pl where pl: "sd_reg s' = snd (registry_Put (sd_reg s) pl)"
    "fst (registry_Put (sd_reg s) pl) = None" "placed_as env s now scope mode p pl" by blast
  have "registry_wf (sd_reg s')" using assms(1) pl(1) by (simp add: seeder_ok_def registry_Put_wf)
  then show ?thesis using assms(1) pl place_cases(1)[OF assms(2)]
    by (auto simp: seeder_ok_def mem_registry.put_lookup placed_as_def)
qed

lemma place_all_ok [inv_intros]: "seeder_ok env c s \<Longrightarrow> seeder_ok env c (snd (place_all env s ps))"
  by (induction env s ps rule: place_all.induct) (auto split: prod.splits option.splits dest: place_ok)

text \<open>The runs of a seeder: seeding a scope, refreshing one, and the sweep of the background loop.\<close>

datatype seed_op = SeedOp "nat \<Rightarrow> time" ScopeKey Mode | RefreshOp time "nat \<Rightarrow> time" ScopeKey | SweepOp time "nat \<Rightarrow> time"

fun seed_step :: "'r seeder_env \<Rightarrow> 'r seeder_Store \<Rightarrow> seed_op \<Rightarrow> 'r seeder_Store" where
  "seed_step env s (SeedOp clock scope mode) = snd (Seed env clock s scope mode)"
| "seed_step env s (RefreshOp now clock scope) = snd (Refresh env now clock s scope)"
| "seed_step env s (SweepOp now clock) = snd (sweepExpired env now clock s)"

lemma seed_step_ok [inv_intros]: "seeder_ok env c s \<Longrightarrow> seeder_ok env c (seed_step env s op)"
  by (cases op) (auto simp: Seed_def Refresh_def sweepExpired_def intro: place_all_ok)

lemma seed_steps_ok: "seeder_ok env c s \<Longrightarrow> seeder_ok env c (foldl (seed_step env) s ops)"
  by (induction ops arbitrary: s) (auto intro: seed_step_ok)

lemma seeder_New_ok: "seeder_New cfg cr r = Inr s \<Longrightarrow> sg_Catalog cfg = Some c \<Longrightarrow> seeder_ok env c s"
  by (auto simp: seeder_New_def seeder_ok_def registry_wf_def mem_registry.located_def registry_Lookup_def partition_of_def)

text \<open>
  Property C21. Nothing harmful is ever placed. Whatever the generators return, every placement a seeder ever holds
  carries an instance of its own type that passed the type's predicate and the universal scan, is stored
  under its own scope and location, and has a scope.
\<close>

theorem placed_only_harmless:
  assumes "seeder_New cfg catRand rng = Inr s0" "sg_Catalog cfg = Some c"
    and "registry_Lookup (sd_reg (foldl (seed_step env) s0 ops)) scope loc = Some p"
  shows "in_Type (pl_Instance p) = pl_Type p \<and> IsHarmless (se_cross env) c (pl_Instance p) = None \<and>
    se_cross env (in_Payload (pl_Instance p)) = None \<and> pl_Scope p = scope \<and> pl_Location p = loc \<and> scope \<noteq> []"
proof -
  have ok: "seeder_ok env c (foldl (seed_step env) s0 ops)" by (rule seed_steps_ok[OF seeder_New_ok[OF assms(1,2)]])
  with assms(3) have g: "gated (se_cross env) c p" and l: "pl_Scope p = scope" "pl_Location p = loc"
    by (auto simp: seeder_ok_def registry_wf_def mem_registry.located_def)
  have "se_cross env (in_Payload (pl_Instance p)) = None" using g by (auto simp: gated_def IsHarmless_def split: option.splits)
  with g l show ?thesis by (auto simp: gated_def)
qed

section \<open>Rotation\<close>

definition slots_of :: "(time \<times> ScopeKey \<times> Mode \<times> Proposal) list \<Rightarrow> (ScopeKey \<times> Location) list" where
  "slots_of ps = map (\<lambda>(now, sc, m, p). (sc, pr_Location p)) ps"

text \<open>A run of placements at distinct locations: every other location is left alone, every one of these has its new placement.\<close>

lemma place_all_slots:
  assumes "place_all env s ps = (None, s')" "distinct (slots_of ps)"
  shows "sd_ttl s' = sd_ttl s \<and> sd_jitter s' = sd_jitter s \<and>
    (\<forall>sc loc. (sc, loc) \<notin> set (slots_of ps) \<longrightarrow> registry_Lookup (sd_reg s') sc loc = registry_Lookup (sd_reg s) sc loc) \<and>
    (\<forall>(now, sc, m, p)\<in>set ps. \<exists>pl s0. registry_Lookup (sd_reg s') sc (pr_Location p) = Some pl \<and> placed_as env s0 now sc m p pl \<and>
       sd_ttl s0 = sd_ttl s \<and> sd_jitter s0 = sd_jitter s)"
  using assms
proof (induction ps arbitrary: s)
  case (Cons x ps)
  obtain now sc m p where x: "x = (now, sc, m, p)" by (metis prod_cases4)
  from Cons.prems x obtain s1 where s1: "place env now s sc m p = (None, s1)" "place_all env s1 ps = (None, s')"
    by (auto split: prod.splits option.splits)
  have d: "distinct (slots_of ps)" "(sc, pr_Location p) \<notin> set (slots_of ps)" using Cons.prems(2) by (simp_all add: slots_of_def x)
  note IH = Cons.IH[OF s1(2) d(1)]
  note pc = place_cases[OF s1(1)]
  from pc(5) obtain pl where pl: "sd_reg s1 = snd (registry_Put (sd_reg s) pl)" "fst (registry_Put (sd_reg s) pl) = None" "placed_as env s now sc m p pl" by blast
  have l1: "registry_Lookup (sd_reg s1) sc' loc' = (if sc' = sc \<and> loc' = pr_Location p then Some pl else registry_Lookup (sd_reg s) sc' loc')" for sc' loc'
    using mem_registry.put_lookup[OF pl(2), of sc' loc'] pl(1,3) by (simp add: placed_as_def)
  have "registry_Lookup (sd_reg s') sc (pr_Location p) = Some pl" using IH d(2) l1 by simp
  moreover have "registry_Lookup (sd_reg s') sc' loc' = registry_Lookup (sd_reg s) sc' loc'" if "(sc', loc') \<notin> set (slots_of (x # ps))" for sc' loc'
    using that IH l1 by (auto simp: slots_of_def x)
  ultimately show ?case using IH pl(3) pc(2,3) unfolding x by auto
qed simp

lemma place_all_wf: "registry_wf (sd_reg s) \<Longrightarrow> registry_wf (sd_reg (snd (place_all env s ps)))"
proof (induction env s ps rule: place_all.induct)
  case (2 env s now scope mode p ps)
  obtain err s1 where s1: "place env now s scope mode p = (err, s1)" by (metis surj_pair)
  have wf: "registry_wf (sd_reg s1)"
    using place_cases(4,5)[OF s1] 2(2) registry_Put_wf by (cases "err = None") auto
  with s1 2(1)[OF s1[symmetric]] show ?case by (cases err) simp_all
qed simp

definition ttl_sane :: "'r seeder_Store \<Rightarrow> bool" where
  "ttl_sane s \<longleftrightarrow> 0 \<le> sd_jitter s \<and> (\<forall>m. 0 < sd_ttl s m \<and> sd_ttl s m + max (sd_jitter s) (sd_ttl s m div 10) < 2 ^ 63)"

definition draws_below :: "'r seeder_env \<Rightarrow> bool" where
  "draws_below env \<longleftrightarrow> (\<forall>r j. 0 < j \<longrightarrow> 0 \<le> fst (se_Int63n env r j) \<and> fst (se_Int63n env r j) < j)"

lemma expiry_positive:
  assumes "ttl_sane s" "draws_below env" shows "sd_ttl s m \<le> fst (expiry env s m)" "0 < fst (expiry env s m)"
proof -
  define j where "j = (if sd_jitter s \<le> 0 then sd_ttl s m div 10 else sd_jitter s)"
  have t: "0 < sd_ttl s m" "sd_ttl s m + j < 2 ^ 63" using assms(1) by (auto simp: ttl_sane_def j_def max_def) (smt (verit))+
  have "0 \<le> fst (se_Int63n env (sd_rng s) j)" "fst (se_Int63n env (sd_rng s) j) < j" if "0 < j"
    using assms(2) that by (simp_all add: draws_below_def)
  then have "sd_ttl s m \<le> fst (expiry env s m)"
    using t by (auto simp: expiry_def Let_def j_def[symmetric] wrap64_id split: prod.split)
  with t show "sd_ttl s m \<le> fst (expiry env s m)" "0 < fst (expiry env s m)" by simp_all
qed

lemma rotate_input_mem:
  assumes "p \<in> set ps"
  shows "\<exists>i. (clock i, pl_Scope p, pl_Mode p, \<lparr>pr_Location = pl_Location p, pr_Type = pl_Type p, pr_Origin = pl_Origin p\<rparr>) \<in> set (rotate_input clock ps)"
proof -
  obtain i where "i < length ps" "ps ! i = p" using assms by (auto simp: in_set_conv_nth)
  then have "(i, p) \<in> set (enumerate 0 ps)" by (simp add: in_set_enumerate_eq)
  then show ?thesis unfolding rotate_input_def by force
qed

lemma slots_rotate: "slots_of (rotate_input clock ps) = map (\<lambda>p. (pl_Scope p, pl_Location p)) ps"
  by (rule nth_equalityI) (simp_all add: slots_of_def rotate_input_def nth_enumerate_eq)

lemma slots_distinct:
  assumes "registry_wf m" shows "distinct (map (\<lambda>p. (pl_Scope p, pl_Location p)) (concat (map (map snd \<circ> snd) m)))"
  using assms
proof (induction m)
  case (Cons x m)
  obtain sc b where x: "x = (sc, b)" by (cases x)
  have "map_of m sc = None" using Cons.prems by (simp add: registry_wf_def x map_of_eq_None_iff)
  then have "registry_Lookup m s' l = (if s' = sc then None else registry_Lookup ((sc, b) # m) s' l)" for s' l
    by (simp add: registry_Lookup_def partition_of_def)
  then have wf: "registry_wf m" using Cons.prems by (simp add: registry_wf_def x mem_registry.located_def)
  have own: "pl_Scope p = s' \<and> pl_Location p = l" if "(s', b') \<in> set (x # m)" "(l, p) \<in> set b'" for s' b' l p
  proof -
    have "distinct (map fst (x # m))" "distinct (map fst b')" using that Cons.prems unfolding registry_wf_def by blast+
    with that have "map_of (x # m) s' = Some b'" "map_of b' l = Some p" by (metis map_of_is_SomeI)+
    then have "registry_Lookup (x # m) s' l = Some p" by (simp add: registry_Lookup_def partition_of_def del: map_of.simps)
    then show ?thesis using Cons.prems unfolding registry_wf_def mem_registry.located_def by blast
  qed
  have b: "map (\<lambda>p. (pl_Scope p, pl_Location p)) (map snd b) = map (\<lambda>l. (sc, l)) (map fst b)"
    using own[of sc b] by (auto simp: x)
  have "distinct (map fst b)" using Cons.prems by (simp add: registry_wf_def x)
  then have "distinct (map (\<lambda>p. (pl_Scope p, pl_Location p)) (map snd b))" unfolding b by (simp add: distinct_map inj_on_def)
  moreover have "fst ` set (map (\<lambda>p. (pl_Scope p, pl_Location p)) (concat (map (map snd \<circ> snd) m))) \<subseteq> fst ` set m"
    using own by (force simp: image_iff)
  moreover have "sc \<notin> fst ` set m" using Cons.prems by (simp add: registry_wf_def x)
  ultimately have "set (map (\<lambda>p. (pl_Scope p, pl_Location p)) (map snd b)) \<inter>
      set (map (\<lambda>p. (pl_Scope p, pl_Location p)) (concat (map (map snd \<circ> snd) m))) = {}"
    unfolding b by force
  with \<open>distinct (map (\<lambda>p. (pl_Scope p, pl_Location p)) (map snd b))\<close> Cons.IH[OF wf] show ?case
    by (simp only: x list.map concat.simps map_append distinct_append comp_def snd_conv)
qed simp

text \<open>A rotated placement is of the same type and no longer due.\<close>

lemma rotated_fresh:
  assumes "ttl_sane s" "draws_below env" "\<forall>i. now \<le> clock i" "place_all env s (rotate_input clock ps) = (None, s')"
    and "distinct (slots_of (rotate_input clock ps))" "p \<in> set ps"
  shows "\<exists>p'. registry_Lookup (sd_reg s') (pl_Scope p) (pl_Location p) = Some p' \<and> pl_Type p' = pl_Type p \<and> \<not> expired_at now p'"
proof -
  let ?pr = "\<lparr>pr_Location = pl_Location p, pr_Type = pl_Type p, pr_Origin = pl_Origin p\<rparr>"
  obtain i where "(clock i, pl_Scope p, pl_Mode p, ?pr) \<in> set (rotate_input clock ps)" using rotate_input_mem[OF assms(6)] by blast
  with place_all_slots[OF assms(4,5)] obtain p' s0 where p': "registry_Lookup (sd_reg s') (pl_Scope p) (pl_Location p) = Some p'"
    "placed_as env s0 (clock i) (pl_Scope p) (pl_Mode p) ?pr p'" "sd_ttl s0 = sd_ttl s" "sd_jitter s0 = sd_jitter s" by fastforce
  then obtain s1 where s1: "pl_ExpiresAt p' = clock i + fst (expiry env s1 (pl_Mode p))" "sd_ttl s1 = sd_ttl s" "sd_jitter s1 = sd_jitter s"
    by (auto simp: placed_as_def)
  then have "ttl_sane s1" using assms(1) by (simp add: ttl_sane_def)
  from expiry_positive(2)[OF this assms(2), of "pl_Mode p"] have "now < pl_ExpiresAt p'" using s1(1) assms(3)[rule_format, of i] by linarith
  then have "\<not> expired_at now p'" by (simp add: expired_at_def)
  with p' show ?thesis by (simp add: placed_as_def)
qed

lemma Expired_mem:
  assumes "registry_wf reg" "enumeration perm"
  shows "p \<in> set (Expired perm reg now) \<longleftrightarrow> registry_Lookup reg (pl_Scope p) (pl_Location p) = Some p \<and> expired_at now p"
  by (simp only: Expired_def enumeration_set[OF assms(2)] set_filter mem_Collect_eq placements_mem[OF assms(1)])

lemma Expired_slots_distinct:
  assumes "registry_wf reg" "enumeration perm"
  shows "distinct (map (\<lambda>p. (pl_Scope p, pl_Location p)) (Expired perm reg now))"
proof -
  let ?slot = "\<lambda>p. (pl_Scope p, pl_Location p)" and ?all = "filter (expired_at now) (concat (map (map snd \<circ> snd) reg))"
  have "mset (map ?slot (Expired perm reg now)) = mset (map ?slot ?all)" using assms(2) by (simp add: Expired_def enumeration_def)
  moreover have "distinct (map ?slot ?all)" using slots_distinct[OF assms(1)] by (simp add: distinct_map_filter)
  ultimately show ?thesis by (rule mset_eq_imp_distinct_iff[THEN iffD2])
qed

text \<open>What a clean sweep does to each slot.\<close>

lemma sweep_each:
  assumes "registry_wf (sd_reg s)" "ttl_sane s" "draws_below env" "enumeration (se_perm env)" "\<forall>i. now \<le> clock i"
    and "sweepExpired env now clock s = (None, s')"
  shows "case registry_Lookup (sd_reg s) sc loc of None \<Rightarrow> registry_Lookup (sd_reg s') sc loc = None
    | Some p \<Rightarrow> (if expired_at now p then \<exists>p'. registry_Lookup (sd_reg s') sc loc = Some p' \<and> pl_Type p' = pl_Type p \<and> \<not> expired_at now p'
        else registry_Lookup (sd_reg s') sc loc = Some p)"
proof -
  let ?ex = "Expired (se_perm env) (sd_reg s) now"
  note mem = Expired_mem[OF assms(1,4)]
  have d: "distinct (slots_of (rotate_input clock ?ex))" using Expired_slots_distinct[OF assms(1,4)] by (simp add: slots_rotate)
  note run = place_all_slots[OF assms(6)[unfolded sweepExpired_def] d]
  have located: "pl_Scope p = sc \<and> pl_Location p = loc" if "registry_Lookup (sd_reg s) sc loc = Some p" for sc loc p
    using assms(1) that by (simp add: registry_wf_def mem_registry.located_def)
  have due: "\<exists>p'. registry_Lookup (sd_reg s') (pl_Scope p) (pl_Location p) = Some p' \<and> pl_Type p' = pl_Type p \<and> \<not> expired_at now p'" if "p \<in> set ?ex" for p
    using rotated_fresh[OF assms(2,3,5) assms(6)[unfolded sweepExpired_def] d that] .
  have kept: "registry_Lookup (sd_reg s') sc loc = registry_Lookup (sd_reg s) sc loc" if "\<not> (\<exists>p\<in>set ?ex. pl_Scope p = sc \<and> pl_Location p = loc)" for sc loc
  proof -
    have "(sc, loc) \<notin> set (slots_of (rotate_input clock ?ex))" using that by (auto simp: slots_rotate)
    with run show ?thesis by blast
  qed
  show ?thesis
  proof (cases "registry_Lookup (sd_reg s) sc loc")
    case None
    then have "\<not> (\<exists>p\<in>set ?ex. pl_Scope p = sc \<and> pl_Location p = loc)" using mem by auto
    with None kept show ?thesis by simp
  next
    case (Some p)
    have l: "pl_Scope p = sc" "pl_Location p = loc" using located[OF Some] by simp_all
    show ?thesis
    proof (cases "expired_at now p")
      case True
      then have "p \<in> set ?ex" unfolding mem using Some l by simp
      from due[OF this] show ?thesis using Some True l by simp
    next
      case False
      have "\<not> (\<exists>q\<in>set ?ex. pl_Scope q = sc \<and> pl_Location q = loc)"
      proof
        assume "\<exists>q\<in>set ?ex. pl_Scope q = sc \<and> pl_Location q = loc"
        then obtain q where "q \<in> set ?ex" "pl_Scope q = sc" "pl_Location q = loc" by blast
        then have "q = p" "expired_at now q" using Some unfolding mem by simp_all
        with False show False by simp
      qed
      with kept Some False show ?thesis by simp
    qed
  qed
qed

text \<open>
  Property C36. Rotation keeps the surface fresh and whole. After a sweep that met no error, whatever order it walked
  the registry in, no placement is expired any more, every location that held a canary still holds one
  of the same type in the same scope, no location was added, and placements that were not due are untouched.
\<close>

theorem sweep_keeps_surface:
  assumes "registry_wf (sd_reg s)" "ttl_sane s" "draws_below env" "enumeration (se_perm env)" "\<forall>i. now \<le> clock i"
    and "sweepExpired env now clock s = (None, s')"
  shows "Expired (se_perm env) (sd_reg s') now = [] \<and>
    (\<forall>sc loc. map_option pl_Type (registry_Lookup (sd_reg s') sc loc) = map_option pl_Type (registry_Lookup (sd_reg s) sc loc)) \<and>
    (\<forall>sc loc p. registry_Lookup (sd_reg s) sc loc = Some p \<and> \<not> expired_at now p \<longrightarrow> registry_Lookup (sd_reg s') sc loc = Some p)"
proof -
  have wf': "registry_wf (sd_reg s')" using place_all_wf[OF assms(1)] assms(6) by (metis snd_conv sweepExpired_def)
  note each = sweep_each[OF assms]
  have none: "\<not> expired_at now p" if "registry_Lookup (sd_reg s') sc loc = Some p" for sc loc p
    using each[of sc loc] that by (auto split: option.splits if_splits)
  have "p \<notin> set (Expired (se_perm env) (sd_reg s') now)" for p
    using none by (auto simp: Expired_mem[OF wf' assms(4)])
  then have "Expired (se_perm env) (sd_reg s') now = []" by (cases "Expired (se_perm env) (sd_reg s') now") auto
  moreover have "map_option pl_Type (registry_Lookup (sd_reg s') sc loc) = map_option pl_Type (registry_Lookup (sd_reg s) sc loc)" for sc loc
    using each[of sc loc] by (auto split: option.splits if_splits)
  moreover have "registry_Lookup (sd_reg s') sc loc = Some p" if "registry_Lookup (sd_reg s) sc loc = Some p" "\<not> expired_at now p" for sc loc p
    using each[of sc loc] that by simp
  ultimately show ?thesis by blast
qed

definition demo_entry :: "unit Entry" where
  "demo_entry = \<lparr>et_Type = TypeDecoyFile, et_SeedWeight = 1, et_Generate = Some (\<lambda>r. (Inr \<lparr>in_Type = TypeDecoyFile, in_Payload = ''x-ref-B''\<rparr>, r)),
     et_Harmless = Some (\<lambda>_. None)\<rparr>"

definition demo_catalog :: "unit Catalog" where
  "demo_catalog = \<lparr>ct_entries = [(TypeDecoyFile, demo_entry)], ct_order = [TypeDecoyFile]\<rparr>"

definition demo_seeder_env :: "unit seeder_env" where
  "demo_seeder_env = \<lparr>se_cross = (\<lambda>_. None), se_Int63n = (\<lambda>r j. (0, r)), se_perm = rev\<rparr>"

definition demo_seeder_config :: "unit seeder_Config" where
  "demo_seeder_config = \<lparr>sg_Catalog = Some demo_catalog,
     sg_Planner = Some (\<lambda>sc m want. [\<lparr>pr_Location = ''/admin/'', pr_Type = TypeDecoyFile, pr_Origin = OriginOperatorBroad\<rparr>]),
     sg_TTL = (\<lambda>_. 0), sg_Mix = None, sg_Jitter = 0\<rparr>"

definition demo_seeder :: "unit seeder_Store" where
  "demo_seeder = (case seeder_New demo_seeder_config () () of Inr s \<Rightarrow> s)"

lemma demo_seeder_New: "seeder_New demo_seeder_config () () = Inr demo_seeder"
  by (simp add: demo_seeder_def seeder_New_def demo_seeder_config_def)

definition demo_seeded :: "unit seeder_Store" where
  "demo_seeded = foldl (seed_step demo_seeder_env) demo_seeder [SeedOp (\<lambda>_. 1) ''s'' Minefield]"

lemmas demo_seeder_simps = demo_seeder_def seeder_New_def demo_seeder_config_def Seed_def place_def Generate_def demo_catalog_def demo_entry_def
  IsHarmless_def nextID_def expiry_def demo_seeder_env_def registry_Put_def partition_of_def registry_Lookup_def Let_def wrap64_def
  DefaultMinefieldTTL_def DefaultActiveTTL_def

lemma demo_seeded_lookup: "\<exists>p. registry_Lookup (sd_reg demo_seeded) ''s'' ''/admin/'' = Some p"
  by (simp add: demo_seeded_def demo_seeder_simps)

theorem placed_only_harmless_witness:
  "\<exists>p. registry_Lookup (sd_reg demo_seeded) ''s'' ''/admin/'' = Some p \<and> IsHarmless (\<lambda>_. None) demo_catalog (pl_Instance p) = None"
proof -
  obtain p where p: "registry_Lookup (sd_reg demo_seeded) ''s'' ''/admin/'' = Some p" using demo_seeded_lookup by blast
  have "sg_Catalog demo_seeder_config = Some demo_catalog" "se_cross demo_seeder_env = (\<lambda>_. None)"
    by (simp_all add: demo_seeder_config_def demo_seeder_env_def)
  with placed_only_harmless[OF demo_seeder_New _ p[unfolded demo_seeded_def]] p show ?thesis by auto
qed

theorem sweep_keeps_surface_witness:
  "\<exists>s'. sweepExpired demo_seeder_env (48 * hour) (\<lambda>_. 48 * hour) demo_seeded = (None, s') \<and>
     Expired rev (sd_reg demo_seeded) (48 * hour) \<noteq> [] \<and> Expired rev (sd_reg s') (48 * hour) = []"
proof -
  have "seeder_ok demo_seeder_env demo_catalog demo_seeded"
    unfolding demo_seeded_def by (rule seed_steps_ok[OF seeder_New_ok[OF demo_seeder_New]]) (simp add: demo_seeder_config_def)
  then have wf: "registry_wf (sd_reg demo_seeded)" by (simp add: seeder_ok_def)
  have ttl: "ttl_sane demo_seeded"
    unfolding ttl_sane_def by (intro conjI allI) (simp_all add: demo_seeded_def demo_seeder_simps split: Mode.split)
  have dr: "draws_below demo_seeder_env" by (simp add: draws_below_def demo_seeder_env_def)
  have pm: "enumeration (se_perm demo_seeder_env)" by (simp add: demo_seeder_env_def enumeration_rev)
  obtain s' where s': "sweepExpired demo_seeder_env (48 * hour) (\<lambda>_. 48 * hour) demo_seeded = (None, s')"
    by (simp add: sweepExpired_def Expired_def demo_seeded_def demo_seeder_simps rotate_input_def expired_at_def)
  have "Expired rev (sd_reg demo_seeded) (48 * hour) \<noteq> []" by (simp add: Expired_def demo_seeded_def demo_seeder_simps expired_at_def)
  with sweep_keeps_surface[OF wf ttl dr pm _ s'] s' show ?thesis by (simp add: demo_seeder_env_def)
qed
end
