(* ===== verification/EnvoyAdapter.thy ===== *)
theory EnvoyAdapter
  imports Netip Hold Canaries
begin

text \<open>
  The Envoy adapter, \<^verbatim>\<open>adapters/envoy\<close>: a request becomes an observation, its connection attributes a
  tuple and, through the stale guard of \<^verbatim>\<open>identity/staleguard.go\<close>, a socket cookie; the signal builder
  decides whether it touched a canary; the engine's verdict is awaited for a bounded time and applied
  at the proxy. Engine, resolver and their states are parameters. The hooks that the composition root
  installs are returned as effects in the order they fire; fire-and-forget submits are a step relation.
  Lemmas: a request that touched no canary, or whose flow has no confirmed cookie, passes untouched; the
  low tiers never block; a submit that is dropped is reported.
\<close>

section \<open>Observing a request\<close>

record header =
  hd_Key :: string
  hd_Value :: string
  hd_RawValue :: string

definition observe_header :: "RequestObservation \<Rightarrow> header \<Rightarrow> RequestObservation" where
  "observe_header obs h =
     (let k = ToLower (hd_Key h);
          v = (if hd_Value h = [] \<and> hd_RawValue h \<noteq> [] then hd_RawValue h else hd_Value h)
      in if k = '':path'' then obs\<lparr>ob_Path := v\<rparr>
         else if k = '':method'' then obs\<lparr>ob_Method := v\<rparr>
         else obs\<lparr>ob_Headers := (ob_Headers obs)(k \<mapsto> v)\<rparr>)"

definition observationFromHeaders :: "header list \<Rightarrow> RequestObservation" where
  "observationFromHeaders hs = foldl observe_header \<lparr>ob_Method = [], ob_Path = [], ob_Headers = Map.empty\<rparr> hs"

text \<open>\<^verbatim>\<open>StripQueryPathMapper\<close>.\<close>

definition StripQuery_ToLocation :: "RequestObservation \<Rightarrow> Location option" where
  "StripQuery_ToLocation obs = (let p = takeWhile (\<lambda>c. c \<noteq> CHR ''?'') (ob_Path obs) in if p = [] then None else Some p)"

text \<open>The attributes of a request, in the order their map is walked in.\<close>

datatype attr_value = StringValue string | OtherValue

type_synonym attributes = "(string \<times> (string \<rightharpoonup> attr_value) option) list"

abbreviation (input) attrSourceAddress :: string where "attrSourceAddress \<equiv> ''source.address''"
abbreviation (input) attrDestAddress :: string where "attrDestAddress \<equiv> ''destination.address''"
abbreviation (input) attrPeerSPIFFE :: string where "attrPeerSPIFFE \<equiv> ''connection.uri_san_peer_certificate''"

fun stringAttr :: "attributes \<Rightarrow> string \<Rightarrow> string option" where
  "stringAttr [] key = None"
| "stringAttr ((_, None) # as) key = stringAttr as key"
| "stringAttr ((_, Some fs) # as) key =
     (case fs key of Some (StringValue v) \<Rightarrow> if v \<noteq> [] then Some v else stringAttr as key | _ \<Rightarrow> stringAttr as key)"

definition tupleFromAttributes :: "attributes \<Rightarrow> FourTuple option" where
  "tupleFromAttributes as =
     (case (stringAttr as attrSourceAddress, stringAttr as attrDestAddress) of
        (Some src, Some dst) \<Rightarrow>
          (case (splitHostPort src, splitHostPort dst) of
             (Some (sIP, sPort), Some (dIP, dPort)) \<Rightarrow> TupleFromAddrs sIP sPort dIP dPort
           | _ \<Rightarrow> None)
      | _ \<Rightarrow> None)"

definition spiffeFromAttributes :: "attributes \<Rightarrow> string" where
  "spiffeFromAttributes as = (case stringAttr as attrPeerSPIFFE of None \<Rightarrow> [] | Some s \<Rightarrow> s)"

section \<open>Resolving the socket cookie\<close>

text \<open>A resolver reads the kernel's map, which changes between reads: it is a function of a state it advances.\<close>

type_synonym 'r resolver = "'r \<Rightarrow> FourTuple \<Rightarrow> Resolution option \<times> 'r"

definition StaleGuard_Resolve :: "'r resolver \<Rightarrow> 'r resolver" where
  "StaleGuard_Resolve inner r t =
     (case inner r t of
        (None, r1) \<Rightarrow> (None, r1)
      | (Some first, r1) \<Rightarrow>
         (case inner r1 t of
            (None, r2) \<Rightarrow> (None, r2)
          | (Some again, r2) \<Rightarrow> if rs_Cookie again \<noteq> rs_Cookie first then (None, r2) else (Some first, r2)))"

definition resolveAttempts :: nat where "resolveAttempts = 4"

text \<open>The retries, with the time slept between them.\<close>

fun resolve_retry :: "'r resolver \<Rightarrow> duration \<Rightarrow> nat \<Rightarrow> 'r \<Rightarrow> FourTuple \<Rightarrow> Resolution option \<times> duration \<times> 'r" where
  "resolve_retry res interval 0 r t = (None, 0, r)"
| "resolve_retry res interval (Suc n) r t =
     (case res r t of
        (Some x, r') \<Rightarrow> (Some x, 0, r')
      | (None, r') \<Rightarrow>
         (case resolve_retry res interval n r' t of
            (x, slept, r'') \<Rightarrow> (x, (if 0 < n \<and> 0 < interval then interval else 0) + slept, r'')))"

definition resolveCookie :: "'r resolver \<Rightarrow> duration \<Rightarrow> 'r \<Rightarrow> FourTuple \<Rightarrow> Resolution option \<times> duration \<times> 'r" where
  "resolveCookie res retry r t = resolve_retry res (retry div int resolveAttempts) resolveAttempts r t"

section \<open>Configuration\<close>

text \<open>A nil \<^verbatim>\<open>FailClosed\<close> map is \<open>None\<close>.\<close>

type_synonym FailPolicy = "(Tier \<rightharpoonup> bool) option"

definition DefaultFailPolicy :: FailPolicy where
  "DefaultFailPolicy = Some [TierJail \<mapsto> True]"

definition Allow :: "FailPolicy \<Rightarrow> Tier \<Rightarrow> bool" where
  "Allow p tier = (tier \<le> TierTag \<or> (case p of None \<Rightarrow> True | Some m \<Rightarrow> m tier \<noteq> Some True))"

record ('s, 'x, 'r) adapter_Config =
  ac_Engine :: "('s \<Rightarrow> SignalEvent \<Rightarrow> ('x + Verdict) \<times> 's) option"
  ac_Registry :: bool
  ac_Resolver :: "'r resolver option"
  ac_Scope :: ScopeKey
  ac_Fail :: FailPolicy
  ac_Attritor :: "BoundedAttritor option"
  ac_Mapper :: "(RequestObservation \<Rightarrow> Location option) option"
  ac_Inline :: bool
  ac_InlineTimeout :: duration
  ac_ResolveRetry :: duration
  ac_AsyncMaxInflight :: int
  ac_OnVerdict :: bool
  ac_OnOutcome :: bool
  ac_AttritionBodyCap :: int
  ac_AttritionMaxHold :: duration

definition adapter_Normalized :: "('s, 'x, 'r) adapter_Config \<Rightarrow> ('s, 'x, 'r) adapter_Config" where
  "adapter_Normalized c =
     (let c = (if ac_Mapper c = None then c\<lparr>ac_Mapper := Some StripQuery_ToLocation\<rparr> else c);
          c = (if ac_InlineTimeout c \<le> 0 then c\<lparr>ac_InlineTimeout := 250000000\<rparr> else c);
          c = (if ac_ResolveRetry c \<le> 0 then c\<lparr>ac_ResolveRetry := 5000000\<rparr> else c);
          c = (if ac_AttritionMaxHold c \<le> 0 then c\<lparr>ac_AttritionMaxHold := defaultAttritionMaxHold\<rparr> else c);
          c = (if ac_AttritionBodyCap c \<le> 0 then c\<lparr>ac_AttritionBodyCap := defaultAttritionBodyCap\<rparr> else c);
          c = (if ac_Fail c = None then c\<lparr>ac_Fail := DefaultFailPolicy\<rparr> else c)
      in if ac_AsyncMaxInflight c \<le> 0 then c\<lparr>ac_AsyncMaxInflight := 256\<rparr> else c)"

datatype adapter_error = NilEngine | NilRegistry | NilResolver | EmptyScope

text \<open>The adapter with its dependencies there; the registry's contents are part of the world it runs in.\<close>

record ('s, 'x, 'r) Adapter =
  ad_Engine :: "'s \<Rightarrow> SignalEvent \<Rightarrow> ('x + Verdict) \<times> 's"
  ad_Resolver :: "'r resolver"
  ad_Mapper :: "RequestObservation \<Rightarrow> Location option"
  ad_cfg :: "('s, 'x, 'r) adapter_Config"

definition adapter_New :: "('s, 'x, 'r) adapter_Config \<Rightarrow> adapter_error + ('s, 'x, 'r) Adapter" where
  "adapter_New cfg0 =
     (case ac_Engine cfg0 of
        None \<Rightarrow> Inl NilEngine
      | Some eng \<Rightarrow>
          if \<not> ac_Registry cfg0 then Inl NilRegistry
          else case ac_Resolver cfg0 of
            None \<Rightarrow> Inl NilResolver
          | Some res \<Rightarrow>
              if ac_Scope cfg0 = [] then Inl EmptyScope
              else (let cfg = adapter_Normalized cfg0 in
                Inr \<lparr>ad_Engine = eng, ad_Resolver = res, ad_Mapper = the (ac_Mapper cfg), ad_cfg = cfg\<rparr>))"

section \<open>Responses\<close>

datatype phase = RequestHeaders | ResponseHeaders | RequestBody | ResponseBody | RequestTrailers | ResponseTrailers | OtherPhase

record suspicious =
  sp_tier :: f64
  sp_score :: f64
  sp_calibrated :: bool

datatype response = Continue phase "suspicious option" | Immediate int string

abbreviation (input) continueResp :: "suspicious option \<Rightarrow> response" where "continueResp tag \<equiv> Continue RequestHeaders tag"
abbreviation (input) TooManyRequests :: int where "TooManyRequests \<equiv> 429"
abbreviation (input) Forbidden :: int where "Forbidden \<equiv> 403"

definition continuePhase :: "phase \<Rightarrow> response" where
  "continuePhase p = (if p = OtherPhase then continueResp None else Continue p None)"

definition suspiciousTag :: "Verdict \<Rightarrow> suspicious" where
  "suspiciousTag v = \<lparr>sp_tier = f64_of_int (v_Tier v), sp_score = v_Score v, sp_calibrated = v_Calibrated v\<rparr>"

definition responseForVerdict :: "Verdict \<Rightarrow> response" where
  "responseForVerdict v =
     (if v_Tier v \<le> TierTag then continueResp (if v_Tier v = TierTag then Some (suspiciousTag v) else None)
      else if v_Mode v = ModeAsync then continueResp None
      else if v_Tier v = TierContain then Immediate TooManyRequests (''rate limited'' @ nl)
      else Immediate Forbidden (''forbidden'' @ nl))"

section \<open>One request\<close>

text \<open>
  The world the adapter runs in and what one request meets there: the stream's context, the clock, the
  time the engine takes, and the world around an attrition hold.
\<close>

record ('s, 'r) world =
  w_engine :: 's
  w_resolver :: 'r
  w_registry :: MemRegistry
  w_gov :: Governor

record request_env =
  re_ctx :: ctx
  re_now :: time
  re_wall :: time
  re_latency :: duration
  re_pump :: pump_env
  re_late_open :: bool

datatype effect = OnVerdict SignalEvent Verdict | OnOutcome SignalEvent Verdict Outcome | FireAsync SignalEvent

datatype 'x submit_error = EngineFailed 'x | InlineTimedOut | InlineCancelled ctx_err

text \<open>
  The engine runs to its end in any case; the reply counts if it comes before the timeout and before the
  stream's context ends.
\<close>

definition submit :: "('s, 'x, 'r) Adapter \<Rightarrow> request_env \<Rightarrow> 's \<Rightarrow> SignalEvent \<Rightarrow> ('x submit_error + Verdict) \<times> 's" where
  "submit a env s ev =
     (case ad_Engine a s ev of (r, s') \<Rightarrow>
        (let reply = re_now env + re_latency env; limit = re_now env + ac_InlineTimeout (ad_cfg a)
         in case re_ctx env of
              Some (t, e) \<Rightarrow>
                if t \<le> reply \<and> t \<le> limit then (Inl (InlineCancelled e), s')
                else if limit \<le> reply then (Inl InlineTimedOut, s')
                else (map_sum EngineFailed id r, s')
            | None \<Rightarrow> if limit \<le> reply then (Inl InlineTimedOut, s') else (map_sum EngineFailed id r, s')))"

definition attritionOrDeny ::
  "('s, 'x, 'r) Adapter \<Rightarrow> request_env \<Rightarrow> Governor \<Rightarrow> SignalEvent \<Rightarrow> Verdict \<Rightarrow> int \<Rightarrow> string \<Rightarrow> DriverObservation \<Rightarrow>
   (response \<times> effect list \<times> Governor) option" where
  "attritionOrDeny a env gv ev v code fallback digest =
     (case ac_Attritor (ad_cfg a) of
        None \<Rightarrow> Some (Immediate code fallback, [], gv)
      | Some attr \<Rightarrow>
         (case attrition_hold (re_pump env) (re_late_open env) attr (ac_AttritionMaxHold (ad_cfg a)) (ac_AttritionBodyCap (ad_cfg a))
                 (re_ctx env) (re_now env + re_latency env) gv v digest of
            None \<Rightarrow> None
          | Some r \<Rightarrow> (case hr_Body r of
              None \<Rightarrow> Some (Immediate code fallback, [], hr_Gov r)
            | Some b \<Rightarrow> Some (Immediate code b, if ac_OnOutcome (ad_cfg a) then [OnOutcome ev v (hr_Outcome r)] else [], hr_Gov r))))"

definition responseWithAttrition ::
  "('s, 'x, 'r) Adapter \<Rightarrow> request_env \<Rightarrow> Governor \<Rightarrow> SignalEvent \<Rightarrow> Verdict \<Rightarrow> DriverObservation \<Rightarrow>
   (response \<times> effect list \<times> Governor) option" where
  "responseWithAttrition a env gv ev v digest =
     (if v_Tier v \<le> TierTag \<or> v_Mode v = ModeAsync then Some (responseForVerdict v, [], gv)
      else if v_Tier v \<ge> TierJail then attritionOrDeny a env gv ev v Forbidden (''forbidden'' @ nl) digest
      else attritionOrDeny a env gv ev v TooManyRequests (''rate limited'' @ nl) digest)"

text \<open>The flow stamped onto a request: its request line, its peer, and the cookie if the tuple resolves.\<close>

definition stamp_flow :: "('s, 'x, 'r) Adapter \<Rightarrow> 'r \<Rightarrow> attributes \<Rightarrow> RequestObservation \<Rightarrow> FlowIdentity \<times> 'r" where
  "stamp_flow a r as obs =
     (let l7 = (\<lambda>_. None);
          l7 = (if ob_Method obs \<noteq> [] then l7(AttrRequestMethod \<mapsto> ob_Method obs) else l7);
          l7 = (if ob_Path obs \<noteq> [] then l7(AttrRequestPath \<mapsto> ob_Path obs) else l7);
          fl = \<lparr>SocketCookie = 0, CgroupID = 0, PID = 0, SPIFFEID = spiffeFromAttributes as, L7Attributes = l7\<rparr>
      in case tupleFromAttributes as of
           None \<Rightarrow> (fl, r)
         | Some t \<Rightarrow>
             (let fl = (case SourceAddr t of None \<Rightarrow> fl
                          | Some src \<Rightarrow> fl\<lparr>L7Attributes := (L7Attributes fl)(AttrSourceAddress \<mapsto> Addr_String src)\<rparr>)
              in case resolveCookie (ad_Resolver a) (ac_ResolveRetry (ad_cfg a)) r t of
                   (None, _, r') \<Rightarrow> (fl, r')
                 | (Some res, _, r') \<Rightarrow> (fl\<lparr>SocketCookie := rs_Cookie res, CgroupID := rs_CgroupID res, PID := rs_PID res\<rparr>, r')))"

definition onRequestHeaders ::
  "('s, 'x, 'r) Adapter \<Rightarrow> request_env \<Rightarrow> ('s, 'r) world \<Rightarrow> attributes \<Rightarrow> header list \<Rightarrow> (response \<times> effect list \<times> ('s, 'r) world) option" where
  "onRequestHeaders a env w as hs =
     (let obs = observationFromHeaders hs in
      case ad_Mapper a obs of
        None \<Rightarrow> Some (continueResp None, [], w)
      | Some loc \<Rightarrow>
         (case stamp_flow a (w_resolver w) as obs of (fl, r') \<Rightarrow>
            let w1 = w\<lparr>w_resolver := r'\<rparr> in
            case Build (w_registry w) (re_wall env) (ac_Scope (ad_cfg a)) \<lparr>to_Flow = fl, to_Location = loc, to_At = re_now env\<rparr> of
              Inl _ \<Rightarrow> Some (continueResp None, [], w1)
            | Inr ev \<Rightarrow>
                if \<not> ac_Inline (ad_cfg a) then Some (continueResp None, [FireAsync ev], w1)
                else (case submit a env (w_engine w1) ev of
                   (Inl _, s') \<Rightarrow>
                     Some (if Allow (ac_Fail (ad_cfg a)) TierJail then continueResp None else Immediate Forbidden (''forbidden'' @ nl), [], w1\<lparr>w_engine := s'\<rparr>)
                 | (Inr v, s') \<Rightarrow>
                     map_option (\<lambda>(resp, effs, gv). (resp, (if ac_OnVerdict (ad_cfg a) then [OnVerdict ev v] else []) @ effs,
                                   w1\<lparr>w_engine := s', w_gov := gv\<rparr>))
                       (responseWithAttrition a env (w_gov w1) ev v (digestObservation obs)))))"

text \<open>One stream: its messages in order, each answered in its own phase.\<close>

datatype message = HeadersMsg request_env attributes "header list" | PhaseMsg phase

fun Process :: "('s, 'x, 'r) Adapter \<Rightarrow> ('s, 'r) world \<Rightarrow> message list \<Rightarrow> (response list \<times> effect list \<times> ('s, 'r) world) option" where
  "Process a w [] = Some ([], [], w)"
| "Process a w (PhaseMsg p # ms) = map_option (\<lambda>(rs, effs, w'). (continuePhase p # rs, effs, w')) (Process a w ms)"
| "Process a w (HeadersMsg env as hs # ms) =
     (case onRequestHeaders a env w as hs of
        None \<Rightarrow> None
      | Some (resp, effs, w1) \<Rightarrow> map_option (\<lambda>(rs, effs', w'). (resp # rs, effs @ effs', w')) (Process a w1 ms))"

section \<open>Fire and forget\<close>

text \<open>
  The asynchronous submits: at most the cap are in flight; a signal beyond it is dropped and reported, a
  failed submit is reported, any submit in flight may finish next.
\<close>

record ('s, 'x) async =
  ay_engine :: 's
  ay_inflight :: "SignalEvent list"
  ay_observed :: "(SignalEvent \<times> Verdict) list"
  ay_failed :: "(SignalEvent \<times> 'x) list"
  ay_dropped :: "SignalEvent list"

inductive async_step :: "('s, 'x, 'r) Adapter \<Rightarrow> ('s, 'x) async \<Rightarrow> SignalEvent option \<Rightarrow> ('s, 'x) async \<Rightarrow> bool" for a where
  spawn: "int (length (ay_inflight y)) < ac_AsyncMaxInflight (ad_cfg a) \<Longrightarrow>
    async_step a y (Some ev) (y\<lparr>ay_inflight := ay_inflight y @ [ev]\<rparr>)"
| drop_signal: "\<not> int (length (ay_inflight y)) < ac_AsyncMaxInflight (ad_cfg a) \<Longrightarrow>
    async_step a y (Some ev) (y\<lparr>ay_dropped := ay_dropped y @ [ev]\<rparr>)"
| finish_ok: "ay_inflight y = es @ ev # fs \<Longrightarrow> ad_Engine a (ay_engine y) ev = (Inr v, s') \<Longrightarrow>
    async_step a y None (y\<lparr>ay_engine := s', ay_inflight := es @ fs, ay_observed := ay_observed y @ [(ev, v)]\<rparr>)"
| finish_err: "ay_inflight y = es @ ev # fs \<Longrightarrow> ad_Engine a (ay_engine y) ev = (Inl x, s') \<Longrightarrow>
    async_step a y None (y\<lparr>ay_engine := s', ay_inflight := es @ fs, ay_failed := ay_failed y @ [(ev, x)]\<rparr>)"

inductive async_run :: "('s, 'x, 'r) Adapter \<Rightarrow> ('s, 'x) async \<Rightarrow> SignalEvent list \<Rightarrow> ('s, 'x) async \<Rightarrow> bool" for a y0 where
  start: "async_run a y0 [] y0"
| fire: "async_run a y0 evs y \<Longrightarrow> async_step a y (Some ev) y' \<Longrightarrow> async_run a y0 (evs @ [ev]) y'"
| quiet: "async_run a y0 evs y \<Longrightarrow> async_step a y None y' \<Longrightarrow> async_run a y0 evs y'"

section \<open>Attribution\<close>

text \<open>The kernel's map as the history of what each read of a tuple finds.\<close>

definition kernel_reads :: "(nat \<Rightarrow> FourTuple \<Rightarrow> Resolution option) \<Rightarrow> nat resolver" where
  "kernel_reads hist n t = (hist n t, Suc n)"

text \<open>A cookie confirmed between two instants: two reads in a row found the same one.\<close>

definition confirmed :: "(nat \<Rightarrow> FourTuple \<Rightarrow> Resolution option) \<Rightarrow> nat \<Rightarrow> nat \<Rightarrow> FourTuple \<Rightarrow> u64 \<Rightarrow> bool" where
  "confirmed hist from till t cookie \<longleftrightarrow>
     (\<exists>k x y. from \<le> k \<and> Suc k < till \<and> hist k t = Some x \<and> hist (Suc k) t = Some y \<and> rs_Cookie x = cookie \<and> rs_Cookie y = cookie)"

text \<open>
  What the adapter relies on in its resolver: time only advances, and a resolution is evidence of the
  cookie in the interval of the call; evidence does not go away when the interval grows.
\<close>

locale cookie_resolver =
  fixes res :: "nat resolver" and evidence :: "nat \<Rightarrow> nat \<Rightarrow> FourTuple \<Rightarrow> u64 \<Rightarrow> bool"
  assumes advances: "r \<le> snd (res r t)"
    and resolves: "res r t = (Some x, r') \<Longrightarrow> evidence r r' t (rs_Cookie x)"
    and widens: "evidence r r' t c \<Longrightarrow> q \<le> r \<Longrightarrow> r' \<le> q' \<Longrightarrow> evidence q q' t c"
begin

lemma retry_evidence:
  "resolve_retry res interval n r t = (x, slept, r') \<Longrightarrow> r \<le> r' \<and> (\<forall>y. x = Some y \<longrightarrow> evidence r r' t (rs_Cookie y))"
proof (induction n arbitrary: r x slept r')
  case (Suc n)
  obtain z r1 where z: "res r t = (z, r1)" by fastforce
  have r1: "r \<le> r1" using advances[of r t] z by simp
  show ?case
  proof (cases z)
    case None
    obtain x2 s2 r2 where 2: "resolve_retry res interval n r1 t = (x2, s2, r2)" by (metis prod.collapse)
    show ?thesis using Suc.IH[OF 2] Suc.prems None z 2 r1 by (auto intro: widens)
  next
    case (Some y)
    then show ?thesis using Suc.prems z r1 resolves[of r t y r1] by auto
  qed
qed simp

lemma resolveCookie_evidence: "resolveCookie res retry r t = (Some y, slept, r') \<Longrightarrow> evidence r r' t (rs_Cookie y)"
  using retry_evidence by (fastforce simp: resolveCookie_def)

end

interpretation guarded: cookie_resolver "StaleGuard_Resolve (kernel_reads hist)" "confirmed hist" for hist
proof unfold_locales
  show "r \<le> snd (StaleGuard_Resolve (kernel_reads hist) r t)" for r t
    by (simp add: StaleGuard_Resolve_def kernel_reads_def split: option.split)
  show "StaleGuard_Resolve (kernel_reads hist) r t = (Some x, r') \<Longrightarrow> confirmed hist r r' t (rs_Cookie x)" for r t x r'
    by (auto simp: StaleGuard_Resolve_def kernel_reads_def confirmed_def split: option.splits if_splits)
  show "confirmed hist r r' t c \<Longrightarrow> q \<le> r \<Longrightarrow> r' \<le> q' \<Longrightarrow> confirmed hist q q' t c" for r r' t c q q'
    unfolding confirmed_def by (metis le_trans less_le_trans)
qed

text \<open>The retries sleep for less than the configured window.\<close>

lemma resolve_retry_slept: "resolve_retry res interval n r t = (x, slept, r') \<Longrightarrow> 0 \<le> interval \<Longrightarrow> 0 \<le> slept \<and> slept \<le> interval * int (n - 1)"
proof (induction n arbitrary: r x slept r')
  case (Suc n)
  obtain x2 s2 r2 where 2: "resolve_retry res interval n (snd (res r t)) t = (x2, s2, r2)" by (metis prod.collapse)
  show ?case using Suc.prems Suc.IH[OF 2] 2 by (cases n) (auto simp: algebra_simps split: prod.splits option.splits)
qed simp

lemma resolveCookie_slept:
  assumes "resolveCookie res retry r t = (x, slept, r')" "0 \<le> retry" shows "0 \<le> slept \<and> slept \<le> retry"
proof -
  have "0 \<le> slept \<and> slept \<le> retry div 4 * 3"
    using resolve_retry_slept[OF assms(1)[unfolded resolveCookie_def]] assms(2) by (simp add: resolveAttempts_def)
  moreover have "retry div 4 * 3 \<le> retry" using assms(2) by presburger
  ultimately show ?thesis by linarith
qed

section \<open>What a started adapter is\<close>

lemma adapter_Mapper: "ac_Mapper (adapter_Normalized c) = Some (case ac_Mapper c of None \<Rightarrow> StripQuery_ToLocation | Some m \<Rightarrow> m)"
  by (simp add: adapter_Normalized_def Let_def split: option.split)

lemma adapter_New_parts:
  assumes "adapter_New cfg = Inr a"
  shows "ac_Engine cfg = Some (ad_Engine a)" "ac_Resolver cfg = Some (ad_Resolver a)" "ad_cfg a = adapter_Normalized cfg"
    "ac_Scope cfg \<noteq> []" "ac_Registry cfg" "ad_Mapper a = (case ac_Mapper cfg of None \<Rightarrow> StripQuery_ToLocation | Some m \<Rightarrow> m)"
  using assms by (auto simp: adapter_New_def Let_def adapter_Mapper split: option.splits if_splits)

lemma adapter_Normalized_fields:
  "ac_Scope (adapter_Normalized c) = ac_Scope c" "ac_Inline (adapter_Normalized c) = ac_Inline c"
  "ac_Attritor (adapter_Normalized c) = ac_Attritor c" "0 < ac_AttritionMaxHold (adapter_Normalized c)"
  "0 < ac_AsyncMaxInflight (adapter_Normalized c)" "0 < ac_InlineTimeout (adapter_Normalized c)" "0 < ac_ResolveRetry (adapter_Normalized c)"
  "ac_Fail (adapter_Normalized c) = (if ac_Fail c = None then DefaultFailPolicy else ac_Fail c)"
  "ac_OnVerdict (adapter_Normalized c) = ac_OnVerdict c" "ac_OnOutcome (adapter_Normalized c) = ac_OnOutcome c"
  by (auto simp: adapter_Normalized_def Let_def defaultAttritionMaxHold_def)

lemma stamp_flow_cookie:
  assumes "stamp_flow a r as obs = (fl, r')" "SocketCookie fl \<noteq> 0"
  obtains t x slept where "tupleFromAttributes as = Some t" "resolveCookie (ad_Resolver a) (ac_ResolveRetry (ad_cfg a)) r t = (Some x, slept, r')"
    "SocketCookie fl = rs_Cookie x"
proof (cases "tupleFromAttributes as")
  case None
  with assms show thesis by (auto simp: stamp_flow_def Let_def)
next
  case (Some t)
  obtain x slept r1 where r: "resolveCookie (ad_Resolver a) (ac_ResolveRetry (ad_cfg a)) r t = (x, slept, r1)" by (metis prod.collapse)
  with assms Some that[of t] show thesis
    by (cases x) (auto simp: stamp_flow_def Let_def split: option.splits)
qed

lemma tupleFromAttributes_ok: "tupleFromAttributes as = Some t \<Longrightarrow> tuple_ok t"
  by (auto simp: tupleFromAttributes_def split: option.splits elim!: TupleFromAddrs_ok dest: splitHostPort_port)

text \<open>A request that leaves a trace was built into an event.\<close>

lemma request_trace:
  assumes "onRequestHeaders a env w as hs = Some (resp, effs, w')"
  shows "(resp = continueResp None \<and> effs = [] \<and> w_engine w' = w_engine w \<and> w_gov w' = w_gov w) \<or>
    (\<exists>loc fl r' ev. ad_Mapper a (observationFromHeaders hs) = Some loc \<and> stamp_flow a (w_resolver w) as (observationFromHeaders hs) = (fl, r') \<and>
       w_resolver w' = r' \<and>
       Build (w_registry w) (re_wall env) (ac_Scope (ad_cfg a)) \<lparr>to_Flow = fl, to_Location = loc, to_At = re_now env\<rparr> = Inr ev)"
  using assms by (fastforce simp: onRequestHeaders_def Let_def split: option.splits prod.splits sum.splits if_splits)

text \<open>
  Property C8. Only a canary touch by a confirmed socket is acted on. With the stale guard over any history of the
  kernel's map, whatever the engine answers and however the map changes under the reads: if a request is
  answered with anything but an untagged continue, or a hook fires, or the engine or the governor is touched
  at all, then its path is at or below a canary of the adapter's own scope, and its socket cookie is not
  zero and was found by two reads in a row for the connection's canonical tuple. Every other request,
  the stale and the unattributable ones included, passes untouched.
\<close>

theorem acted_on_only_confirmed_touch:
  assumes "adapter_New cfg = Inr a" "ac_Resolver cfg = Some (StaleGuard_Resolve (kernel_reads hist))" "mem_registry.located (w_registry w)"
    and "onRequestHeaders a env w as hs = Some (resp, effs, w')"
    and "resp \<noteq> continueResp None \<or> effs \<noteq> [] \<or> w_engine w' \<noteq> w_engine w \<or> w_gov w' \<noteq> w_gov w"
  shows "\<exists>t cookie loc p. tupleFromAttributes as = Some t \<and> tuple_ok t \<and> cookie \<noteq> 0 \<and>
    confirmed hist (w_resolver w) (w_resolver w') t cookie \<and> ad_Mapper a (observationFromHeaders hs) = Some loc \<and>
    registry_Lookup (w_registry w) (ac_Scope cfg) (pl_Location p) = Some p \<and> pl_Scope p = ac_Scope cfg \<and>
    (pl_Location p = loc \<or> HasSuffix (pl_Location p) ''/'' \<and> prefix (pl_Location p) (with_slash loc))"
proof -
  have scope: "ac_Scope (ad_cfg a) = ac_Scope cfg" "ad_Resolver a = StaleGuard_Resolve (kernel_reads hist)"
    using adapter_New_parts[OF assms(1)] assms(2) by (simp_all add: adapter_Normalized_fields)
  obtain loc fl r' ev where e: "ad_Mapper a (observationFromHeaders hs) = Some loc" "stamp_flow a (w_resolver w) as (observationFromHeaders hs) = (fl, r')"
    "w_resolver w' = r'" "Build (w_registry w) (re_wall env) (ac_Scope cfg) \<lparr>to_Flow = fl, to_Location = loc, to_At = re_now env\<rparr> = Inr ev"
    using request_trace[OF assms(4)] assms(5) scope by auto
  note b = Build_sound[OF assms(3) e(4), simplified]
  have nz: "SocketCookie fl \<noteq> 0" using b by blast
  obtain t x slept where t: "tupleFromAttributes as = Some t" "resolveCookie (ad_Resolver a) (ac_ResolveRetry (ad_cfg a)) (w_resolver w) t = (Some x, slept, r')"
    "SocketCookie fl = rs_Cookie x" by (rule stamp_flow_cookie[OF e(2) nz])
  have "confirmed hist (w_resolver w) r' t (rs_Cookie x)"
    using guarded.resolveCookie_evidence t(2) scope(2) by metis
  then show ?thesis using b e t nz tupleFromAttributes_ok[OF t(1)] by metis
qed

section \<open>Every request is answered\<close>

text \<open>An attritor as the package builds it.\<close>

definition attritor_built :: "BoundedAttritor \<Rightarrow> bool" where
  "attritor_built attr \<longleftrightarrow> (\<exists>scan cfg g. attrition_New scan cfg = Inr (attr, g) \<and> pacing_fits cfg)"

text \<open>A response that a request may get: nothing, the tag, or a denial with a body.\<close>

definition proper_response :: "response \<Rightarrow> bool" where
  "proper_response r = (case r of Continue p _ \<Rightarrow> p = RequestHeaders | Immediate code body \<Rightarrow> code \<in> {TooManyRequests, Forbidden} \<and> body \<noteq> [])"

lemma nl_ne [simp]: "s @ nl \<noteq> []"
  by (simp add: nl_def)

lemma attritionOrDeny_answers:
  assumes "\<forall>attr. ac_Attritor (ad_cfg a) = Some attr \<longrightarrow> attritor_built attr" "0 < ac_AttritionMaxHold (ad_cfg a)"
    and "\<forall>i. 0 \<le> pe_work (re_pump env) i \<and> pe_work (re_pump env) i \<le> W" "fallback \<noteq> []"
  shows "\<exists>body effs gv'. attritionOrDeny a env gv ev v code fallback digest = Some (Immediate code body, effs, gv') \<and> body \<noteq> [] \<and>
    (effs = [] \<or> ac_OnOutcome (ad_cfg a) \<and> (\<exists>oc. effs = [OnOutcome ev v oc] \<and> oc_Reason oc \<noteq> NotDone \<and> int (length body) \<le> oc_BytesServed oc))"
proof (cases "ac_Attritor (ad_cfg a)")
  case None
  then show ?thesis using assms(4) by (simp add: attritionOrDeny_def)
next
  case (Some attr)
  then obtain scan cfg g where n: "attrition_New scan cfg = Inr (attr, g)" "pacing_fits cfg" using assms(1) by (auto simp: attritor_built_def)
  obtain r where r: "attrition_hold (re_pump env) (re_late_open env) attr (ac_AttritionMaxHold (ad_cfg a)) (ac_AttritionBodyCap (ad_cfg a))
      (re_ctx env) (re_now env + re_latency env) gv v digest = Some r" "oc_Reason (hr_Outcome r) \<noteq> NotDone"
    "\<And>b. hr_Body r = Some b \<Longrightarrow> b \<noteq> [] \<and> int (length b) \<le> oc_BytesServed (hr_Outcome r)"
    using hold_facts[OF n assms(3,2), of "re_late_open env" "ac_AttritionBodyCap (ad_cfg a)" "re_ctx env" "re_now env + re_latency env" gv v digest]
    by force
  show ?thesis using Some assms(4) r by (cases "hr_Body r") (auto simp: attritionOrDeny_def)
qed

lemma responseWithAttrition_answers:
  assumes "\<forall>attr. ac_Attritor (ad_cfg a) = Some attr \<longrightarrow> attritor_built attr" "0 < ac_AttritionMaxHold (ad_cfg a)"
    and "\<forall>i. 0 \<le> pe_work (re_pump env) i \<and> pe_work (re_pump env) i \<le> W"
  shows "\<exists>resp effs gv'. responseWithAttrition a env gv ev v digest = Some (resp, effs, gv') \<and> proper_response resp \<and>
    (\<forall>e \<in> set effs. \<exists>oc. e = OnOutcome ev v oc \<and> oc_Reason oc \<noteq> NotDone)"
proof (cases "v_Tier v \<le> TierTag \<or> v_Mode v = ModeAsync")
  case True
  then show ?thesis by (auto simp: responseWithAttrition_def responseForVerdict_def proper_response_def)
next
  case False
  obtain code fb where "responseWithAttrition a env gv ev v digest = attritionOrDeny a env gv ev v code fb digest" "code \<in> {TooManyRequests, Forbidden}" "fb \<noteq> []"
    using False by (cases "v_Tier v \<ge> TierJail") (auto simp: responseWithAttrition_def)
  then show ?thesis using attritionOrDeny_answers[OF assms, of fb gv ev v code digest]
    by (force simp: proper_response_def)
qed

definition outcome_final :: "effect \<Rightarrow> bool" where
  "outcome_final e = (case e of OnOutcome _ v oc \<Rightarrow> oc_Reason oc \<noteq> NotDone \<and> v_Tier v > TierTag \<and> v_Mode v \<noteq> ModeAsync | _ \<Rightarrow> True)"

lemma responseWithAttrition_low:
  "v_Tier v \<le> TierTag \<or> v_Mode v = ModeAsync \<Longrightarrow> responseWithAttrition a env gv ev v digest = Some (responseForVerdict v, [], gv)"
  by (simp add: responseWithAttrition_def)

lemma onRequestHeaders_answers:
  assumes "\<forall>attr. ac_Attritor (ad_cfg a) = Some attr \<longrightarrow> attritor_built attr" "0 < ac_AttritionMaxHold (ad_cfg a)"
    and "\<forall>i. 0 \<le> pe_work (re_pump env) i \<and> pe_work (re_pump env) i \<le> W"
  shows "\<exists>resp effs w'. onRequestHeaders a env w as hs = Some (resp, effs, w') \<and> proper_response resp \<and> list_all outcome_final effs"
proof -
  have low: "\<exists>resp effs gv'. responseWithAttrition a env gv ev v digest = Some (resp, effs, gv') \<and> proper_response resp \<and> list_all outcome_final effs" for gv ev v digest
    using responseWithAttrition_answers[OF assms, of gv ev v digest] responseWithAttrition_low[of v a env gv ev digest]
    by (cases "v_Tier v \<le> TierTag \<or> v_Mode v = ModeAsync") (force simp: outcome_final_def list_all_iff)+
  show ?thesis
  proof (cases "ad_Mapper a (observationFromHeaders hs)")
    case None
    then show ?thesis by (simp add: onRequestHeaders_def proper_response_def)
  next
    case (Some loc)
    obtain fl r' where st: "stamp_flow a (w_resolver w) as (observationFromHeaders hs) = (fl, r')" by fastforce
    let ?b = "Build (w_registry w) (re_wall env) (ac_Scope (ad_cfg a)) \<lparr>to_Flow = fl, to_Location = loc, to_At = re_now env\<rparr>"
    show ?thesis
    proof (cases "ac_Inline (ad_cfg a)")
      case False
      then show ?thesis using Some st by (cases ?b) (simp_all add: onRequestHeaders_def proper_response_def outcome_final_def)
    next
      case True
      show ?thesis
      proof (cases ?b)
        case (Inl e)
        then show ?thesis using Some st by (simp add: onRequestHeaders_def proper_response_def)
      next
        case (Inr ev)
        obtain x s' where sub: "submit a env (w_engine w) ev = (x, s')" by fastforce
        show ?thesis
        proof (cases x)
          case (Inl e)
          then show ?thesis using Some st True \<open>?b = Inr ev\<close> sub by (simp add: onRequestHeaders_def proper_response_def)
        next
          case (Inr v)
          from low[of "w_gov w" ev v "digestObservation (observationFromHeaders hs)"] show ?thesis
            using Some st True \<open>?b = Inr ev\<close> sub Inr by (force simp: onRequestHeaders_def outcome_final_def)
        qed
      qed
    qed
  qed
qed

text \<open>What each message of a stream may be answered with.\<close>

definition answers :: "message \<Rightarrow> response \<Rightarrow> bool" where
  "answers m r = (case m of HeadersMsg _ _ _ \<Rightarrow> proper_response r | PhaseMsg p \<Rightarrow> r = continuePhase p)"

definition work_bounded :: "duration \<Rightarrow> message \<Rightarrow> bool" where
  "work_bounded W m = (case m of HeadersMsg env _ _ \<Rightarrow> \<forall>i. 0 \<le> pe_work (re_pump env) i \<and> pe_work (re_pump env) i \<le> W | PhaseMsg _ \<Rightarrow> True)"

lemma Process_answers:
  assumes "\<forall>attr. ac_Attritor (ad_cfg a) = Some attr \<longrightarrow> attritor_built attr" "0 < ac_AttritionMaxHold (ad_cfg a)" "list_all (work_bounded W) ms"
  shows "\<exists>rs effs w'. Process a w ms = Some (rs, effs, w') \<and> list_all2 answers ms rs \<and> list_all outcome_final effs"
  using assms(3)
proof (induction ms arbitrary: w)
  case (Cons m ms)
  show ?case
  proof (cases m)
    case (PhaseMsg p)
    then show ?thesis using Cons.IH[of w] Cons.prems by (auto simp: answers_def)
  next
    case (HeadersMsg env as hs)
    then have "\<forall>i. 0 \<le> pe_work (re_pump env) i \<and> pe_work (re_pump env) i \<le> W" using Cons.prems by (simp add: work_bounded_def)
    from onRequestHeaders_answers[OF assms(1,2) this, of w as hs] obtain resp effs w1
      where "onRequestHeaders a env w as hs = Some (resp, effs, w1)" "proper_response resp" "list_all outcome_final effs" by blast
    then show ?thesis using Cons.IH[of w1] Cons.prems HeadersMsg by (auto simp: answers_def list_all_append)
  qed
qed simp

text \<open>
  Property C9. Every message is answered. A started adapter whose attritor, if it has one, was built by the
  attrition package returns from every stream, whatever the engine, the resolver, the kernel's map and the
  other flows do: one response for each message, in its own phase; a request gets an untagged or tagged
  continue, or a denial with code 429 or 403 and a body that is not empty; and every outcome that is
  reported belongs to an inline verdict above the tag tier and has a final reason.
\<close>

theorem every_message_answered:
  assumes "adapter_New cfg = Inr a" "\<forall>attr. ac_Attritor cfg = Some attr \<longrightarrow> attritor_built attr" "list_all (work_bounded W) ms"
  shows "\<exists>rs effs w'. Process a w ms = Some (rs, effs, w') \<and> list_all2 answers ms rs \<and> list_all outcome_final effs"
  using Process_answers[OF _ _ assms(3), of a w] assms(2) by (simp add: adapter_New_parts(3)[OF assms(1)] adapter_Normalized_fields)

lemma attritionOrDeny_code: "attritionOrDeny a env gv ev v code fb digest = Some (resp, effs, gv') \<Longrightarrow> \<exists>body. resp = Immediate code body"
  by (auto simp: attritionOrDeny_def split: option.splits)

lemma responseWithAttrition_denies:
  assumes "responseWithAttrition a env gv ev v digest = Some (resp, effs, gv')" "(\<exists>code body. resp = Immediate code body) \<or> gv' \<noteq> gv"
  shows "TierContain \<le> v_Tier v \<and> v_Mode v \<noteq> ModeAsync \<and> (\<exists>body. resp = Immediate (if TierJail \<le> v_Tier v then 403 else 429) body)"
proof (cases "v_Tier v \<le> TierTag \<or> v_Mode v = ModeAsync")
  case True
  then show ?thesis using assms by (auto simp: responseWithAttrition_def responseForVerdict_def split: if_splits)
next
  case False
  then show ?thesis using assms(1) by (auto simp: responseWithAttrition_def dest!: attritionOrDeny_code split: if_splits)
qed

text \<open>
  Property C26. A request is denied only on the strength of a verdict, or of the fail policy. A denial means
  the adapter is inline and the request touched a canary; either the engine answered in time with a tier of
  contain or jail and a mode other than async, and the code is 429 for contain and 403 for jail; or its
  answer did not come in time or was an error, the fail policy is closed for jail, and the code is 403. The
  governor is touched in the first case only.
\<close>

theorem denied_only_by_verdict:
  assumes "onRequestHeaders a env w as hs = Some (resp, effs, w')" "(\<exists>code body. resp = Immediate code body) \<or> w_gov w' \<noteq> w_gov w"
  shows "ac_Inline (ad_cfg a) \<and> (\<exists>loc fl r' ev x. ad_Mapper a (observationFromHeaders hs) = Some loc \<and>
    stamp_flow a (w_resolver w) as (observationFromHeaders hs) = (fl, r') \<and>
    Build (w_registry w) (re_wall env) (ac_Scope (ad_cfg a)) \<lparr>to_Flow = fl, to_Location = loc, to_At = re_now env\<rparr> = Inr ev \<and>
    submit a env (w_engine w) ev = (x, w_engine w') \<and>
    (case x of
       Inr v \<Rightarrow> TierContain \<le> v_Tier v \<and> v_Mode v \<noteq> ModeAsync \<and> (\<exists>body. resp = Immediate (if TierJail \<le> v_Tier v then 403 else 429) body)
     | Inl _ \<Rightarrow> \<not> Allow (ac_Fail (ad_cfg a)) TierJail \<and> resp = Immediate 403 (''forbidden'' @ nl) \<and> effs = [] \<and> w_gov w' = w_gov w))"
proof -
  obtain loc fl r' ev where e: "ad_Mapper a (observationFromHeaders hs) = Some loc" "stamp_flow a (w_resolver w) as (observationFromHeaders hs) = (fl, r')"
    "Build (w_registry w) (re_wall env) (ac_Scope (ad_cfg a)) \<lparr>to_Flow = fl, to_Location = loc, to_At = re_now env\<rparr> = Inr ev"
    using request_trace[OF assms(1)] assms(2) by auto
  have inl: "ac_Inline (ad_cfg a)" using assms e by (auto simp: onRequestHeaders_def Let_def split: if_splits)
  obtain x s' where sub: "submit a env (w_engine w) ev = (x, s')" by fastforce
  show ?thesis
  proof (cases x)
    case (Inl err)
    then have "\<not> Allow (ac_Fail (ad_cfg a)) TierJail \<and> resp = Immediate 403 (''forbidden'' @ nl) \<and> effs = [] \<and> w_gov w' = w_gov w \<and> w_engine w' = s'"
      using assms e inl sub by (auto simp: onRequestHeaders_def Let_def split: if_splits)
    then show ?thesis using e inl sub Inl by auto
  next
    case (Inr v)
    obtain effs' gv' where "responseWithAttrition a env (w_gov w) ev v (digestObservation (observationFromHeaders hs)) = Some (resp, effs', gv')"
      "w_gov w' = gv'" "w_engine w' = s'"
      using assms(1) e inl sub Inr by (auto simp: onRequestHeaders_def Let_def)
    then show ?thesis using responseWithAttrition_denies assms(2) e inl sub Inr by fastforce
  qed
qed

section \<open>No signal is lost unreported\<close>

text \<open>
  Fire and forget is bounded and accounted for. However the submits are interleaved and whatever the
  engine answers, never more than the cap are in flight, and every signal that was fired is in exactly one
  place: still in flight, observed with the engine's verdict, reported as failed, or reported as dropped;
  a signal is dropped only when the cap was reached.
\<close>

theorem async_accounted:
  assumes "adapter_New cfg = Inr a" "async_run a \<lparr>ay_engine = s0, ay_inflight = [], ay_observed = [], ay_failed = [], ay_dropped = []\<rparr> evs y"
  shows "int (length (ay_inflight y)) \<le> ac_AsyncMaxInflight (ad_cfg a) \<and>
    mset evs = mset (ay_inflight y) + mset (map fst (ay_observed y)) + mset (map fst (ay_failed y)) + mset (ay_dropped y) \<and>
    (ay_dropped y \<noteq> [] \<longrightarrow> ac_AsyncMaxInflight (ad_cfg a) < int (length evs))"
  using assms(2)
proof induction
  case start
  then show ?case using adapter_New_parts(3)[OF assms(1)] adapter_Normalized_fields(5)[of cfg] by simp
next
  case (fire evs y ev y')
  have "size (mset (ay_inflight y)) \<le> size (mset evs)" using fire.IH by simp
  then have "length (ay_inflight y) \<le> length evs" by simp
  with fire.hyps(2) fire.IH show ?case by cases auto
next
  case (quiet evs y y')
  from quiet.hyps(2) quiet.IH show ?case by cases auto
qed

section \<open>A request to a canary\<close>

definition demo_history :: "nat \<Rightarrow> FourTuple \<Rightarrow> Resolution option" where
  "demo_history = (\<lambda>_ _. Some \<lparr>rs_Cookie = 7, rs_CgroupID = 3, rs_PID = 42, rs_Generation = 1\<rparr>)"

definition demo_adapter_Config :: "BoundedAttritor option \<Rightarrow> (unit, unit, nat) adapter_Config" where
  "demo_adapter_Config attr =
     \<lparr>ac_Engine = Some (\<lambda>s _. (Inr demo_verdict, s)), ac_Registry = True, ac_Resolver = Some (StaleGuard_Resolve (kernel_reads demo_history)),
      ac_Scope = ''s'', ac_Fail = None, ac_Attritor = attr, ac_Mapper = None, ac_Inline = True, ac_InlineTimeout = 0, ac_ResolveRetry = 0,
      ac_AsyncMaxInflight = 0, ac_OnVerdict = True, ac_OnOutcome = True, ac_AttritionBodyCap = 0, ac_AttritionMaxHold = 0\<rparr>"

definition demo_adapter :: "BoundedAttritor option \<Rightarrow> (unit, unit, nat) Adapter" where
  "demo_adapter attr = projr (adapter_New (demo_adapter_Config attr))"

lemma demo_adapter_New: "adapter_New (demo_adapter_Config attr) = Inr (demo_adapter attr)"
  by (simp add: demo_adapter_def adapter_New_def demo_adapter_Config_def Let_def)

definition demo_request :: request_env where
  "demo_request = \<lparr>re_ctx = None, re_now = 5, re_wall = 5, re_latency = 1, re_pump = idle, re_late_open = False\<rparr>"

definition demo_world :: "(unit, nat) world" where
  "demo_world = \<lparr>w_engine = (), w_resolver = 0, w_registry = demo_registry, w_gov = NewGovernor 0 0\<rparr>"

definition demo_attributes :: attributes where
  "demo_attributes = [(''envoy.filters.http.ext_proc'', Some [''source.address'' \<mapsto> StringValue ''10.0.0.9:4011'', ''destination.address'' \<mapsto> StringValue ''10.0.0.1:443''])]"

definition demo_headers :: "header list" where
  "demo_headers = [\<lparr>hd_Key = '':method'', hd_Value = ''GET'', hd_RawValue = []\<rparr>, \<lparr>hd_Key = '':path'', hd_Value = [], hd_RawValue = ''/admin/login?next=1''\<rparr>]"

lemma demo_tuple: "tupleFromAttributes demo_attributes \<noteq> None"
proof -
  have "splitHostPort ''10.0.0.9:4011'' = Some (''10.0.0.9'', 4011)" "splitHostPort ''10.0.0.1:443'' = Some (''10.0.0.1'', 443)"
    by (simp_all add: splitHostPort_def SplitHostPort_def LastIndexByte_def ParseUint16_def digit_value_def Let_def)
  moreover have "ParseAddr ''10.0.0.9'' = Some (V4 [10, 0, 0, 9])" "ParseAddr ''10.0.0.1'' = Some (V4 [10, 0, 0, 1])"
    by (simp_all add: ParseAddr_def digit_value_def)
  ultimately show ?thesis by (simp add: tupleFromAttributes_def demo_attributes_def TupleFromAddrs_def Unmap_def)
qed

lemma demo_observation: "ob_Path (observationFromHeaders demo_headers) = ''/admin/login?next=1''"
  by (simp add: demo_headers_def observationFromHeaders_def observe_header_def ToLower_def ascii_lower_def)

lemma demo_resolves: "resolve (registry_Lookup demo_registry ''s'') ''/admin/login'' = Some demo_placement"
  by code_simp

lemma demo_adapter_fields:
  "ad_Mapper (demo_adapter attr) = StripQuery_ToLocation" "ad_Resolver (demo_adapter attr) = StaleGuard_Resolve (kernel_reads demo_history)"
  "ad_Engine (demo_adapter attr) s ev = (Inr demo_verdict, s)" "ac_Inline (ad_cfg (demo_adapter attr))" "ac_Scope (ad_cfg (demo_adapter attr)) = ''s''"
  "ac_InlineTimeout (ad_cfg (demo_adapter attr)) = 250000000" "ac_Attritor (ad_cfg (demo_adapter attr)) = attr" "ac_OnVerdict (ad_cfg (demo_adapter attr))"
  by (simp_all add: demo_adapter_def adapter_New_def demo_adapter_Config_def Let_def adapter_Normalized_def)

lemma demo_denied:
  "\<exists>effs w'. onRequestHeaders (demo_adapter None) demo_request demo_world demo_attributes demo_headers =
     Some (Immediate 403 (''forbidden'' @ nl), effs, w') \<and> effs \<noteq> []"
proof -
  have m: "ad_Mapper (demo_adapter None) (observationFromHeaders demo_headers) = Some ''/admin/login''"
    by (simp add: demo_adapter_fields StripQuery_ToLocation_def demo_observation)
  obtain fl r' where st: "stamp_flow (demo_adapter None) 0 demo_attributes (observationFromHeaders demo_headers) = (fl, r')" by fastforce
  have "SocketCookie fl = 7" using st demo_tuple
    by (auto simp: stamp_flow_def Let_def demo_adapter_fields resolveCookie_def resolveAttempts_def numeral_eq_Suc
        StaleGuard_Resolve_def kernel_reads_def demo_history_def split: option.splits)
  then show ?thesis using m st
    by (simp add: onRequestHeaders_def demo_world_def demo_adapter_fields Build_def demo_resolves submit_def demo_request_def
        responseWithAttrition_def attritionOrDeny_def demo_verdict_def)
qed

lemma acted_on_only_confirmed_touch_witness:
  "\<exists>resp effs w'. onRequestHeaders (demo_adapter None) demo_request demo_world demo_attributes demo_headers = Some (resp, effs, w') \<and>
     (\<exists>t cookie. cookie \<noteq> 0 \<and> confirmed demo_history 0 (w_resolver w') t cookie)"
proof -
  obtain effs w' where d: "onRequestHeaders (demo_adapter None) demo_request demo_world demo_attributes demo_headers =
     Some (Immediate 403 (''forbidden'' @ nl), effs, w')" using demo_denied by blast
  have c: "ac_Resolver (demo_adapter_Config None) = Some (StaleGuard_Resolve (kernel_reads demo_history))" "mem_registry.located (w_registry demo_world)"
    by (simp_all add: demo_adapter_Config_def demo_world_def demo_registry_located)
  from acted_on_only_confirmed_touch[OF demo_adapter_New c d] d show ?thesis by (fastforce simp: demo_world_def)
qed

lemma every_message_answered_witness:
  "\<exists>r effs w'. Process (demo_adapter (Some (built demo_attrition))) demo_world
     [HeadersMsg demo_request demo_attributes demo_headers, PhaseMsg ResponseHeaders] = Some ([r, Continue ResponseHeaders None], effs, w') \<and> proper_response r"
proof -
  have b: "\<forall>attr. ac_Attritor (demo_adapter_Config (Some (built demo_attrition))) = Some attr \<longrightarrow> attritor_built attr"
    using demo_New demo_pacing by (auto simp: demo_adapter_Config_def attritor_built_def)
  have w: "list_all (work_bounded 0) [HeadersMsg demo_request demo_attributes demo_headers, PhaseMsg ResponseHeaders]"
    by (simp add: work_bounded_def demo_request_def idle_def)
  from every_message_answered[OF demo_adapter_New b w, of demo_world] show ?thesis
    by (auto simp: answers_def continuePhase_def list_all2_Cons1)
qed

lemma denied_only_by_verdict_witness:
  "\<exists>effs w' ev. onRequestHeaders (demo_adapter None) demo_request demo_world demo_attributes demo_headers = Some (Immediate 403 (''forbidden'' @ nl), effs, w') \<and>
     submit (demo_adapter None) demo_request () ev = (Inr demo_verdict, w_engine w') \<and> ev_Scope ev = ''s''"
proof -
  obtain effs w' where d: "onRequestHeaders (demo_adapter None) demo_request demo_world demo_attributes demo_headers =
     Some (Immediate 403 (''forbidden'' @ nl), effs, w')" using demo_denied by blast
  from denied_only_by_verdict[OF d] obtain fl loc ev where
    "Build demo_registry 5 ''s'' \<lparr>to_Flow = fl, to_Location = loc, to_At = 5\<rparr> = Inr ev"
    by (auto simp: demo_world_def demo_request_def demo_adapter_fields)
  then have "ev_Scope ev = ''s''" using Build_sound[OF demo_registry_located] by blast
  then show ?thesis using d by (auto simp: submit_def demo_request_def demo_adapter_fields)
qed

lemma async_accounted_witness:
  "\<exists>y. async_run (demo_adapter None) \<lparr>ay_engine = (), ay_inflight = [], ay_observed = [], ay_failed = [], ay_dropped = []\<rparr> [ev] y \<and> ay_inflight y = [ev] \<and>
     int (length (ay_inflight y)) \<le> ac_AsyncMaxInflight (ad_cfg (demo_adapter None))"
proof -
  let ?y0 = "\<lparr>ay_engine = (), ay_inflight = [], ay_observed = [], ay_failed = [], ay_dropped = []\<rparr>"
  have "0 < ac_AsyncMaxInflight (ad_cfg (demo_adapter None))"
    by (simp add: demo_adapter_def adapter_New_def demo_adapter_Config_def Let_def adapter_Normalized_def)
  then have "async_step (demo_adapter None) ?y0 (Some ev) (?y0\<lparr>ay_inflight := [ev]\<rparr>)"
    using async_step.spawn[of ?y0 "demo_adapter None" ev] by simp
  then have r: "async_run (demo_adapter None) ?y0 [ev] (?y0\<lparr>ay_inflight := [ev]\<rparr>)"
    using async_run.fire[OF async_run.start] by fastforce
  then show ?thesis using async_accounted[OF demo_adapter_New r] by auto
qed
end
