(* ===== verification/Quantile.thy ===== *)
theory Quantile
  imports Baseline GoStrings
begin

text \<open>
  The running quantile estimator of the observe baseline, \<^verbatim>\<open>internal/engine/observebaseline/p2.go\<close>: five
  markers of a stream in constant memory, adjusted by a parabola or, when that would break the order of
  the heights, by a line. Arrays are lists of five. Lemmas: in binary64 the marker heights stay ordered
  and inside the range of the samples and the positions strictly increase, whatever the stream, so the
  median lies in the range and the inter-quartile range is not negative.
\<close>

section \<open>The estimator\<close>

record p2Quantile =
  pq_Count :: int
  pq_Init :: "f64 list"
  pq_Q :: "f64 list"
  pq_N :: "int list"
  pq_NP :: "f64 list"
  pq_DN :: "f64 list"

definition p2_zero :: p2Quantile where
  "p2_zero = \<lparr>pq_Count = 0, pq_Init = replicate 5 0, pq_Q = replicate 5 0, pq_N = replicate 5 0, pq_NP = replicate 5 0, pq_DN = replicate 5 0\<rparr>"

definition markerQuantiles :: "f64 list" where
  "markerQuantiles = [lit 0, lit (1 / 4), lit (1 / 2), lit (3 / 4), lit 1]"

definition parabolic :: "p2Quantile \<Rightarrow> nat \<Rightarrow> f64 \<Rightarrow> f64" where
  "parabolic p i d =
     (let ni = f64_of_int (pq_N p ! i); nim = f64_of_int (pq_N p ! (i - 1)); nip = f64_of_int (pq_N p ! (i + 1));
          qi = pq_Q p ! i; qim = pq_Q p ! (i - 1); qip = pq_Q p ! (i + 1)
      in qi + fdiv d (nip - nim) * (fdiv ((ni - nim + d) * (qip - qi)) (nip - ni) + fdiv ((nip - ni - d) * (qi - qim)) (ni - nim)))"

definition linear :: "p2Quantile \<Rightarrow> nat \<Rightarrow> int \<Rightarrow> f64" where
  "linear p i di =
     (let j = nat (int i + di)
      in pq_Q p ! i + fdiv (f64_of_int di * (pq_Q p ! j - pq_Q p ! i)) (f64_of_int (pq_N p ! j - pq_N p ! i)))"

definition adjust_marker :: "nat \<Rightarrow> p2Quantile \<Rightarrow> p2Quantile" where
  "adjust_marker i p =
     (let d = pq_NP p ! i - f64_of_int (pq_N p ! i)
      in if 1 \<le> d \<and> 1 < pq_N p ! (i + 1) - pq_N p ! i \<or> d \<le> lit (- 1) \<and> pq_N p ! (i - 1) - pq_N p ! i < - 1 then
           (let di = (if d < 0 then - 1 else 1); qp = parabolic p i (f64_of_int di);
                q = (if pq_Q p ! (i - 1) < qp \<and> qp < pq_Q p ! (i + 1) then qp else linear p i di)
            in p\<lparr>pq_Q := (pq_Q p)[i := q], pq_N := (pq_N p)[i := pq_N p ! i + di]\<rparr>)
         else p)"

text \<open>The cell of a sample, and the heights with the extremes moved.\<close>

definition find_cell :: "f64 list \<Rightarrow> f64 \<Rightarrow> nat \<times> f64 list" where
  "find_cell q x =
     (if x < q ! 0 then (0, q[0 := x])
      else if x < q ! 1 then (0, q)
      else if x < q ! 2 then (1, q)
      else if x < q ! 3 then (2, q)
      else if x \<le> q ! 4 then (3, q)
      else (3, q[4 := x]))"

definition p2_Add :: "p2Quantile \<Rightarrow> f64 \<Rightarrow> p2Quantile" where
  "p2_Add p x =
     (if pq_Count p < 5 then
        (let p1 = p\<lparr>pq_Init := (pq_Init p)[nat (pq_Count p) := x], pq_Count := pq_Count p + 1\<rparr>
         in if pq_Count p1 = 5
            then p1\<lparr>pq_Q := sort_by f64_before (pq_Init p1), pq_N := map (\<lambda>i. int i + 1) [0..<5],
                    pq_DN := markerQuantiles, pq_NP := map (\<lambda>m. 1 + lit 4 * m) markerQuantiles\<rparr>
            else p1)
      else
        (let (k, q) = find_cell (pq_Q p) x;
             p1 = p\<lparr>pq_Count := pq_Count p + 1, pq_Q := q,
                    pq_N := map (\<lambda>i. if k < i then pq_N p ! i + 1 else pq_N p ! i) [0..<5],
                    pq_NP := map (\<lambda>i. pq_NP p ! i + pq_DN p ! i) [0..<5]\<rparr>
         in adjust_marker 3 (adjust_marker 2 (adjust_marker 1 p1))))"

definition p2_Ready :: "p2Quantile \<Rightarrow> int \<Rightarrow> bool" where
  "p2_Ready p mn = (5 \<le> pq_Count p \<and> mn \<le> pq_Count p)"

text \<open>The index \<^verbatim>\<open>int(q * float64(Count-1))\<close> for the three quantiles that are asked for.\<close>

definition bufferedQuantile :: "p2Quantile \<Rightarrow> f64 \<Rightarrow> f64" where
  "bufferedQuantile p q =
     (if pq_Count p = 0 then 0
      else (let buf = sort_by f64_before (take (nat (pq_Count p)) (pq_Init p))
            in case q * f64_of_int (pq_Count p - 1) of Fin r \<Rightarrow> buf ! nat \<lfloor>r\<rfloor> | _ \<Rightarrow> NaN))"

definition p2_Median :: "p2Quantile \<Rightarrow> f64" where
  "p2_Median p = (if 5 \<le> pq_Count p then pq_Q p ! 2 else bufferedQuantile p (lit (1 / 2)))"

definition p2_IQR :: "p2Quantile \<Rightarrow> f64" where
  "p2_IQR p =
     (if 5 \<le> pq_Count p then let r = pq_Q p ! 3 - pq_Q p ! 1 in if r < 0 then 0 else r
      else let hi = bufferedQuantile p (lit (3 / 4)); lo = bufferedQuantile p (lit (1 / 4))
           in if hi < lo then 0 else hi - lo)"

section \<open>The line stays between its ends\<close>

lemma representable_multiple:
  assumes "representable x" obtains k where "x = of_int k * pow2 (- 1074)"
proof -
  obtain m e where x: "x = of_int m * pow2 e" and e: "- 1074 \<le> e" using assms unfolding representable_def by blast
  have "x / pow2 (- 1074) = of_int (m * 2 ^ nat (e - - 1074))" using pow2_multiple[OF e, of m] x by simp
  then show thesis using that by (metis nonzero_divide_eq_eq pow2_nz)
qed

text \<open>Half of a rounded difference never exceeds the difference.\<close>

lemma half_rounded_difference:
  assumes "representable a" "representable b" "a \<le> b"
  shows "round64 (round64 (b - a) / 2) \<le> b - a"
proof (cases "representable (b - a)")
  case True
  then have "round64 (round64 (b - a) / 2) \<le> round64 (b - a)" using assms(3) by (intro round64_mono) (simp add: round64_exact)
  then show ?thesis using True by (simp add: round64_exact)
next
  case False
  let ?x = "b - a"
  have pos: "0 < ?x" using False assms(3) by (cases "a = b") auto
  obtain i j where "a = of_int i * pow2 (- 1074)" "b = of_int j * pow2 (- 1074)"
    using representable_multiple[OF assms(1)] representable_multiple[OF assms(2)] by metis
  then have mult: "?x = of_int (j - i) * pow2 (- 1074)" by (simp add: algebra_simps)
  have big: "- 1021 \<le> ilog2 ?x"
  proof (rule ccontr)
    assume "\<not> - 1021 \<le> ilog2 ?x"
    then have "?x < pow2 (- 1021)" using ilog2_gt[OF pos] pow2_mono[of "ilog2 ?x + 1" "- 1021"] by linarith
    then have "of_int (j - i) * pow2 (- 1074) < pow2 53 * pow2 (- 1074)" using mult pow2_add[of 53 "- 1074"] by simp
    then have "of_int (j - i) < pow2 53" by (simp add: mult_less_cancel_right)
    then have "j - i < 2 ^ 53" by (simp add: pow2_def)
    moreover have "0 \<le> j - i" using pos mult not_less[of "pow2 (- 1074)" 0] by (auto simp: zero_less_mult_iff)
    ultimately have "representable ?x" using mult unfolding representable_def by (metis abs_of_nonneg less_imp_le order_refl)
    with False show False by simp
  qed
  then have q: "quantum_exp ?x = ilog2 ?x - 52" using pos by (simp add: quantum_exp_def)
  let ?k = "rne (?x / pow2 (quantum_exp ?x))"
  have r: "round64 ?x = of_int ?k * pow2 (quantum_exp ?x)" using pos by (simp add: round64_def Let_def)
  have top: "round64 ?x \<le> pow2 (quantum_exp ?x + 53)" using round64_below[OF pos] .
  have k: "0 \<le> ?k" "?k \<le> 2 ^ 53"
  proof -
    show "0 \<le> ?k" using pos by (intro rne_ge_int) (simp add: divide_nonneg_pos del: diff_ge_0_iff_ge)
    have "of_int ?k * pow2 (quantum_exp ?x) \<le> pow2 53 * pow2 (quantum_exp ?x)" using top r by (simp add: pow2_add mult.commute)
    then have "of_int ?k \<le> pow2 53" by (simp add: mult_le_cancel_right)
    then show "?k \<le> 2 ^ 53" by (simp add: pow2_def)
  qed
  have "round64 ?x / 2 = of_int ?k * pow2 (quantum_exp ?x - 1)" by (simp add: r pow2_minus1)
  then have "representable (round64 ?x / 2)"
    unfolding representable_def using k big q by (intro exI[of _ ?k] exI[of _ "quantum_exp ?x - 1"]) simp
  then have "round64 (round64 ?x / 2) = round64 ?x / 2" by (rule round64_exact)
  also have "\<dots> \<le> pow2 (quantum_exp ?x + 52)" using top pow2_plus1[of "quantum_exp ?x + 52"] by (simp add: algebra_simps)
  also have "\<dots> \<le> ?x" using ilog2_le[OF pos] q by simp
  finally show ?thesis .
qed

text \<open>Bounds for the samples that leave room for a difference.\<close>

definition sample_bounds :: "rat \<Rightarrow> rat \<Rightarrow> bool" where
  "sample_bounds lo hi \<longleftrightarrow> wf64 lo \<and> wf64 hi \<and> lo \<le> hi \<and> hi - lo \<le> pow2 1022"

lemma rnd_difference:
  assumes "sample_bounds lo hi" "lo \<le> a" "a \<le> b" "b \<le> hi"
  shows "rnd (b - a) = Fin (round64 (b - a))" "0 \<le> round64 (b - a)"
proof -
  have "round64 (b - a) \<le> round64 (pow2 1022)" using assms by (intro round64_mono) (simp add: sample_bounds_def)
  also have "\<dots> = pow2 1022" using wf64_pow2[of 1022] by (simp add: round64_exact wf64_def)
  also have "\<dots> < max_exp" using pow2_strict_mono[of 1022 1024] by (simp add: max_exp_def pow2_def[of 1024])
  finally have lt: "round64 (b - a) < max_exp" .
  show nn: "0 \<le> round64 (b - a)" using assms(3) by (intro round64_nonneg) simp
  have "\<not> round64 (b - a) \<le> - max_exp" using nn by (simp add: max_exp_def not_le)
  then show "rnd (b - a) = Fin (round64 (b - a))" using lt by (simp add: rnd_def Let_def)
qed

lemma f64_of_int_cases:
  assumes "2 \<le> n" obtains "f64_of_int n = PInf" | m where "f64_of_int n = Fin m" "2 \<le> m"
proof -
  have "Fin 2 \<le> f64_of_int n" using rnd_mono[of 2 "of_int n"] assms by (simp add: f64_of_int_def rnd_exact)
  then show thesis using that by (cases "f64_of_int n") auto
qed

lemma f64_of_int_minus: "f64_of_int (- n) = (case f64_of_int n of Fin m \<Rightarrow> Fin (- m) | PInf \<Rightarrow> NInf | NInf \<Rightarrow> PInf | NaN \<Rightarrow> NaN)"
  by (auto simp: f64_of_int_def rnd_def Let_def round64_minus max_exp_def)

lemma line_step:
  assumes "sample_bounds lo hi" "lo \<le> a" "a \<le> b" "b \<le> hi" "wf64 a" "wf64 b" "2 \<le> n"
  obtains e where "fdiv (Fin (round64 (b - a))) (f64_of_int n) = Fin e" "0 \<le> e" "e \<le> b - a"
proof -
  let ?d = "round64 (b - a)"
  note d = rnd_difference[OF assms(1-4)]
  consider "f64_of_int n = PInf" | m where "f64_of_int n = Fin m" "2 \<le> m" using f64_of_int_cases[OF assms(7)] .
  then show thesis
  proof cases
    case 1
    then show thesis using that[of 0] assms(3) by simp
  next
    case (2 m)
    have "?d / m \<le> ?d / 2" using d(2) 2(2) by (intro divide_left_mono) auto
    then have "round64 (?d / m) \<le> round64 (?d / 2)" by (rule round64_mono)
    also have "\<dots> \<le> b - a" using half_rounded_difference assms by (simp add: wf64_def)
    finally have le: "round64 (?d / m) \<le> b - a" .
    have nn: "0 \<le> round64 (?d / m)" using d(2) 2(2) by (intro round64_nonneg) simp
    have "b - a < max_exp"
      using assms pow2_strict_mono[of 1022 1024] by (auto simp: sample_bounds_def max_exp_def pow2_def[of 1024])
    then have "\<not> max_exp \<le> round64 (?d / m)" "\<not> round64 (?d / m) \<le> - max_exp" using le nn by (simp_all add: max_exp_def not_le)
    then have "fdiv (Fin ?d) (Fin m) = Fin (round64 (?d / m))" using 2(2) by (simp add: rnd_def Let_def)
    then show thesis using that 2(1) le nn by simp
  qed
qed

lemma line_up:
  assumes "sample_bounds lo hi" "lo \<le> a" "a \<le> b" "b \<le> hi" "wf64 a" "wf64 b" "2 \<le> n"
  obtains r where "Fin a + fdiv (f64_of_int 1 * (Fin b - Fin a)) (f64_of_int n) = Fin r" "a \<le> r" "r \<le> b" "wf64 r"
proof -
  obtain e where e: "fdiv (Fin (round64 (b - a))) (f64_of_int n) = Fin e" "0 \<le> e" "e \<le> b - a" by (rule line_step[OF assms])
  note d = rnd_difference[OF assms(1-4)]
  have "rnd (round64 (b - a)) = Fin (round64 (b - a))" using d by (metis f64_ok.simps(1) f64_ok_rnd rnd_exact)
  then have x: "f64_of_int 1 * (Fin b - Fin a) = Fin (round64 (b - a))" using d(1) f64_of_int_exact[of 1] by simp
  show thesis by (rule rnd_between[of a b "a + e"]) (use assms e that x in auto)
qed

lemma line_down:
  assumes "sample_bounds lo hi" "lo \<le> a" "a \<le> b" "b \<le> hi" "wf64 a" "wf64 b" "2 \<le> n"
  obtains r where "Fin b + fdiv (f64_of_int (- 1) * (Fin a - Fin b)) (f64_of_int (- n)) = Fin r" "a \<le> r" "r \<le> b" "wf64 r"
proof -
  obtain e where e: "fdiv (Fin (round64 (b - a))) (f64_of_int n) = Fin e" "0 \<le> e" "e \<le> b - a" by (rule line_step[OF assms])
  note d = rnd_difference[OF assms(1-4)]
  have w: "wf64 (round64 (b - a))" using d by (metis f64_ok.simps(1) f64_ok_rnd)
  have "rnd (a - b) = Fin (- round64 (b - a))"
    using d round64_minus[of "b - a"] by (auto simp: rnd_def Let_def max_exp_def split: if_splits)
  then have x: "f64_of_int (- 1) * (Fin a - Fin b) = Fin (round64 (b - a))"
    using w f64_of_int_exact[of "- 1"] by (simp add: rnd_exact)
  have y: "fdiv (Fin (round64 (b - a))) (f64_of_int (- n)) = Fin (- e)"
  proof (rule f64_of_int_cases[OF assms(7)])
    assume "f64_of_int n = PInf"
    then show ?thesis using e by (simp add: f64_of_int_minus)
  next
    fix m assume m: "f64_of_int n = Fin m" "2 \<le> m"
    then have "rnd (round64 (b - a) / m) = Fin e" using e by simp
    then have "rnd (- (round64 (b - a) / m)) = Fin (- e)"
      by (auto simp: rnd_def Let_def round64_minus max_exp_def split: if_splits)
    then show ?thesis using m by (simp add: f64_of_int_minus)
  qed
  show thesis by (rule rnd_between[of a b "b - e"]) (use assms e that x y in auto)
qed

section \<open>The markers stay ordered\<close>

text \<open>Five heights in order inside the bounds, five positions that strictly increase from one to the count.\<close>

definition heights_ok :: "rat \<Rightarrow> rat \<Rightarrow> f64 list \<Rightarrow> bool" where
  "heights_ok lo hi q \<longleftrightarrow> (\<exists>r. length r = 5 \<and> q = map Fin r \<and> sorted r \<and> (\<forall>x\<in>set r. wf64 x \<and> lo \<le> x \<and> x \<le> hi))"

definition positions_ok :: "int \<Rightarrow> int list \<Rightarrow> bool" where
  "positions_ok c n \<longleftrightarrow> length n = 5 \<and> sorted_wrt (<) n \<and> n ! 0 = 1 \<and> n ! 4 = c"

lemma height_at:
  assumes "heights_ok lo hi q" "i < 5" obtains x where "q ! i = Fin x" "wf64 x" "lo \<le> x" "x \<le> hi"
  using assms by (auto simp: heights_ok_def)

lemma height_order:
  assumes "heights_ok lo hi q" "i \<le> j" "j < 5" "q ! i = Fin x" "q ! j = Fin y" shows "x \<le> y"
  using assms by (auto simp: heights_ok_def sorted_iff_nth_mono)

lemma sorted_update:
  assumes "sorted r" "i < length r" "\<And>j. j < i \<Longrightarrow> r ! j \<le> x" "\<And>j. i < j \<Longrightarrow> j < length r \<Longrightarrow> x \<le> r ! j"
  shows "sorted (r[i := x :: 'a :: linorder])"
  unfolding sorted_iff_nth_mono using assms by (auto simp: nth_list_update sorted_iff_nth_mono)

lemma strict_update:
  assumes "sorted_wrt (<) r" "i < length r" "\<And>j. j < i \<Longrightarrow> r ! j < x" "\<And>j. i < j \<Longrightarrow> j < length r \<Longrightarrow> x < r ! j"
  shows "sorted_wrt (<) (r[i := x :: int])"
  unfolding sorted_wrt_iff_nth_less using assms by (auto simp: nth_list_update sorted_wrt_iff_nth_less)

lemma heights_update:
  assumes "heights_ok lo hi q" "i < 5" "wf64 x" "lo \<le> x" "x \<le> hi"
    and "\<And>y. 0 < i \<Longrightarrow> q ! (i - 1) = Fin y \<Longrightarrow> y \<le> x" "\<And>y. i < 4 \<Longrightarrow> q ! (i + 1) = Fin y \<Longrightarrow> x \<le> y"
  shows "heights_ok lo hi (q[i := Fin x])"
proof -
  obtain r where r: "length r = 5" "q = map Fin r" "sorted r" "\<forall>x\<in>set r. wf64 x \<and> lo \<le> x \<and> x \<le> hi"
    using assms(1) by (auto simp: heights_ok_def)
  have "sorted (r[i := x])"
  proof (rule sorted_update[OF r(3)])
    show "i < length r" using assms(2) r(1) by simp
    show "r ! j \<le> x" if "j < i" for j
    proof -
      have "r ! j \<le> r ! (i - 1)" using that r assms(2) by (intro sorted_nth_mono) auto
      also have "\<dots> \<le> x" using assms(6)[of "r ! (i - 1)"] that r assms(2) by simp
      finally show ?thesis .
    qed
    show "x \<le> r ! j" if "i < j" "j < length r" for j
    proof -
      have "x \<le> r ! (i + 1)" using assms(7)[of "r ! (i + 1)"] that r by simp
      also have "\<dots> \<le> r ! j" using that r by (intro sorted_nth_mono) auto
      finally show ?thesis .
    qed
  qed
  moreover have "\<forall>y\<in>set (r[i := x]). wf64 y \<and> lo \<le> y \<and> y \<le> hi" using r(4) assms(3-5) set_update_subset_insert[of r i x] by blast
  ultimately show ?thesis unfolding heights_ok_def using r by (intro exI[of _ "r[i := x]"]) (simp add: map_update)
qed

lemma positions_update:
  assumes n: "positions_ok c n" and i: "i \<in> {1, 2, 3}" and g: "di = 1 \<and> 2 \<le> n ! (i + 1) - n ! i \<or> di = - 1 \<and> 2 \<le> n ! i - n ! (i - 1)"
  shows "positions_ok c (n[i := n ! i + di])"
proof -
  have N: "length n = 5" "sorted_wrt (<) n" "n ! 0 = 1" "n ! 4 = c" using n by (simp_all add: positions_ok_def)
  have less: "n ! j < n ! k" if "j < k" "k < 5" for j k using sorted_wrt_nth_less[OF N(2), of j k] that N(1) by simp
  have "sorted_wrt (<) (n[i := n ! i + di])"
  proof (rule strict_update[OF N(2)])
    show "i < length n" using i N by auto
    show "n ! j < n ! i + di" if "j < i" for j
      using less[of j i] less[of j "i - 1"] that g i by (cases "j = i - 1") force+
    show "n ! i + di < n ! j" if "i < j" "j < length n" for j
      using less[of i j] less[of "i + 1" j] that g i N(1) by (cases "j = i + 1") force+
  qed
  then show ?thesis using N i by (auto simp: positions_ok_def)
qed

lemma adjust_marker_ok:
  assumes b: "sample_bounds lo hi" and h: "heights_ok lo hi (pq_Q p)" and n: "positions_ok c (pq_N p)" and i: "i \<in> {1, 2, 3}"
  shows "heights_ok lo hi (pq_Q (adjust_marker i p)) \<and> positions_ok c (pq_N (adjust_marker i p)) \<and> pq_Count (adjust_marker i p) = pq_Count p"
proof -
  let ?Q = "pq_Q p" and ?N = "pq_N p" and ?d = "pq_NP p ! i - f64_of_int (pq_N p ! i)"
  let ?di = "if ?d < 0 then - 1 else 1 :: int"
  let ?q = "if ?Q ! (i - 1) < parabolic p i (f64_of_int ?di) \<and> parabolic p i (f64_of_int ?di) < ?Q ! (i + 1)
      then parabolic p i (f64_of_int ?di) else linear p i ?di"
  let ?act = "1 \<le> ?d \<and> 1 < ?N ! (i + 1) - ?N ! i \<or> ?d \<le> lit (- 1) \<and> ?N ! (i - 1) - ?N ! i < - 1"
  have i': "i < 5" "i - 1 < 5" "i + 1 < 5" using i by auto
  obtain x y z where x: "?Q ! (i - 1) = Fin x" "wf64 x" "lo \<le> x" and y: "?Q ! i = Fin y" "wf64 y" "lo \<le> y" "y \<le> hi" and z: "?Q ! (i + 1) = Fin z" "wf64 z" "z \<le> hi"
    using height_at[OF h] i' by metis
  have xyz: "x \<le> y" "y \<le> z" using height_order[OF h, of "i - 1" i] height_order[OF h, of i "i + 1"] x y z i' by simp_all
  have lo: "lit (- 1) = Fin (- 1)" by (simp add: lit_def f64_of_int_exact[of "- 1", unfolded f64_of_int_def, simplified])
  have N: "length ?N = 5" "sorted_wrt (<) ?N" "?N ! 0 = 1" "?N ! 4 = c" using n by (simp_all add: positions_ok_def)
  show ?thesis
  proof (cases ?act)
    case False
    then show ?thesis using h n by (auto simp: adjust_marker_def Let_def)
  next
    case True
    then have gap: "?di = 1 \<and> 2 \<le> ?N ! (i + 1) - ?N ! i \<or> ?di = - 1 \<and> 2 \<le> ?N ! i - ?N ! (i - 1)"
      using lo by (cases ?d) (auto simp: zero_f64_def one_f64_def)
    have line: "\<exists>r. linear p i ?di = Fin r \<and> wf64 r \<and> x \<le> r \<and> r \<le> z" using gap
    proof
      assume g: "?di = 1 \<and> 2 \<le> ?N ! (i + 1) - ?N ! i"
      have "lo \<le> y" "z \<le> hi" using y z by simp_all
      from line_up[OF b this(1) xyz(2) this(2) y(2) z(2)] g obtain r where
        "Fin y + fdiv (f64_of_int 1 * (Fin z - Fin y)) (f64_of_int (?N ! (i + 1) - ?N ! i)) = Fin r" "y \<le> r" "r \<le> z" "wf64 r" by blast
      moreover have "nat (int i + 1) = i + 1" by simp
      ultimately show ?thesis using g xyz y z by (simp add: linear_def Let_def del: One_nat_def)
    next
      assume g: "?di = - 1 \<and> 2 \<le> ?N ! i - ?N ! (i - 1)"
      from line_down[OF b x(3) xyz(1) y(4) x(2) y(2)] g obtain r where
        r: "Fin y + fdiv (f64_of_int (- 1) * (Fin x - Fin y)) (f64_of_int (- (?N ! i - ?N ! (i - 1)))) = Fin r" "x \<le> r" "r \<le> y" "wf64 r" by blast
      moreover have "nat (int i + - 1) = i - 1" using i by auto
      ultimately show ?thesis using g xyz y x by (simp add: linear_def Let_def del: One_nat_def)
    qed
    have "\<exists>r. ?q = Fin r \<and> wf64 r \<and> x \<le> r \<and> r \<le> z"
    proof (cases "?Q ! (i - 1) < parabolic p i (f64_of_int ?di) \<and> parabolic p i (f64_of_int ?di) < ?Q ! (i + 1)")
      case True
      have "f64_ok (parabolic p i (f64_of_int ?di))" by (simp add: parabolic_def Let_def)
      with True show ?thesis using x z by (cases "parabolic p i (f64_of_int ?di)") auto
    next
      case False
      then have "?q = linear p i ?di" by (rule if_not_P)
      then show ?thesis using line by metis
    qed
    then obtain r where r: "?q = Fin r" "wf64 r" "x \<le> r" "r \<le> z" by blast
    have a: "adjust_marker i p = p\<lparr>pq_Q := ?Q[i := Fin r], pq_N := ?N[i := ?N ! i + ?di]\<rparr>"
      using True r(1) by (simp add: adjust_marker_def Let_def)
    have "heights_ok lo hi (?Q[i := Fin r])"
      using r x z i' i by (intro heights_update[OF h]) (auto simp: )
    moreover have "positions_ok c (?N[i := ?N ! i + ?di])" using positions_update[OF n i] gap by metis
    ultimately show ?thesis by (simp add: a)
  qed
qed

definition markers_ok :: "rat \<Rightarrow> rat \<Rightarrow> p2Quantile \<Rightarrow> bool" where
  "markers_ok lo hi p \<longleftrightarrow> heights_ok lo hi (pq_Q p) \<and> positions_ok (pq_Count p) (pq_N p)"

lemma adjust_marker_frame [simp]: "pq_Count (adjust_marker i p) = pq_Count p" "pq_Init (adjust_marker i p) = pq_Init p"
  by (simp_all add: adjust_marker_def Let_def)

lemma adjust_markers_ok: "sample_bounds lo hi \<Longrightarrow> markers_ok lo hi p \<Longrightarrow> i \<in> {1, 2, 3} \<Longrightarrow> markers_ok lo hi (adjust_marker i p)"
  using adjust_marker_ok[of lo hi p "pq_Count p" i] by (simp add: markers_ok_def)

text \<open>What the estimator holds: the samples so far, or the markers.\<close>

definition p2_ok :: "rat \<Rightarrow> rat \<Rightarrow> p2Quantile \<Rightarrow> bool" where
  "p2_ok lo hi p \<longleftrightarrow> 0 \<le> pq_Count p \<and> length (pq_Init p) = 5 \<and>
     (if pq_Count p < 5 then \<forall>j. int j < pq_Count p \<longrightarrow> in_range (pq_Init p ! j) lo hi
      else markers_ok lo hi p)"

lemma p2_zero_ok [inv_intros]: "p2_ok lo hi p2_zero"
  by (simp add: p2_ok_def p2_zero_def)

lemma sort_by_Fin: "sort_by f64_before (map Fin r) = map Fin (sort r)"
proof -
  have ins: "insert_by f64_before (Fin a) (map Fin s) = map Fin (insort a s)" for a s
    by (induction s) (auto simp: f64_before_def not_less)
  show ?thesis by (induction r) (auto simp: sort_by_def ins)
qed

lemma in_range_list:
  assumes "\<forall>x\<in>set xs. in_range x lo hi" obtains r where "xs = map Fin r" "\<forall>x\<in>set r. wf64 x \<and> lo \<le> x \<and> x \<le> hi"
  using assms
proof (induction xs arbitrary: thesis)
  case (Cons x xs)
  obtain q where "x = Fin q" "lo \<le> q" "q \<le> hi" "wf64 q" using Cons.prems(2) by (auto elim: in_rangeE)
  moreover obtain r where "xs = map Fin r" "\<forall>x\<in>set r. wf64 x \<and> lo \<le> x \<and> x \<le> hi" using Cons.IH Cons.prems(2) by auto
  ultimately show ?case using Cons.prems(1)[of "q # r"] by simp
qed simp

lemma find_cell_ok:
  assumes h: "heights_ok lo hi q" and x: "in_range x lo hi" and f: "find_cell q x = (k, q')"
  shows "k < 4 \<and> heights_ok lo hi q'"
proof -
  obtain v where v: "x = Fin v" "lo \<le> v" "v \<le> hi" "wf64 v" using x by (auto elim: in_rangeE)
  have a0: "heights_ok lo hi (q[0 := Fin v])" if "x < q ! 0"
  proof (rule heights_update[OF h _ v(4,2,3)])
    fix y assume "q ! (0 + 1) = Fin y"
    moreover obtain z where "q ! 0 = Fin z" using height_at[OF h, of 0] by auto
    ultimately show "v \<le> y" using that v height_order[OF h, of 0 1 z y] by simp
  qed simp_all
  have a4: "heights_ok lo hi (q[4 := Fin v])" if "\<not> x \<le> q ! 4"
  proof (rule heights_update[OF h _ v(4,2,3)])
    fix y assume "q ! (4 - 1) = Fin y"
    moreover obtain z where "q ! 4 = Fin z" using height_at[OF h, of 4] by auto
    ultimately show "y \<le> v" using that v height_order[OF h, of 3 4 y z] by simp
  qed simp_all
  show ?thesis using f h a0 a4 v(1) by (auto simp: find_cell_def split: if_splits)
qed

lemma bump_positions_ok:
  assumes "positions_ok c n" "k < 4" shows "positions_ok (c + 1) (map (\<lambda>i. if k < i then n ! i + 1 else n ! i) [0..<5])"
proof -
  have less: "n ! j < n ! i" if "j < i" "i < 5" for i j using assms(1) sorted_wrt_nth_less[of "(<)" n j i] that by (simp add: positions_ok_def)
  have "(if k < i then n ! i + 1 else n ! i) < (if k < j then n ! j + 1 else n ! j)" if "i < j" "j < 5" for i j
    using less[OF that] that(1) by auto
  then have "sorted_wrt (<) (map (\<lambda>i. if k < i then n ! i + 1 else n ! i) [0..<5])"
    unfolding sorted_wrt_map by (intro sorted_wrt_mono_rel[OF _ sorted_wrt_upt]) simp
  then show ?thesis using assms by (simp add: positions_ok_def)
qed

lemma p2_Add_ok [inv_intros]:
  assumes b: "sample_bounds lo hi" and p: "p2_ok lo hi p" and x: "in_range x lo hi"
  shows "p2_ok lo hi (p2_Add p x)"
proof (cases "pq_Count p < 5")
  case True
  let ?init = "(pq_Init p)[nat (pq_Count p) := x]"
  have nth: "in_range (?init ! j) lo hi" if "int j < pq_Count p + 1" for j
    using p True x that by (cases "int j = pq_Count p") (auto simp: p2_ok_def nth_list_update)
  have len: "length ?init = 5" using p by (simp add: p2_ok_def)
  show ?thesis
  proof (cases "pq_Count p = 4")
    case False
    then show ?thesis using True p nth len by (simp add: p2_Add_def p2_ok_def)
  next
    case True
    have "\<forall>y\<in>set ?init. in_range y lo hi" unfolding all_set_conv_all_nth len using nth True by auto
    then obtain r where r: "?init = map Fin r" "\<forall>x\<in>set r. wf64 x \<and> lo \<le> x \<and> x \<le> hi" by (rule in_range_list)
    have "heights_ok lo hi (sort_by f64_before ?init)"
      unfolding heights_ok_def using r len by (intro exI[of _ "sort r"]) (simp add: sort_by_Fin)
    then show ?thesis using True p len by (simp add: p2_Add_def p2_ok_def positions_ok_def sorted_wrt_iff_nth_less markers_ok_def)
  qed
next
  case False
  then have h: "heights_ok lo hi (pq_Q p)" and n: "positions_ok (pq_Count p) (pq_N p)" using p by (simp_all add: p2_ok_def markers_ok_def)
  obtain k q where f: "find_cell (pq_Q p) x = (k, q)" by fastforce
  note c = find_cell_ok[OF h x f]
  define p1 where "p1 = p\<lparr>pq_Count := pq_Count p + 1, pq_Q := q,
      pq_N := map (\<lambda>i. if k < i then pq_N p ! i + 1 else pq_N p ! i) [0..<5], pq_NP := map (\<lambda>i. pq_NP p ! i + pq_DN p ! i) [0..<5]\<rparr>"
  have "markers_ok lo hi p1" "pq_Count p1 = pq_Count p + 1" "pq_Init p1 = pq_Init p"
    using c bump_positions_ok[OF n] by (simp_all add: p1_def markers_ok_def)
  moreover have "p2_Add p x = adjust_marker 3 (adjust_marker 2 (adjust_marker 1 p1))"
    using False f by (simp add: p2_Add_def p1_def)
  ultimately show ?thesis using False p b by (simp add: p2_ok_def adjust_markers_ok)
qed

section \<open>What is read off\<close>

lemma lit_quarters: "lit (1 / 4) = Fin (1 / 4)" "lit (3 / 4) = Fin (3 / 4)" "lit (1 / 2) = Fin (1 / 2)"
proof -
  have "representable (of_int n * pow2 (- 2))" if "\<bar>n\<bar> \<le> 2 ^ 53" for n
    unfolding representable_def using that by (intro exI[of _ n] exI[of _ "- 2"]) simp
  from this[of 1] this[of 3] show "lit (1 / 4) = Fin (1 / 4)" "lit (3 / 4) = Fin (3 / 4)"
    by (simp_all add: lit_def rnd_exact wf64_def max_exp_def pow2_def)
qed simp

lemma bufferedQuantile_range:
  assumes "p2_ok lo hi p" "0 < pq_Count p" "pq_Count p < 5" "0 \<le> q" "q \<le> 1"
  shows "in_range (bufferedQuantile p (Fin q)) lo hi"
proof -
  let ?c = "pq_Count p - 1" and ?buf = "sort_by f64_before (take (nat (pq_Count p)) (pq_Init p))"
  have c: "0 \<le> ?c" "?c \<le> 3" using assms(2,3) by auto
  have "q * of_int ?c \<le> 1 * of_int ?c" using assms(5) c by (intro mult_right_mono) auto
  then obtain r where r: "rnd (q * of_int ?c) = Fin r" "0 \<le> r" "r \<le> of_int ?c"
    using rnd_between[of 0 "of_int ?c" "q * of_int ?c"] assms(4) c wf64_of_int[of ?c] by auto
  have "nat \<lfloor>r\<rfloor> < nat (pq_Count p)" using r c by (simp add: floor_less_iff nat_less_iff)
  moreover have len: "length ?buf = nat (pq_Count p)"
    using assms(1,3) by (metis (no_types, lifting) length_take min.absorb2 mset_sort_by nat_le_iff of_nat_numeral order_less_imp_le p2_ok_def size_mset)
  ultimately have "?buf ! nat \<lfloor>r\<rfloor> \<in> set ?buf" by (intro nth_mem) simp
  then obtain j where "j < nat (pq_Count p)" "?buf ! nat \<lfloor>r\<rfloor> = pq_Init p ! j" by (auto simp: in_set_conv_nth)
  moreover have "bufferedQuantile p (Fin q) = ?buf ! nat \<lfloor>r\<rfloor>"
    using assms(2) c r(1) f64_of_int_exact[of ?c] by (simp add: bufferedQuantile_def Let_def)
  ultimately show ?thesis using assms(1,3) by (simp add: p2_ok_def)
qed

lemma Median_range:
  assumes "p2_ok lo hi p" "0 < pq_Count p" shows "in_range (p2_Median p) lo hi"
proof (cases "pq_Count p < 5")
  case True
  then show ?thesis using bufferedQuantile_range[OF assms True, of "1 / 2"] by (simp add: p2_Median_def lit_quarters)
next
  case False
  then have "heights_ok lo hi (pq_Q p)" using assms by (simp add: p2_ok_def markers_ok_def)
  then obtain x where "pq_Q p ! 2 = Fin x" "wf64 x" "lo \<le> x" "x \<le> hi" by (rule height_at[of lo hi _ 2]) simp_all
  then show ?thesis using False by (simp add: p2_Median_def in_range_def)
qed

lemma difference_range:
  assumes "sample_bounds lo hi" "in_range x lo hi" "in_range y lo hi"
  shows "in_range (if x - y < 0 then 0 else x - y) 0 (round64 (hi - lo))" "in_range (if x < y then 0 else x - y) 0 (round64 (hi - lo))"
proof -
  obtain a b where ab: "x = Fin a" "lo \<le> a" "a \<le> hi" "y = Fin b" "lo \<le> b" "b \<le> hi" using assms(2,3) by (auto elim!: in_rangeE)
  have top: "wf64 (round64 (hi - lo))" "0 \<le> round64 (hi - lo)" using rnd_difference[OF assms(1), of lo hi] assms(1)
    by (auto simp: sample_bounds_def dest: arg_cong[of _ _ f64_ok])
  have z: "in_range (0 :: f64) 0 (round64 (hi - lo))" using top by (simp add: in_range_def zero_f64_def)
  have d: "in_range (x - y) 0 (round64 (hi - lo))" if "b \<le> a"
  proof -
    have "round64 (a - b) \<le> round64 (hi - lo)" using ab by (intro round64_mono) simp
    then show ?thesis using rnd_difference[OF assms(1) ab(5) that ab(3)] ab top
      by (auto simp: in_range_def dest: arg_cong[of _ _ f64_ok])
  qed
  show "in_range (if x < y then 0 else x - y) 0 (round64 (hi - lo))" using z d ab by (auto simp: not_less)
  show "in_range (if x - y < 0 then 0 else x - y) 0 (round64 (hi - lo))"
  proof (cases "b \<le> a")
    case False
    then have "rnd (a - b) \<le> rnd 0" by (intro rnd_mono) simp
    then have "x - y < 0 \<or> x - y = 0" using ab by (cases "x - y") (auto simp: zero_f64_def rnd_exact)
    then show ?thesis using z by auto
  qed (use z d in auto)
qed

lemma IQR_range:
  assumes "sample_bounds lo hi" "p2_ok lo hi p" "0 < pq_Count p" shows "in_range (p2_IQR p) 0 (round64 (hi - lo))"
proof (cases "pq_Count p < 5")
  case True
  have "in_range (bufferedQuantile p (lit (3 / 4))) lo hi" "in_range (bufferedQuantile p (lit (1 / 4))) lo hi"
    using bufferedQuantile_range[OF assms(2,3) True] by (simp_all add: lit_quarters)
  from difference_range(2)[OF assms(1) this] show ?thesis using True by (simp add: p2_IQR_def Let_def)
next
  case False
  then have h: "heights_ok lo hi (pq_Q p)" using assms by (simp add: p2_ok_def markers_ok_def)
  have "in_range (pq_Q p ! i) lo hi" if "i < 5" for i by (rule height_at[OF h that]) (simp add: in_range_def)
  from difference_range(1)[OF assms(1) this[of 3] this[of 1]] show ?thesis
    using False by (auto simp: p2_IQR_def Let_def simp del: One_nat_def split: if_splits)
qed

lemma p2_Add_all_ok:
  "sample_bounds lo hi \<Longrightarrow> p2_ok lo hi p \<Longrightarrow> \<forall>x\<in>set xs. in_range x lo hi \<Longrightarrow> p2_ok lo hi (foldl p2_Add p xs)"
  by (induction xs arbitrary: p) (auto intro: p2_Add_ok)

lemma p2_Add_count: "pq_Count (p2_Add p x) = pq_Count p + 1"
  by (simp add: p2_Add_def Let_def split: prod.split)

lemma p2_Add_all_count: "pq_Count (foldl p2_Add p xs) = pq_Count p + int (length xs)"
  by (induction xs arbitrary: p) (simp_all add: p2_Add_count)

text \<open>
  Property C25. The quantile estimator is sound for every stream. Fold any samples of an interval, in binary64:
  the median is a value of the interval and the inter-quartile range is between zero and its width, at
  every count; from five samples on the five marker heights are ordered inside the interval and their
  positions strictly increase from one to the number of samples. No sample yields a NaN or an infinity.
\<close>

theorem quantiles_ordered:
  assumes "sample_bounds lo hi" "\<forall>x\<in>set xs. in_range x lo hi" "xs \<noteq> []"
  shows "in_range (p2_Median (foldl p2_Add p2_zero xs)) lo hi \<and> in_range (p2_IQR (foldl p2_Add p2_zero xs)) 0 (round64 (hi - lo)) \<and>
    (5 \<le> length xs \<longrightarrow> heights_ok lo hi (pq_Q (foldl p2_Add p2_zero xs)) \<and> positions_ok (int (length xs)) (pq_N (foldl p2_Add p2_zero xs)))"
proof -
  let ?p = "foldl p2_Add p2_zero xs"
  have ok: "p2_ok lo hi ?p" using p2_Add_all_ok[OF assms(1) p2_zero_ok assms(2)] .
  have c: "pq_Count ?p = int (length xs)" by (simp add: p2_Add_all_count p2_zero_def)
  have "0 < pq_Count ?p" using assms(3) c by simp
  note r = Median_range[OF ok this] IQR_range[OF assms(1) ok this]
  have "5 \<le> length xs \<longrightarrow> markers_ok lo hi ?p" using ok c by (auto simp: p2_ok_def)
  with r c show ?thesis by (simp add: markers_ok_def)
qed

lemma quantiles_ordered_witness:
  "in_range (p2_Median (foldl p2_Add p2_zero (map Fin [3, 1, 7, 2, 5, 9, 4]))) 1 9 \<and>
   positions_ok 7 (pq_N (foldl p2_Add p2_zero (map Fin [3, 1, 7, 2, 5, 9, 4])))"
proof -
  have w: "wf64 (numeral n)" if "numeral n \<le> (2 ^ 53 :: int)" for n using wf64_of_int[of "numeral n"] that by simp
  have "sample_bounds 1 9" using w pow2_mono[of 3 1022] by (simp add: sample_bounds_def) (simp add: pow2_def)
  moreover have "\<forall>x\<in>set (map Fin [3, 1, 7, 2, 5, 9, 4]). in_range x 1 9" using w by (simp add: in_range_def)
  ultimately show ?thesis using quantiles_ordered[of 1 9 "map Fin [3, 1, 7, 2, 5, 9, 4]"] by simp
qed
end
