(* ===== verification/Observation.thy ===== *)
theory Observation
  imports Quantile Netip
begin

text \<open>
  What the observe baseline learns from a flow, \<^verbatim>\<open>bpf/observe/observer.go\<close>, \<^verbatim>\<open>aggregate.go\<close> and \<^verbatim>\<open>derive.go\<close> of
  \<^verbatim>\<open>internal/engine/observebaseline\<close>: the kernel's statistics of a flow, the canonical hashes, the capped
  frequency maps and the quantile summaries of a time bucket, and the features of a flow against them.
  \<^verbatim>\<open>math.Log1p\<close> is a parameter. Lemmas: the maps keep their cap, and every derived feature is a value
  between zero and one.
\<close>

section \<open>Flow statistics\<close>

type_synonym u16 = "16 word"

abbreviation (input) observe_AFInet :: u16 where "observe_AFInet \<equiv> 2"
abbreviation (input) observe_AFInet6 :: u16 where "observe_AFInet6 \<equiv> 10"

text \<open>Addresses are the sixteen bytes of the kernel's buffer.\<close>

record FlowStats =
  fs_IngressPackets :: u64
  fs_IngressBytes :: u64
  fs_EgressPackets :: u64
  fs_EgressBytes :: u64
  fs_FirstSeenNs :: u64
  fs_LastSeenNs :: u64
  fs_Family :: u16
  fs_SrcPort :: u16
  fs_DstPort :: u16
  fs_Closed :: u16
  fs_SrcIP :: string
  fs_DstIP :: string

definition TotalBytes :: "FlowStats \<Rightarrow> u64" where
  "TotalBytes f = fs_IngressBytes f + fs_EgressBytes f"

definition TotalPackets :: "FlowStats \<Rightarrow> u64" where
  "TotalPackets f = fs_IngressPackets f + fs_EgressPackets f"

definition DurationNs :: "FlowStats \<Rightarrow> u64" where
  "DurationNs f = (if fs_FirstSeenNs f \<le> fs_LastSeenNs f then fs_LastSeenNs f - fs_FirstSeenNs f else 0)"

section \<open>Canonical hashes\<close>

definition be16 :: "u16 \<Rightarrow> string" where
  "be16 w = [char_of (unat w div 256), char_of (unat w mod 256)]"

definition addrLen :: "u16 \<Rightarrow> nat" where
  "addrLen family = (if family = observe_AFInet then 4 else 16)"

definition writeAddr :: "u16 \<Rightarrow> string \<Rightarrow> string" where
  "writeAddr family ip = be16 family @ (if family = observe_AFInet then take 4 ip else take 16 ip)"

definition writePort :: "u16 \<Rightarrow> string" where
  "writePort port = be16 port"

definition hashIdentity :: "FlowStats \<Rightarrow> u64" where
  "hashIdentity fs = fnv64a (writeAddr (fs_Family fs) (fs_SrcIP fs))"

definition hashAdjacency :: "FlowStats \<Rightarrow> u64" where
  "hashAdjacency fs =
     fnv64a (writeAddr (fs_Family fs) (fs_SrcIP fs) @ writeAddr (fs_Family fs) (fs_DstIP fs) @ writePort (fs_DstPort fs))"

definition hashPort :: "FlowStats \<Rightarrow> u64" where
  "hashPort fs = fnv64a (be16 (fs_Family fs) @ writePort (fs_DstPort fs))"

definition bytes :: "nat list \<Rightarrow> string" where
  "bytes bs = map char_of bs"

definition hashAddrCanonical :: "Addr \<Rightarrow> u64" where
  "hashAddrCanonical a =
     (case a of
        V4 b \<Rightarrow> fnv64a (writeAddr observe_AFInet (bytes b @ replicate 12 (CHR 0x00)))
      | V6 b _ \<Rightarrow> fnv64a (writeAddr observe_AFInet6 (bytes b)))"

section \<open>A time bucket\<close>

type_synonym freq = "(u64 \<times> u32) list"

definition freqCapDefault :: nat where "freqCapDefault = 4096"

text \<open>A walk that keeps the entry whose rank is strictly below the best so far.\<close>

definition scan_least :: "('a \<Rightarrow> 'k :: linorder) \<Rightarrow> 'a \<Rightarrow> 'a list \<Rightarrow> 'a" where
  "scan_least rank best xs = foldl (\<lambda>best x. if rank x < rank best then x else best) best xs"

text \<open>The key to evict: the first of the lowest counts, below the largest, in the order the map is walked.\<close>

definition evict_least :: "freq \<Rightarrow> u64" where
  "evict_least m = fst (scan_least snd (0, - 1) m)"

definition bumpCapped :: "(freq \<Rightarrow> freq) \<Rightarrow> nat \<Rightarrow> u64 \<Rightarrow> freq \<Rightarrow> freq" where
  "bumpCapped perm cap key m =
     (case map_of m key of
        Some v \<Rightarrow> AList.update key (v + 1) m
      | None \<Rightarrow> AList.update key 1 (if cap \<le> length m then AList.delete (evict_least (perm m)) m else m))"

record bucketAggregate =
  ba_Adjacency :: freq
  ba_Identity :: freq
  ba_PortProto :: freq
  ba_LogBytes :: p2Quantile
  ba_LogPkts :: p2Quantile
  ba_LogIAT :: p2Quantile
  ba_LogDur :: p2Quantile
  ba_Flows :: nat
  ba_Days :: "string list"

definition newBucketAggregate :: bucketAggregate where
  "newBucketAggregate =
     \<lparr>ba_Adjacency = [], ba_Identity = [], ba_PortProto = [], ba_LogBytes = p2_zero, ba_LogPkts = p2_zero,
      ba_LogIAT = p2_zero, ba_LogDur = p2_zero, ba_Flows = 0, ba_Days = []\<rparr>"

text \<open>\<^verbatim>\<open>log1p\<close> of the package over \<^verbatim>\<open>math.Log1p\<close>.\<close>

type_synonym ln1p = "f64 \<Rightarrow> f64"

definition log1p :: "ln1p \<Rightarrow> f64 \<Rightarrow> f64" where
  "log1p ln1p x = ln1p (if x < 0 then 0 else x)"

definition f64_of_u64 :: "u64 \<Rightarrow> f64" where
  "f64_of_u64 w = f64_of_int (uint w)"

definition meanInterArrivalNs :: "FlowStats \<Rightarrow> f64" where
  "meanInterArrivalNs fs =
     (if TotalPackets fs < 2 then 0 else fdiv (f64_of_u64 (DurationNs fs)) (f64_of_u64 (TotalPackets fs - 1)))"

definition foldFlow :: "ln1p \<Rightarrow> (freq \<Rightarrow> freq) \<Rightarrow> FlowStats \<Rightarrow> string \<Rightarrow> bucketAggregate \<Rightarrow> bucketAggregate" where
  "foldFlow ln1p perm fs day a =
     a\<lparr>ba_Identity := bumpCapped perm freqCapDefault (hashIdentity fs) (ba_Identity a),
       ba_Adjacency := bumpCapped perm freqCapDefault (hashAdjacency fs) (ba_Adjacency a),
       ba_PortProto := bumpCapped perm freqCapDefault (hashPort fs) (ba_PortProto a),
       ba_LogBytes := p2_Add (ba_LogBytes a) (log1p ln1p (f64_of_u64 (TotalBytes fs))),
       ba_LogPkts := p2_Add (ba_LogPkts a) (log1p ln1p (f64_of_u64 (TotalPackets fs))),
       ba_LogIAT := p2_Add (ba_LogIAT a) (log1p ln1p (meanInterArrivalNs fs)),
       ba_LogDur := p2_Add (ba_LogDur a) (log1p ln1p (f64_of_u64 (DurationNs fs))),
       ba_Flows := ba_Flows a + 1,
       ba_Days := (if day \<noteq> [] then List.insert day (ba_Days a) else ba_Days a)\<rparr>"

definition distinctIdentities :: "bucketAggregate \<Rightarrow> int" where
  "distinctIdentities a = int (length (ba_Identity a))"

section \<open>Features\<close>

definition alphaNovelty :: f64 where "alphaNovelty = lit 1"
definition zKnee :: f64 where "zKnee = lit 3"
definition zEps :: f64 where "zEps = lit (1 / 10 ^ 9)"

definition novelty :: "u32 \<Rightarrow> f64" where
  "novelty cnt = fdiv alphaNovelty (f64_of_int (uint cnt) + alphaNovelty)"

definition squash :: "f64 \<Rightarrow> f64 \<Rightarrow> f64" where
  "squash z knee = (if z \<le> 0 then 0 else fdiv z (z + knee))"

definition robustZ :: "f64 \<Rightarrow> f64 \<Rightarrow> f64 \<Rightarrow> f64" where
  "robustZ x median iqr = fdiv (fabs (x - median)) (lit (7413 / 10000) * iqr + zEps)"

definition contContribution :: "p2Quantile \<Rightarrow> f64 \<Rightarrow> int \<Rightarrow> f64" where
  "contContribution p x minSamples = (if \<not> p2_Ready p minSamples then 0 else squash (robustZ x (p2_Median p) (p2_IQR p)) zKnee)"

text \<open>\<^verbatim>\<open>math.Max\<close>.\<close>

definition fmax :: "f64 \<Rightarrow> f64 \<Rightarrow> f64" where
  "fmax x y = (if x = PInf \<or> y = PInf then PInf else if x = NaN \<or> y = NaN then NaN else if y < x then x else y)"

text \<open>A missing entry of a Go map reads as zero.\<close>

definition freq_of :: "freq \<Rightarrow> u64 \<Rightarrow> u32" where
  "freq_of m k = (case map_of m k of None \<Rightarrow> 0 | Some v \<Rightarrow> v)"

definition deriveFeatures :: "ln1p \<Rightarrow> bucketAggregate \<Rightarrow> FlowStats \<Rightarrow> int \<Rightarrow> Features" where
  "deriveFeatures ln1p agg fs minSamples =
     \<lparr>AdjacencyNovelty = novelty (freq_of (ba_Adjacency agg) (hashAdjacency fs)),
      IdentityNovelty = novelty (freq_of (ba_Identity agg) (hashIdentity fs)),
      PortNovelty = novelty (freq_of (ba_PortProto agg) (hashPort fs)),
      VolumeDeviation = fmax (contContribution (ba_LogBytes agg) (log1p ln1p (f64_of_u64 (TotalBytes fs))) minSamples)
                             (contContribution (ba_LogPkts agg) (log1p ln1p (f64_of_u64 (TotalPackets fs))) minSamples),
      CadenceDeviation = fmax (contContribution (ba_LogIAT agg) (log1p ln1p (meanInterArrivalNs fs)) minSamples)
                              (contContribution (ba_LogDur agg) (log1p ln1p (f64_of_u64 (DurationNs fs))) minSamples),
      FingerprintMatch = 0\<rparr>"

section \<open>The maps keep their cap\<close>

text \<open>A frequency map after \<open>n\<close> samples: one entry a key, at most the cap, no count above \<open>n\<close>.\<close>

definition freq_ok :: "nat \<Rightarrow> freq \<Rightarrow> bool" where
  "freq_ok n m \<longleftrightarrow> distinct (map fst m) \<and> length m \<le> freqCapDefault \<and> (\<forall>k v. (k, v) \<in> set m \<longrightarrow> unat v \<le> n)"

lemma scan_least_rank: "rank (scan_least rank b xs) \<le> rank b \<and> (\<forall>x\<in>set xs. rank (scan_least rank b xs) \<le> rank x)"
proof (induction xs arbitrary: b)
  case (Cons x xs)
  show ?case using Cons.IH[of "if rank x < rank b then x else b"] by (auto simp: scan_least_def)
qed (simp add: scan_least_def)

lemma scan_least_cases: "scan_least rank b xs = b \<or> scan_least rank b xs \<in> set xs"
  by (induction xs arbitrary: b) (auto simp: scan_least_def)

lemma scan_least_mem:
  assumes "x \<in> set xs" "rank x < rank b" shows "scan_least rank b xs \<in> set xs"
  using scan_least_rank[of rank b xs] scan_least_cases[of rank b xs] assms by fastforce

lemma evict_least_mem: "(k, v) \<in> set m \<Longrightarrow> v < - 1 \<Longrightarrow> evict_least m \<in> fst ` set m"
  unfolding evict_least_def by (intro imageI scan_least_mem[of "(k, v)"]) simp_all

lemma freq_ok_counts: "freq_ok n m \<Longrightarrow> map_of m k = Some v \<Longrightarrow> unat v \<le> n"
  by (auto simp: freq_ok_def dest: map_of_SomeD)

lemma bumpCapped_ok [inv_intros]:
  assumes m: "freq_ok n m" and perm: "enumeration perm" and n: "n < 2 ^ 32 - 1"
  shows "freq_ok (Suc n) (bumpCapped perm freqCapDefault key m)"
proof (cases "map_of m key")
  case (Some v)
  have "unat v \<le> n" using freq_ok_counts[OF m Some] .
  then have "unat (v + 1) \<le> Suc n" using n by (simp add: unat_word_ariths)
  moreover have "key \<in> fst ` set m" using Some by (force dest: map_of_SomeD)
  ultimately show ?thesis using m Some
    by (auto simp: bumpCapped_def freq_ok_def length_AList_update AList_update_mem distinct_update intro: le_SucI split: if_splits)
next
  case None
  let ?m = "if freqCapDefault \<le> length m then AList.delete (evict_least (perm m)) m else m"
  have key: "key \<notin> fst ` set ?m" "key \<notin> fst ` set m" using None by (auto simp: map_of_eq_None_iff AList.delete_eq)
  have len: "length ?m < freqCapDefault"
  proof (cases "freqCapDefault \<le> length m")
    case True
    then obtain k v where kv: "(k, v) \<in> set m" by (cases m) (auto simp: freqCapDefault_def)
    then have "unat v \<le> n" using m by (auto simp: freq_ok_def)
    then have "unat v < 2 ^ 32 - 1" using n by (rule le_less_trans)
    then have "v < - 1" by (simp add: word_less_nat_alt unsigned_minus_1_eq_mask mask_eq_exp_minus_1)
    then have e: "evict_least (perm m) \<in> fst ` set m"
      using evict_least_mem[of k v "perm m"] kv by (auto simp: enumeration_set[OF perm])
    have "distinct (map fst m)" using m by (simp add: freq_ok_def)
    note length_delete_keyed[OF this e]
    moreover have "length m \<le> freqCapDefault" using m by (simp add: freq_ok_def)
    ultimately have "length (AList.delete (evict_least (perm m)) m) < freqCapDefault" by linarith
    then show ?thesis using True by simp
  qed simp
  have "set ?m \<subseteq> set m" "distinct (map fst ?m)" using m by (auto simp: AList.delete_eq freq_ok_def distinct_map_filter)
  moreover have "bumpCapped perm freqCapDefault key m = AList.update key 1 ?m" using None by (simp add: bumpCapped_def)
  moreover have "freq_ok n ?m" using calculation(1,2) m len by (auto simp: freq_ok_def)
  ultimately show ?thesis using key(1) len
    by (auto simp: freq_ok_def length_AList_update AList_update_mem distinct_update intro: le_SucI split: if_splits)
qed

section \<open>The features\<close>

text \<open>What the code relies on in \<^verbatim>\<open>math.Log1p\<close>: of a value up to \<open>2\<^sup>6\<^sup>4\<close> it is one from zero to 64.\<close>

definition log1p_sound :: "ln1p \<Rightarrow> bool" where
  "log1p_sound ln1p \<longleftrightarrow> (\<forall>x. in_range x 0 (2 ^ 64) \<longrightarrow> in_range (ln1p x) 0 64)"

definition aggregate_ok :: "bucketAggregate \<Rightarrow> bool" where
  "aggregate_ok a \<longleftrightarrow> freq_ok (ba_Flows a) (ba_Identity a) \<and> freq_ok (ba_Flows a) (ba_Adjacency a) \<and> freq_ok (ba_Flows a) (ba_PortProto a) \<and>
     p2_ok 0 64 (ba_LogBytes a) \<and> p2_ok 0 64 (ba_LogPkts a) \<and> p2_ok 0 64 (ba_LogIAT a) \<and> p2_ok 0 64 (ba_LogDur a) \<and>
     pq_Count (ba_LogBytes a) = int (ba_Flows a) \<and> pq_Count (ba_LogPkts a) = int (ba_Flows a) \<and>
     pq_Count (ba_LogIAT a) = int (ba_Flows a) \<and> pq_Count (ba_LogDur a) = int (ba_Flows a) \<and> distinct (ba_Days a)"

lemma wf64_ints: "wf64 64" "wf64 (2 ^ 64)" "wf64 4"
  using wf64_of_int[of 64] wf64_of_int[of 4] wf64_pow2[of 64] by (simp_all add: pow2_def)

lemma log_bounds: "sample_bounds 0 64"
  using wf64_ints pow2_mono[of 6 1022] by (simp add: sample_bounds_def) (simp add: pow2_def)

lemma unsigned_rat: "0 \<le> (unsigned w :: rat)"
  by (metis of_int_0_le_iff of_int_uint uint_ge_0)

lemma f64_of_u64_range: "in_range (f64_of_u64 w) 0 (2 ^ 64)"
proof -
  have "uint w < 2 ^ 64" using uint_lt2p[of w] by simp
  then have "rat_of_int (uint w) \<le> rat_of_int (2 ^ 64)" by (intro of_int_le_iff[THEN iffD2]) simp
  then show ?thesis unfolding f64_of_u64_def f64_of_int_def using wf64_ints by (intro in_range_rnd) (simp_all add: unsigned_rat)
qed

lemma meanInterArrival_range: "in_range (meanInterArrivalNs fs) 0 (2 ^ 64)"
proof (cases "TotalPackets fs < 2")
  case True
  then show ?thesis by (simp add: meanInterArrivalNs_def in_range_def zero_f64_def)
next
  case False
  let ?n = "TotalPackets fs - 1"
  have "unat (2 :: u64) \<le> unat (TotalPackets fs)" using False by (simp only: word_less_nat_alt not_less)
  then have "1 \<le> unat ?n" by (subst unat_sub) (simp_all add: word_le_nat_alt)
  then have "1 \<le> uint ?n" by (simp only: uint_nat)
  then have "(1 :: rat) \<le> of_int (uint ?n)" by (metis of_int_1 of_int_le_iff)
  from rnd_mono[OF this] have "Fin 1 \<le> f64_of_u64 ?n" by (simp only: f64_of_u64_def f64_of_int_def rnd_exact wf64_small)
  then obtain m where m: "f64_of_u64 ?n = Fin m" "1 \<le> m" using f64_of_u64_range[of ?n] by (auto elim: in_rangeE)
  obtain d where d: "f64_of_u64 (DurationNs fs) = Fin d" "0 \<le> d" "d \<le> 2 ^ 64" using f64_of_u64_range[of "DurationNs fs"] by (auto elim: in_rangeE)
  have "d / m \<le> d" using d m by (simp add: divide_le_eq mult_le_cancel_left1)
  then have "in_range (rnd (d / m)) 0 (2 ^ 64)" using d m wf64_ints by (intro in_range_rnd) auto
  then show ?thesis using False m d by (simp add: meanInterArrivalNs_def)
qed

lemma log1p_range: "log1p_sound ln1p \<Longrightarrow> in_range x 0 (2 ^ 64) \<Longrightarrow> in_range (log1p ln1p x) 0 64"
  by (auto simp: log1p_sound_def log1p_def zero_f64_def elim!: in_rangeE)

lemma newBucketAggregate_ok [inv_intros]: "aggregate_ok newBucketAggregate"
  by (simp add: aggregate_ok_def newBucketAggregate_def freq_ok_def p2_zero_ok) (simp add: p2_zero_def)

lemma foldFlow_ok [inv_intros]:
  assumes "aggregate_ok a" "log1p_sound ln1p" "enumeration perm" "ba_Flows a < 2 ^ 32 - 1"
  shows "aggregate_ok (foldFlow ln1p perm fs day a)"
  using assms bumpCapped_ok[OF _ assms(3,4)] log1p_range[OF assms(2) f64_of_u64_range] log1p_range[OF assms(2) meanInterArrival_range]
  by (simp add: aggregate_ok_def foldFlow_def p2_Add_ok[OF log_bounds] p2_Add_count)

lemma wf64_powers: "wf64 (2 ^ 37)" "wf64 (2 ^ 38)" "wf64 (1 / 2 ^ 31)" "wf64 128"
  using wf64_pow2[of 37] wf64_pow2[of 38] wf64_pow2[of "- 31"] wf64_of_int[of 128] by (simp_all add: pow2_def)

lemma squash_range:
  assumes "in_range z 0 (2 ^ 37)" shows "in_range (squash z zKnee) 0 1"
proof -
  obtain q where q: "z = Fin q" "0 \<le> q" "q \<le> 2 ^ 37" "wf64 q" using assms by (rule in_rangeE)
  obtain s where s: "rnd (q + 3) = Fin s" "q \<le> s" using rnd_between[of q "2 ^ 38" "q + 3"] q wf64_powers by auto
  show ?thesis
  proof (cases "q = 0")
    case True
    then show ?thesis using q by (simp add: squash_def in_range_def zero_f64_def)
  next
    case False
    then have "0 < q" "0 < s" "q / s \<le> 1" using q s by simp_all
    then show ?thesis using q s in_range_rnd[of 0 1 "q / s"] by (simp add: squash_def zKnee_def zero_f64_def)
  qed
qed

lemma robust_scale_range:
  assumes "in_range iqr 0 64" shows "in_range (lit (7413 / 10000) * iqr + zEps) (1 / 2 ^ 31) 128"
proof -
  obtain i where i: "iqr = Fin i" "0 \<le> i" "i \<le> 64" using assms by (auto elim: in_rangeE)
  obtain c where c: "lit (7413 / 10000) = Fin c" "0 \<le> c" "c \<le> 1" using rnd_between[of 0 1 "7413 / 10000"] by (auto simp: lit_def)
  obtain e where e: "zEps = Fin e" "1 / 2 ^ 31 \<le> e" "e \<le> 1"
    using rnd_between[of "1 / 2 ^ 31" 1 "1 / 10 ^ 9"] wf64_powers by (auto simp: zEps_def lit_def)
  have "c * i \<le> 1 * 64" using c i by (intro mult_mono) auto
  moreover have "0 \<le> c * i" using c i by simp
  ultimately obtain p where p: "rnd (c * i) = Fin p" "0 \<le> p" "p \<le> 64" using rnd_between[of 0 64 "c * i"] wf64_ints by auto
  have "in_range (rnd (p + e)) (1 / 2 ^ 31) 128" using p e wf64_powers by (intro in_range_rnd) auto
  then show ?thesis by (simp add: c i e p)
qed

lemma robustZ_range:
  assumes "in_range x 0 64" "in_range med 0 64" "in_range iqr 0 64" shows "in_range (robustZ x med iqr) 0 (2 ^ 37)"
proof -
  obtain a b where a: "x = Fin a" "0 \<le> a" "a \<le> 64" and b: "med = Fin b" "0 \<le> b" "b \<le> 64" using assms(1,2) by (auto elim!: in_rangeE)
  obtain s where s: "lit (7413 / 10000) * iqr + zEps = Fin s" "1 / 2 ^ 31 \<le> s" using robust_scale_range[OF assms(3)] by (auto elim: in_rangeE)
  obtain d where d: "rnd (a - b) = Fin d" "- 64 \<le> d" "d \<le> 64"
    using rnd_between[of "- 64" 64 "a - b"] a b wf64_ints wf64_of_int[of "- 64"] by auto
  have pos: "0 < s" using s(2) by (rule less_le_trans[rotated]) simp
  have "\<bar>d\<bar> / s \<le> 64 / s" using d pos by (intro divide_right_mono) auto
  also have "\<dots> \<le> 64 / (1 / 2 ^ 31)" using s(2) by (intro divide_left_mono) (auto simp: pos)
  finally have "\<bar>d\<bar> / s \<le> 2 ^ 37" by simp
  then have "in_range (rnd (\<bar>d\<bar> / s)) 0 (2 ^ 37)" using pos wf64_powers by (intro in_range_rnd) auto
  then show ?thesis using pos by (simp add: robustZ_def a b s d)
qed

lemma contContribution_range:
  assumes "p2_ok 0 64 p" "in_range x 0 64" shows "in_range (contContribution p x mn) 0 1"
proof (cases "p2_Ready p mn")
  case True
  then have "0 < pq_Count p" by (simp add: p2_Ready_def)
  moreover have "round64 (64 - 0) = 64" using wf64_ints by (simp add: round64_exact wf64_def)
  ultimately have "in_range (p2_Median p) 0 64" "in_range (p2_IQR p) 0 64"
    using Median_range[OF assms(1)] IQR_range[OF log_bounds assms(1)] by simp_all
  then show ?thesis using True squash_range[OF robustZ_range[OF assms(2)]] by (simp add: contContribution_def)
qed (simp add: contContribution_def in_range_def zero_f64_def)

lemma novelty_range: "in_range (novelty c) 0 1"
proof -
  define q where "q = rat_of_int (uint c)"
  have u: "uint c < 2 ^ 32" using uint_lt2p[of c] by simp
  then have "q \<le> rat_of_int (2 ^ 32)" unfolding q_def by (intro of_int_le_iff[THEN iffD2]) simp
  then have q: "f64_of_int (uint c) = Fin q" "0 \<le> q" "q \<le> 2 ^ 32"
    using f64_of_int_exact[of "uint c"] u by (simp_all add: q_def unsigned_rat)
  obtain s where s: "rnd (q + 1) = Fin s" "1 \<le> s" using rnd_between[of 1 "2 ^ 37" "q + 1"] q wf64_powers by auto
  have "in_range (rnd (1 / s)) 0 1" using s by (intro in_range_rnd) auto
  then show ?thesis using s by (simp add: novelty_def alphaNovelty_def q)
qed

lemma fmax_range: "in_range x lo hi \<Longrightarrow> in_range y lo hi \<Longrightarrow> in_range (fmax x y) lo hi"
  by (auto simp: fmax_def in_range_def elim!: in_rangeE)

lemma deriveFeatures_unit:
  assumes "aggregate_ok a" "log1p_sound ln1p"
  shows "\<forall>x\<in>set (contributions (deriveFeatures ln1p a fs mn)). in_range x 0 1"
proof -
  note l = log1p_range[OF assms(2) f64_of_u64_range] log1p_range[OF assms(2) meanInterArrival_range]
  show ?thesis using assms(1) l
    by (simp add: contributions_def deriveFeatures_def novelty_range fmax_range contContribution_range aggregate_ok_def)
qed

lemma no_NaN_unit: "\<forall>x\<in>set (contributions f). in_range x 0 1 \<Longrightarrow> FingerprintMatch f \<noteq> NaN \<Longrightarrow> no_NaN f"
  by (auto simp: no_NaN_def in_range_def)

definition fold_flows :: "ln1p \<Rightarrow> (freq \<Rightarrow> freq) \<Rightarrow> (FlowStats \<times> string) list \<Rightarrow> bucketAggregate" where
  "fold_flows ln1p perm flows = foldl (\<lambda>a (fs, day). foldFlow ln1p perm fs day a) newBucketAggregate flows"

lemma foldFlow_Flows [simp]: "ba_Flows (foldFlow ln1p perm fs day a) = ba_Flows a + 1"
  by (simp add: foldFlow_def)

lemma fold_flows_ok:
  assumes "log1p_sound ln1p" "enumeration perm"
  shows "length flows < 2 ^ 32 \<Longrightarrow> aggregate_ok (fold_flows ln1p perm flows) \<and> ba_Flows (fold_flows ln1p perm flows) = length flows"
proof (induction flows rule: rev_induct)
  case Nil
  then show ?case by (simp add: fold_flows_def newBucketAggregate_ok) (simp add: newBucketAggregate_def)
next
  case (snoc x flows)
  then have "aggregate_ok (fold_flows ln1p perm flows)" "ba_Flows (fold_flows ln1p perm flows) < 2 ^ 32 - 1" by simp_all
  from foldFlow_ok[OF this(1) assms this(2)] snoc show ?case by (cases x) (simp add: fold_flows_def)
qed

text \<open>
  Property C28. The observed features never poison the multiplier. Fold any flows into a bucket, whatever their
  counters, in whatever order the maps are walked, and derive the features of any flow against it: each of
  the five is a value between zero and one, none is a NaN, the frequency maps hold at most 4096 entries, and
  the multiplier computed from the features is in its band. The shipped feature source can therefore not
  produce the NaN that would hide a flow from the scorer.
\<close>

theorem observed_features_unit:
  assumes "log1p_sound ln1p" "enumeration perm" "length flows < 2 ^ 32" "sane_params p" "MMax (Params_Normalized p) = Fin m"
  shows "(\<forall>x\<in>set (contributions (deriveFeatures ln1p (fold_flows ln1p perm flows) fs mn)). in_range x 0 1) \<and>
    in_range (MFromFeatures (deriveFeatures ln1p (fold_flows ln1p perm flows) fs mn) p) 1 m \<and>
    length (ba_Adjacency (fold_flows ln1p perm flows)) \<le> 4096"
proof -
  have ok: "aggregate_ok (fold_flows ln1p perm flows)" using fold_flows_ok[OF assms(1,2,3)] by blast
  note u = deriveFeatures_unit[OF ok assms(1), of fs mn]
  have "no_NaN (deriveFeatures ln1p (fold_flows ln1p perm flows) fs mn)"
    by (rule no_NaN_unit[OF u]) (simp add: deriveFeatures_def zero_f64_def)
  from MFromFeatures_range[OF assms(4) this assms(5)] u ok show ?thesis
    by (simp add: aggregate_ok_def freq_ok_def freqCapDefault_def)
qed

text \<open>A stand-in for \<^verbatim>\<open>math.Log1p\<close> of the right range: the binary exponent of one plus its argument.\<close>

definition demo_ln1p :: ln1p where
  "demo_ln1p x = (case x of Fin q \<Rightarrow> if 0 \<le> q then f64_of_int (ilog2 (1 + q)) else NaN | _ \<Rightarrow> NaN)"

lemma demo_ln1p_sound: "log1p_sound demo_ln1p"
  unfolding log1p_sound_def
proof (intro allI impI)
  fix x assume "in_range x 0 (2 ^ 64)"
  then obtain q where q: "x = Fin q" "0 \<le> q" "q \<le> 2 ^ 64" by (auto elim: in_rangeE)
  have "0 \<le> ilog2 (1 + q)" using ilog2_mono[of 1 "1 + q"] q by (simp add: ilog2.simps[of 1])
  moreover have "ilog2 (1 + q) \<le> 64"
  proof -
    have "pow2 (ilog2 (1 + q)) \<le> 1 + q" using ilog2_le[of "1 + q"] q by simp
    also have "\<dots> < pow2 65" using q by (simp add: pow2_def)
    finally show ?thesis by (simp add: pow2_less_cancel)
  qed
  ultimately have "in_range (f64_of_int (ilog2 (1 + q))) 0 64"
    unfolding f64_of_int_def using wf64_ints by (intro in_range_rnd) simp_all
  then show "in_range (demo_ln1p x) 0 64" using q by (simp add: demo_ln1p_def)
qed

definition demo_flow :: FlowStats where
  "demo_flow = \<lparr>fs_IngressPackets = 10, fs_IngressBytes = 4000, fs_EgressPackets = 8, fs_EgressBytes = 900, fs_FirstSeenNs = 5,
     fs_LastSeenNs = 905, fs_Family = observe_AFInet, fs_SrcPort = 40112, fs_DstPort = 443, fs_Closed = 1,
     fs_SrcIP = replicate 16 (CHR ''a''), fs_DstIP = replicate 16 (CHR ''b'')\<rparr>"

lemma observed_features_unit_witness:
  "in_range (MFromFeatures (deriveFeatures demo_ln1p (fold_flows demo_ln1p rev (replicate 60 (demo_flow, ''2026-01-05''))) demo_flow 50) DefaultParams) 1 3"
proof -
  have p: "sane_params DefaultParams" "MMax (Params_Normalized DefaultParams) = Fin 3"
    using wf64_half_int[of 1] by (simp_all add: sane_params_def DefaultParams_def DefaultMMax_def DefaultK_def DefaultCMax_def
        Params_Normalized_def Let_def zero_f64_def one_f64_def rnd_exact wf64_minus_one)
  show ?thesis using observed_features_unit[OF demo_ln1p_sound enumeration_rev _ p, of "replicate 60 (demo_flow, ''2026-01-05'')" demo_flow 50] by simp
qed

text \<open>An address an operator declares hashes to the identity of the flows the kernel observes from it.\<close>

lemma hashAddrCanonical_identity:
  assumes "length b = (if fs_Family fs = observe_AFInet then 4 else 16)" "take (addrLen (fs_Family fs)) (fs_SrcIP fs) = bytes b"
    and "fs_Family fs = observe_AFInet \<or> fs_Family fs = observe_AFInet6"
  shows "hashAddrCanonical (if fs_Family fs = observe_AFInet then V4 b else V6 b z) = hashIdentity fs"
  using assms by (auto simp: hashAddrCanonical_def hashIdentity_def writeAddr_def addrLen_def bytes_def)

end
