(* ===== verification/Topology.thy ===== *)
theory Topology
  imports Observation
begin

text \<open>
  The local-rich records of the observe baseline, \<^verbatim>\<open>topology.go\<close> and \<^verbatim>\<open>deviants.go\<close> of
  \<^verbatim>\<open>internal/engine/observebaseline\<close>: the learned graph of directed edges with its catalog of nodes, and the
  log of flows that deviate from the baseline. Both are capped maps that report the keys they touched or
  evicted, so that only those are written to the database; the locale \<open>keyed_log\<close> is that contract. gob
  blobs are the records themselves. Lemmas: both stay within their caps, a record's key is a function of
  its own fields, and the reported keys cover every change.
\<close>

section \<open>Eviction\<close>

text \<open>
  \<^verbatim>\<open>evictEdgeIfFull\<close>, \<^verbatim>\<open>evictNodeIfFull\<close> and \<^verbatim>\<open>evictIfFull\<close> have one body: the entry with the lowest count, the
  oldest of those, goes. \<open>rank\<close> is the count and the time of a record, \<open>perm\<close> the order of the walk.
\<close>

type_synonym 'v keyed = "(string \<times> 'v) list"

definition max_rank :: "nat \<times> time" where "max_rank = (2 ^ 64 - 1, 0)"

definition evictIfFull :: "('v \<Rightarrow> nat \<times> time) \<Rightarrow> nat \<Rightarrow> ('v keyed \<Rightarrow> 'v keyed) \<Rightarrow> 'v keyed \<Rightarrow> string list \<times> 'v keyed" where
  "evictIfFull rank cap perm m =
     (if length m < cap then ([], m)
      else let victim = fst (scan_least snd ([], max_rank) (map (\<lambda>(k, r). (k, rank r)) (perm m)))
           in ([victim], AList.delete victim m))"

text \<open>Entries last seen before the cutoff go.\<close>

definition reap_keyed :: "('v \<Rightarrow> time) \<Rightarrow> time \<Rightarrow> 'v keyed \<Rightarrow> string list \<times> 'v keyed" where
  "reap_keyed seen cutoff m = (map fst (filter (\<lambda>(k, r). seen r < cutoff) m), filter (\<lambda>(k, r). \<not> seen r < cutoff) m)"

section \<open>The learned topology\<close>

definition topoEdgeCapDefault :: nat where "topoEdgeCapDefault = 4096"
definition topoNodeCapDefault :: nat where "topoNodeCapDefault = 4096"
definition topoTTLDefault :: duration where "topoTTLDefault = 30 * 24 * hour"

datatype nodeRole = roleInitiator | roleService

definition role_byte :: "nodeRole \<Rightarrow> char" where
  "role_byte r = (case r of roleInitiator \<Rightarrow> CHR 0x01 | roleService \<Rightarrow> CHR 0x02)"

definition nodeRole_String :: "nodeRole \<Rightarrow> string" where
  "nodeRole_String r = (case r of roleInitiator \<Rightarrow> ''initiator'' | roleService \<Rightarrow> ''service'')"

record topoEdge =
  te_SrcIP :: string
  te_DstIP :: string
  te_DstPort :: u16
  te_Family :: u16
  te_FlowCount :: nat
  te_TotalBytes :: u64
  te_TotalPkts :: u64
  te_FirstSeen :: time
  te_LastSeen :: time

record topoNode =
  tn_Addr :: string
  tn_Port :: u16
  tn_Family :: u16
  tn_Role :: nodeRole
  tn_FlowCount :: nat
  tn_FirstSeen :: time
  tn_LastSeen :: time

record topology =
  tp_edges :: "topoEdge keyed"
  tp_nodes :: "topoNode keyed"

definition newTopology :: topology where
  "newTopology = \<lparr>tp_edges = [], tp_nodes = []\<rparr>"

abbreviation (input) topoKindEdge :: char where "topoKindEdge \<equiv> CHR 0x01"
abbreviation (input) topoKindNode :: char where "topoKindNode \<equiv> CHR 0x02"

definition appendAddr :: "u16 \<Rightarrow> string \<Rightarrow> string" where
  "appendAddr family ip = take (addrLen family) ip"

definition edgeKey :: "FlowStats \<Rightarrow> string" where
  "edgeKey fs = topoKindEdge # be16 (fs_Family fs) @ appendAddr (fs_Family fs) (fs_SrcIP fs) @ appendAddr (fs_Family fs) (fs_DstIP fs) @ be16 (fs_DstPort fs)"

definition nodeKey :: "nodeRole \<Rightarrow> u16 \<Rightarrow> string \<Rightarrow> u16 \<Rightarrow> string" where
  "nodeKey role family ip port = topoKindNode # role_byte role # be16 family @ appendAddr family ip @ be16 port"

definition initiatorNodeKey :: "FlowStats \<Rightarrow> string" where
  "initiatorNodeKey fs = nodeKey roleInitiator (fs_Family fs) (fs_SrcIP fs) 0"

definition serviceNodeKey :: "FlowStats \<Rightarrow> string" where
  "serviceNodeKey fs = nodeKey roleService (fs_Family fs) (fs_DstIP fs) (fs_DstPort fs)"

definition edge_rank :: "topoEdge \<Rightarrow> nat \<times> time" where "edge_rank e = (te_FlowCount e, te_LastSeen e)"
definition node_rank :: "topoNode \<Rightarrow> nat \<times> time" where "node_rank n = (tn_FlowCount n, tn_LastSeen n)"

text \<open>The orders in which the maps are walked.\<close>

record walks =
  wk_freq :: "freq \<Rightarrow> freq"
  wk_edges :: "topoEdge keyed \<Rightarrow> topoEdge keyed"
  wk_nodes :: "topoNode keyed \<Rightarrow> topoNode keyed"

definition evictEdgeIfFull :: "walks \<Rightarrow> topoEdge keyed \<Rightarrow> string list \<times> topoEdge keyed" where
  "evictEdgeIfFull wk = evictIfFull edge_rank topoEdgeCapDefault (wk_edges wk)"

definition evictNodeIfFull :: "walks \<Rightarrow> topoNode keyed \<Rightarrow> string list \<times> topoNode keyed" where
  "evictNodeIfFull wk = evictIfFull node_rank topoNodeCapDefault (wk_nodes wk)"

definition foldNode :: "walks \<Rightarrow> string \<Rightarrow> nodeRole \<Rightarrow> u16 \<Rightarrow> string \<Rightarrow> u16 \<Rightarrow> time \<Rightarrow> topoNode keyed \<Rightarrow> string list \<times> topoNode keyed" where
  "foldNode wk key role family ip port now nodes =
     (case map_of nodes key of
        Some n \<Rightarrow> ([], AList.update key (n\<lparr>tn_FlowCount := tn_FlowCount n + 1, tn_LastSeen := now\<rparr>) nodes)
      | None \<Rightarrow>
          (case evictNodeIfFull wk nodes of (ev, nodes') \<Rightarrow>
             (ev, AList.update key \<lparr>tn_Addr = ip, tn_Port = port, tn_Family = family, tn_Role = role, tn_FlowCount = 1,
                                    tn_FirstSeen = now, tn_LastSeen = now\<rparr> nodes')))"

definition foldEdge :: "walks \<Rightarrow> FlowStats \<Rightarrow> time \<Rightarrow> topoEdge keyed \<Rightarrow> string list \<times> topoEdge keyed" where
  "foldEdge wk fs now edges =
     (case map_of edges (edgeKey fs) of
        Some e \<Rightarrow> ([], AList.update (edgeKey fs)
           (e\<lparr>te_FlowCount := te_FlowCount e + 1, te_TotalBytes := te_TotalBytes e + TotalBytes fs,
              te_TotalPkts := te_TotalPkts e + TotalPackets fs, te_LastSeen := now\<rparr>) edges)
      | None \<Rightarrow>
          (case evictEdgeIfFull wk edges of (ev, edges') \<Rightarrow>
             (ev, AList.update (edgeKey fs) \<lparr>te_SrcIP = fs_SrcIP fs, te_DstIP = fs_DstIP fs, te_DstPort = fs_DstPort fs,
                te_Family = fs_Family fs, te_FlowCount = 1, te_TotalBytes = TotalBytes fs, te_TotalPkts = TotalPackets fs,
                te_FirstSeen = now, te_LastSeen = now\<rparr> edges')))"

text \<open>The keys touched, the keys evicted, and the topology after one flow.\<close>

definition topology_fold :: "walks \<Rightarrow> FlowStats \<Rightarrow> time \<Rightarrow> topology \<Rightarrow> (string list \<times> string list) \<times> topology" where
  "topology_fold wk fs now t =
     (case foldEdge wk fs now (tp_edges t) of (ev1, edges) \<Rightarrow>
      case foldNode wk (initiatorNodeKey fs) roleInitiator (fs_Family fs) (fs_SrcIP fs) 0 now (tp_nodes t) of (ev2, nodes1) \<Rightarrow>
      case foldNode wk (serviceNodeKey fs) roleService (fs_Family fs) (fs_DstIP fs) (fs_DstPort fs) now nodes1 of (ev3, nodes2) \<Rightarrow>
        (([edgeKey fs, initiatorNodeKey fs, serviceNodeKey fs], ev1 @ ev2 @ ev3), \<lparr>tp_edges = edges, tp_nodes = nodes2\<rparr>))"

definition topology_reap :: "time \<Rightarrow> duration \<Rightarrow> topology \<Rightarrow> string list \<times> topology" where
  "topology_reap now ttl t =
     (case reap_keyed te_LastSeen (now - ttl) (tp_edges t) of (ks1, edges) \<Rightarrow>
      case reap_keyed tn_LastSeen (now - ttl) (tp_nodes t) of (ks2, nodes) \<Rightarrow>
        (ks1 @ ks2, \<lparr>tp_edges = edges, tp_nodes = nodes\<rparr>))"

datatype topo_blob = EdgeBlob topoEdge | NodeBlob topoNode

definition topology_blobForKey :: "topology \<Rightarrow> string \<Rightarrow> topo_blob option" where
  "topology_blobForKey t key =
     (case key of
        [] \<Rightarrow> None
      | c # _ \<Rightarrow>
          if c = topoKindEdge then map_option EdgeBlob (map_of (tp_edges t) key)
          else if c = topoKindNode then map_option NodeBlob (map_of (tp_nodes t) key)
          else None)"

text \<open>The decoded view of one scope's graph.\<close>

record TopoEdgeView =
  ev_SrcIP :: string
  ev_DstIP :: string
  ev_rest :: topoEdge

record TopoNodeView =
  nv_Addr :: string
  nv_Role :: string
  nv_rest :: topoNode

definition topology_Snapshot :: "topology option \<Rightarrow> TopoEdgeView list \<times> TopoNodeView list" where
  "topology_Snapshot t =
     (case t of
        None \<Rightarrow> ([], [])
      | Some t \<Rightarrow>
          (map (\<lambda>(_, e). \<lparr>ev_SrcIP = take (addrLen (te_Family e)) (te_SrcIP e), ev_DstIP = take (addrLen (te_Family e)) (te_DstIP e), ev_rest = e\<rparr>) (tp_edges t),
           map (\<lambda>(_, n). \<lparr>nv_Addr = take (addrLen (tn_Family n)) (tn_Addr n), nv_Role = nodeRole_String (tn_Role n), nv_rest = n\<rparr>) (tp_nodes t)))"

section \<open>The deviant log\<close>

definition deviantFloor :: f64 where "deviantFloor = lit (3 / 10)"
definition deviantCapDefault :: nat where "deviantCapDefault = 4096"
definition deviantTTLDefault :: duration where "deviantTTLDefault = 30 * 24 * hour"

datatype peakDimCode = dimIdentity | dimAdjacency | dimPort | dimVolume | dimCadence

definition dim_byte :: "peakDimCode \<Rightarrow> char" where
  "dim_byte d = (case d of dimIdentity \<Rightarrow> CHR 0x01 | dimAdjacency \<Rightarrow> CHR 0x02 | dimPort \<Rightarrow> CHR 0x03 | dimVolume \<Rightarrow> CHR 0x04 | dimCadence \<Rightarrow> CHR 0x05)"

definition dim_label :: "peakDimCode \<Rightarrow> string" where
  "dim_label d = (case d of dimIdentity \<Rightarrow> ''new identity'' | dimAdjacency \<Rightarrow> ''new adjacency'' | dimPort \<Rightarrow> ''new port''
     | dimVolume \<Rightarrow> ''volume deviation'' | dimCadence \<Rightarrow> ''cadence deviation'')"

definition peakNoveltyDim :: "Features \<Rightarrow> peakDimCode \<times> f64 \<times> string" where
  "peakNoveltyDim f =
     (let bc = (IdentityNovelty f, dimIdentity);
          bc = (if fst bc < AdjacencyNovelty f then (AdjacencyNovelty f, dimAdjacency) else bc);
          bc = (if fst bc < PortNovelty f then (PortNovelty f, dimPort) else bc);
          bc = (if fst bc < VolumeDeviation f then (VolumeDeviation f, dimVolume) else bc);
          bc = (if fst bc < CadenceDeviation f then (CadenceDeviation f, dimCadence) else bc)
      in (snd bc, fst bc, dim_label (snd bc)))"

definition peakDimFromNovelty :: "f64 \<Rightarrow> f64 \<Rightarrow> f64 \<Rightarrow> f64 \<Rightarrow> f64 \<Rightarrow> peakDimCode" where
  "peakDimFromNovelty identity adjacency port vol cadence =
     (let bc = (identity, dimIdentity);
          bc = (if fst bc < adjacency then (adjacency, dimAdjacency) else bc);
          bc = (if fst bc < port then (port, dimPort) else bc);
          bc = (if fst bc < vol then (vol, dimVolume) else bc)
      in if fst bc < cadence then dimCadence else snd bc)"

record DeviantFlowRecord =
  dv_SrcIP :: string
  dv_DstIP :: string
  dv_SrcPort :: u16
  dv_DstPort :: u16
  dv_Family :: u16
  dv_SocketCookie :: u64
  dv_IdentityNovelty :: f64
  dv_AdjacencyNovelty :: f64
  dv_PortNovelty :: f64
  dv_VolumeDeviation :: f64
  dv_CadenceDeviation :: f64
  dv_PeakNovelty :: f64
  dv_PeakLabel :: string
  dv_Score :: f64
  dv_FirstSeen :: time
  dv_LastSeen :: time
  dv_HitCount :: nat

definition deviantKey :: "FlowStats \<Rightarrow> peakDimCode \<Rightarrow> string" where
  "deviantKey fs peak = CHR 0x01 # be16 (fs_Family fs) @ appendAddr (fs_Family fs) (fs_SrcIP fs) @ appendAddr (fs_Family fs) (fs_DstIP fs)
     @ be16 (fs_DstPort fs) @ [dim_byte peak]"

definition deviant_rank :: "DeviantFlowRecord \<Rightarrow> nat \<times> time" where "deviant_rank r = (dv_HitCount r, dv_LastSeen r)"

type_synonym deviants = "DeviantFlowRecord keyed"

definition deviants_evictIfFull :: "(deviants \<Rightarrow> deviants) \<Rightarrow> deviants \<Rightarrow> string list \<times> deviants" where
  "deviants_evictIfFull perm = evictIfFull deviant_rank deviantCapDefault perm"

definition deviants_fold ::
  "(deviants \<Rightarrow> deviants) \<Rightarrow> FlowStats \<Rightarrow> u64 \<Rightarrow> Features \<Rightarrow> f64 \<Rightarrow> time \<Rightarrow> deviants \<Rightarrow> (string \<times> string list) \<times> deviants" where
  "deviants_fold perm fs cookie feat score now d =
     (case peakNoveltyDim feat of (code, nov, label) \<Rightarrow>
        let key = deviantKey fs code in
        case map_of d key of
          Some r \<Rightarrow> ((key, []), AList.update key
             (r\<lparr>dv_HitCount := dv_HitCount r + 1, dv_LastSeen := now, dv_SocketCookie := cookie,
                dv_IdentityNovelty := IdentityNovelty feat, dv_AdjacencyNovelty := AdjacencyNovelty feat, dv_PortNovelty := PortNovelty feat,
                dv_VolumeDeviation := VolumeDeviation feat, dv_CadenceDeviation := CadenceDeviation feat,
                dv_PeakNovelty := nov, dv_PeakLabel := label, dv_Score := score\<rparr>) d)
        | None \<Rightarrow>
            (case deviants_evictIfFull perm d of (ev, d') \<Rightarrow>
               ((key, ev), AList.update key
                  \<lparr>dv_SrcIP = fs_SrcIP fs, dv_DstIP = fs_DstIP fs, dv_SrcPort = fs_SrcPort fs, dv_DstPort = fs_DstPort fs, dv_Family = fs_Family fs,
                   dv_SocketCookie = cookie, dv_IdentityNovelty = IdentityNovelty feat, dv_AdjacencyNovelty = AdjacencyNovelty feat,
                   dv_PortNovelty = PortNovelty feat, dv_VolumeDeviation = VolumeDeviation feat, dv_CadenceDeviation = CadenceDeviation feat,
                   dv_PeakNovelty = nov, dv_PeakLabel = label, dv_Score = score, dv_FirstSeen = now, dv_LastSeen = now, dv_HitCount = 1\<rparr> d')))"

definition deviants_reap :: "time \<Rightarrow> duration \<Rightarrow> deviants \<Rightarrow> string list \<times> deviants" where
  "deviants_reap now ttl d = reap_keyed dv_LastSeen (now - ttl) d"

text \<open>
  A snapshot shows each record with the bytes of its addresses and the key it is stored under in hex; the
  dashboard can rebuild the key from the view.
\<close>

record DeviantView =
  vw_SrcIP :: string
  vw_DstIP :: string
  vw_Key :: string
  vw_rec :: DeviantFlowRecord

definition hex_of :: "string \<Rightarrow> string" where
  "hex_of s = concat (map (\<lambda>c. [hex_char (of_char c div 16), hex_char (of_char c mod 16)]) s)"

definition appendAddrSlice :: "string \<Rightarrow> nat \<Rightarrow> string" where
  "appendAddrSlice addr n = map (\<lambda>i. if i < length addr then addr ! i else CHR 0x00) [0..<n]"

definition deviantKeyBytesFromView :: "DeviantView \<Rightarrow> string" where
  "deviantKeyBytesFromView v =
     (let r = vw_rec v; n = addrLen (dv_Family r);
          peak = peakDimFromNovelty (dv_IdentityNovelty r) (dv_AdjacencyNovelty r) (dv_PortNovelty r) (dv_VolumeDeviation r) (dv_CadenceDeviation r)
      in CHR 0x01 # be16 (dv_Family r) @ appendAddrSlice (vw_SrcIP v) n @ appendAddrSlice (vw_DstIP v) n @ be16 (dv_DstPort r) @ [dim_byte peak])"

definition DeviantKeyHex :: "DeviantView \<Rightarrow> string" where
  "DeviantKeyHex v = hex_of (deviantKeyBytesFromView v)"

definition DeviantSnapshot :: "deviants option \<Rightarrow> DeviantView list" where
  "DeviantSnapshot d =
     (case d of
        None \<Rightarrow> []
      | Some d \<Rightarrow> map (\<lambda>(key, r). \<lparr>vw_SrcIP = take (addrLen (dv_Family r)) (dv_SrcIP r), vw_DstIP = take (addrLen (dv_Family r)) (dv_DstIP r),
                                  vw_Key = hex_of key, vw_rec = r\<rparr>) d)"

section \<open>Caps\<close>

definition keyed_ok :: "nat \<Rightarrow> ('v \<Rightarrow> nat \<times> time) \<Rightarrow> nat \<Rightarrow> 'v keyed \<Rightarrow> bool" where
  "keyed_ok cap rank n m \<longleftrightarrow> distinct (map fst m) \<and> length m \<le> cap \<and> (\<forall>k r. (k, r) \<in> set m \<longrightarrow> fst (rank r) \<le> n)"

lemma keyed_ok_Nil [simp]: "keyed_ok cap rank n []"
  by (simp add: keyed_ok_def)

lemma keyed_ok_mono: "keyed_ok cap rank n m \<Longrightarrow> n \<le> n' \<Longrightarrow> keyed_ok cap rank n' m"
  by (auto simp: keyed_ok_def intro: order_trans)

lemma evictIfFull_ok:
  assumes m: "keyed_ok cap rank n m" and perm: "enumeration perm" and n: "n < 2 ^ 64 - 1" and cap: "0 < cap"
    and ev: "evictIfFull rank cap perm m = (ks, m')"
  shows "keyed_ok cap rank n m'" "length m' < cap" "\<forall>k. k \<notin> set ks \<longrightarrow> map_of m' k = map_of m k" "set m' \<subseteq> set m"
proof -
  have all: "keyed_ok cap rank n m' \<and> length m' < cap \<and> (\<forall>k. k \<notin> set ks \<longrightarrow> map_of m' k = map_of m k) \<and> set m' \<subseteq> set m"
  proof (cases "length m < cap")
    case True
    then show ?thesis using m ev by (auto simp: evictIfFull_def)
  next
    case False
    let ?l = "map (\<lambda>(k, r). (k, rank r)) (perm m)"
    define v where "v = fst (scan_least snd ([], max_rank) ?l)"
    have e: "ks = [v]" "m' = AList.delete v m" using False ev by (auto simp: evictIfFull_def v_def Let_def)
    obtain k r where kr: "(k, r) \<in> set m" using False cap by (cases m) auto
    then have "fst (rank r) < 2 ^ 64 - 1" using m n by (auto simp: keyed_ok_def intro: le_less_trans)
    then have "rank r < max_rank" by (cases "rank r") (simp add: max_rank_def)
    moreover have "(k, rank r) \<in> set ?l" using kr by (force simp: enumeration_set[OF perm])
    ultimately have "scan_least snd ([], max_rank) ?l \<in> set ?l" by (intro scan_least_mem[of "(k, rank r)"]) simp_all
    then have "v \<in> fst ` set m" unfolding v_def by (force simp: enumeration_set[OF perm])
    then have "length m' < length m" unfolding e using m by (intro length_delete_keyed) (simp_all add: keyed_ok_def)
    then show ?thesis using m by (auto simp: e keyed_ok_def AList.delete_eq distinct_map_filter map_of_filter_distinct split: option.split)
  qed
  then show "keyed_ok cap rank n m'" "length m' < cap" "\<forall>k. k \<notin> set ks \<longrightarrow> map_of m' k = map_of m k" "set m' \<subseteq> set m" by blast+
qed

lemma keyed_insert_ok:
  assumes "keyed_ok cap rank n m" "length m < cap" "fst (rank r) \<le> n" shows "keyed_ok cap rank n (AList.update k r m)"
  using assms by (auto simp: keyed_ok_def length_AList_update AList_update_mem distinct_update split: if_splits)

lemma keyed_bump_ok:
  assumes "keyed_ok cap rank n m" "map_of m k = Some r0" "fst (rank r) \<le> n" shows "keyed_ok cap rank n (AList.update k r m)"
proof -
  have "k \<in> fst ` set m" using assms(2) by (force dest: map_of_SomeD)
  then show ?thesis using assms by (auto simp: keyed_ok_def length_AList_update AList_update_mem distinct_update split: if_splits)
qed

lemma reap_keyed_ok:
  assumes "keyed_ok cap rank n m" "reap_keyed seen cutoff m = (ks, m')"
  shows "keyed_ok cap rank n m'" "\<forall>k. k \<notin> set ks \<longrightarrow> map_of m' k = map_of m k" "set m' \<subseteq> set m"
proof -
  have d: "distinct (map fst m)" and l: "length m' \<le> length m" and e: "m' = filter (\<lambda>(k, r). \<not> seen r < cutoff) m"
    using assms by (auto simp: reap_keyed_def keyed_ok_def)
  then show "keyed_ok cap rank n m'" "set m' \<subseteq> set m" using assms(1) by (auto simp: keyed_ok_def distinct_map_filter intro: order_trans[OF length_filter_le])
  show "\<forall>k. k \<notin> set ks \<longrightarrow> map_of m' k = map_of m k"
  proof (intro allI impI)
    fix k assume k: "k \<notin> set ks"
    show "map_of m' k = map_of m k"
    proof (cases "map_of m k")
      case (Some r)
      then have "\<not> seen r < cutoff" using k assms(2) by (force simp: reap_keyed_def dest: map_of_SomeD)
      then show ?thesis using Some d by (simp add: e map_of_filter_distinct)
    qed (use d in \<open>simp add: e map_of_filter_distinct\<close>)
  qed
qed

section \<open>The operations\<close>

text \<open>The graph after \<open>n\<close> flows, and the log after \<open>n\<close> deviants.\<close>

definition topology_ok :: "nat \<Rightarrow> topology \<Rightarrow> bool" where
  "topology_ok n t \<longleftrightarrow> keyed_ok topoEdgeCapDefault edge_rank n (tp_edges t) \<and> keyed_ok topoNodeCapDefault node_rank (2 * n) (tp_nodes t)"

definition walks_ok :: "walks \<Rightarrow> bool" where
  "walks_ok wk \<longleftrightarrow> enumeration (wk_freq wk) \<and> enumeration (wk_edges wk) \<and> enumeration (wk_nodes wk)"

lemma foldEdge_ok:
  assumes "keyed_ok topoEdgeCapDefault edge_rank n es" "walks_ok wk" "n < 2 ^ 62" "foldEdge wk fs now es = (ks, es')"
  shows "keyed_ok topoEdgeCapDefault edge_rank (Suc n) es' \<and> (\<forall>k. k \<noteq> edgeKey fs \<and> k \<notin> set ks \<longrightarrow> map_of es' k = map_of es k)"
proof (cases "map_of es (edgeKey fs)")
  case (Some e)
  then have "te_FlowCount e \<le> n" using assms(1) by (fastforce simp: keyed_ok_def edge_rank_def dest: map_of_SomeD)
  then show ?thesis using assms(4) Some keyed_bump_ok[OF keyed_ok_mono[OF assms(1), of "Suc n"] Some]
    by (auto simp: foldEdge_def edge_rank_def AList.update_conv')
next
  case None
  obtain ev es1 where e: "evictEdgeIfFull wk es = (ev, es1)" by fastforce
  have w: "enumeration (wk_edges wk)" "n < 2 ^ 64 - 1" "0 < topoEdgeCapDefault" using assms(2,3) by (simp_all add: walks_ok_def topoEdgeCapDefault_def)
  note ev = evictIfFull_ok[OF assms(1) w e[unfolded evictEdgeIfFull_def]]
  show ?thesis using assms(4) None e ev keyed_insert_ok[OF keyed_ok_mono[OF ev(1), of "Suc n"] ev(2)]
    by (auto simp: foldEdge_def edge_rank_def AList.update_conv')
qed

lemma foldNode_ok:
  assumes "keyed_ok topoNodeCapDefault node_rank n ns" "walks_ok wk" "n < 2 ^ 63" "foldNode wk key role family ip port now ns = (ks, ns')"
  shows "keyed_ok topoNodeCapDefault node_rank (Suc n) ns' \<and> (\<forall>k. k \<noteq> key \<and> k \<notin> set ks \<longrightarrow> map_of ns' k = map_of ns k)"
proof (cases "map_of ns key")
  case (Some r)
  then have "tn_FlowCount r \<le> n" using assms(1) by (fastforce simp: keyed_ok_def node_rank_def dest: map_of_SomeD)
  then show ?thesis using assms(4) Some keyed_bump_ok[OF keyed_ok_mono[OF assms(1), of "Suc n"] Some]
    by (auto simp: foldNode_def node_rank_def AList.update_conv')
next
  case None
  obtain ev ns1 where e: "evictNodeIfFull wk ns = (ev, ns1)" by fastforce
  have w: "enumeration (wk_nodes wk)" "n < 2 ^ 64 - 1" "0 < topoNodeCapDefault" using assms(2,3) by (simp_all add: walks_ok_def topoNodeCapDefault_def)
  note ev = evictIfFull_ok[OF assms(1) w e[unfolded evictNodeIfFull_def]]
  show ?thesis using assms(4) None e ev keyed_insert_ok[OF keyed_ok_mono[OF ev(1), of "Suc n"] ev(2)]
    by (auto simp: foldNode_def node_rank_def AList.update_conv')
qed

lemma topology_fold_ok:
  assumes "topology_ok n t" "walks_ok wk" "n < 2 ^ 61" "topology_fold wk fs now t = ((ts, ev), t')"
  shows "topology_ok (Suc n) t' \<and> (\<forall>k. k \<notin> set ts \<union> set ev \<longrightarrow> topology_blobForKey t' k = topology_blobForKey t k)"
proof -
  obtain e1 es where 1: "foldEdge wk fs now (tp_edges t) = (e1, es)" by fastforce
  obtain e2 n1 where 2: "foldNode wk (initiatorNodeKey fs) roleInitiator (fs_Family fs) (fs_SrcIP fs) 0 now (tp_nodes t) = (e2, n1)" by fastforce
  obtain e3 n2 where 3: "foldNode wk (serviceNodeKey fs) roleService (fs_Family fs) (fs_DstIP fs) (fs_DstPort fs) now n1 = (e3, n2)" by fastforce
  have r: "ts = [edgeKey fs, initiatorNodeKey fs, serviceNodeKey fs]" "ev = e1 @ e2 @ e3" "t' = \<lparr>tp_edges = es, tp_nodes = n2\<rparr>"
    using assms(4) 1 2 3 by (auto simp: topology_fold_def)
  have o: "keyed_ok topoEdgeCapDefault edge_rank n (tp_edges t)" "keyed_ok topoNodeCapDefault node_rank (2 * n) (tp_nodes t)"
    using assms(1) by (simp_all add: topology_ok_def)
  note f1 = foldEdge_ok[OF o(1) assms(2) _ 1] and f2 = foldNode_ok[OF o(2) assms(2) _ 2]
  have f1': "keyed_ok topoEdgeCapDefault edge_rank (Suc n) es \<and> (\<forall>k. k \<noteq> edgeKey fs \<and> k \<notin> set e1 \<longrightarrow> map_of es k = map_of (tp_edges t) k)"
    and f2': "keyed_ok topoNodeCapDefault node_rank (Suc (2 * n)) n1 \<and> (\<forall>k. k \<noteq> initiatorNodeKey fs \<and> k \<notin> set e2 \<longrightarrow> map_of n1 k = map_of (tp_nodes t) k)"
    using f1 f2 assms(3) by simp_all
  have "keyed_ok topoNodeCapDefault node_rank (Suc (Suc (2 * n))) n2 \<and> (\<forall>k. k \<noteq> serviceNodeKey fs \<and> k \<notin> set e3 \<longrightarrow> map_of n2 k = map_of n1 k)"
    using foldNode_ok[OF conjunct1[OF f2'] assms(2) _ 3] assms(3) by simp
  with f1' f2' show ?thesis by (auto simp: r topology_ok_def topology_blobForKey_def split: list.split)
qed

lemma topology_reap_ok:
  assumes "topology_ok n t" "topology_reap now ttl t = (ks, t')"
  shows "topology_ok n t' \<and> (\<forall>k. k \<notin> set ks \<longrightarrow> topology_blobForKey t' k = topology_blobForKey t k)"
proof -
  obtain k1 es where 1: "reap_keyed te_LastSeen (now - ttl) (tp_edges t) = (k1, es)" by fastforce
  obtain k2 ns where 2: "reap_keyed tn_LastSeen (now - ttl) (tp_nodes t) = (k2, ns)" by fastforce
  have r: "ks = k1 @ k2" "t' = \<lparr>tp_edges = es, tp_nodes = ns\<rparr>" using assms(2) 1 2 by (auto simp: topology_reap_def)
  show ?thesis using assms(1) reap_keyed_ok[OF _ 1] reap_keyed_ok[OF _ 2]
    by (auto simp: r topology_ok_def topology_blobForKey_def split: list.split)
qed

definition deviants_ok :: "nat \<Rightarrow> deviants \<Rightarrow> bool" where
  "deviants_ok n d \<longleftrightarrow> keyed_ok deviantCapDefault deviant_rank n d"

lemma deviants_fold_ok:
  assumes "deviants_ok n d" "enumeration perm" "n < 2 ^ 62" "deviants_fold perm fs cookie feat score now d = ((key, ev), d')"
  shows "deviants_ok (Suc n) d' \<and> (\<forall>k. k \<notin> insert key (set ev) \<longrightarrow> map_of d' k = map_of d k)"
proof -
  obtain code nov label where p: "peakNoveltyDim feat = (code, nov, label)" by (metis prod_cases3)
  note o = assms(1)[unfolded deviants_ok_def]
  show ?thesis
  proof (cases "map_of d (deviantKey fs code)")
    case (Some r)
    then have "dv_HitCount r \<le> n" using o by (fastforce simp: keyed_ok_def deviant_rank_def dest: map_of_SomeD)
    then show ?thesis using assms(4) Some p keyed_bump_ok[OF keyed_ok_mono[OF o, of "Suc n"] Some]
      by (auto simp: deviants_fold_def deviants_ok_def deviant_rank_def AList.update_conv' Let_def)
  next
    case None
    obtain ev1 d1 where e: "deviants_evictIfFull perm d = (ev1, d1)" by fastforce
    have w: "n < 2 ^ 64 - 1" "0 < deviantCapDefault" using assms(3) by (simp_all add: deviantCapDefault_def)
    note ev = evictIfFull_ok[OF o assms(2) w e[unfolded deviants_evictIfFull_def]]
    show ?thesis using assms(4) None e p ev keyed_insert_ok[OF keyed_ok_mono[OF ev(1), of "Suc n"] ev(2)]
      by (auto simp: deviants_fold_def deviants_ok_def deviant_rank_def AList.update_conv' Let_def)
  qed
qed

lemma deviants_reap_ok:
  assumes "deviants_ok n d" "deviants_reap now ttl d = (ks, d')"
  shows "deviants_ok n d' \<and> (\<forall>k. k \<notin> set ks \<longrightarrow> map_of d' k = map_of d k)"
  using reap_keyed_ok[OF assms(1)[unfolded deviants_ok_def] assms(2)[unfolded deviants_reap_def]] by (simp add: deviants_ok_def)

section \<open>The contract with the database\<close>

text \<open>
  What the aggregator relies on in both stores: folding a flow and reaping report every key whose record
  changed. Then writing the reported keys, a record or its absence, keeps the database equal to memory.
\<close>

locale keyed_log =
  fixes blob :: "'m \<Rightarrow> string \<Rightarrow> 'b option"
    and upsert :: "'x \<Rightarrow> 'm \<Rightarrow> string list \<times> 'm"
    and expire :: "time \<Rightarrow> duration \<Rightarrow> 'm \<Rightarrow> string list \<times> 'm"
    and good :: "nat \<Rightarrow> 'm \<Rightarrow> bool" and fits :: "'x \<Rightarrow> bool"
  assumes upsert_tracks: "good n m \<Longrightarrow> n < 2 ^ 61 \<Longrightarrow> fits x \<Longrightarrow> upsert x m = (ks, m') \<Longrightarrow> good (Suc n) m' \<and> (\<forall>k. k \<notin> set ks \<longrightarrow> blob m' k = blob m k)"
    and expire_tracks: "good n m \<Longrightarrow> expire now ttl m = (ks, m') \<Longrightarrow> good n m' \<and> (\<forall>k. k \<notin> set ks \<longrightarrow> blob m' k = blob m k)"
begin

text \<open>The disk agrees with memory on every key that is not dirty.\<close>

definition mirrored :: "(string \<Rightarrow> 'b option) \<Rightarrow> string set \<Rightarrow> 'm \<Rightarrow> bool" where
  "mirrored disk dirty m \<longleftrightarrow> (\<forall>k. k \<notin> dirty \<longrightarrow> disk k = blob m k)"

lemma mirrored_upsert:
  "mirrored disk dirty m \<Longrightarrow> good n m \<Longrightarrow> n < 2 ^ 61 \<Longrightarrow> fits x \<Longrightarrow> upsert x m = (ks, m') \<Longrightarrow> mirrored disk (set ks \<union> dirty) m' \<and> good (Suc n) m'"
  using upsert_tracks[of n m x ks m'] by (auto simp: mirrored_def)

lemma mirrored_expire:
  "mirrored disk dirty m \<Longrightarrow> good n m \<Longrightarrow> expire now ttl m = (ks, m') \<Longrightarrow> mirrored disk (set ks \<union> dirty) m' \<and> good n m'"
  using expire_tracks[of n m now ttl ks m'] by (auto simp: mirrored_def)

lemma mirrored_flush: "mirrored disk dirty m \<Longrightarrow> (\<lambda>k. if k \<in> dirty then blob m k else disk k) = blob m"
  by (auto simp: mirrored_def)

end

definition topology_upsert :: "walks \<Rightarrow> FlowStats \<times> time \<Rightarrow> topology \<Rightarrow> string list \<times> topology" where
  "topology_upsert wk x t = (case topology_fold wk (fst x) (snd x) t of ((ts, ev), t') \<Rightarrow> (ts @ ev, t'))"

type_synonym deviant_flow = "FlowStats \<times> u64 \<times> Features \<times> f64 \<times> time"

definition deviants_upsert :: "(deviants \<Rightarrow> deviants) \<Rightarrow> deviant_flow \<Rightarrow> deviants \<Rightarrow> string list \<times> deviants" where
  "deviants_upsert perm x d =
     (case x of (fs, cookie, feat, score, now) \<Rightarrow> case deviants_fold perm fs cookie feat score now d of ((key, ev), d') \<Rightarrow> (key # ev, d'))"

interpretation topo: keyed_log topology_blobForKey "topology_upsert wk" topology_reap topology_ok "\<lambda>_. walks_ok wk" for wk
proof unfold_locales
  fix n m x ks m' assume "topology_ok n m" "n < 2 ^ 61" "walks_ok wk" "topology_upsert wk x m = (ks, m')"
  then show "topology_ok (Suc n) m' \<and> (\<forall>k. k \<notin> set ks \<longrightarrow> topology_blobForKey m' k = topology_blobForKey m k)"
    using topology_fold_ok[of n m wk "fst x" "snd x"] by (auto simp: topology_upsert_def split: prod.splits)
qed (rule topology_reap_ok)

interpretation dev: keyed_log map_of "deviants_upsert perm" deviants_reap deviants_ok "\<lambda>_. enumeration perm" for perm
proof unfold_locales
  fix n m x ks m' assume "deviants_ok n m" "n < 2 ^ 61" "enumeration perm" "deviants_upsert perm x m = (ks, m')"
  then show "deviants_ok (Suc n) m' \<and> (\<forall>k. k \<notin> set ks \<longrightarrow> map_of m' k = map_of m k)"
    using deviants_fold_ok[of n m perm] by (auto simp: deviants_upsert_def split: prod.splits)
qed (rule deviants_reap_ok)

section \<open>The key of a record\<close>

lemma peakDim_agrees: "peakNoveltyDim f = (code, nov, label) \<Longrightarrow>
  code = peakDimFromNovelty (IdentityNovelty f) (AdjacencyNovelty f) (PortNovelty f) (VolumeDeviation f) (CadenceDeviation f)"
  by (auto simp: peakNoveltyDim_def peakDimFromNovelty_def Let_def)

definition record_key :: "DeviantFlowRecord \<Rightarrow> string" where
  "record_key r = CHR 0x01 # be16 (dv_Family r) @ appendAddr (dv_Family r) (dv_SrcIP r) @ appendAddr (dv_Family r) (dv_DstIP r) @ be16 (dv_DstPort r)
     @ [dim_byte (peakDimFromNovelty (dv_IdentityNovelty r) (dv_AdjacencyNovelty r) (dv_PortNovelty r) (dv_VolumeDeviation r) (dv_CadenceDeviation r))]"

definition log_keyed :: "deviants \<Rightarrow> bool" where
  "log_keyed d \<longleftrightarrow> (\<forall>k r. (k, r) \<in> set d \<longrightarrow> length (dv_SrcIP r) = 16 \<and> length (dv_DstIP r) = 16 \<and> k = record_key r)"

definition fits16 :: "FlowStats \<Rightarrow> bool" where
  "fits16 fs \<longleftrightarrow> length (fs_SrcIP fs) = 16 \<and> length (fs_DstIP fs) = 16"

lemma deviants_fold_keyed:
  assumes "log_keyed d" "deviants_ok n d" "enumeration perm" "n < 2 ^ 61" "fits16 fs" "deviants_fold perm fs cookie feat score now d = ((key, ev), d')"
  shows "log_keyed d'"
proof -
  obtain code nov label where p: "peakNoveltyDim feat = (code, nov, label)" by (metis prod_cases3)
  note code = peakDim_agrees[OF p]
  show ?thesis
  proof (cases "map_of d (deviantKey fs code)")
    case (Some r)
    then have r: "length (dv_SrcIP r) = 16" "length (dv_DstIP r) = 16" "deviantKey fs code = record_key r"
      using assms(1) by (auto simp: log_keyed_def dest: map_of_SomeD)
    from r(3) have "be16 (dv_Family r) @ appendAddr (dv_Family r) (dv_SrcIP r) @ appendAddr (dv_Family r) (dv_DstIP r) @ be16 (dv_DstPort r) =
        be16 (fs_Family fs) @ appendAddr (fs_Family fs) (fs_SrcIP fs) @ appendAddr (fs_Family fs) (fs_DstIP fs) @ be16 (fs_DstPort fs)"
      by (simp only: deviantKey_def record_key_def list.inject append_assoc[symmetric] append1_eq_conv)
    then show ?thesis using assms(1,2,6) Some p r code
      by (auto simp: deviants_fold_def Let_def log_keyed_def deviants_ok_def keyed_ok_def AList_update_mem record_key_def deviantKey_def split: if_splits)
  next
    case None
    obtain ev1 d1 where e: "deviants_evictIfFull perm d = (ev1, d1)" by fastforce
    have w: "n < 2 ^ 64 - 1" "0 < deviantCapDefault" using assms(4) by (simp_all add: deviantCapDefault_def)
    note ev = evictIfFull_ok[OF assms(2)[unfolded deviants_ok_def] assms(3) w e[unfolded deviants_evictIfFull_def]]
    have d1: "distinct (map fst d1)" using ev(1) by (simp add: keyed_ok_def)
    show ?thesis using assms(1,5,6) None e p code ev(4) d1
      by (auto simp: deviants_fold_def Let_def log_keyed_def fits16_def AList_update_mem record_key_def deviantKey_def split: if_splits)
  qed
qed

datatype deviant_op = DeviantFold deviant_flow | DeviantReap time duration

definition deviant_step :: "(deviants \<Rightarrow> deviants) \<Rightarrow> deviants \<Rightarrow> deviant_op \<Rightarrow> deviants" where
  "deviant_step perm d op = (case op of DeviantFold x \<Rightarrow> snd (deviants_upsert perm x d) | DeviantReap now ttl \<Rightarrow> snd (deviants_reap now ttl d))"

definition op_fits :: "deviant_op \<Rightarrow> bool" where
  "op_fits op = (case op of DeviantFold x \<Rightarrow> fits16 (fst x) | DeviantReap _ _ \<Rightarrow> True)"

lemma deviant_steps_ok:
  assumes "enumeration perm"
  shows "length ops < 2 ^ 61 \<Longrightarrow> \<forall>op\<in>set ops. op_fits op \<Longrightarrow>
    log_keyed (foldl (deviant_step perm) [] ops) \<and> deviants_ok (length ops) (foldl (deviant_step perm) [] ops)"
proof (induction ops rule: rev_induct)
  case Nil
  then show ?case by (simp add: log_keyed_def deviants_ok_def)
next
  case (snoc op ops)
  let ?d = "foldl (deviant_step perm) [] ops"
  have ih: "log_keyed ?d" "deviants_ok (length ops) ?d" "length ops < 2 ^ 61" using snoc by simp_all
  show ?case
  proof (cases op)
    case (DeviantFold x)
    obtain fs cookie feat score now where x: "x = (fs, cookie, feat, score, now)" by (metis prod_cases5)
    obtain key ev d' where f: "deviants_fold perm fs cookie feat score now ?d = ((key, ev), d')" by (metis prod.collapse)
    have "deviants_ok (Suc (length ops)) d'" using deviants_fold_ok[OF ih(2) assms _ f] ih(3) by simp
    moreover have "log_keyed d'" using deviants_fold_keyed[OF ih(1,2) assms ih(3) _ f] snoc.prems x DeviantFold by (simp add: op_fits_def)
    moreover have "deviant_step perm ?d op = d'" using f by (simp add: DeviantFold deviant_step_def[of perm ?d] deviants_upsert_def x)
    ultimately show ?thesis by simp
  next
    case (DeviantReap now ttl)
    obtain ks d' where r: "deviants_reap now ttl ?d = (ks, d')" by fastforce
    have "deviants_ok (Suc (length ops)) d'" using deviants_reap_ok[OF ih(2) r] keyed_ok_mono[of _ _ "length ops" d' "Suc (length ops)"] by (simp add: deviants_ok_def)
    moreover have "set d' \<subseteq> set ?d" using reap_keyed_ok(3)[OF ih(2)[unfolded deviants_ok_def] r[unfolded deviants_reap_def]] .
    moreover have "deviant_step perm ?d op = d'" using r by (simp add: DeviantReap deviant_step_def[of perm ?d])
    ultimately show ?thesis using ih(1) by (auto simp: log_keyed_def)
  qed
qed

lemma appendAddrSlice_take: "n \<le> length a \<Longrightarrow> appendAddrSlice (take n a) n = take n a"
  by (auto simp: appendAddrSlice_def intro: nth_equalityI)

text \<open>
  Property C31. The key of a deviant can be rebuilt from what the dashboard sees. However flows are folded into
  the log and however often it is reaped, for every record of a snapshot the key that the read side
  recomputes from the addresses and the five stored novelties is the key the record is stored under, byte
  for byte, so an operator's triage keeps pointing at the pattern it was made for; no two records share a
  key and there are at most 4096 of them.
\<close>

theorem deviant_key_rebuilt:
  assumes "enumeration perm" "length ops < 2 ^ 61" "\<forall>op\<in>set ops. op_fits op"
  shows "(\<forall>v\<in>set (DeviantSnapshot (Some (foldl (deviant_step perm) [] ops))). DeviantKeyHex v = vw_Key v) \<and>
    distinct (map fst (foldl (deviant_step perm) [] ops)) \<and> length (foldl (deviant_step perm) [] ops) \<le> 4096"
proof -
  note ok = deviant_steps_ok[OF assms]
  have "addrLen f \<le> 16" for f by (simp add: addrLen_def)
  then show ?thesis using ok
    by (fastforce simp: DeviantSnapshot_def DeviantKeyHex_def deviantKeyBytesFromView_def Let_def log_keyed_def record_key_def appendAddr_def
        appendAddrSlice_take deviants_ok_def keyed_ok_def deviantCapDefault_def)
qed

lemma deviant_key_rebuilt_witness:
  "map DeviantKeyHex (DeviantSnapshot (Some (foldl (deviant_step rev) [] [DeviantFold (demo_flow, 7, neutral_features\<lparr>PortNovelty := 1\<rparr>, 0, 5), DeviantReap 9 30])))
     = map vw_Key (DeviantSnapshot (Some (foldl (deviant_step rev) [] [DeviantFold (demo_flow, 7, neutral_features\<lparr>PortNovelty := 1\<rparr>, 0, 5), DeviantReap 9 30])))"
  (is "map _ (DeviantSnapshot (Some (foldl _ _ ?ops))) = _")
proof -
  have "\<forall>op\<in>set ?ops. op_fits op" by (simp add: op_fits_def fits16_def demo_flow_def)
  from deviant_key_rebuilt[OF enumeration_rev _ this] show ?thesis by (intro map_ext) simp
qed

end
