(* ===== verification/Observe.thy ===== *)
theory Observe
  imports Topology
begin

text \<open>
  The observe baseline, \<^verbatim>\<open>internal/engine/observebaseline\<close> (\<^verbatim>\<open>floor.go\<close>, \<^verbatim>\<open>exclusion.go\<close>, \<^verbatim>\<open>aggregator.go\<close>)
  and its part of \<^verbatim>\<open>internal/engine/persist\<close>: the fold loop reads the kernel's map, folds each completed
  flow once, drives the two gates of the baseline store, reaps, and writes what changed; a restart
  reads it back and trusts nothing until fresh flows confirm it. One tick is one step over the snapshot
  that the read of the map yielded; the error of a read that ends early is dropped, so a cookie the read missed and one
  that left the map are not told apart, here as in the code. Blobs are the records or garbled. Lemmas: a confirmed-malicious source
  teaches the baseline nothing, each flow is counted once, the database mirrors memory, and a scope goes
  live only on fresh evidence.
\<close>

section \<open>The data floor\<close>

record DataFloor =
  df_MinFlowsPerBucket :: nat
  df_MinIdentitiesPerBucket :: int
  df_MinDaysPerBucket :: int
  df_MinP2Samples :: int
  df_MinSufficientBuckets :: int
  df_MinCalendarDays :: int
  df_FreshnessTTL :: duration
  df_MaxCoverageGap :: duration

definition DefaultDataFloor :: DataFloor where
  "DefaultDataFloor =
     \<lparr>df_MinFlowsPerBucket = 100, df_MinIdentitiesPerBucket = 2, df_MinDaysPerBucket = 3, df_MinP2Samples = 50,
      df_MinSufficientBuckets = 4, df_MinCalendarDays = 7, df_FreshnessTTL = 15 * minute, df_MaxCoverageGap = hour\<rparr>"

definition DataFloor_Normalized :: "DataFloor \<Rightarrow> DataFloor" where
  "DataFloor_Normalized df =
     (let d = DefaultDataFloor in
      \<lparr>df_MinFlowsPerBucket = (if 0 < df_MinFlowsPerBucket df then df_MinFlowsPerBucket df else df_MinFlowsPerBucket d),
       df_MinIdentitiesPerBucket = (if 0 < df_MinIdentitiesPerBucket df then df_MinIdentitiesPerBucket df else df_MinIdentitiesPerBucket d),
       df_MinDaysPerBucket = (if 0 < df_MinDaysPerBucket df then df_MinDaysPerBucket df else df_MinDaysPerBucket d),
       df_MinP2Samples = (if 0 < df_MinP2Samples df then df_MinP2Samples df else df_MinP2Samples d),
       df_MinSufficientBuckets = (if 0 < df_MinSufficientBuckets df then df_MinSufficientBuckets df else df_MinSufficientBuckets d),
       df_MinCalendarDays = (if 0 < df_MinCalendarDays df then df_MinCalendarDays df else df_MinCalendarDays d),
       df_FreshnessTTL = (if 0 < df_FreshnessTTL df then df_FreshnessTTL df else df_FreshnessTTL d),
       df_MaxCoverageGap = (if 0 < df_MaxCoverageGap df then df_MaxCoverageGap df else df_MaxCoverageGap d)\<rparr>)"

definition MinFlowsAfterGap :: "DataFloor \<Rightarrow> nat" where
  "MinFlowsAfterGap df = (df_MinFlowsPerBucket df * nat (max 1 (df_MinSufficientBuckets df))) mod 2 ^ 64"

definition bucketSufficient :: "DataFloor \<Rightarrow> bucketAggregate \<Rightarrow> bool" where
  "bucketSufficient df a =
     (if ba_Flows a < df_MinFlowsPerBucket df then False
      else if distinctIdentities a < df_MinIdentitiesPerBucket df then False
      else if int (length (ba_Days a)) < df_MinDaysPerBucket df then False
      else p2_Ready (ba_LogBytes a) (df_MinP2Samples df) \<and> p2_Ready (ba_LogPkts a) (df_MinP2Samples df) \<and>
           p2_Ready (ba_LogIAT a) (df_MinP2Samples df) \<and> p2_Ready (ba_LogDur a) (df_MinP2Samples df))"

type_synonym bucket_map = "(string \<times> bucketAggregate) list"

definition evaluateScope :: "DataFloor \<Rightarrow> bucket_map \<Rightarrow> time \<Rightarrow> time \<Rightarrow> bool \<times> string list" where
  "evaluateScope df bs lastFold now =
     (let sufficient = map fst (filter (\<lambda>(_, a). bucketSufficient df a) bs);
          days = remdups (concat (map (\<lambda>(_, a). ba_Days a) bs))
      in if IsZero lastFold \<or> df_FreshnessTTL df < now - lastFold then (False, sufficient)
         else if int (length sufficient) < df_MinSufficientBuckets df then (False, sufficient)
         else if int (length days) < df_MinCalendarDays df then (False, sufficient)
         else (True, sufficient))"

section \<open>The database\<close>

datatype 'r stored = Decodes 'r | Garbled

type_synonym 'r nested = "(ScopeKey \<times> (string \<times> 'r stored) list) list"

record observe_DB =
  db_baseline :: "bucketAggregate nested"
  db_topology :: "topo_blob nested"
  db_deviants :: "DeviantFlowRecord nested"
  db_malicious :: "(ScopeKey \<times> u64 list) list"
  db_lastSeen :: "time stored option"

definition scope_bucket :: "(ScopeKey \<times> 'a list) list \<Rightarrow> ScopeKey \<Rightarrow> 'a list" where
  "scope_bucket tree sc = (case map_of tree sc of None \<Rightarrow> [] | Some b \<Rightarrow> b)"

text \<open>One write of a batch: a record or, as \<open>None\<close>, its deletion.\<close>

definition write_nested :: "'r nested \<Rightarrow> ScopeKey \<times> string \<times> 'r option \<Rightarrow> 'r nested" where
  "write_nested tree w =
     (case w of (sc, key, v) \<Rightarrow>
        AList.update sc (case v of None \<Rightarrow> AList.delete key (scope_bucket tree sc)
                         | Some r \<Rightarrow> AList.update key (Decodes r) (scope_bucket tree sc)) tree)"

record batch =
  bw_buckets :: "(ScopeKey \<times> string \<times> bucketAggregate option) list"
  bw_topo :: "(ScopeKey \<times> string \<times> topo_blob option) list"
  bw_deviants :: "(ScopeKey \<times> string \<times> DeviantFlowRecord option) list"

definition PutBucketsAndHeartbeat :: "bool \<Rightarrow> batch \<Rightarrow> time \<Rightarrow> observe_DB \<Rightarrow> bool \<times> observe_DB" where
  "PutBucketsAndHeartbeat fails b now db =
     (if fails \<or> list_ex (\<lambda>(sc, _). sc = []) (bw_buckets b) \<or> list_ex (\<lambda>(sc, _). sc = []) (bw_topo b) \<or> list_ex (\<lambda>(sc, _). sc = []) (bw_deviants b)
      then (False, db)
      else (True, db\<lparr>db_baseline := foldl write_nested (db_baseline db) (bw_buckets b),
                     db_topology := foldl write_nested (db_topology db) (bw_topo b),
                     db_deviants := foldl write_nested (db_deviants db) (bw_deviants b),
                     db_lastSeen := Some (Decodes now)\<rparr>))"

text \<open>The gap since the last heartbeat: an error, no heartbeat yet, or its length.\<close>

definition CoverageGap :: "observe_DB \<Rightarrow> time \<Rightarrow> unit + duration option" where
  "CoverageGap db now =
     (case db_lastSeen db of
        None \<Rightarrow> Inr None
      | Some Garbled \<Rightarrow> Inl ()
      | Some (Decodes seen) \<Rightarrow> (let gap = now - seen in Inr (Some (if gap < 0 then 0 else gap))))"

definition MarkMalicious :: "bool \<Rightarrow> ScopeKey \<Rightarrow> u64 \<Rightarrow> observe_DB \<Rightarrow> bool \<times> observe_DB" where
  "MarkMalicious fails sc h db =
     (if fails \<or> sc = [] then (False, db)
      else (True, db\<lparr>db_malicious := AList.update sc (List.insert h (scope_bucket (db_malicious db) sc)) (db_malicious db)\<rparr>))"

section \<open>The exclusion set\<close>

type_synonym MaliciousSet = "ScopeKey \<Rightarrow> u64 set"

definition MarkAddr :: "bool \<Rightarrow> MaliciousSet \<Rightarrow> observe_DB option \<Rightarrow> ScopeKey \<Rightarrow> Addr \<Rightarrow> bool \<times> MaliciousSet \<times> observe_DB option" where
  "MarkAddr fails ms db sc addr =
     (let h = hashAddrCanonical addr; ms' = ms(sc := insert h (ms sc))
      in case db of None \<Rightarrow> (True, ms', None)
         | Some d \<Rightarrow> (case MarkMalicious fails sc h d of (ok, d') \<Rightarrow> (ok, ms', Some d')))"

definition malicious_Rehydrate :: "observe_DB \<Rightarrow> MaliciousSet \<Rightarrow> ScopeKey \<Rightarrow> MaliciousSet" where
  "malicious_Rehydrate db ms sc = ms(sc := ms sc \<union> set (scope_bucket (db_malicious db) sc))"

definition excludedFlow :: "MaliciousSet \<Rightarrow> ScopeKey \<Rightarrow> FlowStats \<Rightarrow> bool" where
  "excludedFlow ms sc fs = (hashIdentity fs \<in> ms sc)"

section \<open>The aggregator\<close>

definition ephemeralPortFloor :: u16 where "ephemeralPortFloor = 32768"

text \<open>\<^verbatim>\<open>dayKey\<close>: the UTC date of a time, days counted from March 1 of year 0 as the calendar repeats every 400 years.\<close>

definition padded :: "nat \<Rightarrow> nat \<Rightarrow> string" where
  "padded w n = (let ds = nat_digits n in replicate (w - length ds) (CHR ''0'') @ ds)"

definition dayKey :: "time \<Rightarrow> string" where
  "dayKey t =
     (let z = t div (24 * hour) + 306; era = z div 146097; doe = z mod 146097;
          yoe = (doe - doe div 1460 + doe div 36524 - doe div 146096) div 365;
          doy = doe - (365 * yoe + yoe div 4 - yoe div 100); mp = (5 * doy + 2) div 153;
          d = doy - (153 * mp + 2) div 5 + 1; m = (if mp < 10 then mp + 3 else mp - 9);
          y = yoe + era * 400 + (if m \<le> 2 then 1 else 0)
      in padded 4 (nat y) @ ''-'' @ padded 2 (nat m) @ ''-'' @ padded 2 (nat d))"

record observer_Config =
  oc_Resolve :: "FlowIdentity \<Rightarrow> ScopeKey result"
  oc_Bucketer :: "time \<Rightarrow> string"
  oc_Floor :: DataFloor
  oc_TopologyTTL :: duration
  oc_DeviantTTL :: duration
  oc_Armed :: "(ScopeKey \<Rightarrow> u64 \<Rightarrow> bool) option"
  oc_ln1p :: ln1p
  oc_walks :: walks
  oc_walk_deviants :: "deviants \<Rightarrow> deviants"

text \<open>The defaults of \<^verbatim>\<open>New\<close>; a bucketer is always given.\<close>

definition observer_Config_Normalized :: "observer_Config \<Rightarrow> observer_Config" where
  "observer_Config_Normalized c =
     c\<lparr>oc_Floor := DataFloor_Normalized (oc_Floor c),
       oc_TopologyTTL := (if oc_TopologyTTL c \<le> 0 then topoTTLDefault else oc_TopologyTTL c),
       oc_DeviantTTL := (if oc_DeviantTTL c \<le> 0 then deviantTTLDefault else oc_DeviantTTL c)\<rparr>"

record liveFlow =
  lf_scope :: ScopeKey
  lf_bucket :: string
  lf_day :: string

record AggStats =
  st_CompletedFolds :: nat
  st_ExcludedFolds :: nat
  st_UnresolvedFolds :: nat
  st_RehydrateSkipped :: nat
  st_TopologyEvicted :: nat
  st_TopologyRehydrateSkipped :: nat
  st_DeviantsEvicted :: nat
  st_DeviantsRehydrateSkipped :: nat
  st_DeviantsSkippedNotLive :: nat
  st_TopologyEphemeralSkipped :: nat

text \<open>The dirty sets list the keys to write; the gates are those of the baseline store the aggregator drives.\<close>

record observer =
  ag_aggregates :: "(ScopeKey \<times> bucket_map) list"
  ag_live :: "(u64 \<times> liveFlow) list"
  ag_folded :: "u64 set"
  ag_scopeLive :: "ScopeKey \<Rightarrow> bool"
  ag_lastFold :: "ScopeKey \<Rightarrow> time"
  ag_freshFolds :: "ScopeKey \<Rightarrow> nat"
  ag_recoveryQuorum :: "ScopeKey \<Rightarrow> nat"
  ag_dirty :: "(ScopeKey \<times> string) list"
  ag_topology :: "(ScopeKey \<times> topology) list"
  ag_dirtyTopo :: "(ScopeKey \<times> string) list"
  ag_deviants :: "(ScopeKey \<times> deviants) list"
  ag_dirtyDeviants :: "(ScopeKey \<times> string) list"
  ag_stats :: AggStats
  ag_excluder :: "MaliciousSet option"
  ag_gates :: baseline_Store

definition zero_stats :: AggStats where
  "zero_stats = \<lparr>st_CompletedFolds = 0, st_ExcludedFolds = 0, st_UnresolvedFolds = 0, st_RehydrateSkipped = 0, st_TopologyEvicted = 0,
     st_TopologyRehydrateSkipped = 0, st_DeviantsEvicted = 0, st_DeviantsRehydrateSkipped = 0, st_DeviantsSkippedNotLive = 0, st_TopologyEphemeralSkipped = 0\<rparr>"

definition observer_New :: "MaliciousSet option \<Rightarrow> baseline_Store \<Rightarrow> observer" where
  "observer_New ex gates =
     \<lparr>ag_aggregates = [], ag_live = [], ag_folded = {}, ag_scopeLive = (\<lambda>_. False), ag_lastFold = (\<lambda>_. 0), ag_freshFolds = (\<lambda>_. 0),
      ag_recoveryQuorum = (\<lambda>_. 0), ag_dirty = [], ag_topology = [], ag_dirtyTopo = [], ag_deviants = [], ag_dirtyDeviants = [],
      ag_stats = zero_stats, ag_excluder = ex, ag_gates = gates\<rparr>"

definition mark :: "ScopeKey \<Rightarrow> string list \<Rightarrow> (ScopeKey \<times> string) list \<Rightarrow> (ScopeKey \<times> string) list" where
  "mark sc ks dirty = foldl (\<lambda>d k. List.insert (sc, k) d) dirty ks"

definition get_or :: "'v \<Rightarrow> (ScopeKey \<times> 'v) list \<Rightarrow> ScopeKey \<Rightarrow> 'v" where
  "get_or dflt m sc = (case map_of m sc of None \<Rightarrow> dflt | Some v \<Rightarrow> v)"

definition captureDeviant :: "observer_Config \<Rightarrow> liveFlow \<Rightarrow> u64 \<Rightarrow> FlowStats \<Rightarrow> time \<Rightarrow> observer \<Rightarrow> observer" where
  "captureDeviant cfg lf cookie fs now a =
     (let sc = lf_scope lf in
      if (case oc_Armed cfg of None \<Rightarrow> False | Some armed \<Rightarrow> armed sc cookie) then a
      else if \<not> ag_scopeLive a sc then a\<lparr>ag_stats := (ag_stats a)\<lparr>st_DeviantsSkippedNotLive := st_DeviantsSkippedNotLive (ag_stats a) + 1\<rparr>\<rparr>
      else case map_of (ag_aggregates a) sc of
        None \<Rightarrow> a
      | Some bs \<Rightarrow>
          (case map_of bs (lf_bucket lf) of
             None \<Rightarrow> a
           | Some agg \<Rightarrow>
               if \<not> bucketSufficient (oc_Floor cfg) agg then a
               else (let feat = deriveFeatures (oc_ln1p cfg) agg fs (df_MinP2Samples (oc_Floor cfg))
                     in if fst (snd (peakNoveltyDim feat)) < deviantFloor then a
                        else case deviants_fold (oc_walk_deviants cfg) fs cookie feat 0 now (get_or [] (ag_deviants a) sc) of
                               ((touched, evicted), dv) \<Rightarrow>
                                 a\<lparr>ag_deviants := AList.update sc dv (ag_deviants a),
                                   ag_dirtyDeviants := mark sc (touched # evicted) (ag_dirtyDeviants a),
                                   ag_stats := (ag_stats a)\<lparr>st_DeviantsEvicted := st_DeviantsEvicted (ag_stats a) + length evicted\<rparr>\<rparr>)))"

text \<open>The three parts of a fold: the bucket, the graph (the forward half only), the deviant log.\<close>

definition fold_bucket :: "observer_Config \<Rightarrow> liveFlow \<Rightarrow> FlowStats \<Rightarrow> observer \<Rightarrow> observer" where
  "fold_bucket cfg lf fs a =
     (let sc = lf_scope lf; bs = get_or [] (ag_aggregates a) sc;
          agg = (case map_of bs (lf_bucket lf) of None \<Rightarrow> newBucketAggregate | Some g \<Rightarrow> g)
      in a\<lparr>ag_aggregates := AList.update sc (AList.update (lf_bucket lf) (foldFlow (oc_ln1p cfg) (wk_freq (oc_walks cfg)) fs (lf_day lf) agg) bs) (ag_aggregates a),
           ag_dirty := mark sc [lf_bucket lf] (ag_dirty a)\<rparr>)"

definition fold_topology :: "observer_Config \<Rightarrow> liveFlow \<Rightarrow> FlowStats \<Rightarrow> time \<Rightarrow> observer \<Rightarrow> observer" where
  "fold_topology cfg lf fs now a =
     (if fs_DstPort fs < ephemeralPortFloor then
        (case topology_fold (oc_walks cfg) fs now (get_or newTopology (ag_topology a) (lf_scope lf)) of
           ((touched, evicted), t) \<Rightarrow>
             a\<lparr>ag_topology := AList.update (lf_scope lf) t (ag_topology a),
               ag_dirtyTopo := mark (lf_scope lf) (touched @ evicted) (ag_dirtyTopo a),
               ag_stats := (ag_stats a)\<lparr>st_TopologyEvicted := st_TopologyEvicted (ag_stats a) + length evicted\<rparr>\<rparr>)
      else a\<lparr>ag_stats := (ag_stats a)\<lparr>st_TopologyEphemeralSkipped := st_TopologyEphemeralSkipped (ag_stats a) + 1\<rparr>\<rparr>)"

definition count_fold :: "ScopeKey \<Rightarrow> time \<Rightarrow> observer \<Rightarrow> observer" where
  "count_fold sc now a =
     a\<lparr>ag_lastFold := (ag_lastFold a)(sc := now), ag_freshFolds := (ag_freshFolds a)(sc := ag_freshFolds a sc + 1),
       ag_stats := (ag_stats a)\<lparr>st_CompletedFolds := st_CompletedFolds (ag_stats a) + 1\<rparr>\<rparr>"

definition foldCompleted :: "observer_Config \<Rightarrow> liveFlow \<Rightarrow> u64 \<Rightarrow> FlowStats \<Rightarrow> time \<Rightarrow> observer \<Rightarrow> observer" where
  "foldCompleted cfg lf cookie fs now a =
     (if (case ag_excluder a of None \<Rightarrow> False | Some ms \<Rightarrow> excludedFlow ms (lf_scope lf) fs)
      then a\<lparr>ag_stats := (ag_stats a)\<lparr>st_ExcludedFolds := st_ExcludedFolds (ag_stats a) + 1\<rparr>\<rparr>
      else count_fold (lf_scope lf) now (captureDeviant cfg lf cookie fs now (fold_topology cfg lf fs now (fold_bucket cfg lf fs a))))"

text \<open>The callback of one map entry.\<close>

definition fold_entry :: "observer_Config \<Rightarrow> time \<Rightarrow> observer \<Rightarrow> u64 \<times> FlowStats \<Rightarrow> observer" where
  "fold_entry cfg now a e =
     (case e of (cookie, fs) \<Rightarrow>
        if cookie = 0 then a
        else if cookie \<in> ag_folded a then a
        else
          (let complete = (\<lambda>lf a. if fs_Closed fs \<noteq> 0
                 then (foldCompleted cfg lf cookie fs now a)\<lparr>ag_folded := insert cookie (ag_folded a), ag_live := AList.delete cookie (ag_live a)\<rparr>
                 else a)
           in case map_of (ag_live a) cookie of
                Some lf \<Rightarrow> complete lf a
              | None \<Rightarrow>
                  (case oc_Resolve cfg (cookie_flow cookie) of
                     Inl _ \<Rightarrow> a\<lparr>ag_stats := (ag_stats a)\<lparr>st_UnresolvedFolds := st_UnresolvedFolds (ag_stats a) + 1\<rparr>\<rparr>
                   | Inr sc \<Rightarrow>
                       (let lf = \<lparr>lf_scope = sc, lf_bucket = oc_Bucketer cfg now, lf_day = dayKey now\<rparr>
                        in complete lf (a\<lparr>ag_live := AList.update cookie lf (ag_live a)\<rparr>)))))"

definition prune :: "u64 set \<Rightarrow> observer \<Rightarrow> observer" where
  "prune seen a = a\<lparr>ag_live := filter (\<lambda>(c, _). c \<in> seen) (ag_live a), ag_folded := ag_folded a \<inter> seen\<rparr>"

definition set_gates :: "observer_Config \<Rightarrow> time \<Rightarrow> observer \<Rightarrow> ScopeKey \<times> bucket_map \<Rightarrow> observer" where
  "set_gates cfg now a e =
     (case e of (sc, bs) \<Rightarrow> case evaluateScope (oc_Floor cfg) bs (ag_lastFold a sc) now of
        (lv0, sufficient) \<Rightarrow>
          (let q = ag_recoveryQuorum a sc;
               lv = (if 0 < q \<and> ag_freshFolds a sc < q then False else lv0);
               quorum = (if 0 < q \<and> \<not> ag_freshFolds a sc < q then (ag_recoveryQuorum a)(sc := 0) else ag_recoveryQuorum a);
               gates = foldl (\<lambda>g (k, _). SetBucketSufficient g sc k (k \<in> set sufficient)) (ag_gates a) bs
           in a\<lparr>ag_recoveryQuorum := quorum, ag_gates := SetLive gates sc lv, ag_scopeLive := (ag_scopeLive a)(sc := lv)\<rparr>))"

definition reap_topologies :: "observer_Config \<Rightarrow> time \<Rightarrow> observer \<Rightarrow> ScopeKey \<times> topology \<Rightarrow> observer" where
  "reap_topologies cfg now a e =
     (case e of (sc, t) \<Rightarrow> case topology_reap now (oc_TopologyTTL cfg) t of
        (ks, t') \<Rightarrow> a\<lparr>ag_topology := AList.update sc t' (ag_topology a), ag_dirtyTopo := mark sc ks (ag_dirtyTopo a),
                      ag_stats := (ag_stats a)\<lparr>st_TopologyEvicted := st_TopologyEvicted (ag_stats a) + length ks\<rparr>\<rparr>)"

definition reap_deviants :: "observer_Config \<Rightarrow> time \<Rightarrow> observer \<Rightarrow> ScopeKey \<times> deviants \<Rightarrow> observer" where
  "reap_deviants cfg now a e =
     (case e of (sc, d) \<Rightarrow> case deviants_reap now (oc_DeviantTTL cfg) d of
        (ks, d') \<Rightarrow> a\<lparr>ag_deviants := AList.update sc d' (ag_deviants a), ag_dirtyDeviants := mark sc ks (ag_dirtyDeviants a),
                      ag_stats := (ag_stats a)\<lparr>st_DeviantsEvicted := st_DeviantsEvicted (ag_stats a) + length ks\<rparr>\<rparr>)"

text \<open>What memory holds under a key, and the batch that brings the database up to date.\<close>

definition bucket_mem :: "observer \<Rightarrow> ScopeKey \<Rightarrow> string \<Rightarrow> bucketAggregate option" where
  "bucket_mem a sc k = map_of (get_or [] (ag_aggregates a) sc) k"

definition topo_mem :: "observer \<Rightarrow> ScopeKey \<Rightarrow> string \<Rightarrow> topo_blob option" where
  "topo_mem a sc k = topology_blobForKey (get_or newTopology (ag_topology a) sc) k"

definition deviant_mem :: "observer \<Rightarrow> ScopeKey \<Rightarrow> string \<Rightarrow> DeviantFlowRecord option" where
  "deviant_mem a sc k = map_of (get_or [] (ag_deviants a) sc) k"

definition take_batch :: "observer \<Rightarrow> observer \<times> batch" where
  "take_batch a =
     (a\<lparr>ag_dirty := [], ag_dirtyTopo := [], ag_dirtyDeviants := []\<rparr>,
      \<lparr>bw_buckets = filter (\<lambda>(_, _, v). v \<noteq> None) (map (\<lambda>(sc, k). (sc, k, bucket_mem a sc k)) (ag_dirty a)),
       bw_topo = map (\<lambda>(sc, k). (sc, k, topo_mem a sc k)) (ag_dirtyTopo a),
       bw_deviants = map (\<lambda>(sc, k). (sc, k, deviant_mem a sc k)) (ag_dirtyDeviants a)\<rparr>)"

type_synonym snapshot = "(u64 \<times> FlowStats) list"

definition seen_in :: "snapshot \<Rightarrow> u64 set" where
  "seen_in snap = set (filter (\<lambda>c. c \<noteq> 0) (map fst snap))"

definition fold_memory :: "observer_Config \<Rightarrow> time \<Rightarrow> snapshot \<Rightarrow> observer \<Rightarrow> observer" where
  "fold_memory cfg now snap a =
     (let a1 = prune (seen_in snap) (foldl (fold_entry cfg now) a snap);
          a2 = foldl (set_gates cfg now) a1 (ag_aggregates a1);
          a3 = foldl (reap_topologies cfg now) a2 (ag_topology a2)
      in foldl (reap_deviants cfg now) a3 (ag_deviants a3))"

definition foldLocked :: "observer_Config \<Rightarrow> time \<Rightarrow> snapshot \<Rightarrow> observer \<Rightarrow> observer \<times> batch" where
  "foldLocked cfg now snap a = take_batch (fold_memory cfg now snap a)"

text \<open>One tick; the write may fail, its error is dropped.\<close>

definition foldOnce :: "observer_Config \<Rightarrow> bool \<Rightarrow> time \<Rightarrow> snapshot \<Rightarrow> observer \<times> observe_DB option \<Rightarrow> observer \<times> observe_DB option" where
  "foldOnce cfg fails now snap s =
     (case foldLocked cfg now snap (fst s) of (a, b) \<Rightarrow>
        (a, map_option (\<lambda>db. snd (PutBucketsAndHeartbeat fails b now db)) (snd s)))"

section \<open>Restart and reading\<close>

text \<open>Decoding one scope: what decodes, and how many do not.\<close>

definition decoded_records :: "(string \<times> 'r stored) list \<Rightarrow> (string \<times> 'r) list" where
  "decoded_records kvs = List.map_filter (\<lambda>(k, v). case v of Garbled \<Rightarrow> None | Decodes r \<Rightarrow> Some (k, r)) kvs"

definition garbled :: "(string \<times> 'r stored) list \<Rightarrow> nat" where
  "garbled kvs = length (filter (\<lambda>(_, v). case v of Garbled \<Rightarrow> True | _ \<Rightarrow> False) kvs)"

definition rehydrate_scope :: "observer_Config \<Rightarrow> bool \<Rightarrow> observer \<Rightarrow> ScopeKey \<times> (string \<times> bucketAggregate stored) list \<Rightarrow> observer" where
  "rehydrate_scope cfg largeGap a e =
     (case e of (sc, kvs) \<Rightarrow>
        a\<lparr>ag_aggregates := AList.update sc (decoded_records kvs) (ag_aggregates a),
          ag_lastFold := (ag_lastFold a)(sc := 0),
          ag_gates := SetLive (ag_gates a) sc False,
          ag_scopeLive := (ag_scopeLive a)(sc := False),
          ag_recoveryQuorum := (if largeGap then (ag_recoveryQuorum a)(sc := ag_freshFolds a sc + MinFlowsAfterGap (oc_Floor cfg)) else ag_recoveryQuorum a),
          ag_stats := (ag_stats a)\<lparr>st_RehydrateSkipped := st_RehydrateSkipped (ag_stats a) + garbled kvs\<rparr>\<rparr>)"

text \<open>The kind byte of a key selects the decoder; a record of the other kind does not decode.\<close>

definition rehydrate_topology :: "observer \<Rightarrow> ScopeKey \<times> (string \<times> topo_blob stored) list \<Rightarrow> observer" where
  "rehydrate_topology a e =
     (case e of (sc, kvs) \<Rightarrow>
        let edges = filter (\<lambda>(k, _). k \<noteq> [] \<and> hd k = CHR 0x01) kvs; nodes = filter (\<lambda>(k, _). k \<noteq> [] \<and> hd k = CHR 0x02) kvs;
            es = List.map_filter (\<lambda>(k, v). case v of Decodes (EdgeBlob r) \<Rightarrow> Some (k, r) | _ \<Rightarrow> None) edges;
            ns = List.map_filter (\<lambda>(k, v). case v of Decodes (NodeBlob r) \<Rightarrow> Some (k, r) | _ \<Rightarrow> None) nodes
        in a\<lparr>ag_topology := AList.update sc \<lparr>tp_edges = es, tp_nodes = ns\<rparr> (ag_topology a),
             ag_stats := (ag_stats a)\<lparr>st_TopologyRehydrateSkipped := st_TopologyRehydrateSkipped (ag_stats a) + (length edges - length es) + (length nodes - length ns)\<rparr>\<rparr>)"

definition rehydrate_deviants :: "observer \<Rightarrow> ScopeKey \<times> (string \<times> DeviantFlowRecord stored) list \<Rightarrow> observer" where
  "rehydrate_deviants a e =
     (case e of (sc, kvs0) \<Rightarrow>
        let kvs = filter (\<lambda>(k, _). k \<noteq> []) kvs0
        in a\<lparr>ag_deviants := AList.update sc (decoded_records kvs) (ag_deviants a),
             ag_stats := (ag_stats a)\<lparr>st_DeviantsRehydrateSkipped := st_DeviantsRehydrateSkipped (ag_stats a) + garbled kvs\<rparr>\<rparr>)"

definition large_gap :: "observer_Config \<Rightarrow> observe_DB \<Rightarrow> time \<Rightarrow> bool" where
  "large_gap cfg db now = (case CoverageGap db now of Inl _ \<Rightarrow> True | Inr None \<Rightarrow> False | Inr (Some gap) \<Rightarrow> df_MaxCoverageGap (oc_Floor cfg) < gap)"

definition Rehydrate :: "observer_Config \<Rightarrow> time \<Rightarrow> observe_DB option \<Rightarrow> observer \<Rightarrow> observer" where
  "Rehydrate cfg now db a =
     (case db of
        None \<Rightarrow> a
      | Some d \<Rightarrow>
          (let a1 = foldl (rehydrate_scope cfg (large_gap cfg d now)) a (db_baseline d);
               a2 = a1\<lparr>ag_excluder := map_option (\<lambda>ms. foldl (malicious_Rehydrate d) ms (map fst (db_malicious d))) (ag_excluder a1)\<rparr>;
               a3 = foldl rehydrate_topology a2 (db_topology d)
           in foldl rehydrate_deviants a3 (db_deviants d)))"

text \<open>The reader of the kernel's map: an error, no entry, or the statistics.\<close>

type_synonym stats_reader = "u64 \<Rightarrow> FlowStats option result"

definition observer_Features :: "observer_Config \<Rightarrow> stats_reader \<Rightarrow> observer \<Rightarrow> FeatureSource" where
  "observer_Features cfg rd a sc flow t =
     (if SocketCookie flow = 0 then (neutral_features, False)
      else case rd (SocketCookie flow) of
        Inl _ \<Rightarrow> (neutral_features, False)
      | Inr None \<Rightarrow> (neutral_features, False)
      | Inr (Some fs) \<Rightarrow>
          (case map_of (ag_aggregates a) sc of
             None \<Rightarrow> (neutral_features, False)
           | Some bs \<Rightarrow>
               (case map_of bs (oc_Bucketer cfg t) of
                  None \<Rightarrow> (neutral_features, False)
                | Some agg \<Rightarrow> (deriveFeatures (oc_ln1p cfg) agg fs (df_MinP2Samples (oc_Floor cfg)), True))))"

record LiveFlowView =
  lv_Cookie :: u64
  lv_Scope :: ScopeKey
  lv_IngressBytes :: u64
  lv_EgressBytes :: u64
  lv_DurationSec :: f64
  lv_Features :: "f64 list"

definition flowDurationSec :: "FlowStats \<Rightarrow> f64" where
  "flowDurationSec fs =
     (if fs_LastSeenNs fs \<le> fs_FirstSeenNs fs then 0 else fdiv (f64_of_u64 (fs_LastSeenNs fs - fs_FirstSeenNs fs)) (lit (10 ^ 9)))"

definition LiveFlows :: "observer_Config \<Rightarrow> stats_reader \<Rightarrow> observer \<Rightarrow> time \<Rightarrow> LiveFlowView list" where
  "LiveFlows cfg rd a t =
     List.map_filter (\<lambda>(cookie, lf). case rd cookie of
        Inr (Some fs) \<Rightarrow>
          if fs_Closed fs \<noteq> 0 then None
          else (let feat = fst (observer_Features cfg rd a (lf_scope lf) (cookie_flow cookie) t)
                in Some \<lparr>lv_Cookie = cookie, lv_Scope = lf_scope lf, lv_IngressBytes = fs_IngressBytes fs, lv_EgressBytes = fs_EgressBytes fs,
                         lv_DurationSec = flowDurationSec fs,
                         lv_Features = [AdjacencyNovelty feat, IdentityNovelty feat, VolumeDeviation feat, CadenceDeviation feat]\<rparr>)
      | _ \<Rightarrow> None) (ag_live a)"

text \<open>A run: ticks from a start, each with whether its write failed, its time and the snapshot it read.\<close>

type_synonym tick = "bool \<times> time \<times> snapshot"

definition run_ticks :: "observer_Config \<Rightarrow> tick list \<Rightarrow> observer \<times> observe_DB option \<Rightarrow> observer \<times> observe_DB option" where
  "run_ticks cfg ticks s = foldl (\<lambda>s (fails, now, snap). foldOnce cfg fails now snap s) s ticks"

definition memory_after :: "observer_Config \<Rightarrow> tick list \<Rightarrow> observer \<Rightarrow> observer" where
  "memory_after cfg ticks a = foldl (\<lambda>a (_, now, snap). fst (foldLocked cfg now snap a)) a ticks"

lemma run_ticks_memory: "fst (run_ticks cfg ticks s) = memory_after cfg ticks (fst s)"
proof (induction ticks arbitrary: s)
  case (Cons x ticks)
  then show ?case by (cases x) (simp add: run_ticks_def memory_after_def foldOnce_def split: prod.split)
qed (simp add: run_ticks_def memory_after_def)

lemma dayKey_dates:
  "dayKey 0 = ''0001-01-01''" "dayKey (62135596800 * second) = ''1970-01-01''" "dayKey (63087379200 * second) = ''2000-02-29''"
  by code_simp+

end
