(* ===== verification/Learning.thy ===== *)
theory Learning
  imports Observe
begin

text \<open>
  What the observe baseline learns, and from whom: the properties of the fold loop of
  \<^verbatim>\<open>internal/engine/observebaseline/aggregator.go\<close> over whole runs, from a restart on. Each ended flow is
  counted once while the kernel's map is read in full; the flows of a confirmed-malicious source change
  nothing that was learned; and the gate of a scope opens on the floor, on flows of this process and, after
  a gap in coverage, on a quorum of them. The first is an account of the ended cookies, the second a
  simulation between two runs, the third an invariant of the gates.
\<close>


section \<open>Each flow is folded once\<close>

definition closings :: "observer \<Rightarrow> nat" where
  "closings a = st_CompletedFolds (ag_stats a) + st_ExcludedFolds (ag_stats a)"

definition flow_book :: "observer \<Rightarrow> u64 set \<times> (u64 \<times> liveFlow) list \<times> MaliciousSet option \<times> baseline_Store" where
  "flow_book a = (ag_folded a, ag_live a, ag_excluder a, ag_gates a)"

lemma fold_bucket_book: "flow_book (fold_bucket cfg lf fs a) = flow_book a \<and> closings (fold_bucket cfg lf fs a) = closings a"
  by (simp add: fold_bucket_def flow_book_def closings_def Let_def)

lemma fold_topology_book: "flow_book (fold_topology cfg lf fs now a) = flow_book a \<and> closings (fold_topology cfg lf fs now a) = closings a"
  by (simp add: fold_topology_def flow_book_def closings_def split: prod.split)

lemma captureDeviant_book: "flow_book (captureDeviant cfg lf c fs now a) = flow_book a \<and> closings (captureDeviant cfg lf c fs now a) = closings a"
  by (simp add: captureDeviant_def flow_book_def closings_def Let_def split: prod.split option.split)

lemma foldCompleted_book: "flow_book (foldCompleted cfg lf c fs now a) = flow_book a"
  using fold_bucket_book[of cfg lf fs a] fold_topology_book[of cfg lf fs now] captureDeviant_book[of cfg lf c fs now]
  by (simp add: foldCompleted_def count_fold_def flow_book_def split: option.split)

lemma foldCompleted_frame [simp]:
  "ag_folded (foldCompleted cfg lf c fs now a) = ag_folded a" "ag_live (foldCompleted cfg lf c fs now a) = ag_live a"
  "ag_excluder (foldCompleted cfg lf c fs now a) = ag_excluder a" "ag_gates (foldCompleted cfg lf c fs now a) = ag_gates a"
  using foldCompleted_book[of cfg lf c fs now a] by (simp_all add: flow_book_def)

lemma foldCompleted_closings: "closings (foldCompleted cfg lf c fs now a) = Suc (closings a)"
proof -
  have "closings (captureDeviant cfg lf c fs now (fold_topology cfg lf fs now (fold_bucket cfg lf fs a))) = closings a"
    by (simp add: captureDeviant_book fold_topology_book fold_bucket_book)
  then show ?thesis by (simp add: foldCompleted_def count_fold_def closings_def split: option.split)
qed

definition resolvable :: "observer_Config \<Rightarrow> u64 \<Rightarrow> bool" where
  "resolvable cfg c = (case oc_Resolve cfg (cookie_flow c) of Inl _ \<Rightarrow> False | Inr _ \<Rightarrow> True)"

text \<open>The attributed flows that a snapshot shows as ended.\<close>

definition ended_in :: "observer_Config \<Rightarrow> snapshot \<Rightarrow> u64 set" where
  "ended_in cfg snap = fst ` {(c, fs) \<in> set snap. c \<noteq> 0 \<and> fs_Closed fs \<noteq> 0 \<and> resolvable cfg c}"

definition attributed :: "observer_Config \<Rightarrow> observer \<Rightarrow> bool" where
  "attributed cfg a \<longleftrightarrow> finite (ag_folded a) \<and> (\<forall>c lf. map_of (ag_live a) c = Some lf \<longrightarrow> oc_Resolve cfg (cookie_flow c) = Inr (lf_scope lf))"

lemma ended_in_simps:
  "ended_in cfg [] = {}"
  "ended_in cfg ((c, fs) # snap) = (if c \<noteq> 0 \<and> fs_Closed fs \<noteq> 0 \<and> resolvable cfg c then insert c (ended_in cfg snap) else ended_in cfg snap)"
  by (force simp: ended_in_def)+

lemma fold_entry_once:
  assumes "attributed cfg a"
  shows "attributed cfg (fold_entry cfg now a e) \<and> ag_folded (fold_entry cfg now a e) = ag_folded a \<union> ended_in cfg [e] \<and>
    closings (fold_entry cfg now a e) = closings a + card (ended_in cfg [e] - ag_folded a)"
proof -
  obtain c fs where e: "e = (c, fs)" by (cases e)
  consider "c = 0" | "c \<noteq> 0" "c \<in> ag_folded a" | lf where "c \<noteq> 0" "c \<notin> ag_folded a" "map_of (ag_live a) c = Some lf"
    | err where "c \<noteq> 0" "c \<notin> ag_folded a" "map_of (ag_live a) c = None" "oc_Resolve cfg (cookie_flow c) = Inl err"
    | sc where "c \<noteq> 0" "c \<notin> ag_folded a" "map_of (ag_live a) c = None" "oc_Resolve cfg (cookie_flow c) = Inr sc"
    by (metis not_Some_eq sum.exhaust_sel)
  then show ?thesis
  proof cases
    case (3 lf)
    then have "resolvable cfg c" using assms by (auto simp: attributed_def resolvable_def)
    then show ?thesis using assms 3 by (auto simp: insert_Diff_if ended_in_simps e fold_entry_def attributed_def AList.delete_conv' foldCompleted_closings[unfolded closings_def] closings_def)
  next
    case (4 err)
    then show ?thesis using assms by (auto simp: ended_in_simps e fold_entry_def attributed_def resolvable_def closings_def)
  next
    case (5 sc)
    then have "resolvable cfg c" by (simp add: resolvable_def)
    then show ?thesis using assms 5
      by (auto simp: insert_Diff_if ended_in_simps e fold_entry_def attributed_def AList.delete_conv' AList.update_conv' foldCompleted_closings[unfolded closings_def] closings_def Let_def)
  qed (use assms in \<open>auto simp: ended_in_simps e fold_entry_def\<close>)
qed

lemma ended_in_Cons: "ended_in cfg (e # snap) = ended_in cfg [e] \<union> ended_in cfg snap"
  by (auto simp: ended_in_def)

lemma ended_in_finite: "finite (ended_in cfg snap)"
proof -
  have "ended_in cfg snap \<subseteq> fst ` set snap" by (auto simp: ended_in_def)
  then show ?thesis by (rule finite_subset) simp
qed

lemma fold_snapshot_once:
  assumes "attributed cfg a"
  shows "attributed cfg (foldl (fold_entry cfg now) a snap) \<and> ag_folded (foldl (fold_entry cfg now) a snap) = ag_folded a \<union> ended_in cfg snap \<and>
    closings (foldl (fold_entry cfg now) a snap) = closings a + card (ended_in cfg snap - ag_folded a)"
  using assms
proof (induction snap arbitrary: a)
  case Nil
  then show ?case by (simp add: ended_in_def)
next
  case (Cons e snap)
  let ?a = "fold_entry cfg now a e"
  note 1 = fold_entry_once[OF Cons.prems, of now e]
  note 2 = Cons.IH[OF conjunct1[OF 1]]
  have "card (ended_in cfg (e # snap) - ag_folded a) = card (ended_in cfg [e] - ag_folded a) + card (ended_in cfg snap - ag_folded ?a)"
  proof -
    have "ended_in cfg (e # snap) - ag_folded a = (ended_in cfg [e] - ag_folded a) \<union> (ended_in cfg snap - ag_folded ?a)"
      using 1 by (auto simp: ended_in_Cons[of cfg e snap])
    then show ?thesis using 1 by (simp add: ended_in_finite) (rule card_Un_disjoint, auto simp: ended_in_finite)
  qed
  with 1 2 show ?case by (auto simp: ended_in_Cons[of cfg e snap])
qed

text \<open>The rest of a tick leaves the bookkeeping of flows alone.\<close>

lemma foldl_frame: "(\<And>a x. x \<in> set xs \<Longrightarrow> f (g a x) = f a) \<Longrightarrow> f (foldl g a xs) = f a"
  by (induction xs arbitrary: a) auto

lemma set_gates_frame:
  "ag_folded (set_gates cfg now a e) = ag_folded a" "ag_live (set_gates cfg now a e) = ag_live a" "closings (set_gates cfg now a e) = closings a"
  "ag_topology (set_gates cfg now a e) = ag_topology a" "ag_deviants (set_gates cfg now a e) = ag_deviants a" "ag_aggregates (set_gates cfg now a e) = ag_aggregates a"
  "ag_dirty (set_gates cfg now a e) = ag_dirty a" "ag_dirtyTopo (set_gates cfg now a e) = ag_dirtyTopo a" "ag_dirtyDeviants (set_gates cfg now a e) = ag_dirtyDeviants a"
  "ag_lastFold (set_gates cfg now a e) = ag_lastFold a" "ag_freshFolds (set_gates cfg now a e) = ag_freshFolds a"
  by (simp_all add: set_gates_def closings_def Let_def split: prod.split)

lemma reap_frame:
  "ag_folded (reap_topologies cfg now a t) = ag_folded a" "ag_live (reap_topologies cfg now a t) = ag_live a" "closings (reap_topologies cfg now a t) = closings a"
  "ag_folded (reap_deviants cfg now a d) = ag_folded a" "ag_live (reap_deviants cfg now a d) = ag_live a" "closings (reap_deviants cfg now a d) = closings a"
  by (simp_all add: reap_topologies_def reap_deviants_def closings_def split: prod.split)

lemma fold_memory_flows:
  fixes snap a cfg now defines "b \<equiv> foldl (fold_entry cfg now) a snap"
  shows "ag_folded (fold_memory cfg now snap a) = ag_folded b \<inter> seen_in snap" "closings (fold_memory cfg now snap a) = closings b"
    "ag_live (fold_memory cfg now snap a) = filter (\<lambda>(c, _). c \<in> seen_in snap) (ag_live b)"
  by (simp_all add: fold_memory_def Let_def b_def[symmetric] foldl_frame[of _ ag_folded] foldl_frame[of _ ag_live] foldl_frame[of _ closings] set_gates_frame reap_frame)
    (simp_all add: prune_def closings_def)

definition untouched :: "observer \<Rightarrow> u64 set \<times> (u64 \<times> liveFlow) list \<times> nat \<times> (ScopeKey \<Rightarrow> nat) \<times> (ScopeKey \<times> string) list \<times> (ScopeKey \<times> string) list \<times> (ScopeKey \<times> string) list" where
  "untouched a = (ag_folded a, ag_live a, closings a, ag_freshFolds a, ag_dirty a, ag_dirtyTopo a, ag_dirtyDeviants a)"

lemma rehydrate_steps:
  "untouched (rehydrate_scope cfg l a e) = untouched a" "untouched (rehydrate_topology a et) = untouched a" "untouched (rehydrate_deviants a ed) = untouched a"
  by (simp_all add: untouched_def closings_def rehydrate_scope_def rehydrate_topology_def rehydrate_deviants_def Let_def split: prod.split)

lemma rehydrate_untouched: "untouched (Rehydrate cfg t db a) = untouched a"
proof (cases db)
  case (Some d)
  have x: "untouched (b\<lparr>ag_excluder := e\<rparr>) = untouched b" for b e by (simp add: untouched_def closings_def)
  show ?thesis by (simp add: Some Rehydrate_def Let_def foldl_frame[where f = untouched] rehydrate_steps x)
qed (simp add: Rehydrate_def)

lemma memory_after_snoc: "memory_after cfg (ticks @ [(f, now, snap)]) a = fst (foldLocked cfg now snap (memory_after cfg ticks a))"
  by (simp add: memory_after_def)

lemma fst_foldLocked:
  "ag_folded (fst (foldLocked cfg now snap a)) = ag_folded (fold_memory cfg now snap a)" "ag_live (fst (foldLocked cfg now snap a)) = ag_live (fold_memory cfg now snap a)"
  "closings (fst (foldLocked cfg now snap a)) = closings (fold_memory cfg now snap a)"
  by (simp_all add: foldLocked_def take_batch_def closings_def)

text \<open>A cookie that left the map does not come back: the kernel gives each socket its own.\<close>

definition snapshot_of :: "tick \<Rightarrow> snapshot" where "snapshot_of t = snd (snd t)"

definition unbroken :: "tick list \<Rightarrow> bool" where
  "unbroken ticks \<longleftrightarrow> (\<forall>k < length ticks. \<forall>j < k. \<forall>i < j.
     seen_in (snapshot_of (ticks ! i)) \<inter> seen_in (snapshot_of (ticks ! k)) \<subseteq> seen_in (snapshot_of (ticks ! j)))"

definition all_ended :: "observer_Config \<Rightarrow> tick list \<Rightarrow> u64 set" where
  "all_ended cfg ticks = (\<Union>t\<in>set ticks. ended_in cfg (snapshot_of t))"

lemma ended_seen: "ended_in cfg snap \<subseteq> seen_in snap"
  by (force simp: ended_in_def seen_in_def)

lemma map_of_filter_key: "map_of (filter (\<lambda>(c, _). P c) xs) k = (if P k then map_of xs k else None)"
  by (induction xs) auto

lemma attributed_pruned: "attributed cfg a \<Longrightarrow> ag_folded b = ag_folded a \<inter> s \<Longrightarrow> ag_live b = filter (\<lambda>(c, _). c \<in> s) (ag_live a) \<Longrightarrow> attributed cfg b"
  by (auto simp: attributed_def map_of_filter_key split: if_splits)

lemma unbroken_last:
  assumes "unbroken (ticks @ [t, u])" shows "all_ended cfg ticks \<inter> seen_in (snapshot_of u) \<subseteq> seen_in (snapshot_of t)"
proof
  fix c assume c: "c \<in> all_ended cfg ticks \<inter> seen_in (snapshot_of u)"
  then obtain i where i: "i < length ticks" "c \<in> seen_in (snapshot_of (ticks ! i))"
    using ended_seen by (force simp: all_ended_def in_set_conv_nth)
  have "seen_in (snapshot_of ((ticks @ [t, u]) ! i)) \<inter> seen_in (snapshot_of ((ticks @ [t, u]) ! Suc (length ticks)))
    \<subseteq> seen_in (snapshot_of ((ticks @ [t, u]) ! length ticks))"
    using assms i(1) unfolding unbroken_def by (elim allE[of _ "Suc (length ticks)"] impE allE[of _ "length ticks"] allE[of _ i]) auto
  then show "c \<in> seen_in (snapshot_of t)" using c i by (auto simp: nth_append)
qed

lemma unbroken_butlast: "unbroken (ticks @ [t]) \<Longrightarrow> unbroken ticks"
  unfolding unbroken_def
proof (intro allI impI)
  fix k j i assume u: "\<forall>k < length (ticks @ [t]). \<forall>j < k. \<forall>i < j. seen_in (snapshot_of ((ticks @ [t]) ! i)) \<inter> seen_in (snapshot_of ((ticks @ [t]) ! k))
    \<subseteq> seen_in (snapshot_of ((ticks @ [t]) ! j))" and kji: "k < length ticks" "j < k" "i < j"
  show "seen_in (snapshot_of (ticks ! i)) \<inter> seen_in (snapshot_of (ticks ! k)) \<subseteq> seen_in (snapshot_of (ticks ! j))"
    using u[rule_format, of k j i] kji by (simp add: nth_append)
qed

lemma folded_once_inv:
  assumes "attributed cfg a" "ag_folded a = {}" "unbroken ticks"
  shows "attributed cfg (memory_after cfg ticks a) \<and>
    ag_folded (memory_after cfg ticks a) = all_ended cfg ticks \<inter> (if ticks = [] then {} else seen_in (snapshot_of (last ticks))) \<and>
    closings (memory_after cfg ticks a) = closings a + card (all_ended cfg ticks)"
  using assms(3)
proof (induction ticks rule: rev_induct)
  case Nil
  then show ?case using assms by (simp add: memory_after_def all_ended_def)
next
  case (snoc u ticks)
  obtain f now snap where u: "u = (f, now, snap)" by (cases u)
  let ?a = "memory_after cfg ticks a"
  note IH = snoc.IH[OF unbroken_butlast[OF snoc.prems]]
  note step = fold_snapshot_once[OF conjunct1[OF IH], of now snap]
  have s: "snapshot_of u = snap" by (simp add: u snapshot_of_def)
  have prior: "all_ended cfg ticks \<inter> seen_in snap \<subseteq> ag_folded ?a"
  proof (cases ticks rule: rev_cases)
    case (snoc ts t)
    have "all_ended cfg ts \<inter> seen_in snap \<subseteq> seen_in (snapshot_of t)"
      using unbroken_last[of ts t u cfg] snoc.prems unfolding s snoc by simp
    then show ?thesis using IH ended_seen[of cfg "snapshot_of t"] unfolding snoc by (auto simp: all_ended_def)
  qed (simp add: all_ended_def)
  have new: "ended_in cfg snap - ag_folded ?a = ended_in cfg snap - all_ended cfg ticks"
    using prior ended_seen[of cfg snap] IH by auto
  have "all_ended cfg (ticks @ [u]) = all_ended cfg ticks \<union> (ended_in cfg snap - all_ended cfg ticks)"
    by (auto simp: all_ended_def s)
  moreover have "finite (all_ended cfg ticks)" by (simp add: all_ended_def ended_in_finite)
  ultimately have "card (all_ended cfg (ticks @ [u])) = card (all_ended cfg ticks) + card (ended_in cfg snap - all_ended cfg ticks)"
    using card_Un_disjoint[of "all_ended cfg ticks" "ended_in cfg snap - all_ended cfg ticks"] by (simp only:) (auto simp: ended_in_finite)
  moreover have "ag_folded (memory_after cfg (ticks @ [u]) a) = all_ended cfg (ticks @ [u]) \<inter> seen_in snap"
    using step IH prior by (auto simp: u memory_after_snoc fst_foldLocked fold_memory_flows all_ended_def snapshot_of_def)
  ultimately show ?case
    using step IH new attributed_pruned[OF conjunct1[OF step], of "memory_after cfg (ticks @ [u]) a" "seen_in snap"]
    by (simp add: u memory_after_snoc fst_foldLocked fold_memory_flows snapshot_of_def)
qed

text \<open>
  Property C19. Each flow is folded once. After a restart from any database, over any ticks in which no cookie
  disappears from one snapshot and reappears in a later one (an aborted read of the map breaks this), and however many ticks an ended flow lingers in the map, the folds that were
  completed or refused are as many as the cookies that can be attributed and were ever seen ended.
\<close>

theorem each_flow_folded_once:
  assumes "unbroken ticks"
  shows "closings (fst (run_ticks cfg ticks (Rehydrate cfg t db (observer_New ex g), db))) = card (all_ended cfg ticks)"
proof -
  let ?a = "Rehydrate cfg t db (observer_New ex g)"
  have "ag_folded ?a = {}" "ag_live ?a = []" "closings ?a = 0"
    using rehydrate_untouched[of cfg t db "observer_New ex g"] by (simp_all add: untouched_def observer_New_def closings_def zero_stats_def)
  then show ?thesis using folded_once_inv[of cfg ?a ticks] assms by (simp add: run_ticks_memory attributed_def)
qed

text \<open>When the read of the map ends early the error is dropped, and the flows it missed are forgotten: an ended flow is counted again.\<close>

lemma started_clean:
  fixes cfg t db ex g defines "a \<equiv> Rehydrate cfg t db (observer_New ex g)"
  shows "attributed cfg a" "ag_folded a = {}" "ag_live a = []" "closings a = 0" "ag_freshFolds a sc = 0" "ag_dirty a = []" "ag_dirtyTopo a = []" "ag_dirtyDeviants a = []"
  using rehydrate_untouched[of cfg t db "observer_New ex g"]
  by (simp_all add: a_def untouched_def observer_New_def closings_def zero_stats_def attributed_def)

lemma fold_tick:
  assumes "attributed cfg a" fixes now snap defines "b \<equiv> fst (foldLocked cfg now snap a)"
  shows "attributed cfg b" "ag_folded b = (ag_folded a \<union> ended_in cfg snap) \<inter> seen_in snap" "closings b = closings a + card (ended_in cfg snap - ag_folded a)"
  using fold_snapshot_once[OF assms(1), of now snap] attributed_pruned[of cfg "foldl (fold_entry cfg now) a snap" b "seen_in snap"]
  by (simp_all add: b_def fst_foldLocked fold_memory_flows)

text \<open>
  Property C40. A read that ends early makes a flow count twice. The error of the walk over the kernel's map is dropped,
  and what the walk did not reach is taken for gone: the memory of the folded cookies is pruned, and an
  ended flow that is still in the map is folded again at the next tick.
\<close>

theorem aborted_read_folds_twice:
  assumes c: "c \<noteq> 0" "fs_Closed fs \<noteq> 0" "resolvable cfg c"
  shows "closings (fst (run_ticks cfg [(f1, t1, [(c, fs)]), (f2, t2, []), (f3, t3, [(c, fs)])] (Rehydrate cfg t db (observer_New ex g), db))) = 2"
proof -
  define a where "a = Rehydrate cfg t db (observer_New ex g)"
  define a1 where "a1 = fst (foldLocked cfg t1 [(c, fs)] a)"
  define a2 where "a2 = fst (foldLocked cfg t2 [] a1)"
  have e: "ended_in cfg [(c, fs)] = {c}" "ended_in cfg [] = {}" "seen_in [] = {}" using c by (force simp: ended_in_def seen_in_def)+
  note 0 = started_clean[of cfg t db ex g, folded a_def]
  note 1 = fold_tick[OF 0(1), of t1 "[(c, fs)]", folded a1_def]
  note 2 = fold_tick[OF 1(1), of t2 "[]", folded a2_def]
  note 3 = fold_tick(3)[OF 2(1), of t3 "[(c, fs)]"]
  show ?thesis using 0 1 2 3 by (simp add: run_ticks_memory memory_after_def a_def a1_def a2_def e)
qed

section \<open>A confirmed-malicious source teaches nothing\<close>

text \<open>What has been learned: everything but the tracking of flows and the counts of what was refused.\<close>

definition learned :: "observer \<Rightarrow> observer" where
  "learned a = a\<lparr>ag_live := [], ag_folded := {}, ag_stats := (ag_stats a)\<lparr>st_ExcludedFolds := 0, st_UnresolvedFolds := 0\<rparr>\<rparr>"

lemma learned_idem [simp]: "learned (learned a) = learned a"
  by (simp add: learned_def)

lemma fold_bucket_learned: "fold_bucket cfg lf fs (learned a) = learned (fold_bucket cfg lf fs a)"
  by (simp add: fold_bucket_def learned_def Let_def)

lemma fold_topology_learned: "fold_topology cfg lf fs now (learned a) = learned (fold_topology cfg lf fs now a)"
  by (simp add: fold_topology_def learned_def split: prod.split)

lemma captureDeviant_learned: "captureDeviant cfg lf c fs now (learned a) = learned (captureDeviant cfg lf c fs now a)"
  by (simp add: captureDeviant_def learned_def Let_def split: prod.split option.split)

lemma count_fold_learned: "count_fold sc now (learned a) = learned (count_fold sc now a)"
  by (simp add: count_fold_def learned_def)

lemma set_gates_learned: "set_gates cfg now (learned a) e = learned (set_gates cfg now a e)"
  by (simp add: set_gates_def learned_def Let_def split: prod.split)

lemma reap_learned:
  "reap_topologies cfg now (learned a) t = learned (reap_topologies cfg now a t)" "reap_deviants cfg now (learned a) d = learned (reap_deviants cfg now a d)"
  by (simp_all add: reap_topologies_def reap_deviants_def learned_def split: prod.split)

lemma foldl_learned: "(\<And>a x. g (learned a) x = learned (g a x)) \<Longrightarrow> foldl g (learned a) xs = learned (foldl g a xs)"
  by (induction xs arbitrary: a) simp_all

lemma foldCompleted_learned: "learned (foldCompleted cfg lf c fs now (learned a)) = learned (foldCompleted cfg lf c fs now a)"
proof -
  have e: "ag_excluder (learned a) = ag_excluder a" by (simp add: learned_def)
  have x: "learned (b\<lparr>ag_stats := (ag_stats b)\<lparr>st_ExcludedFolds := n\<rparr>\<rparr>) = learned b" for b n by (simp add: learned_def)
  show ?thesis
    by (simp add: foldCompleted_def e x fold_bucket_learned fold_topology_learned captureDeviant_learned count_fold_learned)
qed

lemma foldCompleted_cong: "learned a = learned a' \<Longrightarrow> learned (foldCompleted cfg lf c fs now a) = learned (foldCompleted cfg lf c fs now a')"
  by (metis foldCompleted_learned)

text \<open>What a tick does with the folded state depends on what has been learned only.\<close>

definition settle :: "observer_Config \<Rightarrow> time \<Rightarrow> observer \<Rightarrow> observer" where
  "settle cfg now a1 =
     (let a2 = foldl (set_gates cfg now) a1 (ag_aggregates a1); a3 = foldl (reap_topologies cfg now) a2 (ag_topology a2)
      in foldl (reap_deviants cfg now) a3 (ag_deviants a3))"

lemma fold_memory_settle: "fold_memory cfg now snap a = settle cfg now (prune (seen_in snap) (foldl (fold_entry cfg now) a snap))"
  by (simp add: fold_memory_def settle_def Let_def)

lemma learned_fields [simp]:
  "ag_aggregates (learned a) = ag_aggregates a" "ag_topology (learned a) = ag_topology a" "ag_deviants (learned a) = ag_deviants a"
  by (simp_all add: learned_def)

lemma settle_learned: "settle cfg now (learned a) = learned (settle cfg now a)"
  by (simp add: settle_def Let_def foldl_learned set_gates_learned reap_learned)

lemma learned_prune: "learned (prune s a) = learned a"
  by (simp add: learned_def prune_def)

lemma settle_cong: "learned a = learned a' \<Longrightarrow> learned (settle cfg now a) = learned (settle cfg now a')"
  by (metis settle_learned)

lemma take_batch_learned: "snd (take_batch (learned a)) = snd (take_batch a)" "learned (fst (take_batch (learned a))) = learned (fst (take_batch a))"
  by (simp_all add: take_batch_def learned_def bucket_mem_def topo_mem_def deviant_mem_def cong: map_cong)

lemma take_batch_cong:
  "learned a = learned a' \<Longrightarrow> snd (take_batch a) = snd (take_batch a')" "learned a = learned a' \<Longrightarrow> learned (fst (take_batch a)) = learned (fst (take_batch a'))"
  by (metis take_batch_learned)+

text \<open>Two runs that differ in the flows of a set of cookies, none of which may teach.\<close>

definition without :: "u64 set \<Rightarrow> snapshot \<Rightarrow> snapshot" where
  "without B snap = filter (\<lambda>(c, _). c \<notin> B) snap"

definition refused :: "observer_Config \<Rightarrow> MaliciousSet \<Rightarrow> u64 set \<Rightarrow> snapshot \<Rightarrow> bool" where
  "refused cfg ms B snap \<longleftrightarrow> (\<forall>(c, fs) \<in> set snap. c \<in> B \<longrightarrow> (\<forall>sc. oc_Resolve cfg (cookie_flow c) = Inr sc \<longrightarrow> excludedFlow ms sc fs))"

definition same_lesson :: "observer_Config \<Rightarrow> MaliciousSet \<Rightarrow> u64 set \<Rightarrow> observer \<Rightarrow> observer \<Rightarrow> bool" where
  "same_lesson cfg ms B a a' \<longleftrightarrow> learned a = learned a' \<and> attributed cfg a \<and> ag_excluder a = Some ms \<and>
     ag_live a' = filter (\<lambda>(c, _). c \<notin> B) (ag_live a) \<and> ag_folded a' = ag_folded a - B"

lemma learned_tracking: "learned (a\<lparr>ag_live := l\<rparr>) = learned a" "learned (a\<lparr>ag_folded := s, ag_live := l\<rparr>) = learned a"
  "learned (a\<lparr>ag_folded := s\<rparr>) = learned a" "learned (a\<lparr>ag_stats := (ag_stats a)\<lparr>st_UnresolvedFolds := n\<rparr>\<rparr>) = learned a"
  by (simp_all add: learned_def)

text \<open>One entry, case by case: nothing to do, tracked already, unattributable, new.\<close>

definition track :: "observer_Config \<Rightarrow> time \<Rightarrow> ScopeKey \<Rightarrow> liveFlow" where
  "track cfg now sc = \<lparr>lf_scope = sc, lf_bucket = oc_Bucketer cfg now, lf_day = dayKey now\<rparr>"

definition complete_flow :: "observer_Config \<Rightarrow> time \<Rightarrow> u64 \<Rightarrow> FlowStats \<Rightarrow> liveFlow \<Rightarrow> observer \<Rightarrow> observer" where
  "complete_flow cfg now c fs lf a = (if fs_Closed fs \<noteq> 0
     then (foldCompleted cfg lf c fs now a)\<lparr>ag_folded := insert c (ag_folded a), ag_live := AList.delete c (ag_live a)\<rparr> else a)"

lemma fold_entry_cases:
  obtains (skip) "c = 0 \<or> c \<in> ag_folded a" "fold_entry cfg now a (c, fs) = a"
  | (tracked) lf where "c \<noteq> 0" "c \<notin> ag_folded a" "map_of (ag_live a) c = Some lf" "fold_entry cfg now a (c, fs) = complete_flow cfg now c fs lf a"
  | (unknown) err where "c \<noteq> 0" "c \<notin> ag_folded a" "map_of (ag_live a) c = None" "oc_Resolve cfg (cookie_flow c) = Inl err"
      "fold_entry cfg now a (c, fs) = a\<lparr>ag_stats := (ag_stats a)\<lparr>st_UnresolvedFolds := st_UnresolvedFolds (ag_stats a) + 1\<rparr>\<rparr>"
  | (new) sc where "c \<noteq> 0" "c \<notin> ag_folded a" "map_of (ag_live a) c = None" "oc_Resolve cfg (cookie_flow c) = Inr sc"
      "fold_entry cfg now a (c, fs) = complete_flow cfg now c fs (track cfg now sc) (a\<lparr>ag_live := AList.update c (track cfg now sc) (ag_live a)\<rparr>)"
proof -
  consider "c = 0 \<or> c \<in> ag_folded a" | lf where "c \<noteq> 0" "c \<notin> ag_folded a" "map_of (ag_live a) c = Some lf"
    | err where "c \<noteq> 0" "c \<notin> ag_folded a" "map_of (ag_live a) c = None" "oc_Resolve cfg (cookie_flow c) = Inl err"
    | sc where "c \<noteq> 0" "c \<notin> ag_folded a" "map_of (ag_live a) c = None" "oc_Resolve cfg (cookie_flow c) = Inr sc"
    by (metis not_Some_eq sum.exhaust_sel)
  then show thesis
  proof cases
    case 1
    then show ?thesis by (intro skip) (auto simp: fold_entry_def)
  next
    case 2
    then show ?thesis by (intro tracked) (auto simp: fold_entry_def complete_flow_def)
  next
    case 3
    then show ?thesis by (intro unknown) (auto simp: fold_entry_def)
  next
    case 4
    then show ?thesis by (intro new) (auto simp: fold_entry_def complete_flow_def track_def Let_def)
  qed
qed

text \<open>Completing a flow moves it from the tracked to the folded; what it teaches is up to the fold.\<close>

lemma complete_flow_book:
  "ag_live (complete_flow cfg now c fs lf a) = (if fs_Closed fs \<noteq> 0 then AList.delete c (ag_live a) else ag_live a)"
  "ag_folded (complete_flow cfg now c fs lf a) = (if fs_Closed fs \<noteq> 0 then insert c (ag_folded a) else ag_folded a)"
  "ag_excluder (complete_flow cfg now c fs lf a) = ag_excluder a"
  "learned (complete_flow cfg now c fs lf a) = (if fs_Closed fs \<noteq> 0 then learned (foldCompleted cfg lf c fs now a) else learned a)"
  by (simp_all add: complete_flow_def learned_tracking)

lemma foldCompleted_refused:
  "ag_excluder a = Some ms \<Longrightarrow> excludedFlow ms (lf_scope lf) fs \<Longrightarrow> learned (foldCompleted cfg lf c fs now a) = learned a"
  by (simp add: foldCompleted_def learned_def)

lemma filter_update_key: "filter (\<lambda>(c, _). P c) (AList.update k v xs) = (if P k then AList.update k v (filter (\<lambda>(c, _). P c) xs) else filter (\<lambda>(c, _). P c) xs)"
  by (induction xs) auto

lemma filter_delete_key: "filter (\<lambda>(c, _). P c) (AList.delete k xs) = AList.delete k (filter (\<lambda>(c, _). P c) xs)"
  by (induction xs) auto

lemma delete_absent: "\<not> P k \<Longrightarrow> AList.delete k (filter (\<lambda>(c, _). P c) xs) = filter (\<lambda>(c, _). P c) xs"
  by (induction xs) auto

lemma refused_step:
  assumes s: "same_lesson cfg ms B a a'" and r: "refused cfg ms B [(c, fs)]" and c: "c \<in> B"
  shows "same_lesson cfg ms B (fold_entry cfg now a (c, fs)) a'"
proof -
  have att: "attributed cfg (fold_entry cfg now a (c, fs))" "attributed cfg a" and x: "ag_excluder a = Some ms" and l: "learned a = learned a'"
    and t: "ag_live a' = filter (\<lambda>(c, _). c \<notin> B) (ag_live a)" "ag_folded a' = ag_folded a - B"
    using fold_entry_once[of cfg a now "(c, fs)"] s by (simp_all add: same_lesson_def)
  have ex: "excludedFlow ms sc fs" if "oc_Resolve cfg (cookie_flow c) = Inr sc" for sc using r c that by (auto simp: refused_def)
  show ?thesis
  proof (cases rule: fold_entry_cases[of c a cfg now fs])
    case skip
    then show ?thesis using s by simp
  next
    case (tracked lf)
    then have "learned (foldCompleted cfg lf c fs now a) = learned a"
      using att(2) ex x by (intro foldCompleted_refused[where ms = ms]) (simp_all add: attributed_def)
    then show ?thesis using att(1) x l t c unfolding same_lesson_def tracked(4)
      by (simp add: complete_flow_book filter_delete_key delete_absent insert_Diff_if)
  next
    case (unknown err)
    then show ?thesis using att(1) x l t unfolding same_lesson_def unknown(5) by (simp add: learned_tracking)
  next
    case (new sc)
    have "learned (foldCompleted cfg (track cfg now sc) c fs now (a\<lparr>ag_live := l\<rparr>)) = learned a" for l
      using x ex[OF new(4)] by (subst foldCompleted_refused[where ms = ms]) (simp_all add: track_def learned_tracking)
    then show ?thesis using att(1) x l t c unfolding same_lesson_def new(5)
      by (simp add: complete_flow_book learned_tracking filter_delete_key delete_absent insert_Diff_if filter_update_key)
  qed
qed

lemma map_of_tracked: "same_lesson cfg ms B a a' \<Longrightarrow> c \<notin> B \<Longrightarrow> map_of (ag_live a') c = map_of (ag_live a) c \<and> (c \<in> ag_folded a' \<longleftrightarrow> c \<in> ag_folded a)"
  by (simp add: same_lesson_def map_of_filter_key)

lemma complete_flow_shared:
  assumes "learned b = learned b'" "ag_live b' = filter (\<lambda>(c, _). c \<notin> B) (ag_live b)" "ag_folded b' = ag_folded b - B" "ag_excluder b = Some ms" "c \<notin> B"
    and "attributed cfg (complete_flow cfg now c fs lf b)"
  shows "same_lesson cfg ms B (complete_flow cfg now c fs lf b) (complete_flow cfg now c fs lf b')"
  using assms foldCompleted_cong[OF assms(1), of cfg lf c fs now]
  by (simp add: same_lesson_def complete_flow_book filter_delete_key insert_Diff_if)

lemma shared_step:
  assumes s: "same_lesson cfg ms B a a'" and c: "c \<notin> B"
  shows "same_lesson cfg ms B (fold_entry cfg now a (c, fs)) (fold_entry cfg now a' (c, fs))"
proof -
  have att: "attributed cfg (fold_entry cfg now a (c, fs))" using fold_entry_once[of cfg a now "(c, fs)"] s by (simp add: same_lesson_def)
  note m = map_of_tracked[OF s c]
  note s' = s[unfolded same_lesson_def]
  show ?thesis
  proof (cases rule: fold_entry_cases[of c a cfg now fs])
    case skip
    then have "fold_entry cfg now a' (c, fs) = a'" using m by (auto simp: fold_entry_def)
    then show ?thesis using s skip by simp
  next
    case (tracked lf)
    then have "fold_entry cfg now a' (c, fs) = complete_flow cfg now c fs lf a'" using m by (simp add: fold_entry_def complete_flow_def)
    then show ?thesis using complete_flow_shared[of a a' B ms c cfg now fs lf] s' c att tracked by simp
  next
    case (unknown err)
    then have "fold_entry cfg now a' (c, fs) = a'\<lparr>ag_stats := (ag_stats a')\<lparr>st_UnresolvedFolds := st_UnresolvedFolds (ag_stats a') + 1\<rparr>\<rparr>"
      using m by (simp add: fold_entry_def)
    then show ?thesis using s' att unfolding same_lesson_def unknown(5) by (simp add: learned_tracking)
  next
    case (new sc)
    let ?b = "\<lambda>a. a\<lparr>ag_live := AList.update c (track cfg now sc) (ag_live a)\<rparr>"
    have "fold_entry cfg now a' (c, fs) = complete_flow cfg now c fs (track cfg now sc) (?b a')"
      using m new(1-4) by (simp add: fold_entry_def complete_flow_def track_def Let_def)
    then show ?thesis using complete_flow_shared[of "?b a" "?b a'" B ms c cfg now fs "track cfg now sc"] s' c att new
      by (simp add: learned_tracking filter_update_key)
  qed
qed

lemma snapshot_lesson:
  "same_lesson cfg ms B a a' \<Longrightarrow> refused cfg ms B snap \<Longrightarrow>
    same_lesson cfg ms B (foldl (fold_entry cfg now) a snap) (foldl (fold_entry cfg now) a' (without B snap))"
proof (induction snap arbitrary: a a')
  case (Cons e snap)
  obtain c fs where e: "e = (c, fs)" by (cases e)
  have r: "refused cfg ms B [(c, fs)]" "refused cfg ms B snap" using Cons.prems(2) by (auto simp: refused_def e)
  show ?case
  proof (cases "c \<in> B")
    case True
    then show ?thesis using Cons.IH[OF refused_step[OF Cons.prems(1) r(1) True] r(2)] by (simp add: e without_def)
  next
    case False
    then show ?thesis using Cons.IH[OF shared_step[OF Cons.prems(1) False] r(2)] by (simp add: e without_def)
  qed
qed (simp add: without_def)

lemma fold_memory_excluder: "ag_excluder (settle cfg now a) = ag_excluder a"
proof -
  have "ag_excluder (set_gates cfg now b e) = ag_excluder b" "ag_excluder (reap_topologies cfg now b t) = ag_excluder b"
    "ag_excluder (reap_deviants cfg now b d) = ag_excluder b" for b e t d
    by (simp_all add: set_gates_def reap_topologies_def reap_deviants_def Let_def split: prod.split)
  then show ?thesis by (simp add: settle_def Let_def foldl_frame[of _ ag_excluder])
qed

lemma seen_without: "seen_in (without B snap) = seen_in snap - B"
  by (force simp: seen_in_def without_def)

lemma tick_lesson:
  assumes s: "same_lesson cfg ms B a a'" and r: "refused cfg ms B snap"
  shows "same_lesson cfg ms B (fst (foldLocked cfg now snap a)) (fst (foldLocked cfg now (without B snap) a')) \<and>
    snd (foldLocked cfg now snap a) = snd (foldLocked cfg now (without B snap) a')"
proof -
  let ?b = "foldl (fold_entry cfg now) a snap" and ?b' = "foldl (fold_entry cfg now) a' (without B snap)"
  note b = snapshot_lesson[OF s r, of now]
  have l: "learned (fold_memory cfg now snap a) = learned (fold_memory cfg now (without B snap) a')"
    using b by (auto simp: fold_memory_settle learned_prune same_lesson_def intro!: settle_cong)
  have att: "attributed cfg (fst (foldLocked cfg now snap a))" using fold_tick(1)[of cfg a now snap] s by (simp add: same_lesson_def)
  have live: "ag_live (fold_memory cfg now (without B snap) a') = filter (\<lambda>(c, _). c \<notin> B) (ag_live (fold_memory cfg now snap a))"
    "ag_folded (fold_memory cfg now (without B snap) a') = ag_folded (fold_memory cfg now snap a) - B"
    using b by (auto simp: fold_memory_flows same_lesson_def seen_without intro!: filter_cong)
  have ex: "ag_excluder (fst (foldLocked cfg now snap a)) = Some ms"
    using b by (simp add: foldLocked_def take_batch_def fold_memory_settle fold_memory_excluder prune_def same_lesson_def)
  show ?thesis using take_batch_cong[OF l] live att ex by (simp add: same_lesson_def fst_foldLocked) (simp add: foldLocked_def)
qed

text \<open>An address that was confirmed and stored is refused, by this process and after a restart.\<close>

definition sent_by :: "Addr \<Rightarrow> FlowStats \<Rightarrow> bool" where
  "sent_by addr fs = (case addr of
     V4 b \<Rightarrow> length b = 4 \<and> fs_Family fs = observe_AFInet \<and> take (addrLen (fs_Family fs)) (fs_SrcIP fs) = bytes b
   | V6 b _ \<Rightarrow> length b = 16 \<and> fs_Family fs = observe_AFInet6 \<and> take (addrLen (fs_Family fs)) (fs_SrcIP fs) = bytes b)"

lemma sent_by_identity: "sent_by addr fs \<Longrightarrow> hashAddrCanonical addr = hashIdentity fs"
  by (auto simp: sent_by_def hashAddrCanonical_def hashIdentity_def writeAddr_def addrLen_def bytes_def split: Addr.splits)

lemma malicious_Rehydrate_fold:
  "foldl (malicious_Rehydrate d) ms scs sc = ms sc \<union> (if sc \<in> set scs then set (scope_bucket (db_malicious d) sc) else {})"
  by (induction scs arbitrary: ms) (auto simp: malicious_Rehydrate_def)

lemma Rehydrate_excluder: "ag_excluder (Rehydrate cfg t (Some d) a) = map_option (\<lambda>ms. foldl (malicious_Rehydrate d) ms (map fst (db_malicious d))) (ag_excluder a)"
proof -
  have "ag_excluder (rehydrate_scope cfg l b e) = ag_excluder b" "ag_excluder (rehydrate_topology b et) = ag_excluder b" "ag_excluder (rehydrate_deviants b ed) = ag_excluder b" for b e et ed l
    by (simp_all add: rehydrate_scope_def rehydrate_topology_def rehydrate_deviants_def Let_def split: prod.split)
  then show ?thesis by (simp add: Rehydrate_def Let_def foldl_frame[of _ ag_excluder])
qed

lemma MarkAddr_stored:
  assumes "MarkAddr fails ms (Some db) sc addr = (True, ms1, Some db')"
  shows "hashAddrCanonical addr \<in> ms1 sc" "hashAddrCanonical addr \<in> foldl (malicious_Rehydrate db') ms0 (map fst (db_malicious db')) sc"
proof -
  have d: "db' = db\<lparr>db_malicious := AList.update sc (List.insert (hashAddrCanonical addr) (scope_bucket (db_malicious db) sc)) (db_malicious db)\<rparr>"
    "ms1 = ms(sc := insert (hashAddrCanonical addr) (ms sc))"
    using assms by (auto simp: MarkAddr_def MarkMalicious_def Let_def split: if_splits)
  then show "hashAddrCanonical addr \<in> ms1 sc" by simp
  show "hashAddrCanonical addr \<in> foldl (malicious_Rehydrate db') ms0 (map fst (db_malicious db')) sc"
    by (simp add: malicious_Rehydrate_fold d scope_bucket_def AList.update_conv' dom_update)
qed

lemma run_ticks_Cons: "run_ticks cfg ((f, now, snap) # ticks) (a, d) =
  run_ticks cfg ticks (fst (foldLocked cfg now snap a), map_option (\<lambda>db. snd (PutBucketsAndHeartbeat f (snd (foldLocked cfg now snap a)) now db)) d)"
  by (simp add: run_ticks_def foldOnce_def split: prod.split)

definition ticks_without :: "u64 set \<Rightarrow> tick list \<Rightarrow> tick list" where
  "ticks_without B = map (\<lambda>(f, now, snap). (f, now, without B snap))"

lemma run_lesson:
  assumes "same_lesson cfg ms B a a'" "\<forall>t \<in> set ticks. refused cfg ms B (snapshot_of t)"
  shows "learned (fst (run_ticks cfg ticks (a, d))) = learned (fst (run_ticks cfg (ticks_without B ticks) (a', d))) \<and>
    snd (run_ticks cfg ticks (a, d)) = snd (run_ticks cfg (ticks_without B ticks) (a', d))"
  using assms
proof (induction ticks arbitrary: a a' d)
  case Nil
  then show ?case by (simp add: run_ticks_def ticks_without_def same_lesson_def)
next
  case (Cons t ticks)
  obtain f now snap where t: "t = (f, now, snap)" by (cases t)
  have r: "refused cfg ms B snap" using Cons.prems(2) by (simp add: t snapshot_of_def)
  note tl = tick_lesson[OF Cons.prems(1) r, of now]
  show ?case using Cons.IH[OF conjunct1[OF tl]] conjunct2[OF tl] Cons.prems(2)
    by (simp add: t ticks_without_def run_ticks_Cons)
qed

text \<open>
  Property C10. A confirmed-malicious source teaches the baseline nothing, also after a restart. Once an address is marked in a
  scope and stored, a process that restarts from that database and runs over any ticks learns what it would have
  learned had the flows of that address not been there: buckets, gates, quorums, graph and log are the same, and
  so is every byte written to the database.
\<close>

theorem confirmed_source_teaches_nothing:
  assumes mark: "MarkAddr False ms (Some db) sc addr = (True, ms1, Some db')"
    and sent: "\<forall>t \<in> set ticks. \<forall>(c, fs) \<in> set (snapshot_of t). c \<in> B \<longrightarrow> oc_Resolve cfg (cookie_flow c) = Inr sc \<and> sent_by addr fs"
  shows "learned (fst (run_ticks cfg ticks (Rehydrate cfg t0 (Some db') (observer_New (Some ms0) g), Some db')))
       = learned (fst (run_ticks cfg (ticks_without B ticks) (Rehydrate cfg t0 (Some db') (observer_New (Some ms0) g), Some db')))
     \<and> snd (run_ticks cfg ticks (Rehydrate cfg t0 (Some db') (observer_New (Some ms0) g), Some db'))
       = snd (run_ticks cfg (ticks_without B ticks) (Rehydrate cfg t0 (Some db') (observer_New (Some ms0) g), Some db'))"
proof -
  let ?a = "Rehydrate cfg t0 (Some db') (observer_New (Some ms0) g)"
  let ?ms = "foldl (malicious_Rehydrate db') ms0 (map fst (db_malicious db'))"
  have "ag_excluder ?a = Some ?ms" by (simp add: Rehydrate_excluder observer_New_def)
  then have s: "same_lesson cfg ?ms B ?a ?a" using started_clean[of cfg t0 "Some db'" "Some ms0" g] by (simp add: same_lesson_def)
  have "\<forall>t \<in> set ticks. refused cfg ?ms B (snapshot_of t)"
  proof
    fix t assume t: "t \<in> set ticks"
    show "refused cfg ?ms B (snapshot_of t)"
      unfolding refused_def using sent[rule_format, OF t] MarkAddr_stored(2)[OF mark, of ms0] sent_by_identity[of addr]
      by (fastforce simp: excludedFlow_def)
  qed
  then show ?thesis by (intro run_lesson[OF s])
qed

section \<open>A scope is live on fresh evidence only\<close>

definition gate_book :: "observer \<Rightarrow> (ScopeKey \<Rightarrow> bool) \<times> (ScopeKey \<Rightarrow> nat) \<times> baseline_Store" where
  "gate_book a = (ag_scopeLive a, ag_recoveryQuorum a, ag_gates a)"

definition gate_live :: "baseline_Store \<Rightarrow> ScopeKey \<Rightarrow> bool" where
  "gate_live g sc = (case bs_scopes g sc of None \<Rightarrow> False | Some sb \<Rightarrow> live sb)"

lemma gate_live_steps [simp]: "gate_live (SetLive g sc l) sc' = (if sc' = sc then l else gate_live g sc')" "gate_live (SetBucketSufficient g sc k ok) sc' = gate_live g sc'"
  by (auto simp: gate_live_def SetLive_def SetBucketSufficient_def scope_entry_def split: option.split)

lemma fold_parts_evidence:
  "gate_book (fold_bucket cfg lf fs a) = gate_book a" "gate_book (fold_topology cfg lf fs now a) = gate_book a" "gate_book (captureDeviant cfg lf c fs now a) = gate_book a"
  "ag_lastFold (fold_bucket cfg lf fs a) = ag_lastFold a" "ag_lastFold (fold_topology cfg lf fs now a) = ag_lastFold a" "ag_lastFold (captureDeviant cfg lf c fs now a) = ag_lastFold a"
  "ag_freshFolds (fold_bucket cfg lf fs a) = ag_freshFolds a" "ag_freshFolds (fold_topology cfg lf fs now a) = ag_freshFolds a" "ag_freshFolds (captureDeviant cfg lf c fs now a) = ag_freshFolds a"
  "ag_aggregates (fold_topology cfg lf fs now a) = ag_aggregates a" "ag_aggregates (captureDeviant cfg lf c fs now a) = ag_aggregates a"
  by (simp_all add: gate_book_def fold_bucket_def fold_topology_def captureDeviant_def Let_def split: prod.split option.split)

text \<open>What a restart asks of a scope, and what holds of every state after it.\<close>

definition evidence :: "(ScopeKey \<Rightarrow> nat) \<Rightarrow> observer \<Rightarrow> bool" where
  "evidence quorum a \<longleftrightarrow> distinct (map fst (ag_aggregates a)) \<and>
     (\<forall>sc. (ag_lastFold a sc \<noteq> 0 \<longrightarrow> 0 < ag_freshFolds a sc) \<and>
           (ag_recoveryQuorum a sc = quorum sc \<or> quorum sc \<le> ag_freshFolds a sc) \<and>
           ag_scopeLive a sc = gate_live (ag_gates a) sc \<and> (ag_scopeLive a sc \<longrightarrow> sc \<in> fst ` set (ag_aggregates a)))"

lemma foldCompleted_evidence:
  assumes e: "evidence quorum a" shows "evidence quorum (foldCompleted cfg lf c fs now a)"
proof -
  let ?b = "fold_bucket cfg lf fs a"
  have k: "distinct (map fst (ag_aggregates ?b)) \<and> fst ` set (ag_aggregates a) \<subseteq> fst ` set (ag_aggregates ?b)"
    using e by (auto simp: fold_bucket_def evidence_def Let_def distinct_update dom_update)
  let ?d = "captureDeviant cfg lf c fs now (fold_topology cfg lf fs now ?b)"
  have "ag_scopeLive ?d = ag_scopeLive a" "ag_recoveryQuorum ?d = ag_recoveryQuorum a" "ag_gates ?d = ag_gates a"
    using fold_parts_evidence(1-3) by (simp_all add: gate_book_def)
  then show ?thesis using e k
    by (auto simp: foldCompleted_def evidence_def count_fold_def fold_parts_evidence split: option.split)
qed

lemma evidence_tracking: "evidence quorum (a\<lparr>ag_folded := s, ag_live := l\<rparr>) = evidence quorum a" "evidence quorum (a\<lparr>ag_live := l\<rparr>) = evidence quorum a"
  "evidence quorum (a\<lparr>ag_folded := s\<rparr>) = evidence quorum a" "evidence quorum (a\<lparr>ag_stats := st\<rparr>) = evidence quorum a"
  by (simp_all add: evidence_def)

lemma fold_entry_evidence: "evidence quorum a \<Longrightarrow> evidence quorum (fold_entry cfg now a e)"
  by (auto simp: fold_entry_def evidence_tracking foldCompleted_evidence Let_def split: prod.split option.split sum.split)

lemma foldl_keeps: "P a \<Longrightarrow> (\<And>a x. x \<in> set xs \<Longrightarrow> P a \<Longrightarrow> P (g a x)) \<Longrightarrow> P (foldl g a xs)"
  by (induction xs arbitrary: a) auto

lemma SetBucketSufficient_fold [simp]: "gate_live (foldl (\<lambda>g (k, _). SetBucketSufficient g sc k (p k)) g bs) sc' = gate_live g sc'"
proof (induction bs arbitrary: g)
  case (Cons x bs)
  then show ?case by (cases x) simp
qed simp

definition floor_verdict :: "observer_Config \<Rightarrow> time \<Rightarrow> bucket_map \<Rightarrow> observer \<Rightarrow> ScopeKey \<Rightarrow> bool" where
  "floor_verdict cfg now bs a sc = (\<not> (0 < ag_recoveryQuorum a sc \<and> ag_freshFolds a sc < ag_recoveryQuorum a sc) \<and>
     fst (evaluateScope (oc_Floor cfg) bs (ag_lastFold a sc) now))"

lemma set_gates_step:
  fixes cfg now a sc bs defines "b \<equiv> set_gates cfg now a (sc, bs)"
  shows "ag_scopeLive b = (ag_scopeLive a)(sc := floor_verdict cfg now bs a sc)" "gate_live (ag_gates b) = (gate_live (ag_gates a))(sc := floor_verdict cfg now bs a sc)"
    "ag_recoveryQuorum b sc' = (if sc' = sc \<and> \<not> ag_freshFolds a sc < ag_recoveryQuorum a sc then 0 else ag_recoveryQuorum a sc')"
  by (auto simp: b_def set_gates_def floor_verdict_def Let_def fun_eq_iff split: prod.split)

lemma set_gates_evidence:
  assumes e: "evidence quorum a" and m: "(sc, bs) \<in> set (ag_aggregates a)"
  shows "evidence quorum (set_gates cfg now a (sc, bs))"
  using e m by (force simp: evidence_def set_gates_step set_gates_frame)

lemma set_gates_others:
  "sc \<notin> fst ` set L \<Longrightarrow> ag_scopeLive (foldl (set_gates cfg now) a L) sc = ag_scopeLive a sc \<and> ag_recoveryQuorum (foldl (set_gates cfg now) a L) sc = ag_recoveryQuorum a sc"
proof (induction L arbitrary: a)
  case (Cons e L)
  then show ?case by (cases e) (auto simp: set_gates_step)
qed simp

lemma set_gates_all:
  "distinct (map fst L) \<Longrightarrow> (sc, bs) \<in> set L \<Longrightarrow> ag_scopeLive (foldl (set_gates cfg now) a L) sc = floor_verdict cfg now bs a sc"
proof (induction L arbitrary: a)
  case (Cons e L)
  obtain s b where e: "e = (s, b)" by (cases e)
  show ?case
  proof (cases "s = sc")
    case True
    then have "sc \<notin> fst ` set L" "b = bs" using Cons.prems by (force simp: e)+
    then show ?thesis using set_gates_others[of sc L cfg now] True by (simp add: e set_gates_step)
  next
    case False
    then have "ag_scopeLive (foldl (set_gates cfg now) (set_gates cfg now a e) L) sc = floor_verdict cfg now bs (set_gates cfg now a e) sc"
      using Cons.prems by (intro Cons.IH) (auto simp: e)
    then show ?thesis using False by (simp add: e floor_verdict_def set_gates_step set_gates_frame)
  qed
qed simp

definition standing :: "observer \<Rightarrow> (ScopeKey \<Rightarrow> bool) \<times> (ScopeKey \<Rightarrow> nat) \<times> baseline_Store \<times> (ScopeKey \<Rightarrow> time) \<times> (ScopeKey \<Rightarrow> nat) \<times> (ScopeKey \<times> bucket_map) list" where
  "standing a = (ag_scopeLive a, ag_recoveryQuorum a, ag_gates a, ag_lastFold a, ag_freshFolds a, ag_aggregates a)"

lemma standing_evidence: "standing a = standing b \<Longrightarrow> evidence quorum a = evidence quorum b"
  by (simp add: standing_def evidence_def)

lemma standing_tick:
  fixes cfg now snap a defines "a1 \<equiv> prune (seen_in snap) (foldl (fold_entry cfg now) a snap)"
  shows "standing (fst (foldLocked cfg now snap a)) = standing (foldl (set_gates cfg now) a1 (ag_aggregates a1))"
proof -
  have "standing (reap_topologies cfg now b t) = standing b" "standing (reap_deviants cfg now b d) = standing b" for b t d
    by (simp_all add: reap_topologies_def reap_deviants_def standing_def split: prod.split)
  moreover have "standing (fst (take_batch b)) = standing b" for b by (simp add: take_batch_def standing_def)
  ultimately show ?thesis
    by (simp add: foldLocked_def fold_memory_settle settle_def Let_def foldl_frame[where f = standing] a1_def[symmetric])
qed

lemma gates_evidence: "evidence quorum a \<Longrightarrow> set L \<subseteq> set (ag_aggregates a) \<Longrightarrow> evidence quorum (foldl (set_gates cfg now) a L)"
proof (induction L arbitrary: a)
  case (Cons e L)
  obtain s b where e: "e = (s, b)" by (cases e)
  have "evidence quorum (set_gates cfg now a e)" using Cons.prems set_gates_evidence[of quorum a s b cfg now] by (simp add: e)
  then show ?case using Cons.IH[of "set_gates cfg now a e"] Cons.prems(2) by (simp add: set_gates_frame)
qed simp

lemma tick_evidence:
  assumes "evidence quorum a" fixes cfg now snap defines "b \<equiv> fst (foldLocked cfg now snap a)"
  shows "evidence quorum b"
    and "ag_scopeLive b sc \<Longrightarrow> quorum sc \<le> ag_freshFolds b sc \<and> (\<exists>bs. map_of (ag_aggregates b) sc = Some bs \<and> fst (evaluateScope (oc_Floor cfg) bs (ag_lastFold b sc) now))"
proof -
  define a1 where "a1 = prune (seen_in snap) (foldl (fold_entry cfg now) a snap)"
  define a2 where "a2 = foldl (set_gates cfg now) a1 (ag_aggregates a1)"
  have st: "standing b = standing a2" by (simp add: b_def a2_def a1_def standing_tick)
  have e1: "evidence quorum a1"
    using foldl_keeps[of "evidence quorum" a snap, OF assms(1) fold_entry_evidence] by (simp add: a1_def prune_def evidence_def)
  have agg: "ag_aggregates a2 = ag_aggregates a1" "ag_lastFold a2 = ag_lastFold a1" "ag_freshFolds a2 = ag_freshFolds a1"
    by (simp_all add: a2_def foldl_frame[of _ ag_aggregates] foldl_frame[of _ ag_lastFold] foldl_frame[of _ ag_freshFolds] set_gates_frame)
  have e2: "evidence quorum a2" unfolding a2_def by (rule gates_evidence[OF e1]) simp
  with st show "evidence quorum b" using standing_evidence by blast
  show "quorum sc \<le> ag_freshFolds b sc \<and> (\<exists>bs. map_of (ag_aggregates b) sc = Some bs \<and> fst (evaluateScope (oc_Floor cfg) bs (ag_lastFold b sc) now))" if "ag_scopeLive b sc"
  proof -
    have l: "ag_scopeLive a2 sc" using that st by (simp add: standing_def)
    have "sc \<in> fst ` set (ag_aggregates a1)" using l e2 unfolding evidence_def agg by blast
    then obtain bs where m: "map_of (ag_aggregates a1) sc = Some bs" by (metis map_of_eq_None_iff not_None_eq)
    have "distinct (map fst (ag_aggregates a1))" using e1 unfolding evidence_def by blast
    then have v: "floor_verdict cfg now bs a1 sc" using l set_gates_all[OF _ map_of_SomeD[OF m], of cfg now a1] unfolding a2_def by blast
    have q: "ag_recoveryQuorum a1 sc = quorum sc \<or> quorum sc \<le> ag_freshFolds a1 sc" using e1 unfolding evidence_def by blast
    have "ag_aggregates b = ag_aggregates a1" "ag_lastFold b = ag_lastFold a1" "ag_freshFolds b = ag_freshFolds a1" using st agg by (simp_all add: standing_def)
    then show ?thesis using m v q unfolding floor_verdict_def by auto
  qed
qed

lemma memory_evidence: "evidence quorum a \<Longrightarrow> evidence quorum (memory_after cfg ticks a)"
  unfolding memory_after_def by (rule foldl_keeps) (auto intro: tick_evidence)

definition restart_quorum :: "observer_Config \<Rightarrow> time \<Rightarrow> observe_DB option \<Rightarrow> ScopeKey \<Rightarrow> nat" where
  "restart_quorum cfg t db sc = (case db of None \<Rightarrow> 0
     | Some d \<Rightarrow> if large_gap cfg d t \<and> sc \<in> fst ` set (db_baseline d) then MinFlowsAfterGap (oc_Floor cfg) else 0)"

lemma rehydrate_scopes:
  fixes cfg l a L defines "b \<equiv> foldl (rehydrate_scope cfg l) a L"
  assumes "\<forall>sc. ag_lastFold a sc = 0 \<and> \<not> ag_scopeLive a sc \<and> \<not> gate_live (ag_gates a) sc \<and> ag_freshFolds a sc = 0" "distinct (map fst (ag_aggregates a))"
  shows "(\<forall>sc. ag_lastFold b sc = 0 \<and> \<not> ag_scopeLive b sc \<and> \<not> gate_live (ag_gates b) sc \<and> ag_freshFolds b sc = 0) \<and> distinct (map fst (ag_aggregates b)) \<and>
    (\<forall>sc. ag_recoveryQuorum b sc = (if l \<and> sc \<in> fst ` set L then MinFlowsAfterGap (oc_Floor cfg) else ag_recoveryQuorum a sc))"
  using assms(2,3) unfolding b_def
proof (induction L arbitrary: a)
  case (Cons e L)
  obtain s kvs where e: "e = (s, kvs)" by (cases e)
  let ?c = "rehydrate_scope cfg l a e"
  have c: "\<forall>sc. ag_lastFold ?c sc = 0 \<and> \<not> ag_scopeLive ?c sc \<and> \<not> gate_live (ag_gates ?c) sc \<and> ag_freshFolds ?c sc = 0" "distinct (map fst (ag_aggregates ?c))"
    "\<forall>sc. ag_recoveryQuorum ?c sc = (if l \<and> sc = s then MinFlowsAfterGap (oc_Floor cfg) else ag_recoveryQuorum a sc)"
    using Cons.prems by (auto simp: e rehydrate_scope_def distinct_update)
  show ?case using Cons.IH[OF c(1,2)] c(3) by (auto simp: e)
qed simp

lemma restart_evidence:
  assumes "\<forall>sc. \<not> gate_live g sc" shows "evidence (restart_quorum cfg t db) (Rehydrate cfg t db (observer_New ex g))"
proof (cases db)
  case None
  then show ?thesis using assms by (simp add: Rehydrate_def evidence_def observer_New_def restart_quorum_def)
next
  case (Some d)
  have s: "standing (rehydrate_topology b et) = standing b" "standing (rehydrate_deviants b ed) = standing b" "standing (b\<lparr>ag_excluder := x\<rparr>) = standing b" for b et ed x
    by (simp_all add: standing_def rehydrate_topology_def rehydrate_deviants_def Let_def split: prod.split)
  have "standing (Rehydrate cfg t db (observer_New ex g)) = standing (foldl (rehydrate_scope cfg (large_gap cfg d t)) (observer_New ex g) (db_baseline d))"
    by (simp add: Rehydrate_def Some Let_def foldl_frame[where f = standing] s)
  moreover have n: "\<forall>sc. ag_lastFold (observer_New ex g) sc = 0 \<and> \<not> ag_scopeLive (observer_New ex g) sc \<and> \<not> gate_live (ag_gates (observer_New ex g)) sc \<and>
      ag_freshFolds (observer_New ex g) sc = 0" "distinct (map fst (ag_aggregates (observer_New ex g)))" "ag_recoveryQuorum (observer_New ex g) = (\<lambda>_. 0)"
    using assms by (simp_all add: observer_New_def)
  moreover have "evidence (restart_quorum cfg t db) (foldl (rehydrate_scope cfg (large_gap cfg d t)) (observer_New ex g) (db_baseline d))"
    using rehydrate_scopes[OF n(1,2), of cfg "large_gap cfg d t" "db_baseline d"]
    by (simp add: evidence_def restart_quorum_def Some n(3))
  ultimately show ?thesis using standing_evidence by blast
qed

definition floor_met :: "DataFloor \<Rightarrow> bucket_map \<Rightarrow> bool" where
  "floor_met df bs \<longleftrightarrow> df_MinSufficientBuckets df \<le> int (length (filter (\<lambda>(_, a). bucketSufficient df a) bs)) \<and>
     df_MinCalendarDays df \<le> int (card (\<Union>(_, a) \<in> set bs. set (ba_Days a)))"

lemma evaluateScope_live:
  assumes "fst (evaluateScope df bs lastFold now)" shows "floor_met df bs" "lastFold \<noteq> 0" "now - lastFold \<le> df_FreshnessTTL df"
proof -
  have "card (\<Union>(_, a) \<in> set bs. set (ba_Days a)) = length (remdups (concat (map (\<lambda>(_, a). ba_Days a) bs)))"
    by (simp add: length_remdups_card_conv case_prod_unfold)
  then show "floor_met df bs" "lastFold \<noteq> 0" "now - lastFold \<le> df_FreshnessTTL df"
    using assms by (auto simp: evaluateScope_def floor_met_def Let_def split: if_splits)
qed

text \<open>
  Property C16. A scope is live on fresh evidence only. After a restart from any database and any ticks, an open gate means that
  the scope has the sufficient buckets and the calendar days of the floor, that its last flow was folded within the
  freshness time, that some flow was folded by this process, and, where the restart found a gap in coverage, that
  as many were as the recovery quorum asks.
\<close>

theorem live_on_fresh_evidence:
  assumes g: "\<forall>sc. \<not> gate_live g sc"
    and a: "a = fst (run_ticks cfg (ticks @ [(f, now, snap)]) (Rehydrate cfg t db (observer_New ex g), db))" and live: "gate_live (ag_gates a) sc"
  shows "(\<exists>bs. map_of (ag_aggregates a) sc = Some bs \<and> floor_met (oc_Floor cfg) bs) \<and> now - ag_lastFold a sc \<le> df_FreshnessTTL (oc_Floor cfg) \<and>
    0 < ag_freshFolds a sc \<and> restart_quorum cfg t db sc \<le> ag_freshFolds a sc"
proof -
  let ?q = "restart_quorum cfg t db"
  define b where "b = memory_after cfg ticks (Rehydrate cfg t db (observer_New ex g))"
  have ab: "a = fst (foldLocked cfg now snap b)" by (simp add: a b_def run_ticks_memory memory_after_snoc)
  have e: "evidence ?q b" unfolding b_def by (intro memory_evidence restart_evidence g)
  have ea: "evidence ?q a" unfolding ab by (rule tick_evidence(1)[OF e])
  then have "ag_scopeLive a sc" using live by (simp add: evidence_def)
  then obtain bs where bs: "map_of (ag_aggregates a) sc = Some bs" "fst (evaluateScope (oc_Floor cfg) bs (ag_lastFold a sc) now)"
    and q: "?q sc \<le> ag_freshFolds a sc" using tick_evidence(2)[OF e] unfolding ab by blast
  show ?thesis using evaluateScope_live[OF bs(2)] bs(1) q ea by (auto simp: evidence_def)
qed

section \<open>Witnesses\<close>

definition demo_config :: observer_Config where
  "demo_config = \<lparr>oc_Resolve = (\<lambda>_. Inr ''a''), oc_Bucketer = (\<lambda>_. ''now''),
     oc_Floor = DefaultDataFloor\<lparr>df_MinFlowsPerBucket := 60, df_MinSufficientBuckets := 1, df_MinCalendarDays := 3\<rparr>,
     oc_TopologyTTL = topoTTLDefault, oc_DeviantTTL = deviantTTLDefault, oc_Armed = None, oc_ln1p = demo_ln1p,
     oc_walks = \<lparr>wk_freq = rev, wk_edges = rev, wk_nodes = rev\<rparr>, oc_walk_deviants = rev\<rparr>"

definition demo_gates :: baseline_Store where
  "demo_gates = baseline_New \<lparr>bc_Params = DefaultParams, bc_Bucketer = Some WindowBucketer, bc_Calibrated = Some (\<lambda>_. True)\<rparr>"

lemma demo_gates_shut: "\<not> gate_live demo_gates sc"
  by (simp add: demo_gates_def baseline_New_def gate_live_def)

lemma demo_resolvable: "resolvable demo_config c"
  by (simp add: resolvable_def demo_config_def)

text \<open>One flow that lingers in the map after it ended, between two that are still open.\<close>

definition demo_ticks :: "tick list" where
  "demo_ticks = [(False, 10 * second, [(7, demo_flow), (8, demo_flow\<lparr>fs_Closed := 0\<rparr>)]), (True, 20 * second, [(7, demo_flow)]), (False, 30 * second, [(7, demo_flow), (9, demo_flow)])]"

lemma demo_ticks_unbroken: "unbroken demo_ticks"
  unfolding unbroken_def
proof (intro allI impI)
  fix k j i :: nat assume "k < length demo_ticks" "j < k" "i < j"
  then have "k = 2" "j = 1" "i = 0" by (simp_all add: demo_ticks_def)
  then show "seen_in (snapshot_of (demo_ticks ! i)) \<inter> seen_in (snapshot_of (demo_ticks ! k)) \<subseteq> seen_in (snapshot_of (demo_ticks ! j))"
    by (auto simp: demo_ticks_def snapshot_of_def seen_in_def)
qed

lemma demo_ended: "all_ended demo_config demo_ticks = {7, 9}"
  by (auto simp: all_ended_def ended_in_simps demo_ticks_def snapshot_of_def demo_resolvable demo_flow_def)

lemma each_flow_folded_once_witness: "closings (fst (run_ticks demo_config demo_ticks (Rehydrate demo_config 0 None (observer_New None demo_gates), None))) = 2"
  using each_flow_folded_once[OF demo_ticks_unbroken, of demo_config 0 None None demo_gates] by (simp add: demo_ended)

lemma aborted_read_folds_twice_witness:
  "closings (fst (run_ticks demo_config [(False, 1, [(7, demo_flow)]), (False, 2, []), (False, 3, [(7, demo_flow)])] (Rehydrate demo_config 0 None (observer_New None demo_gates), None))) = 2"
  by (rule aborted_read_folds_twice[OF _ _ demo_resolvable]) (simp_all add: demo_flow_def)

definition demo_db :: observe_DB where
  "demo_db = \<lparr>db_baseline = [], db_topology = [], db_deviants = [], db_malicious = [], db_lastSeen = None\<rparr>"

definition demo_addr :: Addr where "demo_addr = V4 [97, 97, 97, 97]"

lemma char_of_a: "char_of (97 :: nat) = CHR ''a''" "replicate 4 (CHR ''a'') = ''aaaa''"
  by code_simp+

lemma confirmed_source_teaches_nothing_witness:
  "\<exists>db'. learned (fst (run_ticks demo_config demo_ticks (Rehydrate demo_config 0 (Some db') (observer_New (Some (\<lambda>_. {})) demo_gates), Some db')))
       = learned (fst (run_ticks demo_config (ticks_without {7, 9} demo_ticks) (Rehydrate demo_config 0 (Some db') (observer_New (Some (\<lambda>_. {})) demo_gates), Some db')))
     \<and> hashAddrCanonical demo_addr \<in> set (scope_bucket (db_malicious db') ''a'')"
proof -
  define db' where "db' = demo_db\<lparr>db_malicious := [(''a'', [hashAddrCanonical demo_addr])]\<rparr>"
  have m: "MarkAddr False (\<lambda>_. {}) (Some demo_db) ''a'' demo_addr = (True, (\<lambda>_. {})(''a'' := {hashAddrCanonical demo_addr}), Some db')"
    by (simp add: MarkAddr_def MarkMalicious_def Let_def demo_db_def scope_bucket_def db'_def)
  have s: "\<forall>t \<in> set demo_ticks. \<forall>(c, fs) \<in> set (snapshot_of t). c \<in> {7, 9} \<longrightarrow> oc_Resolve demo_config (cookie_flow c) = Inr ''a'' \<and> sent_by demo_addr fs"
    by (auto simp: demo_ticks_def snapshot_of_def demo_config_def sent_by_def demo_addr_def demo_flow_def addrLen_def bytes_def char_of_a)
  show ?thesis using conjunct1[OF confirmed_source_teaches_nothing[OF m s, of 0 "\<lambda>_. {}" demo_gates]]
    by (intro exI[of _ db']) (simp add: db'_def scope_bucket_def)
qed

text \<open>A scope that was learned before a restart, and one fresh flow.\<close>

definition demo_learned :: bucketAggregate where
  "demo_learned = newBucketAggregate\<lparr>ba_Identity := [(1, 30), (2, 30)], ba_LogBytes := p2_zero\<lparr>pq_Count := 60\<rparr>, ba_LogPkts := p2_zero\<lparr>pq_Count := 60\<rparr>,
     ba_LogIAT := p2_zero\<lparr>pq_Count := 60\<rparr>, ba_LogDur := p2_zero\<lparr>pq_Count := 60\<rparr>, ba_Flows := 60, ba_Days := [''2026-01-05'', ''2026-01-06'', ''2026-01-07'']\<rparr>"

definition demo_restart :: observe_DB where
  "demo_restart = demo_db\<lparr>db_baseline := [(''a'', [(''old'', Decodes demo_learned)])], db_lastSeen := Some (Decodes second)\<rparr>"

lemma tick_opens:
  assumes "evidence quorum a" "(sc, bs) \<in> set (ag_aggregates a1)" "floor_verdict cfg now bs a1 sc" "a1 = prune (seen_in snap) (foldl (fold_entry cfg now) a snap)"
  shows "gate_live (ag_gates (fst (foldLocked cfg now snap a))) sc"
proof -
  have e1: "evidence quorum a1" using foldl_keeps[of "evidence quorum" a snap, OF assms(1) fold_entry_evidence] by (simp add: assms(4) prune_def evidence_def)
  let ?a2 = "foldl (set_gates cfg now) a1 (ag_aggregates a1)"
  have "evidence quorum ?a2" by (rule gates_evidence[OF e1]) simp
  moreover have "ag_scopeLive ?a2 sc" using set_gates_all[OF _ assms(2), of cfg now a1] e1 assms(3) unfolding evidence_def by blast
  ultimately have "gate_live (ag_gates ?a2) sc" unfolding evidence_def by blast
  then show ?thesis using standing_tick[of cfg now snap a, folded assms(4)] by (simp add: standing_def)
qed

definition demo_start :: observer where
  "demo_start = Rehydrate demo_config (2 * second) (Some demo_restart) (observer_New None demo_gates)"

lemma demo_start_fields:
  "ag_aggregates demo_start = [(''a'', [(''old'', demo_learned)])]" "ag_recoveryQuorum demo_start sc = 0" "ag_excluder demo_start = None"
  by (simp_all add: demo_start_def Rehydrate_def demo_restart_def demo_db_def Let_def rehydrate_scope_def observer_New_def decoded_records_def map_filter_simps
      large_gap_def CoverageGap_def demo_config_def DefaultDataFloor_def)

lemma demo_closed: "fs_Closed demo_flow = 1"
  by (simp add: demo_flow_def)

lemma demo_opens: "gate_live (ag_gates (fst (foldLocked demo_config (3000000000) [(7, demo_flow)] demo_start))) ''a''"
proof -
  let ?now = "3000000000" and ?lf = "track demo_config (3000000000) ''a''"
  let ?b = "demo_start\<lparr>ag_live := AList.update 7 ?lf (ag_live demo_start)\<rparr>"
  define X where "X = foldFlow (oc_ln1p demo_config) (wk_freq (oc_walks demo_config)) demo_flow (lf_day ?lf) newBucketAggregate"
  note st = started_clean[of demo_config "2 * second" "Some demo_restart" None demo_gates, folded demo_start_def]
  have k: "lf_scope ?lf = ''a''" "lf_bucket ?lf = ''now''"
    by (simp_all add: track_def demo_config_def)
  define a1 where "a1 = prune (seen_in [(7, demo_flow)]) (foldl (fold_entry demo_config ?now) demo_start [(7, demo_flow)])"
  have f: "fold_entry demo_config ?now demo_start (7, demo_flow) = complete_flow demo_config ?now 7 demo_flow ?lf ?b"
    by (cases rule: fold_entry_cases[of 7 demo_start demo_config ?now demo_flow]) (simp_all add: st demo_config_def)
  have a1: "ag_aggregates a1 = [(''a'', [(''old'', demo_learned), (''now'', X)])]" "ag_lastFold a1 ''a'' = ?now" "ag_recoveryQuorum a1 ''a'' = 0"
    using fold_parts_evidence(1-3)
    by (simp_all add: a1_def f prune_def complete_flow_def demo_closed foldCompleted_def demo_start_fields count_fold_def fold_parts_evidence k gate_book_def)
      (simp_all add: fold_bucket_def get_or_def demo_start_fields k Let_def X_def)
  have suff: "bucketSufficient (oc_Floor demo_config) demo_learned"
    by (simp add: bucketSufficient_def demo_learned_def demo_config_def DefaultDataFloor_def distinctIdentities_def newBucketAggregate_def p2_Ready_def)
  have "card (set (ba_Days demo_learned)) \<le> card (set (ba_Days demo_learned @ ba_Days X))" by (rule card_mono) auto
  moreover have "card (set (ba_Days demo_learned)) = 3" by (simp add: demo_learned_def)
  ultimately have days: "3 \<le> length (remdups (ba_Days demo_learned @ ba_Days X))" unfolding length_remdups_card_conv by simp
  have fl: "df_MinSufficientBuckets (oc_Floor demo_config) = 1" "df_MinCalendarDays (oc_Floor demo_config) = 3" "0 \<le> df_FreshnessTTL (oc_Floor demo_config)"
    by (simp_all add: demo_config_def DefaultDataFloor_def)
  have "floor_verdict demo_config ?now [(''old'', demo_learned), (''now'', X)] a1 ''a''"
    using suff days fl by (simp add: floor_verdict_def a1 evaluateScope_def Let_def del: remdups.simps append.simps length_remdups_card_conv)
  then show ?thesis using restart_evidence[OF allI[OF demo_gates_shut], of demo_config "2 * second" "Some demo_restart" None]
    by (intro tick_opens[OF _ _ _ a1_def]) (simp_all add: a1 demo_start_def)
qed

lemma live_on_fresh_evidence_witness:
  "\<exists>bs. map_of (ag_aggregates (fst (run_ticks demo_config [(False, 3000000000, [(7, demo_flow)])] (demo_start, Some demo_restart)))) ''a'' = Some bs \<and> floor_met (oc_Floor demo_config) bs"
proof -
  have "gate_live (ag_gates (fst (run_ticks demo_config ([] @ [(False, 3000000000, [(7, demo_flow)])]) (demo_start, Some demo_restart)))) ''a''"
    using demo_opens by (simp add: run_ticks_Cons) (simp add: run_ticks_def)
  from live_on_fresh_evidence[OF allI[OF demo_gates_shut] _ this[unfolded demo_start_def], OF refl]
  show ?thesis by (simp add: demo_start_def)
qed

end
