(* ===== verification/Restart.thy ===== *)
theory Restart
  imports Learning
begin

text \<open>
  The database as a copy of what the observe baseline holds, \<^verbatim>\<open>foldOnce\<close>, \<^verbatim>\<open>PutBucketsAndHeartbeat\<close> and
  \<^verbatim>\<open>Rehydrate\<close> together: as long as the writes succeed, a tick leaves the three trees equal to memory, and a
  restart reads the same buckets, graph and log back. The two capped stores rest on the locale \<open>keyed_log\<close>.
\<close>

section \<open>The trees\<close>

definition on_disk :: "'r nested \<Rightarrow> ScopeKey \<Rightarrow> string \<Rightarrow> 'r option" where
  "on_disk tree sc k = (case map_of (scope_bucket tree sc) k of Some (Decodes r) \<Rightarrow> Some r | _ \<Rightarrow> None)"

definition readable :: "(string \<times> 'r stored) list \<Rightarrow> bool" where
  "readable kvs \<longleftrightarrow> distinct (map fst kvs) \<and> (\<forall>k. (k, Garbled) \<notin> set kvs)"

definition clean :: "'r nested \<Rightarrow> bool" where
  "clean tree \<longleftrightarrow> distinct (map fst tree) \<and> (\<forall>sc kvs. (sc, kvs) \<in> set tree \<longrightarrow> readable kvs)"

lemma clean_bucket: "clean tree \<Longrightarrow> readable (scope_bucket tree sc)"
  by (auto simp: clean_def readable_def scope_bucket_def split: option.split dest!: map_of_SomeD)

lemma clean_write: "clean tree \<Longrightarrow> clean (write_nested tree w)"
proof -
  assume c: "clean tree"
  obtain sc key v where w: "w = (sc, key, v)" by (cases w)
  define b where "b = (case v of None \<Rightarrow> AList.delete key (scope_bucket tree sc) | Some r \<Rightarrow> AList.update key (Decodes r) (scope_bucket tree sc))"
  have "readable b"
    using clean_bucket[OF c, of sc] by (auto simp: b_def readable_def distinct_update AList.delete_eq AList_update_mem distinct_map_filter split: option.split if_splits)
  moreover have "write_nested tree w = AList.update sc b tree" by (simp add: w write_nested_def b_def)
  ultimately show ?thesis using c by (auto simp: clean_def distinct_update AList_update_mem split: if_splits)
qed

lemma on_disk_write: "on_disk (write_nested tree (sc, key, v)) sc' k = (if sc' = sc \<and> k = key then v else on_disk tree sc' k)"
  by (cases v) (auto simp: on_disk_def write_nested_def scope_bucket_def AList.update_conv' AList.delete_conv')

lemma writes_on_disk:
  assumes "clean tree"
  shows "clean (foldl write_nested tree (map (\<lambda>(sc, k). (sc, k, mem sc k)) ds)) \<and>
    on_disk (foldl write_nested tree (map (\<lambda>(sc, k). (sc, k, mem sc k)) ds)) sc k = (if (sc, k) \<in> set ds then mem sc k else on_disk tree sc k)"
  using assms
proof (induction ds arbitrary: tree)
  case (Cons e ds)
  obtain s key where e: "e = (s, key)" by (cases e)
  show ?case using Cons.IH[OF clean_write[OF Cons.prems, of "(s, key, mem s key)"]] by (auto simp: e on_disk_write)
qed simp

section \<open>The stores of a tick\<close>

lemma get_or_update [simp]: "get_or x (AList.update sc v m) sc' = (if sc' = sc then v else get_or x m sc')"
  by (simp add: get_or_def AList.update_conv')

lemma set_mark [simp]: "set (mark sc ks dirty) = {sc} \<times> set ks \<union> set dirty"
  by (induction ks arbitrary: dirty) (auto simp: mark_def)

definition dirty_of :: "(ScopeKey \<times> string) list \<Rightarrow> ScopeKey \<Rightarrow> string set" where
  "dirty_of ds sc = {k. (sc, k) \<in> set ds}"

lemma dirty_of_mark [simp]: "dirty_of (mark sc ks ds) sc' = (if sc' = sc then set ks \<union> dirty_of ds sc' else dirty_of ds sc')"
  by (auto simp: dirty_of_def)

definition bucket_inv :: "observe_DB \<Rightarrow> observer \<Rightarrow> bool" where
  "bucket_inv d a \<longleftrightarrow> 
     (\<forall>sc k. (sc, k) \<in> set (ag_dirty a) \<longrightarrow> (\<exists>g. bucket_mem a sc k = Some g)) \<and> (\<forall>sc k. (sc, k) \<notin> set (ag_dirty a) \<longrightarrow> on_disk (db_baseline d) sc k = bucket_mem a sc k)"

definition topo_inv :: "nat \<Rightarrow> observe_DB \<Rightarrow> observer \<Rightarrow> bool" where
  "topo_inv n d a \<longleftrightarrow> distinct (map fst (ag_topology a)) \<and>
     (\<forall>sc. topology_ok n (get_or newTopology (ag_topology a) sc) \<and>
       topo.mirrored (on_disk (db_topology d) sc) (dirty_of (ag_dirtyTopo a) sc) (get_or newTopology (ag_topology a) sc))"

definition deviant_inv :: "nat \<Rightarrow> observe_DB \<Rightarrow> observer \<Rightarrow> bool" where
  "deviant_inv n d a \<longleftrightarrow> distinct (map fst (ag_deviants a)) \<and>
     (\<forall>sc. deviants_ok n (get_or [] (ag_deviants a) sc) \<and>
       dev.mirrored (on_disk (db_deviants d) sc) (dirty_of (ag_dirtyDeviants a) sc) (get_or [] (ag_deviants a) sc))"

definition named :: "observer \<Rightarrow> bool" where
  "named a \<longleftrightarrow> (\<forall>(c, lf) \<in> set (ag_live a). lf_scope lf \<noteq> []) \<and> (\<forall>(sc, t) \<in> set (ag_topology a). sc \<noteq> []) \<and> (\<forall>(sc, v) \<in> set (ag_deviants a). sc \<noteq> []) \<and>
     (\<forall>(sc, k) \<in> set (ag_dirty a) \<union> set (ag_dirtyTopo a) \<union> set (ag_dirtyDeviants a). sc \<noteq> [])"

lemma topo_inv_update:
  assumes "topo_inv n d a" "n \<le> m" "topology_ok m t \<and> topo.mirrored (on_disk (db_topology d) sc) (set ks \<union> dirty_of (ag_dirtyTopo a) sc) t"
    and "ag_topology b = AList.update sc t (ag_topology a)" "ag_dirtyTopo b = mark sc ks (ag_dirtyTopo a)"
  shows "topo_inv m d b"
  using assms by (auto simp: topo_inv_def distinct_update topology_ok_def intro: keyed_ok_mono)

lemma deviant_inv_update:
  assumes "deviant_inv n d a" "n \<le> m" "deviants_ok m t \<and> dev.mirrored (on_disk (db_deviants d) sc) (set ks \<union> dirty_of (ag_dirtyDeviants a) sc) t"
    and "ag_deviants b = AList.update sc t (ag_deviants a)" "ag_dirtyDeviants b = mark sc ks (ag_dirtyDeviants a)"
  shows "deviant_inv m d b"
  using assms by (auto simp: deviant_inv_def distinct_update deviants_ok_def intro: keyed_ok_mono)

lemma inv_mono: "topo_inv n d a \<Longrightarrow> n \<le> m \<Longrightarrow> topo_inv m d a" "deviant_inv n d a \<Longrightarrow> n \<le> m \<Longrightarrow> deviant_inv m d a"
  by (auto simp: topo_inv_def deviant_inv_def topology_ok_def deviants_ok_def intro: keyed_ok_mono)

lemma fold_topology_inv:
  assumes i: "topo_inv n d a" and n: "n < 2 ^ 61" and w: "walks_ok (oc_walks cfg)"
  shows "topo_inv (Suc n) d (fold_topology cfg lf fs now a)"
proof (cases "fs_DstPort fs < ephemeralPortFloor")
  case True
  let ?t = "get_or newTopology (ag_topology a) (lf_scope lf)"
  obtain ts ev t where f: "topology_fold (oc_walks cfg) fs now ?t = ((ts, ev), t)" by (metis prod.collapse)
  have u: "topology_upsert (oc_walks cfg) (fs, now) ?t = (ts @ ev, t)" by (simp add: topology_upsert_def f)
  have "topo.mirrored (on_disk (db_topology d) (lf_scope lf)) (dirty_of (ag_dirtyTopo a) (lf_scope lf)) ?t" "topology_ok n ?t" using i by (simp_all add: topo_inv_def)
  from topo.mirrored_upsert[OF this n w u] show ?thesis
    by (intro topo_inv_update[OF i, of "Suc n" t "lf_scope lf" "ts @ ev"]) (simp_all add: fold_topology_def True f)
next
  case False
  then show ?thesis using inv_mono(1)[OF i, of "Suc n"] by (simp add: fold_topology_def topo_inv_def)
qed

lemma captureDeviant_cases:
  "(\<exists>st. st_CompletedFolds st = st_CompletedFolds (ag_stats a) \<and> captureDeviant cfg lf c fs now a = a\<lparr>ag_stats := st\<rparr>) \<or>
   (\<exists>feat touched evicted dv st. deviants_fold (oc_walk_deviants cfg) fs c feat 0 now (get_or [] (ag_deviants a) (lf_scope lf)) = ((touched, evicted), dv) \<and>
      st_CompletedFolds st = st_CompletedFolds (ag_stats a) \<and>
      captureDeviant cfg lf c fs now a = a\<lparr>ag_deviants := AList.update (lf_scope lf) dv (ag_deviants a),
        ag_dirtyDeviants := mark (lf_scope lf) (touched # evicted) (ag_dirtyDeviants a), ag_stats := st\<rparr>)"
  (is "?none \<or> ?logged")
proof -
  have same: "?none" if "captureDeviant cfg lf c fs now a = a" using that by (intro exI[of _ "ag_stats a"]) simp
  let ?armed = "case oc_Armed cfg of None \<Rightarrow> False | Some armed \<Rightarrow> armed (lf_scope lf) c"
  consider "?armed" | "\<not> ?armed" "\<not> ag_scopeLive a (lf_scope lf)" | "\<not> ?armed" "ag_scopeLive a (lf_scope lf)" by blast
  then show ?thesis
  proof cases
    case 1
    then show ?thesis using same by (simp add: captureDeviant_def Let_def)
  next
    case 2
    then show ?thesis by (intro disjI1 exI[of _ "(ag_stats a)\<lparr>st_DeviantsSkippedNotLive := st_DeviantsSkippedNotLive (ag_stats a) + 1\<rparr>"]) (simp add: captureDeviant_def Let_def)
  next
    case 3
    note c = captureDeviant_def[of cfg lf c fs now a, unfolded Let_def, simplified 3 if_False not_True_eq_False]
    show ?thesis
    proof (cases "captureDeviant cfg lf c fs now a = a")
      case False
      then obtain bs agg where b: "map_of (ag_aggregates a) (lf_scope lf) = Some bs" "map_of bs (lf_bucket lf) = Some agg" "bucketSufficient (oc_Floor cfg) agg"
        "\<not> fst (snd (peakNoveltyDim (deriveFeatures (oc_ln1p cfg) agg fs (df_MinP2Samples (oc_Floor cfg))))) < deviantFloor"
        by (auto simp: c split: option.splits if_splits)
      let ?f = "deriveFeatures (oc_ln1p cfg) agg fs (df_MinP2Samples (oc_Floor cfg))"
      obtain touched evicted dv where f: "deviants_fold (oc_walk_deviants cfg) fs c ?f 0 now (get_or [] (ag_deviants a) (lf_scope lf)) = ((touched, evicted), dv)"
        by (metis prod.collapse)
      show ?thesis
        by (intro disjI2 exI[of _ ?f] exI[of _ touched] exI[of _ evicted] exI[of _ dv] exI[of _ "(ag_stats a)\<lparr>st_DeviantsEvicted := st_DeviantsEvicted (ag_stats a) + length evicted\<rparr>"])
          (simp add: c b f)
    qed (use same in blast)
  qed
qed

lemma fold_bucket_stores:
  fixes cfg lf fs a defines "b \<equiv> fold_bucket cfg lf fs a"
  shows "ag_topology b = ag_topology a" "ag_dirtyTopo b = ag_dirtyTopo a" "ag_deviants b = ag_deviants a" "ag_dirtyDeviants b = ag_dirtyDeviants a"
    "ag_stats b = ag_stats a" "ag_live b = ag_live a" "ag_dirty b = mark (lf_scope lf) [lf_bucket lf] (ag_dirty a)"
  by (simp_all add: b_def fold_bucket_def Let_def)

lemma fold_topology_stores:
  fixes cfg lf fs now a defines "b \<equiv> fold_topology cfg lf fs now a"
  shows "ag_aggregates b = ag_aggregates a" "ag_dirty b = ag_dirty a" "ag_deviants b = ag_deviants a" "ag_dirtyDeviants b = ag_dirtyDeviants a" "ag_live b = ag_live a"
    "st_CompletedFolds (ag_stats b) = st_CompletedFolds (ag_stats a)"
    "(ag_topology b = ag_topology a \<or> (\<exists>t. ag_topology b = AList.update (lf_scope lf) t (ag_topology a))) \<and> set (ag_dirtyTopo b) \<subseteq> {lf_scope lf} \<times> UNIV \<union> set (ag_dirtyTopo a)"
  by (auto simp: b_def fold_topology_def split: prod.split)

lemma captureDeviant_stores:
  fixes cfg lf c fs now a defines "b \<equiv> captureDeviant cfg lf c fs now a"
  shows "ag_aggregates b = ag_aggregates a" "ag_dirty b = ag_dirty a" "ag_topology b = ag_topology a" "ag_dirtyTopo b = ag_dirtyTopo a" "ag_live b = ag_live a"
    "st_CompletedFolds (ag_stats b) = st_CompletedFolds (ag_stats a)"
    "(ag_deviants b = ag_deviants a \<or> (\<exists>t. ag_deviants b = AList.update (lf_scope lf) t (ag_deviants a))) \<and> set (ag_dirtyDeviants b) \<subseteq> {lf_scope lf} \<times> UNIV \<union> set (ag_dirtyDeviants a)"
  using captureDeviant_cases[of a cfg lf c fs now] unfolding b_def[symmetric] by (elim disjE exE conjE; auto)+

lemma captureDeviant_inv:
  assumes i: "deviant_inv n d a" and n: "n < 2 ^ 61" and w: "enumeration (oc_walk_deviants cfg)"
  shows "deviant_inv (Suc n) d (captureDeviant cfg lf c fs now a)"
  using captureDeviant_cases[of a cfg lf c fs now]
proof (elim disjE exE conjE)
  fix st assume "captureDeviant cfg lf c fs now a = a\<lparr>ag_stats := st\<rparr>"
  then show ?thesis using inv_mono(2)[OF i, of "Suc n"] by (simp add: deviant_inv_def)
next
  fix feat touched evicted dv st
  let ?v = "get_or [] (ag_deviants a) (lf_scope lf)"
  assume f: "deviants_fold (oc_walk_deviants cfg) fs c feat 0 now ?v = ((touched, evicted), dv)"
    and b: "captureDeviant cfg lf c fs now a = a\<lparr>ag_deviants := AList.update (lf_scope lf) dv (ag_deviants a),
        ag_dirtyDeviants := mark (lf_scope lf) (touched # evicted) (ag_dirtyDeviants a), ag_stats := st\<rparr>"
  have u: "deviants_upsert (oc_walk_deviants cfg) (fs, c, feat, 0, now) ?v = (touched # evicted, dv)" by (simp add: deviants_upsert_def f)
  have "dev.mirrored (on_disk (db_deviants d) (lf_scope lf)) (dirty_of (ag_dirtyDeviants a) (lf_scope lf)) ?v" "deviants_ok n ?v" using i by (simp_all add: deviant_inv_def)
  from dev.mirrored_upsert[OF this n w u] show ?thesis
    by (intro deviant_inv_update[OF i, of "Suc n" dv "lf_scope lf" "touched # evicted"]) (simp_all add: b)
qed

lemma fold_bucket_inv: "bucket_inv d a \<Longrightarrow> bucket_inv d (fold_bucket cfg lf fs a)"
  by (auto simp: bucket_inv_def fold_bucket_def bucket_mem_def Let_def AList.update_conv')

definition copied :: "observe_DB \<Rightarrow> observer \<Rightarrow> bool" where
  "copied d a \<longleftrightarrow> (let n = st_CompletedFolds (ag_stats a) in n \<le> 2 ^ 61 \<longrightarrow> bucket_inv d a \<and> topo_inv n d a \<and> deviant_inv n d a)"

lemma copied_cong:
  assumes "ag_aggregates b = ag_aggregates a" "ag_dirty b = ag_dirty a" "ag_topology b = ag_topology a" "ag_dirtyTopo b = ag_dirtyTopo a"
    "ag_deviants b = ag_deviants a" "ag_dirtyDeviants b = ag_dirtyDeviants a" "st_CompletedFolds (ag_stats b) = st_CompletedFolds (ag_stats a)"
  shows "copied d b = copied d a"
  using assms by (simp add: copied_def bucket_inv_def topo_inv_def deviant_inv_def bucket_mem_def)

lemma foldCompleted_copied:
  assumes i: "copied d a" and w: "walks_ok (oc_walks cfg)" "enumeration (oc_walk_deviants cfg)"
  shows "copied d (foldCompleted cfg lf c fs now a)"
proof (cases "case ag_excluder a of None \<Rightarrow> False | Some ms \<Rightarrow> excludedFlow ms (lf_scope lf) fs")
  case True
  then show ?thesis using i copied_cong[of "foldCompleted cfg lf c fs now a" a d] by (simp add: foldCompleted_def)
next
  case False
  define b where "b = fold_bucket cfg lf fs a"
  define t where "t = fold_topology cfg lf fs now b"
  define v where "v = captureDeviant cfg lf c fs now t"
  have f: "foldCompleted cfg lf c fs now a = count_fold (lf_scope lf) now v" using False by (simp add: foldCompleted_def v_def t_def b_def)
  let ?n = "st_CompletedFolds (ag_stats a)"
  note bs = fold_bucket_stores[of cfg lf fs a, folded b_def] and ts = fold_topology_stores[of cfg lf fs now b, folded t_def] and vs = captureDeviant_stores[of cfg lf c fs now t, folded v_def]
  show ?thesis unfolding copied_def Let_def
  proof (intro impI)
    assume "st_CompletedFolds (ag_stats (foldCompleted cfg lf c fs now a)) \<le> 2 ^ 61"
    then have n: "?n < 2 ^ 61" using bs ts vs by (simp add: f count_fold_def)
    then have j: "bucket_inv d a" "topo_inv ?n d a" "deviant_inv ?n d a" using i by (simp_all add: copied_def Let_def)
    have "bucket_inv d v" using fold_bucket_inv[OF j(1), of cfg lf fs, folded b_def] ts vs by (simp add: bucket_inv_def bucket_mem_def)
    moreover have "topo_inv (Suc ?n) d v"
      using fold_topology_inv[of ?n d b cfg lf fs now, folded t_def, OF _ n w(1)] j(2) bs vs by (simp add: topo_inv_def)
    moreover have "deviant_inv (Suc ?n) d v"
      using captureDeviant_inv[of ?n d t cfg lf c fs now, folded v_def, OF _ n w(2)] j(3) bs ts by (simp add: deviant_inv_def)
    ultimately show "bucket_inv d (foldCompleted cfg lf c fs now a) \<and> topo_inv (st_CompletedFolds (ag_stats (foldCompleted cfg lf c fs now a))) d (foldCompleted cfg lf c fs now a) \<and>
        deviant_inv (st_CompletedFolds (ag_stats (foldCompleted cfg lf c fs now a))) d (foldCompleted cfg lf c fs now a)"
      using bs ts vs by (simp add: f count_fold_def bucket_inv_def bucket_mem_def topo_inv_def deviant_inv_def)
  qed
qed

lemma fold_entry_copied:
  assumes i: "copied d a" and w: "walks_ok (oc_walks cfg)" "enumeration (oc_walk_deviants cfg)"
  shows "copied d (fold_entry cfg now a e)"
proof -
  obtain c fs where e: "e = (c, fs)" by (cases e)
  have cf: "copied d (complete_flow cfg now c fs lf b)" if "copied d b" for lf b
    using foldCompleted_copied[OF that w, of lf c fs now] that copied_cong[of "complete_flow cfg now c fs lf b" "foldCompleted cfg lf c fs now b" d]
    by (cases "fs_Closed fs = 0") (simp_all add: complete_flow_def)
  have "copied d (fold_entry cfg now a (c, fs))"
  proof (cases rule: fold_entry_cases[of c a cfg now fs])
    case (unknown err)
    then show ?thesis using i copied_cong[of "fold_entry cfg now a (c, fs)" a d] by simp
  next
    case (new sc)
    then show ?thesis using i copied_cong[of "a\<lparr>ag_live := AList.update c (track cfg now sc) (ag_live a)\<rparr>" a d] by (simp add: cf)
  qed (use i cf in simp_all)
  then show ?thesis by (simp add: e)
qed

section \<open>Scopes have names\<close>

lemma set_update_keys: "x \<in> set (AList.update k v m) \<Longrightarrow> x = (k, v) \<or> x \<in> set m"
  by (induction m) (auto split: if_splits)

definition scopes_of :: "observer \<Rightarrow> ScopeKey set" where
  "scopes_of a = lf_scope ` snd ` set (ag_live a) \<union> fst ` set (ag_topology a) \<union> fst ` set (ag_deviants a) \<union>
     fst ` (set (ag_dirty a) \<union> set (ag_dirtyTopo a) \<union> set (ag_dirtyDeviants a))"

lemma foldCompleted_scopes: "scopes_of (foldCompleted cfg lf c fs now a) \<subseteq> insert (lf_scope lf) (scopes_of a)"
proof -
  define b where "b = fold_bucket cfg lf fs a"
  define t where "t = fold_topology cfg lf fs now b"
  define v where "v = captureDeviant cfg lf c fs now t"
  note bs = fold_bucket_stores[of cfg lf fs a, folded b_def] and ts = fold_topology_stores[of cfg lf fs now b, folded t_def] and vs = captureDeviant_stores[of cfg lf c fs now t, folded v_def]
  have "fst ` set (ag_topology t) \<subseteq> insert (lf_scope lf) (fst ` set (ag_topology b))" "fst ` set (ag_deviants v) \<subseteq> insert (lf_scope lf) (fst ` set (ag_deviants t))"
    using conjunct1[OF ts(7)] conjunct1[OF vs(7)] by (elim disjE exE; simp add: dom_update subset_insertI)+
  moreover have "fst ` set (ag_dirtyTopo t) \<subseteq> insert (lf_scope lf) (fst ` set (ag_dirtyTopo b))" "fst ` set (ag_dirtyDeviants v) \<subseteq> insert (lf_scope lf) (fst ` set (ag_dirtyDeviants t))"
    using conjunct2[OF ts(7)] conjunct2[OF vs(7)] by force+
  moreover have "fst ` set (ag_dirty b) \<subseteq> insert (lf_scope lf) (fst ` set (ag_dirty a))" by (auto simp: bs)
  ultimately have "scopes_of v \<subseteq> insert (lf_scope lf) (scopes_of a)" unfolding scopes_of_def image_Un using bs(1-6) ts(1-6) vs(1-6) by auto
  moreover have "scopes_of (count_fold sc now v) = scopes_of v" for sc by (simp add: scopes_of_def count_fold_def)
  moreover have "scopes_of (a\<lparr>ag_stats := st\<rparr>) = scopes_of a" for st by (simp add: scopes_of_def)
  ultimately show ?thesis by (auto simp: foldCompleted_def v_def t_def b_def)
qed

lemma scopes_of_tracking: "scopes_of (a\<lparr>ag_live := AList.update c lf (ag_live a)\<rparr>) \<subseteq> insert (lf_scope lf) (scopes_of a)"
  by (auto simp: scopes_of_def dest!: set_update_keys)

lemma complete_flow_scopes: "scopes_of (complete_flow cfg now c fs lf a) \<subseteq> insert (lf_scope lf) (scopes_of a)"
proof -
  have "scopes_of (b\<lparr>ag_folded := f, ag_live := AList.delete c (ag_live b)\<rparr>) \<subseteq> scopes_of b" for b f
    by (auto simp: scopes_of_def AList.delete_eq)
  from this[of "foldCompleted cfg lf c fs now a"] foldCompleted_scopes[of cfg lf c fs now a] show ?thesis by (auto simp: complete_flow_def)
qed

lemma fold_entry_named:
  assumes "[] \<notin> scopes_of a" "\<forall>f sc. oc_Resolve cfg f = Inr sc \<longrightarrow> sc \<noteq> []" shows "[] \<notin> scopes_of (fold_entry cfg now a e)"
proof -
  obtain c fs where e: "e = (c, fs)" by (cases e)
  have "[] \<notin> scopes_of (fold_entry cfg now a (c, fs))"
  proof (cases rule: fold_entry_cases[of c a cfg now fs])
    case (tracked lf)
    have "(c, lf) \<in> set (ag_live a)" using tracked(3) by (rule map_of_SomeD)
    then have "lf_scope lf \<in> lf_scope ` snd ` set (ag_live a)" by force
    then have "lf_scope lf \<in> scopes_of a" by (simp add: scopes_of_def)
    then show ?thesis using tracked(4) assms(1) complete_flow_scopes[of cfg now c fs lf a] by auto
  next
    case (unknown err)
    then show ?thesis using assms(1) by (simp add: scopes_of_def)
  next
    case (new sc)
    then have "sc \<noteq> []" using assms(2) by blast
    then show ?thesis using new(5) assms(1) complete_flow_scopes[of cfg now c fs "track cfg now sc"] scopes_of_tracking[where a = a and c = c and lf = "track cfg now sc"]
      by (auto simp: track_def)
  qed (use assms in simp)
  then show ?thesis by (simp add: e)
qed

section \<open>A tick\<close>

lemma reap_topologies_copied:
  assumes "topo_inv n d a" "map_of (ag_topology a) sc = Some t" shows "topo_inv n d (reap_topologies cfg now a (sc, t))"
proof -
  obtain ks t' where r: "topology_reap now (oc_TopologyTTL cfg) t = (ks, t')" by fastforce
  have "topo.mirrored (on_disk (db_topology d) sc) (dirty_of (ag_dirtyTopo a) sc) t" "topology_ok n t"
    using assms(1) assms(2) unfolding topo_inv_def by (metis get_or_def option.simps(5))+
  from topo.mirrored_expire[OF this r] show ?thesis
    by (intro topo_inv_update[OF assms(1) order_refl, of t' sc ks]) (simp_all add: reap_topologies_def r)
qed

lemma reap_deviants_copied:
  assumes "deviant_inv n d a" "map_of (ag_deviants a) sc = Some t" shows "deviant_inv n d (reap_deviants cfg now a (sc, t))"
proof -
  obtain ks t' where r: "deviants_reap now (oc_DeviantTTL cfg) t = (ks, t')" by fastforce
  have "dev.mirrored (on_disk (db_deviants d) sc) (dirty_of (ag_dirtyDeviants a) sc) t" "deviants_ok n t"
    using assms(1) assms(2) unfolding deviant_inv_def by (metis get_or_def option.simps(5))+
  from dev.mirrored_expire[OF this r] show ?thesis
    by (intro deviant_inv_update[OF assms(1) order_refl, of t' sc ks]) (simp_all add: reap_deviants_def r)
qed

lemma reap_all_topologies:
  "topo_inv n d a \<Longrightarrow> distinct (map fst L) \<Longrightarrow> (\<forall>(sc, t) \<in> set L. map_of (ag_topology a) sc = Some t) \<Longrightarrow> topo_inv n d (foldl (reap_topologies cfg now) a L)"
proof (induction L arbitrary: a)
  case (Cons e L)
  obtain sc t where e: "e = (sc, t)" by (cases e)
  have "\<forall>(s, u) \<in> set L. map_of (ag_topology (reap_topologies cfg now a e)) s = Some u"
    using Cons.prems(2,3) by (force simp: e reap_topologies_def AList.update_conv' split: prod.split)
  then show ?case using Cons.IH[OF reap_topologies_copied[OF Cons.prems(1), of sc t cfg now]] Cons.prems(2,3) by (simp add: e)
qed simp

lemma reap_all_deviants:
  "deviant_inv n d a \<Longrightarrow> distinct (map fst L) \<Longrightarrow> (\<forall>(sc, t) \<in> set L. map_of (ag_deviants a) sc = Some t) \<Longrightarrow> deviant_inv n d (foldl (reap_deviants cfg now) a L)"
proof (induction L arbitrary: a)
  case (Cons e L)
  obtain sc t where e: "e = (sc, t)" by (cases e)
  have "\<forall>(s, u) \<in> set L. map_of (ag_deviants (reap_deviants cfg now a e)) s = Some u"
    using Cons.prems(2,3) by (force simp: e reap_deviants_def AList.update_conv' split: prod.split)
  then show ?case using Cons.IH[OF reap_deviants_copied[OF Cons.prems(1), of sc t cfg now]] Cons.prems(2,3) by (simp add: e)
qed simp

definition topo_part :: "observer \<Rightarrow> (ScopeKey \<times> topology) list \<times> (ScopeKey \<times> string) list" where
  "topo_part a = (ag_topology a, ag_dirtyTopo a)"

definition deviant_part :: "observer \<Rightarrow> (ScopeKey \<times> deviants) list \<times> (ScopeKey \<times> string) list" where
  "deviant_part a = (ag_deviants a, ag_dirtyDeviants a)"

definition bucket_part :: "observer \<Rightarrow> (ScopeKey \<times> bucket_map) list \<times> (ScopeKey \<times> string) list \<times> nat" where
  "bucket_part a = (ag_aggregates a, ag_dirty a, st_CompletedFolds (ag_stats a))"

lemma reap_parts:
  "deviant_part (reap_topologies cfg now a e) = deviant_part a" "bucket_part (reap_topologies cfg now a e) = bucket_part a"
  "topo_part (reap_deviants cfg now a v) = topo_part a" "bucket_part (reap_deviants cfg now a v) = bucket_part a"
  "topo_part (set_gates cfg now a g) = topo_part a" "deviant_part (set_gates cfg now a g) = deviant_part a" "bucket_part (set_gates cfg now a g) = bucket_part a"
  "topo_part (prune s a) = topo_part a" "deviant_part (prune s a) = deviant_part a" "bucket_part (prune s a) = bucket_part a"
  by (simp_all add: reap_topologies_def reap_deviants_def set_gates_def prune_def topo_part_def deviant_part_def bucket_part_def Let_def split: prod.split)

lemma parts_cong:
  "topo_part b = topo_part a \<Longrightarrow> topo_inv n d b = topo_inv n d a" "deviant_part b = deviant_part a \<Longrightarrow> deviant_inv n d b = deviant_inv n d a"
  "bucket_part b = bucket_part a \<Longrightarrow> bucket_inv d b = bucket_inv d a"
  by (simp_all add: topo_part_def deviant_part_def bucket_part_def topo_inv_def deviant_inv_def bucket_inv_def bucket_mem_def)

lemma settle_copied:
  assumes "copied d a" shows "copied d (settle cfg now (prune s a))"
proof -
  define a2 where "a2 = foldl (set_gates cfg now) (prune s a) (ag_aggregates (prune s a))"
  define a3 where "a3 = foldl (reap_topologies cfg now) a2 (ag_topology a2)"
  define a4 where "a4 = foldl (reap_deviants cfg now) a3 (ag_deviants a3)"
  have 2: "topo_part a2 = topo_part a" "deviant_part a2 = deviant_part a" "bucket_part a2 = bucket_part a"
    by (simp_all add: a2_def foldl_frame[where f = topo_part] foldl_frame[where f = deviant_part] foldl_frame[where f = bucket_part] reap_parts)
  have 3: "deviant_part a3 = deviant_part a" "bucket_part a3 = bucket_part a"
    by (simp_all add: a3_def foldl_frame[where f = deviant_part] foldl_frame[where f = bucket_part] reap_parts 2)
  have 4: "topo_part a4 = topo_part a3" "bucket_part a4 = bucket_part a"
    by (simp_all add: a4_def foldl_frame[where f = topo_part] foldl_frame[where f = bucket_part] reap_parts 3)
  have s: "settle cfg now (prune s a) = a4" by (simp add: settle_def Let_def a2_def a3_def a4_def)
  let ?n = "st_CompletedFolds (ag_stats a)"
  have n: "st_CompletedFolds (ag_stats a4) = ?n" using 4 by (simp add: bucket_part_def)
  show ?thesis unfolding s copied_def Let_def n
  proof (intro impI conjI)
    assume "?n \<le> 2 ^ 61"
    then have i: "bucket_inv d a" "topo_inv ?n d a" "deviant_inv ?n d a" using assms by (simp_all add: copied_def Let_def)
    show "bucket_inv d a4" using i(1) parts_cong(3)[OF 4(2)] by simp
    have t2: "topo_inv ?n d a2" "deviant_inv ?n d a3" using i parts_cong(1)[OF 2(1)] parts_cong(2)[OF 3(1)] by simp_all
    have "topo_inv ?n d a3" unfolding a3_def
      using t2(1) by (intro reap_all_topologies) (auto simp: topo_inv_def)
    then show "topo_inv ?n d a4" using parts_cong(1)[OF 4(1)] by simp
    show "deviant_inv ?n d a4" unfolding a4_def
      using t2(2) by (intro reap_all_deviants) (auto simp: deviant_inv_def)
  qed
qed

lemma mark_scopes: "fst ` set (mark sc ks ds) \<subseteq> insert sc (fst ` set ds)"
  by auto

lemma reap_scopes:
  "scopes_of (reap_topologies cfg now a (sc, t)) \<subseteq> insert sc (scopes_of a)" "scopes_of (reap_deviants cfg now a (sc, v)) \<subseteq> insert sc (scopes_of a)"
  by (auto simp: reap_topologies_def reap_deviants_def scopes_of_def image_Un dom_update simp del: set_mark dest!: subsetD[OF mark_scopes] set_update_keys split: prod.splits)

lemma foldl_scopes:
  assumes "\<And>a sc x. scopes_of (g a (sc, x)) \<subseteq> insert sc (scopes_of a)"
  shows "fst ` set L \<subseteq> S \<Longrightarrow> scopes_of a \<subseteq> S \<Longrightarrow> scopes_of (foldl g a L) \<subseteq> S"
proof (induction L arbitrary: a)
  case (Cons e L)
  have "scopes_of (g a e) \<subseteq> S" using assms[of a "fst e" "snd e"] Cons.prems by auto
  then show ?case using Cons.IH[of "g a e"] Cons.prems(1) by simp
qed simp

lemma settle_scopes: "scopes_of (settle cfg now (prune s a)) \<subseteq> scopes_of a"
proof -
  define a2 where "a2 = foldl (set_gates cfg now) (prune s a) (ag_aggregates (prune s a))"
  define a3 where "a3 = foldl (reap_topologies cfg now) a2 (ag_topology a2)"
  have p: "scopes_of (prune s a) \<subseteq> scopes_of a" by (auto simp: scopes_of_def prune_def)
  have g: "scopes_of (set_gates cfg now b e) = scopes_of b" for b e by (simp add: scopes_of_def set_gates_frame)
  have 2: "scopes_of a2 \<subseteq> scopes_of a" using p by (simp add: a2_def foldl_frame[of _ scopes_of] g)
  have 3: "scopes_of a3 \<subseteq> scopes_of a" unfolding a3_def using 2 by (intro foldl_scopes reap_scopes) (auto simp: scopes_of_def)
  have "scopes_of (foldl (reap_deviants cfg now) a3 (ag_deviants a3)) \<subseteq> scopes_of a" using 3 by (intro foldl_scopes reap_scopes) (auto simp: scopes_of_def)
  then show ?thesis by (simp add: settle_def Let_def a2_def a3_def)
qed

lemma fold_memory_copied:
  assumes "copied d a" "[] \<notin> scopes_of a" "walks_ok (oc_walks cfg)" "enumeration (oc_walk_deviants cfg)" "\<forall>f sc. oc_Resolve cfg f = Inr sc \<longrightarrow> sc \<noteq> []"
  shows "copied d (fold_memory cfg now snap a) \<and> [] \<notin> scopes_of (fold_memory cfg now snap a)"
proof -
  let ?b = "foldl (fold_entry cfg now) a snap"
  have "copied d ?b \<and> [] \<notin> scopes_of ?b"
    using assms by (intro foldl_keeps[of "\<lambda>a. copied d a \<and> [] \<notin> scopes_of a"]) (auto intro: fold_entry_copied dest: fold_entry_named)
  then show ?thesis using settle_copied[of d ?b cfg now "seen_in snap"] settle_scopes[of cfg now "seen_in snap" ?b] unfolding fold_memory_settle by blast
qed

definition clean_db :: "observe_DB \<Rightarrow> bool" where
  "clean_db d \<longleftrightarrow> clean (db_baseline d) \<and> clean (db_topology d) \<and> clean (db_deviants d)"

lemma bucket_writes: "bucket_inv d a \<Longrightarrow> filter (\<lambda>(_, _, v). v \<noteq> None) (map (\<lambda>(sc, k). (sc, k, bucket_mem a sc k)) (ag_dirty a)) = map (\<lambda>(sc, k). (sc, k, bucket_mem a sc k)) (ag_dirty a)"
  by (auto simp: bucket_inv_def filter_id_conv)

lemma take_batch_fields:
  fixes a defines "b \<equiv> fst (take_batch a)"
  shows "ag_dirty b = []" "ag_dirtyTopo b = []" "ag_dirtyDeviants b = []" "ag_topology b = ag_topology a" "ag_deviants b = ag_deviants a" "ag_aggregates b = ag_aggregates a"
    "ag_stats b = ag_stats a" "bucket_mem b = bucket_mem a" "topo_mem b = topo_mem a" "deviant_mem b = deviant_mem a"
  by (simp_all add: b_def take_batch_def bucket_mem_def topo_mem_def deviant_mem_def fun_eq_iff)

text \<open>The database holds what memory holds, and nothing else.\<close>

definition same_content :: "observe_DB \<Rightarrow> observer \<Rightarrow> bool" where
  "same_content d a \<longleftrightarrow> (\<forall>sc k. on_disk (db_baseline d) sc k = bucket_mem a sc k \<and> on_disk (db_topology d) sc k = topo_mem a sc k \<and> on_disk (db_deviants d) sc k = deviant_mem a sc k)"

lemma flush_copied:
  assumes c: "copied d a" and n: "st_CompletedFolds (ag_stats a) \<le> 2 ^ 61" and cl: "clean_db d" and s: "[] \<notin> scopes_of a"
    and t: "take_batch a = (a', b)"
  shows "\<exists>d'. PutBucketsAndHeartbeat False b now d = (True, d') \<and> clean_db d' \<and> same_content d' a' \<and> copied d' a' \<and> [] \<notin> scopes_of a'"
proof -
  let ?n = "st_CompletedFolds (ag_stats a)"
  have i: "bucket_inv d a" "topo_inv ?n d a" "deviant_inv ?n d a" using c n by (simp_all add: copied_def Let_def)
  have a': "a' = fst (take_batch a)" using t by simp
  have b: "bw_buckets b = map (\<lambda>(sc, k). (sc, k, bucket_mem a sc k)) (ag_dirty a)" "bw_topo b = map (\<lambda>(sc, k). (sc, k, topo_mem a sc k)) (ag_dirtyTopo a)"
    "bw_deviants b = map (\<lambda>(sc, k). (sc, k, deviant_mem a sc k)) (ag_dirtyDeviants a)"
    using t bucket_writes[OF i(1)] by (auto simp: take_batch_def)
  have ne: "\<not> list_ex (\<lambda>(sc, _). sc = []) (bw_buckets b)" "\<not> list_ex (\<lambda>(sc, _). sc = []) (bw_topo b)" "\<not> list_ex (\<lambda>(sc, _). sc = []) (bw_deviants b)"
    using s by (force simp: b list_ex_iff scopes_of_def)+
  define d' where "d' = snd (PutBucketsAndHeartbeat False b now d)"
  have p: "PutBucketsAndHeartbeat False b now d = (True, d')" using ne by (simp add: PutBucketsAndHeartbeat_def d'_def)
  have d': "db_baseline d' = foldl write_nested (db_baseline d) (bw_buckets b)" "db_topology d' = foldl write_nested (db_topology d) (bw_topo b)"
    "db_deviants d' = foldl write_nested (db_deviants d) (bw_deviants b)"
    using ne by (simp_all add: PutBucketsAndHeartbeat_def d'_def)
  have c3: "clean (db_baseline d)" "clean (db_topology d)" "clean (db_deviants d)" using cl by (simp_all add: clean_db_def)
  note ws = writes_on_disk[OF c3(1), of "bucket_mem a" "ag_dirty a", folded b(1) d'(1)] writes_on_disk[OF c3(2), of "topo_mem a" "ag_dirtyTopo a", folded b(2) d'(2)]
    writes_on_disk[OF c3(3), of "deviant_mem a" "ag_dirtyDeviants a", folded b(3) d'(3)]
  have cl': "clean_db d'" using ws by (simp add: clean_db_def)
  have w: "on_disk (db_baseline d') sc k = (if (sc, k) \<in> set (ag_dirty a) then bucket_mem a sc k else on_disk (db_baseline d) sc k)"
    "on_disk (db_topology d') sc k = (if (sc, k) \<in> set (ag_dirtyTopo a) then topo_mem a sc k else on_disk (db_topology d) sc k)"
    "on_disk (db_deviants d') sc k = (if (sc, k) \<in> set (ag_dirtyDeviants a) then deviant_mem a sc k else on_disk (db_deviants d) sc k)" for sc k
    using ws by simp_all
  have t': "on_disk (db_topology d') sc = topo_mem a sc" "on_disk (db_deviants d') sc = deviant_mem a sc" for sc
  proof -
    have e: "on_disk (db_topology d') sc = (\<lambda>k. if k \<in> dirty_of (ag_dirtyTopo a) sc then topology_blobForKey (get_or newTopology (ag_topology a) sc) k else on_disk (db_topology d) sc k)"
      "on_disk (db_deviants d') sc = (\<lambda>k. if k \<in> dirty_of (ag_dirtyDeviants a) sc then map_of (get_or [] (ag_deviants a) sc) k else on_disk (db_deviants d) sc k)"
      by (rule ext, simp add: w dirty_of_def topo_mem_def deviant_mem_def)+
    have m: "topo.mirrored (on_disk (db_topology d) sc) (dirty_of (ag_dirtyTopo a) sc) (get_or newTopology (ag_topology a) sc)"
      "dev.mirrored (on_disk (db_deviants d) sc) (dirty_of (ag_dirtyDeviants a) sc) (get_or [] (ag_deviants a) sc)"
      using i(2,3) unfolding topo_inv_def deviant_inv_def by blast+
    show "on_disk (db_topology d') sc = topo_mem a sc" unfolding e(1) topo.mirrored_flush[OF m(1)] by (simp add: topo_mem_def fun_eq_iff)
    show "on_disk (db_deviants d') sc = deviant_mem a sc" unfolding e(2) dev.mirrored_flush[OF m(2)] by (simp add: deviant_mem_def fun_eq_iff)
  qed
  have sc: "same_content d' a'" using i(1) by (simp add: same_content_def a' take_batch_fields t' w bucket_inv_def)
  moreover have "copied d' a'"
    using i sc by (simp add: copied_def Let_def a' take_batch_fields bucket_inv_def topo_inv_def deviant_inv_def same_content_def dirty_of_def
        topo.mirrored_def dev.mirrored_def topo_mem_def deviant_mem_def)
  moreover have "[] \<notin> scopes_of a'" using s by (auto simp: a' scopes_of_def take_batch_def)
  ultimately show ?thesis using p cl' by blast
qed

section \<open>A run, then a restart\<close>

lemma copied_start:
  "copied \<lparr>db_baseline = [], db_topology = [], db_deviants = [], db_malicious = ml, db_lastSeen = hb\<rparr> (observer_New ex g)"
  by (simp add: copied_def observer_New_def zero_stats_def bucket_inv_def topo_inv_def deviant_inv_def on_disk_def scope_bucket_def bucket_mem_def get_or_def
      topo.mirrored_def dev.mirrored_def topology_ok_def deviants_ok_def newTopology_def topology_blobForKey_def split: list.split)

lemma completed_mono: "st_CompletedFolds (ag_stats a) \<le> st_CompletedFolds (ag_stats (fst (foldLocked cfg now snap a)))"
proof -
  have c: "st_CompletedFolds (ag_stats b) \<le> st_CompletedFolds (ag_stats (foldCompleted cfg lf c fs now b))" for lf c fs b
  proof -
    note bs = fold_bucket_stores[of cfg lf fs b] and ts = fold_topology_stores[of cfg lf fs now "fold_bucket cfg lf fs b"]
      and vs = captureDeviant_stores[of cfg lf c fs now "fold_topology cfg lf fs now (fold_bucket cfg lf fs b)"]
    show ?thesis by (simp add: foldCompleted_def count_fold_def bs ts vs split: option.split)
  qed
  have e: "st_CompletedFolds (ag_stats b) \<le> st_CompletedFolds (ag_stats (fold_entry cfg now b (k, fs)))" for b k fs
    by (cases rule: fold_entry_cases[of k b cfg now fs]) (simp_all add: complete_flow_def order_trans[OF _ c])
  have "st_CompletedFolds (ag_stats a) \<le> st_CompletedFolds (ag_stats (foldl (fold_entry cfg now) a snap))"
    by (rule foldl_keeps[of "\<lambda>b. st_CompletedFolds (ag_stats a) \<le> st_CompletedFolds (ag_stats b)"]) (auto intro: order_trans[OF _ e])
  moreover have "st_CompletedFolds (ag_stats (settle cfg now (prune s b))) = st_CompletedFolds (ag_stats b)" for s b
  proof -
    have "bucket_part (settle cfg now (prune s b)) = bucket_part b"
      by (simp add: settle_def Let_def foldl_frame[where f = bucket_part] reap_parts)
    then show ?thesis by (simp add: bucket_part_def)
  qed
  ultimately show ?thesis by (simp add: foldLocked_def take_batch_fields fold_memory_settle)
qed

lemma run_copied:
  assumes "\<forall>t \<in> set ticks. \<not> fst t" "walks_ok (oc_walks cfg)" "enumeration (oc_walk_deviants cfg)" "\<forall>f sc. oc_Resolve cfg f = Inr sc \<longrightarrow> sc \<noteq> []"
    and "copied d a" "clean_db d" "same_content d a" "[] \<notin> scopes_of a"
    and "st_CompletedFolds (ag_stats (fst (run_ticks cfg ticks (a, Some d)))) \<le> 2 ^ 61"
  shows "\<exists>d'. snd (run_ticks cfg ticks (a, Some d)) = Some d' \<and> clean_db d' \<and> same_content d' (fst (run_ticks cfg ticks (a, Some d)))"
  using assms(1,5-9)
proof (induction ticks arbitrary: a d)
  case Nil
  then show ?case by (simp add: run_ticks_def)
next
  case (Cons t ticks)
  obtain now snap where t: "t = (False, now, snap)" using Cons.prems(1) by (cases t) auto
  let ?m = "fold_memory cfg now snap a"
  obtain a' b where ab: "take_batch ?m = (a', b)" by fastforce
  have l: "foldLocked cfg now snap a = (a', b)" by (simp add: foldLocked_def ab)
  have m: "copied d ?m" "[] \<notin> scopes_of ?m" using fold_memory_copied[OF Cons.prems(2,5) assms(2-4)] by blast+
  have grows: "st_CompletedFolds (ag_stats x) \<le> st_CompletedFolds (ag_stats (fst (run_ticks cfg us (x, y))))" for us x y
  proof (induction us arbitrary: x y)
    case (Cons u us)
    obtain f n s where u: "u = (f, n, s)" by (cases u)
    show ?case unfolding u run_ticks_Cons using completed_mono[of x cfg n s] Cons.IH order_trans by blast
  qed (simp add: run_ticks_def)
  have "st_CompletedFolds (ag_stats a') \<le> st_CompletedFolds (ag_stats (fst (run_ticks cfg (t # ticks) (a, Some d))))"
    unfolding t run_ticks_Cons l using grows by simp
  then have n: "st_CompletedFolds (ag_stats ?m) \<le> 2 ^ 61"
    using Cons.prems(6) take_batch_fields(7)[of ?m] by (simp add: ab)
  obtain d' where d': "PutBucketsAndHeartbeat False b now d = (True, d')" "clean_db d'" "same_content d' a'" "copied d' a'" "[] \<notin> scopes_of a'"
    using flush_copied[OF m(1) n Cons.prems(3) m(2) ab, of now] by blast
  have r: "run_ticks cfg (t # ticks) (a, Some d) = run_ticks cfg ticks (a', Some d')" by (simp add: t run_ticks_Cons l d'(1))
  show ?case using Cons.IH[of d' a'] Cons.prems(1,6) d' unfolding r by simp
qed

lemma foldl_updates:
  assumes "\<And>a sc kvs. map_of (F (g a (sc, kvs))) = (map_of (F a))(sc \<mapsto> conv kvs)"
  shows "distinct (map fst L) \<Longrightarrow> map_of (F (foldl g a L)) sc = (case map_of L sc of None \<Rightarrow> map_of (F a) sc | Some kvs \<Rightarrow> Some (conv kvs))"
proof (induction L arbitrary: a)
  case (Cons e L)
  obtain s kvs where e: "e = (s, kvs)" by (cases e)
  have "map_of L s = None" using Cons.prems by (simp add: e map_of_eq_None_iff)
  then show ?case using Cons.IH[of "g a e"] Cons.prems assms[of a s kvs] by (auto simp: e split: option.split)
qed simp

lemma decoded_records_lookup: "readable kvs \<Longrightarrow> map_of (decoded_records kvs) k = (case map_of kvs k of Some (Decodes r) \<Rightarrow> Some r | _ \<Rightarrow> None)"
proof (induction kvs)
  case (Cons e kvs)
  obtain s v where e: "e = (s, v)" by (cases e)
  have r: "readable kvs" using Cons.prems by (auto simp: readable_def)
  show ?case using Cons.IH[OF r] Cons.prems by (cases v) (auto simp: e decoded_records_def map_filter_simps readable_def)
qed (simp add: decoded_records_def map_filter_simps)

lemma filtered_lookup:
  assumes "readable kvs" "\<And>k v. (k, v) \<in> set kvs \<Longrightarrow> P k \<Longrightarrow> \<exists>r. v = Decodes (C r)" "\<And>r. pick (Decodes (C r)) = Some r" "\<And>k v r. pick v = Some r \<Longrightarrow> v = Decodes (C r)"
  shows "map_option C (map_of (List.map_filter (\<lambda>(k, v). case pick v of Some r \<Rightarrow> Some (k, r) | None \<Rightarrow> None) (filter (\<lambda>(k, _). P k) kvs)) k)
    = (if P k then (case map_of kvs k of Some (Decodes r) \<Rightarrow> Some r | _ \<Rightarrow> None) else None)"
  using assms(1,2)
proof (induction kvs)
  case (Cons e kvs)
  obtain s v where e: "e = (s, v)" by (cases e)
  have r: "readable kvs" using Cons.prems(1) by (auto simp: readable_def)
  note IH = Cons.IH[OF r Cons.prems(2)[OF list.set_intros(2)]]
  show ?case
  proof (cases "P s")
    case True
    then obtain x where "v = Decodes (C x)" using Cons.prems(2)[of s v] by (auto simp: e)
    then show ?thesis using IH Cons.prems True by (auto simp: e map_filter_simps assms(3))
  next
    case False
    then show ?thesis using IH Cons.prems by (auto simp: e map_filter_simps)
  qed
qed (simp add: map_filter_simps)

definition rehydrated_topology :: "(string \<times> topo_blob stored) list \<Rightarrow> topology" where
  "rehydrated_topology kvs =
     \<lparr>tp_edges = List.map_filter (\<lambda>(k, v). case v of Decodes (EdgeBlob r) \<Rightarrow> Some (k, r) | _ \<Rightarrow> None) (filter (\<lambda>(k, _). k \<noteq> [] \<and> hd k = CHR 0x01) kvs),
      tp_nodes = List.map_filter (\<lambda>(k, v). case v of Decodes (NodeBlob r) \<Rightarrow> Some (k, r) | _ \<Rightarrow> None) (filter (\<lambda>(k, _). k \<noteq> [] \<and> hd k = CHR 0x02) kvs)\<rparr>"

lemma rehydrated_lookup:
  assumes r: "readable kvs" and m: "\<And>k. (case map_of kvs k of Some (Decodes r) \<Rightarrow> Some r | _ \<Rightarrow> None) = topology_blobForKey t k"
  shows "topology_blobForKey (rehydrated_topology kvs) k = topology_blobForKey t k"
proof -
  have dec: "\<exists>b. v = Decodes b \<and> topology_blobForKey t s = Some b" if kv: "(s, v) \<in> set kvs" for s v
  proof -
    have "v \<noteq> Garbled" using kv r by (auto simp: readable_def)
    then obtain b where v: "v = Decodes b" by (metis stored.exhaust)
    have "map_of kvs s = Some v" using kv r by (simp add: readable_def)
    then show ?thesis using m[of s] v by simp
  qed
  have e: "\<exists>x. v = Decodes (EdgeBlob x)" if "(s, v) \<in> set kvs" "s \<noteq> [] \<and> hd s = CHR 0x01" for s v
    using dec[OF that(1)] that(2) by (auto simp: topology_blobForKey_def split: if_splits list.splits)
  have n: "\<exists>x. v = Decodes (NodeBlob x)" if "(s, v) \<in> set kvs" "s \<noteq> [] \<and> hd s = CHR 0x02" for s v
    using dec[OF that(1)] that(2) by (auto simp: topology_blobForKey_def split: if_splits list.splits)
  let ?pe = "\<lambda>v. case v of Decodes (EdgeBlob r) \<Rightarrow> Some r | _ \<Rightarrow> None" and ?pn = "\<lambda>v. case v of Decodes (NodeBlob r) \<Rightarrow> Some r | _ \<Rightarrow> None"
  have ce: "(\<lambda>(k, v). case v of Decodes (EdgeBlob r) \<Rightarrow> Some (k, r) | _ \<Rightarrow> None) = (\<lambda>(k, v). case ?pe v of Some r \<Rightarrow> Some (k, r) | None \<Rightarrow> None)"
    "(\<lambda>(k, v). case v of Decodes (NodeBlob r) \<Rightarrow> Some (k, r) | _ \<Rightarrow> None) = (\<lambda>(k, v). case ?pn v of Some r \<Rightarrow> Some (k, r) | None \<Rightarrow> None)"
    by (auto simp: fun_eq_iff split: stored.split topo_blob.split)
  have le: "map_option EdgeBlob (map_of (tp_edges (rehydrated_topology kvs)) k) = (if k \<noteq> [] \<and> hd k = CHR 0x01 then topology_blobForKey t k else None)"
    unfolding rehydrated_topology_def topology.simps ce m[symmetric]
    by (rule filtered_lookup[OF r e]) (auto split: stored.splits topo_blob.splits)
  have ln: "map_option NodeBlob (map_of (tp_nodes (rehydrated_topology kvs)) k) = (if k \<noteq> [] \<and> hd k = CHR 0x02 then topology_blobForKey t k else None)"
    unfolding rehydrated_topology_def topology.simps ce m[symmetric]
    by (rule filtered_lookup[OF r n]) (auto split: stored.splits topo_blob.splits)
  show ?thesis using le ln by (cases k) (auto simp: topology_blobForKey_def)
qed

lemma rehydrated_stores:
  assumes cl: "clean_db d"
  fixes ex g cfg t sc
  defines "b \<equiv> Rehydrate cfg t (Some d) (observer_New ex g)"
  shows "get_or [] (ag_aggregates b) sc = decoded_records (scope_bucket (db_baseline d) sc)"
    "get_or newTopology (ag_topology b) sc = rehydrated_topology (scope_bucket (db_topology d) sc)"
    "get_or [] (ag_deviants b) sc = decoded_records (filter (\<lambda>(k, _). k \<noteq> []) (scope_bucket (db_deviants d) sc))"
proof -
  define a1 where "a1 = foldl (rehydrate_scope cfg (large_gap cfg d t)) (observer_New ex g) (db_baseline d)"
  define a2 where "a2 = a1\<lparr>ag_excluder := map_option (\<lambda>ms. foldl (malicious_Rehydrate d) ms (map fst (db_malicious d))) (ag_excluder a1)\<rparr>"
  define a3 where "a3 = foldl rehydrate_topology a2 (db_topology d)"
  have b: "b = foldl rehydrate_deviants a3 (db_deviants d)" by (simp add: b_def Rehydrate_def Let_def a1_def a2_def a3_def)
  have dist: "distinct (map fst (db_baseline d))" "distinct (map fst (db_topology d))" "distinct (map fst (db_deviants d))"
    using cl by (simp_all add: clean_db_def clean_def)
  have f: "ag_topology (rehydrate_scope cfg l a e) = ag_topology a" "ag_deviants (rehydrate_scope cfg l a e) = ag_deviants a"
    "ag_aggregates (rehydrate_topology a et) = ag_aggregates a" "ag_deviants (rehydrate_topology a et) = ag_deviants a"
    "ag_aggregates (rehydrate_deviants a ed) = ag_aggregates a" "ag_topology (rehydrate_deviants a ed) = ag_topology a" for a e et ed l
    by (simp_all add: rehydrate_scope_def rehydrate_topology_def rehydrate_deviants_def Let_def split: prod.split)
  have "map_of (ag_aggregates a1) sc = (case map_of (db_baseline d) sc of None \<Rightarrow> map_of (ag_aggregates (observer_New ex g)) sc | Some kvs \<Rightarrow> Some (decoded_records kvs))"
    unfolding a1_def by (rule foldl_updates[OF _ dist(1)]) (simp add: rehydrate_scope_def AList.update_conv')
  moreover have "ag_aggregates b = ag_aggregates a1" by (simp add: b a3_def a2_def foldl_frame[where f = ag_aggregates] f)
  ultimately show "get_or [] (ag_aggregates b) sc = decoded_records (scope_bucket (db_baseline d) sc)"
    by (simp add: get_or_def scope_bucket_def observer_New_def decoded_records_def map_filter_simps split: option.split)
  have "map_of (ag_topology a3) sc = (case map_of (db_topology d) sc of None \<Rightarrow> map_of (ag_topology a2) sc | Some kvs \<Rightarrow> Some (rehydrated_topology kvs))"
    unfolding a3_def by (rule foldl_updates[OF _ dist(2)]) (simp add: rehydrate_topology_def rehydrated_topology_def AList.update_conv' Let_def)
  moreover have "ag_topology b = ag_topology a3" by (simp add: b foldl_frame[where f = ag_topology] f)
  moreover have "ag_topology a2 = []" by (simp add: a2_def a1_def foldl_frame[where f = ag_topology] f) (simp add: observer_New_def)
  ultimately show "get_or newTopology (ag_topology b) sc = rehydrated_topology (scope_bucket (db_topology d) sc)"
    by (simp add: get_or_def scope_bucket_def newTopology_def rehydrated_topology_def map_filter_simps split: option.split)
  have "map_of (ag_deviants b) sc = (case map_of (db_deviants d) sc of None \<Rightarrow> map_of (ag_deviants a3) sc | Some kvs \<Rightarrow> Some (decoded_records (filter (\<lambda>(k, _). k \<noteq> []) kvs)))"
    unfolding b by (rule foldl_updates[OF _ dist(3)]) (simp add: rehydrate_deviants_def AList.update_conv' Let_def)
  moreover have "ag_deviants a3 = []" by (simp add: a3_def a2_def a1_def foldl_frame[where f = ag_deviants] f) (simp add: observer_New_def)
  ultimately show "get_or [] (ag_deviants b) sc = decoded_records (filter (\<lambda>(k, _). k \<noteq> []) (scope_bucket (db_deviants d) sc))"
    by (auto simp: get_or_def scope_bucket_def decoded_records_def map_filter_simps split: option.splits)
qed

text \<open>
  Property C13. A restart restores what was learned. Run a new process on an empty database, over any ticks whose writes
  succeed and up to 2^61 folds, and restart from the database it leaves: every bucket, every edge and node of the
  graph and every record of the log is back under its key, and nothing else is.
\<close>

theorem restart_restores_learning:
  assumes writes: "\<forall>t \<in> set ticks. \<not> fst t" and walks: "walks_ok (oc_walks cfg)" "enumeration (oc_walk_deviants cfg)"
    and scopes: "\<forall>f sc. oc_Resolve cfg f = Inr sc \<longrightarrow> sc \<noteq> []"
    and run: "run_ticks cfg ticks (observer_New ex g, Some \<lparr>db_baseline = [], db_topology = [], db_deviants = [], db_malicious = ml, db_lastSeen = hb\<rparr>) = (a, db)"
    and few: "st_CompletedFolds (ag_stats a) \<le> 2 ^ 61" and key: "k \<noteq> []"
  shows "bucket_mem (Rehydrate cfg' t db (observer_New ex' g')) sc k = bucket_mem a sc k \<and>
    topo_mem (Rehydrate cfg' t db (observer_New ex' g')) sc k = topo_mem a sc k \<and>
    deviant_mem (Rehydrate cfg' t db (observer_New ex' g')) sc k = deviant_mem a sc k"
proof -
  let ?d0 = "\<lparr>db_baseline = [], db_topology = [], db_deviants = [], db_malicious = ml, db_lastSeen = hb\<rparr>"
  have "clean_db ?d0" "[] \<notin> scopes_of (observer_New ex g)"
    by (simp_all add: clean_db_def clean_def scopes_of_def observer_New_def)
  moreover have "same_content ?d0 (observer_New ex g)"
    by (simp add: same_content_def on_disk_def scope_bucket_def bucket_mem_def topo_mem_def deviant_mem_def get_or_def observer_New_def newTopology_def
        topology_blobForKey_def split: list.split)
  ultimately obtain d where d: "db = Some d" "clean_db d" "same_content d a"
    using run_copied[OF writes walks scopes copied_start, of ml hb ex g] few run by auto
  let ?b = "Rehydrate cfg' t (Some d) (observer_New ex' g')"
  have r: "readable (scope_bucket (db_baseline d) sc)" "readable (scope_bucket (db_topology d) sc)" "readable (scope_bucket (db_deviants d) sc)"
    using d(2) clean_bucket unfolding clean_db_def by blast+
  note s = rehydrated_stores[OF d(2), of cfg' t ex' g' sc]
  have "bucket_mem ?b sc k = bucket_mem a sc k" using d(3) by (simp add: bucket_mem_def s decoded_records_lookup[OF r(1)] same_content_def on_disk_def)
  moreover have "topo_mem ?b sc k = topo_mem a sc k"
    using rehydrated_lookup[OF r(2), of "get_or newTopology (ag_topology a) sc" k] d(3) by (simp add: topo_mem_def s same_content_def on_disk_def)
  moreover have "deviant_mem ?b sc k = deviant_mem a sc k"
  proof -
    have "readable (filter (\<lambda>(k, _). k \<noteq> []) (scope_bucket (db_deviants d) sc))" using r(3) by (auto simp: readable_def distinct_map_filter)
    from decoded_records_lookup[OF this, of k] show ?thesis using d(3) key by (simp add: deviant_mem_def s map_of_filter_key same_content_def on_disk_def)
  qed
  ultimately show ?thesis by (simp add: d(1))
qed

lemma demo_first_fold:
  fixes a defines "a \<equiv> fst (foldLocked demo_config 3000000000 [(7, demo_flow)] (observer_New None demo_gates))"
  shows "bucket_mem a ''a'' ''now'' \<noteq> None" "st_CompletedFolds (ag_stats a) = 1"
proof -
  let ?s = "observer_New None demo_gates" and ?lf = "track demo_config 3000000000 ''a''"
  define b where "b = ?s\<lparr>ag_live := AList.update 7 ?lf (ag_live ?s)\<rparr>"
  have "fold_entry demo_config 3000000000 ?s (7, demo_flow) = complete_flow demo_config 3000000000 7 demo_flow ?lf b"
    unfolding b_def by (cases rule: fold_entry_cases[of 7 ?s demo_config 3000000000 demo_flow]) (simp_all add: observer_New_def demo_config_def)
  moreover have "bucket_part (settle c n (prune s x)) = bucket_part x" for c n s x
    by (simp add: settle_def Let_def foldl_frame[where f = bucket_part] reap_parts)
  ultimately have p: "ag_aggregates a = ag_aggregates (complete_flow demo_config 3000000000 7 demo_flow ?lf b)"
    "st_CompletedFolds (ag_stats a) = st_CompletedFolds (ag_stats (complete_flow demo_config 3000000000 7 demo_flow ?lf b))"
    by (simp_all add: a_def foldLocked_def fold_memory_settle take_batch_fields) (simp_all add: bucket_part_def)
  have x: "ag_excluder b = None" "ag_aggregates b = []" "st_CompletedFolds (ag_stats b) = 0" by (simp_all add: b_def observer_New_def zero_stats_def)
  note bs = fold_bucket_stores[of demo_config ?lf demo_flow b] and ts = fold_topology_stores[of demo_config ?lf demo_flow 3000000000 "fold_bucket demo_config ?lf demo_flow b"]
    and vs = captureDeviant_stores[of demo_config ?lf 7 demo_flow 3000000000 "fold_topology demo_config ?lf demo_flow 3000000000 (fold_bucket demo_config ?lf demo_flow b)"]
  have ca: "ag_aggregates a = ag_aggregates (fold_bucket demo_config ?lf demo_flow b)" "st_CompletedFolds (ag_stats a) = 1"
    using p by (simp_all add: complete_flow_def demo_closed foldCompleted_def x count_fold_def bs(1-7) ts(1-6) vs(1-6))
  have k: "lf_scope ?lf = ''a''" "lf_bucket ?lf = ''now''" by (simp_all add: track_def demo_config_def)
  show "bucket_mem a ''a'' ''now'' \<noteq> None" by (simp add: bucket_mem_def ca(1)) (simp add: fold_bucket_def get_or_def x k Let_def AList.update_conv')
  show "st_CompletedFolds (ag_stats a) = 1" by (rule ca(2))
qed

lemma restart_restores_learning_witness:
  "\<exists>a db. run_ticks demo_config [(False, 3000000000, [(7, demo_flow)])] (observer_New None demo_gates, Some demo_db) = (a, db) \<and>
     bucket_mem a ''a'' ''now'' \<noteq> None \<and> bucket_mem (Rehydrate demo_config 9000000000 db (observer_New None demo_gates)) ''a'' ''now'' = bucket_mem a ''a'' ''now''"
proof -
  obtain a db where r: "run_ticks demo_config [(False, 3000000000, [(7, demo_flow)])] (observer_New None demo_gates, Some demo_db) = (a, db)" by fastforce
  then have a: "a = fst (foldLocked demo_config 3000000000 [(7, demo_flow)] (observer_New None demo_gates))"
    unfolding run_ticks_Cons by (simp add: run_ticks_def)
  have w: "walks_ok (oc_walks demo_config)" "enumeration (oc_walk_deviants demo_config)" "\<forall>f sc. oc_Resolve demo_config f = Inr sc \<longrightarrow> sc \<noteq> []"
    by (auto simp: demo_config_def walks_ok_def enumeration_rev)
  have n: "st_CompletedFolds (ag_stats a) \<le> 2 ^ 61" by (simp add: a demo_first_fold)
  show ?thesis
    using restart_restores_learning[OF _ w r[unfolded demo_db_def] n, of "''now''" demo_config 9000000000 None demo_gates "''a''"] r demo_first_fold(1)
    by (auto simp: a[symmetric])
qed

end
