(* ===== verification/Spec2Isabelle.thy ===== *)
theory Spec2Isabelle
  imports Admin Capturing EnvoyAdapter Restart
begin

text \<open>
  A verification library for CanarySting, a deception-based response system for east-west traffic.
  Decoys (canaries) are placed where no legitimate flow goes; a touch of one is a signal event. The
  engine resolves the event to a scope, scores the flow, decides a tier, and emits a verdict. Tiers 2
  and 3 draw a response: attrition at the proxy (slow, useless, harmless content) or containment in
  the kernel (throttling or dropping the socket's egress). An operator can halt all enforcement, and
  every decision and operator action goes into a tamper-evident log.

  \<^bold>\<open>The theories and the code.\<close> Paths are under \<^verbatim>\<open>src/\<close>.
  \<^item> \<open>Prelude\<close>: Go's basic types, association lists standing for Go maps that are ranged over (with the
    unspecified order of the range as an argument), results, 64-bit wrap-around, FNV-1a. \<open>GoStrings\<close> and
    \<open>Netip\<close>: what the components use of Go's string and address packages.
  \<^item> \<open>Float64\<close>: binary64 arithmetic as exact rationals with round-to-nearest-even, infinities and NaN.
  \<^item> \<open>Contract\<close>: the structs and enums of \<^verbatim>\<open>internal/contract\<close>, one record or type each.
  \<^item> \<open>Scope\<close>, \<open>Calibration\<close>, \<open>Baseline\<close>, \<open>Scoring\<close>, \<open>Tiers\<close>, \<open>Engine\<close>: the packages of the same names
    under \<^verbatim>\<open>internal/engine\<close>, one definition per function (\<open>Resolve\<close>, \<open>Ingest\<close>, \<open>Weight\<close>, \<open>Multiplier\<close>,
    \<open>Score\<close>, \<open>reap\<close>, \<open>Decide\<close>, \<open>Submit\<close>), with the state of a store passed explicitly. \<open>Engine\<close> also
    holds the tier configuration that \<^verbatim>\<open>internal/boot\<close> chooses.
  \<^item> \<open>Decoy\<close>: the deterministic builders and the credential scan of \<^verbatim>\<open>internal/harmless\<close>.
  \<^item> \<open>Governor\<close>, \<open>Generators\<close>, \<open>Attrition\<close>: \<^verbatim>\<open>internal/sting/attrition\<close>. The governor's atomic counters are
    also a step relation \<open>gov_step\<close> in which the flows interleave between the load and the
    compare-and-swap; the six generators share the locale \<open>bounded_generator\<close>; a stream is opened,
    pulled, observed and closed.
  \<^item> \<open>Containment\<close>: \<^verbatim>\<open>internal/sting/containment\<close>, the loaders of \<^verbatim>\<open>bpf/\<close> and the two kernel programs of
    \<^verbatim>\<open>bpf/enforce/enforce.bpf.c\<close>, over the BPF map as a parameter with the laws of the locale \<open>ebpf_map\<close>.
  \<^item> \<open>Enforcement\<close>: the verdict seam of \<^verbatim>\<open>cmd/envoy-adapter/main.go\<close> with its per-flow sequencer.
  \<^item> \<open>AuditChain\<close>: \<^verbatim>\<open>internal/intelligence/audit\<close> and the audit part of \<^verbatim>\<open>internal/engine/persist\<close>. Digests, the
    JSON preimage and the gob blob are parameters.
  \<^item> \<open>KillSwitch\<close>, \<open>Admin\<close>: \<^verbatim>\<open>internal/sting/killswitch\<close>, the engine layer and the audited toggles of
    \<^verbatim>\<open>internal/boot\<close>, and the token-gated handlers of \<^verbatim>\<open>cmd/staged-range/killswitch_admin.go\<close>.
  \<^item> \<open>Egress\<close>, \<open>Aggregator\<close>: the egress filter, the cross-scope ledger and the inbound mirror of
    \<^verbatim>\<open>internal/intelligence/network\<close>; the spools of \<^verbatim>\<open>transport\<close> and the cycle of \<^verbatim>\<open>cmd/aggregator\<close>.
  \<^item> \<open>Events\<close>, \<open>Profiles\<close>, \<open>Capturing\<close>: the event and touch stores, the behavioural profiles with the two
    matchers that sharpen the multiplier, and the capturing layer of \<^verbatim>\<open>internal/boot/boot.go\<close> that writes to all of them.
  \<^item> \<open>Canaries\<close>: \<^verbatim>\<open>internal/canary\<close>, the catalog, the seeder, the registry and the signal builder.
  \<^item> \<open>Hold\<close>, \<open>EnvoyAdapter\<close>: \<^verbatim>\<open>adapters/envoy\<close>, from a request's headers to the engine and back to the response.
  \<^item> \<open>Quantile\<close>, \<open>Observation\<close>, \<open>Topology\<close>, \<open>Observe\<close>: \<^verbatim>\<open>internal/engine/observebaseline\<close>, the streaming
    quantiles and the time buckets with their features, the capped graph and log (locale \<open>keyed_log\<close>), the
    aggregator with its gates and its trees in the database. \<open>Learning\<close> and \<open>Restart\<close> hold its properties.
  \<^item> This theory: the engine, the kill switch and the kernel seam composed.

  \<^bold>\<open>What the lemmas show.\<close> \<open>Scope\<close> to \<open>Engine\<close>: the scope on the wire has no influence and scopes are
  isolated; the calibration store and the scorer, for all their eviction, are functions of the history;
  weights and multipliers stay in their bounds in binary64; in cold start the tier is a table of
  distinct touches; an engine that started fails only on an unresolved scope. \<open>Decoy\<close> to \<open>Attrition\<close>:
  what is emitted is in documentation namespaces; under every interleaving the global ceiling holds
  and reservations are conserved; one flow stays within its byte, time and depth budget and every
  stream ends. \<open>Containment\<close> to here: only the named socket is ever contained, a throttled flow is
  bounded by its bucket and by what a late update refunds, the newest verdict wins in whatever order
  verdicts are delivered one after another, the kill switch
  only ever disarms, only an operator's token changes anything, and a log that verifies against its
  head is the log that was written. \<open>Egress\<close> to \<open>Capturing\<close>: what leaves the deployment is coarse, counted
  by scope and confirmed three times, and a jail is learned once, in its own scope. \<open>Canaries\<close> to
  \<open>EnvoyAdapter\<close>: only an attributable touch of a harmless placement becomes a signal, every request is
  answered, and only a verdict or the fail policy denies one. \<open>Quantile\<close> to \<open>Restart\<close>: the features stay
  numbers in range for every stream, each flow is counted once, a confirmed-malicious source teaches
  nothing, a gate opens on fresh evidence only, and the database is a copy of memory. Several theorems state where the code falls short of its
  documentation: NaN multipliers, a race in the verdict seam, a refunded bucket, a wrapped halt duration, a kill reported
  as an exhausted ceiling, decoys that spell a live-shaped key, a raw count that crosses, an aborted
  read that counts a flow twice.

  \<^bold>\<open>Modelling decisions.\<close> A method that holds a mutex is one step; where the code relies on atomics or
  releases the lock in between, the interleaving is modelled (\<open>gov_step\<close>, \<open>run_schedule\<close>, \<open>throttle_step\<close>). A
  run of a kernel program is one step: that two CPUs may update one socket's bucket at once, which
  \<^verbatim>\<open>enforce.bpf.c\<close> accepts, is not modelled. Times are
  integers (nanoseconds from Go's zero time); expressions of type int64 that may overflow are wrapped
  explicitly, kernel and hash arithmetic is on words, other counters are unbounded. Floating point is
  without fused multiply-add (as on amd64) and does not tell the two zeros apart. Loops are structural
  recursion or have a measure; the pump of \<open>Hold\<close>, which waits on a stream, is a partial function whose
  termination is a lemma; no definition uses fuel. Bounds that appear in statements (half an hour
  of ordinals, 65536 map entries, 63 bits of nanoseconds) are constants of the code.

  \<^bold>\<open>Not modelled.\<close> Of the components above: gob and JSON blobs are their records or garbled, the logarithm of
  the host is a parameter with its documented range, clocks and random sources are arguments, and the
  poll of the kernel's map yields a snapshot, short when the read was aborted. The dashboard, the trace viewer, the test attacker, the SIEM emitter,
  the LLM clients, the workload identities, the gRPC conversions, the Kubernetes controller, flag parsing
  and process set-up are presentation, I/O or glue; the NGINX adapter is an empty stub.
\<close>

section \<open>The deployment end to end\<close>

text \<open>
  Engine, kill switch and kernel seam in one run: canary touches reach the engine at a wall-clock time
  \<open>now\<close>, the emitted verdict is delivered to the adapter with the event's timestamp (\<^verbatim>\<open>UnixNano\<close>) as its
  ordinal, and operators toggle the switch in between.
\<close>

datatype deployment_event = Touch time SignalEvent | Toggle toggle

record ('s, 'm) deployment =
  d_engine :: 's
  d_switch :: KillSwitch
  d_marks :: verdictSequencer
  d_map :: 'm

definition UnixNano :: "time \<Rightarrow> int" where
  "UnixNano t = wrap64 (t - unix_epoch)"

definition deliver_touch :: "'s Service \<Rightarrow> 'm enforcer \<Rightarrow> ('s, 'm) deployment \<Rightarrow> time \<Rightarrow> SignalEvent \<Rightarrow> Verdict option \<times> ('s, 'm) deployment" where
  "deliver_touch sv enf d now ev =
     (case killSwitchEngine_Submit (Submit sv) (Some (d_switch d)) now (d_engine d) ev of
        (Inl _, s') \<Rightarrow> (None, d\<lparr>d_engine := s'\<rparr>)
      | (Inr v, s') \<Rightarrow>
         (let (_, marks, m) = enforceVerdictOrdered enf (d_marks d) (d_map d) v (UnixNano (ev_Timestamp ev))
          in (Some v, d\<lparr>d_engine := s', d_marks := marks, d_map := m\<rparr>)))"

text \<open>The run returns, in order, the verdicts emitted with the times they were emitted at.\<close>

fun deploy :: "'s Service \<Rightarrow> 'm enforcer \<Rightarrow> ('s, 'm) deployment \<Rightarrow> deployment_event list \<Rightarrow> (time \<times> Verdict) list \<times> ('s, 'm) deployment" where
  "deploy sv enf d [] = ([], d)"
| "deploy sv enf d (Toggle t # es) = deploy sv enf (d\<lparr>d_switch := toggle_step (d_switch d) t\<rparr>) es"
| "deploy sv enf d (Touch now ev # es) =
     (let (v, d') = deliver_touch sv enf d now ev; (vs, d'') = deploy sv enf d' es
      in ((case v of None \<Rightarrow> vs | Some v \<Rightarrow> (now, v) # vs), d''))"

lemma Submit_flow: "fst (Submit sv s ev) = Inr v \<Longrightarrow> v_Flow v = ev_Flow ev"
  by (auto simp: Submit_def split: sum.splits prod.splits option.splits)

lemma killSwitch_flow: "fst (killSwitchEngine_Submit (Submit sv) ks now s ev) = Inr v \<Longrightarrow> v_Flow v = ev_Flow ev"
  using Submit_flow[of sv s ev] by (auto simp: killSwitchEngine_Submit_def split: prod.splits sum.splits if_splits)

context ebpf_map
begin

lemma enforce_contains:
  assumes "enforceVerdict (kernelEnforcer (kernel_container M rate burst)) m v = (r, m')" "contained M m' k = Some x"
    and "contained M m k \<noteq> Some x"
  shows "k \<noteq> 0 \<and> SocketCookie (v_Flow v) = k \<and> v_Mode v = ModeAsync \<and> TierContain \<le> v_Tier v"
proof -
  have k: "SocketCookie (v_Flow v) = k" using enforce_other[OF assms(1), of k x] assms(2,3) by auto
  have a: "v_Mode v = ModeAsync \<and> k \<noteq> 0" using assms k by (auto simp: enforceVerdict_def split: if_splits)
  have "TierContain \<le> v_Tier v"
  proof (rule ccontr)
    assume "\<not> TierContain \<le> v_Tier v"
    then obtain e where rel: "containment_Release (kernel_container M rate burst) m v = (e, m')"
      using assms(1) a k by (auto simp: enforceVerdict_def ActionForTier_def kernelEnforcer_def apfst_def map_prod_def split: prod.splits)
    show False
    proof (cases e)
      case None
      then show False using container.release_same[of rate burst m v m'] rel a k assms(2) by simp
    next
      case (Some err)
      then show False using container.release_fails[of rate burst m v err m' k] rel assms(2,3) by simp
    qed
  qed
  with a k show ?thesis by simp
qed

lemma deliver_contains:
  assumes "deliver_touch sv (kernelEnforcer (kernel_container M rate burst)) d now ev = (ov, d')" "contained M (d_map d') k = Some x"
    and "contained M (d_map d) k \<noteq> Some x"
  shows "\<exists>v. ov = Some v \<and> k \<noteq> 0 \<and> SocketCookie (v_Flow v) = k \<and> v_Flow v = ev_Flow ev \<and> v_Mode v = ModeAsync \<and>
    TierContain \<le> v_Tier v \<and> \<not> activeLocked (d_switch d) now"
proof -
  let ?sub = "killSwitchEngine_Submit (Submit sv) (Some (d_switch d)) now (d_engine d) ev"
  obtain v s' where sub: "?sub = (Inr v, s')"
    using assms by (cases ?sub; cases "fst ?sub") (auto simp: deliver_touch_def)
  obtain r marks m where e: "enforceVerdictOrdered (kernelEnforcer (kernel_container M rate burst)) (d_marks d) (d_map d) v (UnixNano (ev_Timestamp ev)) = (r, marks, m)"
    using prod_cases3 by blast
  have m: "ov = Some v" "d_map d' = m" using assms(1) sub e by (auto simp: deliver_touch_def)
  have "m \<noteq> d_map d" using m assms(2,3) by auto
  then obtain r' where "enforceVerdict (kernelEnforcer (kernel_container M rate burst)) (d_map d) v = (r', m)"
    using e by (auto simp: enforceVerdictOrdered_def Let_def split: prod.splits bool.splits)
  from enforce_contains[OF this] m assms(2,3)
  have c: "k \<noteq> 0" "SocketCookie (v_Flow v) = k" "v_Mode v = ModeAsync" "TierContain \<le> v_Tier v" by auto
  moreover have "v_Flow v = ev_Flow ev" using killSwitch_flow[of sv "Some (d_switch d)" now "d_engine d" ev v] sub by simp
  moreover have "\<not> activeLocked (d_switch d) now"
    using sub c(4) by (auto simp: killSwitchEngine_Submit_def Active_def split: prod.splits sum.splits if_splits)
  ultimately show ?thesis using m(1) by blast
qed

end

text \<open>
  Property C1. No bystander is contained, end to end. Run the engine, the kill switch and the kernel
  seam over any sequence of canary touches and toggles, starting from a map that contains no
  containment for a cookie. If that cookie is contained at the end, then it is not zero, one of the
  touches came from that very socket, and the verdict emitted for the flow was an async one of tier
  Contain or Jail: no other flow's touches, no toggle and no eviction can contain it.
\<close>

theorem no_bystander_contained:
  assumes "ebpf_map km" "contained km (d_map d) k = None"
    and "deploy sv (kernelEnforcer (kernel_container km rate burst)) d es = (vs, d')" "contained km (d_map d') k = Some x"
  shows "k \<noteq> 0 \<and> (\<exists>now ev v. Touch now ev \<in> set es \<and> SocketCookie (ev_Flow ev) = k \<and>
    (now, v) \<in> set vs \<and> v_Flow v = ev_Flow ev \<and> v_Mode v = ModeAsync \<and> TierContain \<le> v_Tier v)"
proof -
  have "contained km (d_map d) k \<noteq> Some x" using assms(2) by simp
  then show ?thesis using assms(3,4)
  proof (induction es arbitrary: d vs)
    case (Cons e es)
    show ?case
    proof (cases e)
      case (Touch now ev)
      obtain ov d1 where 1: "deliver_touch sv (kernelEnforcer (kernel_container km rate burst)) d now ev = (ov, d1)" by fastforce
      obtain vs1 where 2: "deploy sv (kernelEnforcer (kernel_container km rate burst)) d1 es = (vs1, d')"
          "vs = (case ov of None \<Rightarrow> vs1 | Some v \<Rightarrow> (now, v) # vs1)"
        using Cons.prems(2) Touch 1 by (auto split: prod.splits)
      show ?thesis
      proof (cases "contained km (d_map d1) k = Some x")
        case True
        from ebpf_map.deliver_contains[OF assms(1) 1 True Cons.prems(1)] 2(2) Touch show ?thesis by fastforce
      next
        case False
        from Cons.IH[OF this 2(1) Cons.prems(3)] 2(2) Touch show ?thesis by (fastforce split: option.splits)
      qed
    next
      case (Toggle t)
      then show ?thesis using Cons.IH[of "d\<lparr>d_switch := toggle_step (d_switch d) t\<rparr>" vs] Cons.prems by fastforce
    qed
  qed simp
qed

text \<open>A service that jails every flow it can place, and one touch of the socket 7.\<close>

definition demo_jailer :: "unit Service" where
  "demo_jailer = \<lparr>sv_Resolve = Resolve demo_scopes, sv_Score = (\<lambda>s _ _. (Inr (lit 9), s)),
     sv_Decide = (\<lambda>_ _ _. ((TierJail, ModeAsync), None)), sv_Tiers = tiers_DefaultConfig, sv_Calibration = None, sv_TierDepth = None\<rparr>"

definition demo_deployment :: "(unit, lru) deployment" where
  "demo_deployment = \<lparr>d_engine = (), d_switch = killswitch_New, d_marks = [], d_map = []\<rparr>"

lemma demo_deploy:
  "deploy demo_jailer demo_enforcer demo_deployment [Touch 0 (touch_event 7 ''fake_secret'' unix_epoch)] =
   ([(0, \<lparr>v_Flow = cookie_flow 7, v_Scope = ''zone-a'', v_Tier = TierJail, v_Mode = ModeAsync, v_Score = lit 9, v_Calibrated = False\<rparr>)],
    demo_deployment\<lparr>d_marks := [(7, 0)], d_map := [(7, zero_val\<lparr>vv_Action := ActionJail\<rparr>)]\<rparr>)"
  by (simp add: deliver_touch_def killSwitchEngine_Submit_def Submit_def demo_jailer_def demo_deployment_def Resolve_def demo_scopes_def
      tier_input_def Active_def activeLocked_def killswitch_New_def enforce_eval UnixNano_def wrap64_def zero_val_def)

theorem no_bystander_contained_witness:
  "\<exists>now ev. Touch now ev \<in> set [Touch 0 (touch_event 7 ''fake_secret'' unix_epoch)] \<and> SocketCookie (ev_Flow ev) = 7"
proof -
  have "contained verdict_map (d_map demo_deployment) 7 = None" by (simp add: demo_deployment_def contained_def lru_Map_def)
  moreover have "contained verdict_map (d_map (demo_deployment\<lparr>d_marks := [(7, 0)], d_map := [(7, zero_val\<lparr>vv_Action := ActionJail\<rparr>)]\<rparr>)) 7 = Some ActionJail"
    by (simp add: contained_def lru_Map_def)
  ultimately show ?thesis using no_bystander_contained[OF lru.ebpf_map_axioms _ demo_deploy] by blast
qed

end
